(* ===== verification/Wolf_Prelude.thy ===== *)
theory Wolf_Prelude
  imports Main "HOL-Library.Char_ord" "HOL-Library.List_Lexorder" "HOL-Library.Product_Lexorder"
begin

text \<open>
  Shared vocabulary of the development: bytes and byte buffers, the reading idioms the Rust
  sources use on slices (\<open>get\<close>, \<open>starts_with\<close>, \<open>&src[lo..hi]\<close>, "advance while"), the
  \<open>as u32\<close> cast, the standard library's \<open>slice::binary_search_by\<close>, and the locale of
  guarded loops whose invariants the components prove once.

  A Rust \<open>u8\<close> is a HOL \<open>char\<close> (exactly 256 values; \<open>byte_val\<close> is its number), so byte-string
  literals read as in the sources. Positions are \<open>nat\<close>; where a width matters (\<open>as u32\<close>) the
  reduction is written out.
\<close>

named_theorems wolf_simps \<open>unfolding rules of the shared slice idioms\<close>
named_theorems wolf_bounds \<open>bounds on positions returned by the shared scanners\<close>

type_synonym byte = char
type_synonym bytes = "byte list"

abbreviation byte_val :: "byte \<Rightarrow> nat" where
  "byte_val b \<equiv> of_char b"

section \<open>Slices\<close>

definition byte_at :: "'a list \<Rightarrow> nat \<Rightarrow> 'a option" where
  "byte_at xs i = (if i < length xs then Some (xs ! i) else None)"

definition slice :: "nat \<Rightarrow> nat \<Rightarrow> 'a list \<Rightarrow> 'a list" where
  "slice lo hi xs = take (hi - lo) (drop lo xs)"

definition starts_with_at :: "'a list \<Rightarrow> nat \<Rightarrow> 'a list \<Rightarrow> bool" where
  "starts_with_at xs at needle \<longleftrightarrow> take (length needle) (drop at xs) = needle"

text \<open>
  The loop \<open>while src.get(i).is_some_and(P) { i += 1 }\<close>: the first position from \<open>i\<close> on that
  is past the end or fails \<open>P\<close>.
\<close>

definition skip_while :: "('a \<Rightarrow> bool) \<Rightarrow> 'a list \<Rightarrow> nat \<Rightarrow> nat" where
  "skip_while P xs i = i + length (takeWhile P (drop i xs))"

lemma byte_at_Some [wolf_simps]: "byte_at xs i = Some b \<longleftrightarrow> i < length xs \<and> b = xs ! i"
  by (auto simp: byte_at_def)

lemma byte_at_None [wolf_simps]: "byte_at xs i = None \<longleftrightarrow> length xs \<le> i"
  by (auto simp: byte_at_def)

lemma length_slice: "length (slice lo hi xs) = min (hi - lo) (length xs - lo)"
  by (simp add: slice_def)

lemma slice_same [simp]: "slice i i xs = []"
  by (simp add: slice_def)

lemma slice_append: "a \<le> b \<Longrightarrow> b \<le> c \<Longrightarrow> slice a b xs @ slice b c xs = slice a c xs"
proof -
  assume "a \<le> b" "b \<le> c"
  then obtain k l where "b = a + k" "c = a + k + l"
    by (metis le_Suc_ex)
  then show ?thesis
    by (simp add: slice_def take_add add.commute)
qed

lemma slice_all: "length xs \<le> n \<Longrightarrow> slice 0 n xs = xs"
  by (simp add: slice_def)

lemma skip_while_ge [wolf_bounds]: "i \<le> skip_while P xs i"
  by (simp add: skip_while_def)

lemma skip_while_le [wolf_bounds]: "i \<le> length xs \<Longrightarrow> skip_while P xs i \<le> length xs"
proof -
  assume "i \<le> length xs"
  moreover have "length (takeWhile P (drop i xs)) \<le> length xs - i"
    by (metis length_drop length_takeWhile_le)
  ultimately show ?thesis by (simp add: skip_while_def)
qed

lemma skip_while_step: "i < length xs \<Longrightarrow> P (xs ! i) \<Longrightarrow> skip_while P xs i = skip_while P xs (Suc i)"
  by (simp add: skip_while_def Cons_nth_drop_Suc [symmetric])

lemma skip_while_stop: "i < length xs \<Longrightarrow> \<not> P (xs ! i) \<Longrightarrow> skip_while P xs i = i"
  by (simp add: skip_while_def Cons_nth_drop_Suc [symmetric])

lemma skip_while_gt: "i < length xs \<Longrightarrow> P (xs ! i) \<Longrightarrow> i < skip_while P xs i"
  using skip_while_step [of i xs P] skip_while_ge [of "Suc i" P xs] by simp

lemma skip_while_inside:
  assumes "i \<le> j" "j < skip_while P xs i" shows "j < length xs \<and> P (xs ! j)"
proof -
  let ?t = "takeWhile P (drop i xs)"
  from assms have j: "j - i < length ?t" by (auto simp: skip_while_def)
  then have "P (?t ! (j - i))" by (meson nth_mem set_takeWhileD)
  moreover have "?t ! (j - i) = drop i xs ! (j - i)" using j by (rule takeWhile_nth)
  moreover have "j - i < length (drop i xs)"
    using j length_takeWhile_le [of P "drop i xs"] by linarith
  ultimately show ?thesis using assms by auto
qed

lemma skip_while_end: "skip_while P xs i < length xs \<Longrightarrow> \<not> P (xs ! skip_while P xs i)"
proof -
  assume "skip_while P xs i < length xs"
  then have "length (takeWhile P (drop i xs)) < length (drop i xs)"
    by (simp add: skip_while_def)
  from nth_length_takeWhile [OF this] show ?thesis
    using \<open>skip_while P xs i < length xs\<close> by (simp add: skip_while_def)
qed

section \<open>The u32 cast\<close>

definition as_u32 :: "nat \<Rightarrow> nat" where
  "as_u32 n = n mod 2 ^ 32"

abbreviation u32_max :: nat where
  "u32_max \<equiv> 4294967295"

lemma as_u32_id [simp]: "n \<le> u32_max \<Longrightarrow> as_u32 n = n"
  by (simp add: as_u32_def)

lemma as_u32_mono_le: "as_u32 n \<le> n"
  by (simp add: as_u32_def)

section \<open>Decimal numbers\<close>

text \<open>
  \<open>str::parse::<uN>()\<close> of the standard library: an optional \<open>+\<close>, then one or more decimal digits,
  the value at most the type's maximum; and \<open>Display\<close> for unsigned integers.
\<close>

definition is_digit :: "byte \<Rightarrow> bool" where
  "is_digit b \<longleftrightarrow> 48 \<le> byte_val b \<and> byte_val b \<le> 57"

definition digits_val :: "bytes \<Rightarrow> nat" where
  "digits_val ds = foldl (\<lambda>v d. 10 * v + (byte_val d - 48)) 0 ds"

definition parse_uint :: "nat \<Rightarrow> bytes \<Rightarrow> nat option" where
  "parse_uint mx s =
     (let ds = (case s of [] \<Rightarrow> [] | c # cs \<Rightarrow> if c = CHR ''+'' then cs else s)
      in if ds = [] \<or> \<not> list_all is_digit ds then None
         else if digits_val ds \<le> mx then Some (digits_val ds) else None)"

fun nat_str :: "nat \<Rightarrow> bytes" where
  "nat_str n = (if n < 10 then [char_of (48 + n)] else nat_str (n div 10) @ [char_of (48 + n mod 10)])"

declare nat_str.simps [simp del]

lemma digits_val_snoc: "digits_val (ds @ [d]) = 10 * digits_val ds + (byte_val d - 48)"
  by (simp add: digits_val_def)

lemma byte_val_digit [simp]: "n < 10 \<Longrightarrow> byte_val (char_of (48 + n)) = 48 + n"
  by (simp add: take_bit_nat_def)

lemma nat_str_digits: "list_all is_digit (nat_str n) \<and> nat_str n \<noteq> [] \<and> digits_val (nat_str n) = n"
proof (induction n rule: nat_str.induct)
  case (1 n)
  show ?case
  proof (cases "n < 10")
    case True
    then show ?thesis by (simp add: nat_str.simps [of n] is_digit_def digits_val_def)
  next
    case False
    then have "byte_val (char_of (48 + n mod 10)) = 48 + n mod 10" by simp
    then show ?thesis
      using False 1 by (simp add: nat_str.simps [of n] is_digit_def digits_val_snoc)
  qed
qed

lemma parse_uint_nat_str: "n \<le> mx \<Longrightarrow> parse_uint mx (nat_str n) = Some n"
proof -
  assume n: "n \<le> mx"
  obtain c cs where c: "nat_str n = c # cs" using nat_str_digits [of n] by (cases "nat_str n") auto
  then have "is_digit c" using nat_str_digits [of n] by auto
  then have "c \<noteq> CHR ''+''" by (auto simp: is_digit_def)
  then show ?thesis using nat_str_digits [of n] n by (simp add: parse_uint_def c Let_def)
qed

lemma parse_uint_le: "parse_uint mx s = Some n \<Longrightarrow> n \<le> mx"
  by (auto simp: parse_uint_def Let_def split: if_splits)

section \<open>Binary search\<close>

text \<open>
  \<open>slice::binary_search_by\<close> of the Rust standard library, as the keyword table and the line
  index use it: \<open>f i\<close> is the ordering of element \<open>i\<close> against the target, \<open>Inr i\<close> is \<open>Ok(i)\<close>
  and \<open>Inl i\<close> is \<open>Err(i)\<close>, the insertion point.
\<close>

datatype rust_ordering = OLess | OEqual | OGreater

definition cmp_of :: "'a::linorder \<Rightarrow> 'a \<Rightarrow> rust_ordering" where
  "cmp_of x y = (if x < y then OLess else if x = y then OEqual else OGreater)"

function bsearch_base :: "(nat \<Rightarrow> rust_ordering) \<Rightarrow> nat \<Rightarrow> nat \<Rightarrow> nat" where
  "bsearch_base f base sz =
     (if sz \<le> 1 then base
      else let half = sz div 2; mid = base + half
           in bsearch_base f (if f mid = OGreater then base else mid) (sz - half))"
  by pat_completeness auto
termination
  by (relation "measure (\<lambda>(f, base, sz). sz)") auto

declare bsearch_base.simps [simp del]

definition binary_search_by :: "(nat \<Rightarrow> rust_ordering) \<Rightarrow> nat \<Rightarrow> nat + nat" where
  "binary_search_by f n =
     (if n = 0 then Inl 0
      else let base = bsearch_base f 0 n
           in case f base of
                OEqual \<Rightarrow> Inr base
              | OLess \<Rightarrow> Inl (base + 1)
              | OGreater \<Rightarrow> Inl base)"

definition sorted_cmp :: "(nat \<Rightarrow> rust_ordering) \<Rightarrow> nat \<Rightarrow> bool" where
  "sorted_cmp f n \<longleftrightarrow>
     (\<forall>i j. i < j \<and> j < n \<longrightarrow> (f i = OGreater \<longrightarrow> f j = OGreater) \<and> (f j = OLess \<longrightarrow> f i = OLess))"

lemma cmp_of_simps [simp]:
  "cmp_of x y = OLess \<longleftrightarrow> x < y" "cmp_of x y = OEqual \<longleftrightarrow> x = y" "cmp_of x y = OGreater \<longleftrightarrow> y < x"
  by (auto simp: cmp_of_def)

lemma sorted_cmp_table: "sorted_wrt (<) xs \<Longrightarrow> sorted_cmp (\<lambda>i. cmp_of (xs ! i) x) (length xs)"
  unfolding sorted_cmp_def sorted_wrt_iff_nth_less
  by (simp, meson order.strict_trans)

lemma sorted_cmp_greater:
  assumes "sorted_cmp f n" "f i = OGreater" "i \<le> j" "j < n" shows "f j = OGreater"
  using assms by (cases "i = j") (auto simp: sorted_cmp_def dest: le_neq_implies_less)

lemma sorted_cmp_less:
  assumes "sorted_cmp f n" "f j = OLess" "i \<le> j" "j < n" shows "f i = OLess"
  using assms by (cases "i = j") (auto simp: sorted_cmp_def dest: le_neq_implies_less)

lemma bsearch_base_bounds: "0 < sz \<Longrightarrow> base \<le> bsearch_base f base sz \<and> bsearch_base f base sz < base + sz"
proof (induction f base sz rule: bsearch_base.induct)
  case (1 f base sz)
  show ?case
  proof (cases "sz \<le> 1")
    case True
    with 1 show ?thesis by (simp add: bsearch_base.simps [of f base sz])
  next
    case False
    then have half: "0 < sz - sz div 2" "sz div 2 \<le> sz" by auto
    define b where "b = (if f (base + sz div 2) = OGreater then base else base + sz div 2)"
    have "bsearch_base f base sz = bsearch_base f b (sz - sz div 2)"
      using False by (simp add: bsearch_base.simps [of f base sz] Let_def b_def)
    moreover have "b \<le> bsearch_base f b (sz - sz div 2) \<and>
        bsearch_base f b (sz - sz div 2) < b + (sz - sz div 2)"
      unfolding b_def using 1 False half by (simp add: Let_def)
    moreover have "b + (sz - sz div 2) \<le> base + sz" "base \<le> b"
      using half(2) by (auto simp: b_def)
    ultimately show ?thesis by linarith
  qed
qed

lemma bsearch_base_sorted:
  assumes "sorted_cmp f n" "base + sz \<le> n" "0 < sz"
    and "\<And>i. base + sz \<le> i \<Longrightarrow> i < n \<Longrightarrow> f i = OGreater"
    and "base = 0 \<or> f base \<noteq> OGreater"
  shows "(\<forall>i. bsearch_base f base sz < i \<and> i < n \<longrightarrow> f i = OGreater) \<and>
         (bsearch_base f base sz = 0 \<or> f (bsearch_base f base sz) \<noteq> OGreater)"
  using assms
proof (induction f base sz rule: bsearch_base.induct)
  case (1 f base sz)
  show ?case
  proof (cases "sz \<le> 1")
    case True
    with 1 show ?thesis by (auto simp: bsearch_base.simps [of f base sz])
  next
    case False
    let ?mid = "base + sz div 2"
    have h: "0 < sz div 2" "sz div 2 < sz" using False by auto
    define b where "b = (if f ?mid = OGreater then base else ?mid)"
    have eq: "bsearch_base f base sz = bsearch_base f b (sz - sz div 2)"
      using False by (simp add: bsearch_base.simps [of f base sz] Let_def b_def)
    have gt: "f i = OGreater" if i: "b + (sz - sz div 2) \<le> i" "i < n" for i
    proof (cases "f ?mid = OGreater")
      case True
      with i have "?mid \<le> i" by (auto simp: b_def)
      then show ?thesis
        using sorted_cmp_greater [OF "1.prems"(1) True _ i(2)] by simp
    next
      case False
      with i h have "base + sz \<le> i" by (auto simp: b_def)
      then show ?thesis using i(2) "1.prems"(4) by blast
    qed
    have "b + (sz - sz div 2) \<le> n" using "1.prems"(2) h by (auto simp: b_def)
    moreover have "b = 0 \<or> f b \<noteq> OGreater" using "1.prems"(5) by (auto simp: b_def)
    ultimately show ?thesis
      using "1.IH" [OF False refl refl] "1.prems"(1) gt h unfolding eq b_def by fastforce
  qed
qed

lemma binary_search_by_cases:
  assumes "sorted_cmp f n"
  shows "case binary_search_by f n of
           Inr i \<Rightarrow> i < n \<and> f i = OEqual
         | Inl k \<Rightarrow> k \<le> n \<and> (\<forall>i<k. f i = OLess) \<and> (\<forall>i. k \<le> i \<and> i < n \<longrightarrow> f i = OGreater)"
proof (cases "n = 0")
  case True
  then show ?thesis by (simp add: binary_search_by_def)
next
  case False
  define b where "b = bsearch_base f 0 n"
  have b: "b < n" using bsearch_base_bounds [of n 0 f] False by (simp add: b_def)
  have "(\<forall>i. b < i \<and> i < n \<longrightarrow> f i = OGreater) \<and> (b = 0 \<or> f b \<noteq> OGreater)"
    unfolding b_def using bsearch_base_sorted [OF assms, of 0 n] False by auto
  then have gt: "\<And>i. b < i \<Longrightarrow> i < n \<Longrightarrow> f i = OGreater" and z: "b = 0 \<or> f b \<noteq> OGreater"
    by auto
  have less: "f i = OLess" if "f b = OLess" "i \<le> b" for i
    using sorted_cmp_less [OF assms that(1,2) b] .
  have ge: "f i = OGreater" if "f b = OGreater" "b \<le> i" "i < n" for i
    using sorted_cmp_greater [OF assms that] .
  show ?thesis
    using False b gt z less ge
    by (cases "f b") (auto simp: binary_search_by_def b_def [symmetric] less_Suc_eq_le)
qed

lemma binary_search_by_Inr:
  "sorted_cmp f n \<Longrightarrow> binary_search_by f n = Inr i \<Longrightarrow> i < n \<and> f i = OEqual"
  using binary_search_by_cases [of f n] by simp

lemma binary_search_by_Inl:
  assumes "sorted_cmp f n" "binary_search_by f n = Inl k"
  shows "k \<le> n" "i < k \<Longrightarrow> f i = OLess" "k \<le> i \<Longrightarrow> i < n \<Longrightarrow> f i = OGreater"
  using binary_search_by_cases [OF assms(1)] assms(2) by simp_all

section \<open>Guarded loops\<close>

text \<open>
  The contract of a \<open>while guard { step }\<close> loop with an invariant and a well-founded decrease:
  one induction, used by every component whose engine is such a loop.
\<close>

locale guarded_loop =
  fixes guard :: "'s \<Rightarrow> bool" and step :: "'s \<Rightarrow> 's" and run :: "'s \<Rightarrow> 's"
    and inv :: "'s \<Rightarrow> bool" and dec :: "('s \<times> 's) set"
  assumes run_unfold: "run s = (if guard s then run (step s) else s)"
    and wf_dec: "wf dec"
    and step_dec: "inv s \<Longrightarrow> guard s \<Longrightarrow> (step s, s) \<in> dec"
    and step_inv: "inv s \<Longrightarrow> guard s \<Longrightarrow> inv (step s)"
begin

lemma run_inv: "inv s \<Longrightarrow> inv (run s)"
proof (induction s rule: wf_induct_rule [OF wf_dec])
  case (1 s)
  then show ?case
    using run_unfold [of s] step_dec [of s] step_inv [of s] by (cases "guard s") auto
qed

lemma run_stops: "inv s \<Longrightarrow> \<not> guard (run s)"
proof (induction s rule: wf_induct_rule [OF wf_dec])
  case (1 s)
  then show ?case
    using run_unfold [of s] step_dec [of s] step_inv [of s] by (cases "guard s") auto
qed

lemma run_rel:
  assumes "inv s" and "\<And>s. R s s" and "\<And>s t. inv s \<Longrightarrow> guard s \<Longrightarrow> R (step s) t \<Longrightarrow> R s t"
  shows "R s (run s)"
  using assms(1)
proof (induction s rule: wf_induct_rule [OF wf_dec])
  case (1 s)
  show ?case
  proof (cases "guard s")
    case True
    then have "R (step s) (run (step s))"
      using 1 step_dec step_inv by blast
    then show ?thesis
      using True assms(3) [of s] 1 run_unfold [of s] by auto
  next
    case False
    then show ?thesis using run_unfold [of s] assms(2) by simp
  qed
qed

end

end
