(* ===== verification/Wolf_Span.thy ===== *)
theory Wolf_Span
  imports Wolf_Prelude
begin

text \<open>
  The crate \<^verbatim>\<open>crates/wolf_span\<close>: interned file identities, byte spans, the path interner
  (\<open>SourceMap\<close>) and the line table (\<open>LineIndex\<close>). A panicking operation (an inverted span, a
  join across files, a foreign id) returns \<open>option\<close> with \<open>None\<close> for the panic. \<open>u32\<close> fields are
  \<open>nat\<close>s below \<open>2 ^ 32\<close>; the casts are \<open>as_u32\<close> and \<open>u32_try_from\<close>.
\<close>

section \<open>File identities and spans\<close>

type_synonym file_id = nat

definition u32_try_from :: "nat \<Rightarrow> nat option" where
  "u32_try_from n = (if n \<le> u32_max then Some n else None)"

definition FileId_index :: "file_id \<Rightarrow> nat" where
  "FileId_index f = f"

definition FileId_from_index :: "nat \<Rightarrow> file_id option" where
  "FileId_from_index i = u32_try_from i"

record span =
  sp_file :: file_id
  sp_lo :: nat
  sp_hi :: nat

definition Span_new :: "file_id \<Rightarrow> nat \<Rightarrow> nat \<Rightarrow> span option" where
  "Span_new f lo hi = (if lo \<le> hi then Some \<lparr>sp_file = f, sp_lo = lo, sp_hi = hi\<rparr> else None)"

definition span_len :: "span \<Rightarrow> nat" where
  "span_len s = sp_hi s - sp_lo s"

definition span_is_empty :: "span \<Rightarrow> bool" where
  "span_is_empty s \<longleftrightarrow> sp_lo s = sp_hi s"

definition span_join :: "span \<Rightarrow> span \<Rightarrow> span option" where
  "span_join s t =
     (if sp_file s = sp_file t
      then Some \<lparr>sp_file = sp_file s, sp_lo = min (sp_lo s) (sp_lo t), sp_hi = max (sp_hi s) (sp_hi t)\<rparr>
      else None)"

text \<open>What \<open>Span::new\<close> guarantees of every span it returns.\<close>

definition span_ok :: "span \<Rightarrow> bool" where
  "span_ok s \<longleftrightarrow> sp_lo s \<le> sp_hi s"

definition span_covers :: "span \<Rightarrow> span \<Rightarrow> bool" where
  "span_covers s t \<longleftrightarrow> sp_file s = sp_file t \<and> sp_lo s \<le> sp_lo t \<and> sp_hi t \<le> sp_hi s"

lemma Span_new_Some [simp]: "Span_new f lo hi = Some s \<longleftrightarrow> lo \<le> hi \<and> s = \<lparr>sp_file = f, sp_lo = lo, sp_hi = hi\<rparr>"
  by (auto simp: Span_new_def)

lemma Span_new_ok: "Span_new f lo hi = Some s \<Longrightarrow> span_ok s"
  by (auto simp: span_ok_def)

lemma span_join_ok:
  assumes "span_ok s" "span_ok t" "span_join s t = Some u"
  shows "span_ok u" "span_covers u s" "span_covers u t"
    and "span_covers v s \<Longrightarrow> span_covers v t \<Longrightarrow> span_covers v u"
  using assms by (auto simp: span_join_def span_ok_def span_covers_def min_def max_def split: if_splits)

section \<open>The path interner\<close>

record 'p source_map =
  sm_files :: "'p list"
  sm_index :: "'p \<rightharpoonup> file_id"

definition SourceMap_new :: "'p source_map" where
  "SourceMap_new = \<lparr>sm_files = [], sm_index = Map.empty\<rparr>"

definition sm_intern :: "'p source_map \<Rightarrow> 'p \<Rightarrow> (file_id \<times> 'p source_map) option" where
  "sm_intern m p =
     (case sm_index m p of
        Some i \<Rightarrow> Some (i, m)
      | None \<Rightarrow>
          (case u32_try_from (length (sm_files m)) of
             None \<Rightarrow> None
           | Some i \<Rightarrow> Some (i, m\<lparr>sm_files := sm_files m @ [p], sm_index := (sm_index m)(p \<mapsto> i)\<rparr>)))"

definition sm_path :: "'p source_map \<Rightarrow> file_id \<Rightarrow> 'p option" where
  "sm_path m i = byte_at (sm_files m) (FileId_index i)"

definition sm_paths :: "'p source_map \<Rightarrow> 'p list" where
  "sm_paths m = sm_files m"

definition sm_len :: "'p source_map \<Rightarrow> nat" where
  "sm_len m = length (sm_files m)"

definition sm_is_empty :: "'p source_map \<Rightarrow> bool" where
  "sm_is_empty m \<longleftrightarrow> sm_files m = []"

text \<open>The two fields are inverse to each other.\<close>

definition sm_inv :: "'p source_map \<Rightarrow> bool" where
  "sm_inv m \<longleftrightarrow> (\<forall>p i. sm_index m p = Some i \<longleftrightarrow> i < length (sm_files m) \<and> sm_files m ! i = p)"

lemma sm_inv_new: "sm_inv SourceMap_new"
  by (simp add: sm_inv_def SourceMap_new_def)

lemma sm_intern_inv:
  assumes "sm_inv m" "sm_intern m p = Some (i, m')"
  shows "sm_inv m'"
proof (cases "sm_index m p")
  case (Some j)
  with assms show ?thesis by (simp add: sm_intern_def)
next
  case None
  with assms(2) have i: "i = length (sm_files m)"
    and m': "m' = m\<lparr>sm_files := sm_files m @ [p], sm_index := (sm_index m)(p \<mapsto> i)\<rparr>"
    by (auto simp: sm_intern_def u32_try_from_def split: if_splits)
  have "sm_files m ! j \<noteq> p" if "j < length (sm_files m)" for j
    using that None assms(1) unfolding sm_inv_def by (metis option.distinct(1))
  with assms(1) show ?thesis
    by (auto simp: sm_inv_def m' i nth_append less_Suc_eq)
qed

lemma sm_intern_path: "sm_inv m \<Longrightarrow> sm_intern m p = Some (i, m') \<Longrightarrow> sm_path m' i = Some p"
  by (auto simp: sm_intern_def sm_path_def FileId_index_def sm_inv_def byte_at_def u32_try_from_def
           split: option.splits if_splits)

lemma sm_intern_stable: "sm_intern m p = Some (i, m') \<Longrightarrow> sm_path m j = Some q \<Longrightarrow> sm_path m' j = Some q"
  by (auto simp: sm_intern_def sm_path_def FileId_index_def byte_at_def nth_append u32_try_from_def
           split: option.splits if_splits)

lemma sm_intern_again:
  assumes "sm_inv m" "sm_intern m p = Some (i, m')" shows "sm_intern m' p = Some (i, m')"
proof -
  have "sm_index m' p = Some i"
    using sm_intern_inv [OF assms] sm_intern_path [OF assms]
    unfolding sm_inv_def sm_path_def FileId_index_def byte_at_Some by blast
  then show ?thesis by (simp add: sm_intern_def)
qed

lemma sm_intern_inj:
  assumes "sm_inv m" "sm_intern m p = Some (i, m')" "sm_intern m' q = Some (i, m'')"
  shows "q = p"
proof -
  have "sm_path m'' i = Some q" using sm_intern_inv [OF assms(1,2)] assms(3) by (rule sm_intern_path)
  moreover have "sm_path m'' i = Some p"
    using assms(3) sm_intern_path [OF assms(1,2)] by (rule sm_intern_stable)
  ultimately show ?thesis by simp
qed

text \<open>
  C36. Interning is a bijection between the paths seen and the ids handed out: the id answered for
  a path resolves back to that path, every earlier id keeps its path, interning the same path
  again answers the same id and changes nothing, and two paths share an id only if they are equal.
\<close>

theorem source_map_interning:
  assumes "sm_inv m" "sm_intern m p = Some (i, m')"
  shows "sm_inv m' \<and> sm_path m' i = Some p \<and> sm_intern m' p = Some (i, m') \<and>
    (\<forall>j q. sm_path m j = Some q \<longrightarrow> sm_path m' j = Some q) \<and>
    (\<forall>q m''. sm_intern m' q = Some (i, m'') \<longrightarrow> q = p)"
  using sm_intern_inv [OF assms] sm_intern_path [OF assms] sm_intern_again [OF assms]
    sm_intern_stable [OF assms(2)] sm_intern_inj [OF assms] by blast

theorem source_map_interning_witness:
  "\<exists>i m'. sm_intern (SourceMap_new :: nat source_map) 7 = Some (i, m') \<and> sm_path m' i = Some 7"
proof -
  have "sm_intern (SourceMap_new :: nat source_map) 7 =
      Some (0, \<lparr>sm_files = [7], sm_index = [7 \<mapsto> 0]\<rparr>)"
    by (simp add: sm_intern_def SourceMap_new_def u32_try_from_def)
  from this source_map_interning [OF sm_inv_new this] show ?thesis by blast
qed

section \<open>The line index\<close>

record line_col =
  lc_line :: nat
  lc_col :: nat

record line_index =
  li_starts :: "nat list"
  li_len :: nat

definition push_start :: "nat list \<Rightarrow> nat \<times> byte \<Rightarrow> nat list" where
  "push_start starts ib =
     (case ib of (i, b) \<Rightarrow> if b = CHR 0x0A then starts @ [as_u32 i + 1] else starts)"

definition LineIndex_new :: "bytes \<Rightarrow> line_index option" where
  "LineIndex_new src =
     (case u32_try_from (length src) of
        None \<Rightarrow> None
      | Some len \<Rightarrow> Some \<lparr>li_starts = foldl push_start [0] (enumerate 0 src), li_len = len\<rparr>)"

definition line_count :: "line_index \<Rightarrow> nat" where
  "line_count idx = as_u32 (length (li_starts idx))"

definition line_of :: "line_index \<Rightarrow> nat \<Rightarrow> nat" where
  "line_of idx offset =
     (let target = min offset (li_len idx)
      in case binary_search_by (\<lambda>i. cmp_of (li_starts idx ! i) target) (length (li_starts idx)) of
           Inr line \<Rightarrow> as_u32 line
         | Inl ins \<Rightarrow> as_u32 (ins - 1))"

definition line_col_of :: "line_index \<Rightarrow> nat \<Rightarrow> line_col" where
  "line_col_of idx offset =
     (let offset = min offset (li_len idx); line = line_of idx offset
      in \<lparr>lc_line = line, lc_col = offset - li_starts idx ! line\<rparr>)"

definition line_range :: "line_index \<Rightarrow> nat \<Rightarrow> (nat \<times> nat) option" where
  "line_range idx line =
     (case byte_at (li_starts idx) line of
        None \<Rightarrow> None
      | Some start \<Rightarrow>
          Some (start, case byte_at (li_starts idx) (line + 1) of
                         None \<Rightarrow> li_len idx
                       | Some nxt \<Rightarrow> nxt - 1))"

subsection \<open>The table in closed form\<close>

abbreviation newline_positions :: "bytes \<Rightarrow> nat list" where
  "newline_positions src \<equiv> filter (\<lambda>i. src ! i = CHR 0x0A) [0..<length src]"

lemma newline_positions_snoc:
  "newline_positions (src @ [b]) = newline_positions src @ (if b = CHR 0x0A then [length src] else [])"
proof -
  have "filter (\<lambda>i. (src @ [b]) ! i = CHR 0x0A) [0..<length src] = newline_positions src"
    by (rule filter_cong) (auto simp: nth_append)
  then show ?thesis by simp
qed

lemma enumerate_snoc: "enumerate n (xs @ [x]) = enumerate n xs @ [(n + length xs, x)]"
  by (induction xs arbitrary: n) auto

lemma starts_closed:
  "length src \<le> u32_max \<Longrightarrow> foldl push_start [0] (enumerate 0 src) = 0 # map Suc (newline_positions src)"
proof (induction src rule: rev_induct)
  case Nil
  then show ?case by simp
next
  case (snoc b src)
  then have "foldl push_start [0] (enumerate 0 src) = 0 # map Suc (newline_positions src)" by simp
  moreover have "push_start (0 # map Suc (newline_positions src)) (length src, b) =
      0 # map Suc (newline_positions (src @ [b]))"
    using snoc.prems unfolding newline_positions_snoc by (simp add: push_start_def)
  ultimately show ?case unfolding enumerate_snoc by simp
qed

lemma starts_sorted: "sorted_wrt (<) (0 # map Suc (newline_positions src))"
  by (simp add: sorted_wrt_map sorted_wrt_filter)

lemma starts_less:
  "a < b \<Longrightarrow> b < Suc (length (newline_positions src)) \<Longrightarrow>
   (0 # map Suc (newline_positions src)) ! a < (0 # map Suc (newline_positions src)) ! b"
  using starts_sorted [of src] unfolding sorted_wrt_iff_nth_less by simp

lemma starts_le:
  "a \<le> b \<Longrightarrow> b < Suc (length (newline_positions src)) \<Longrightarrow>
   (0 # map Suc (newline_positions src)) ! a \<le> (0 # map Suc (newline_positions src)) ! b"
  using starts_less [of a b src] by (cases "a = b") (auto simp del: nth_Cons_Suc)

lemma LineIndex_new_Some:
  "LineIndex_new src = Some idx \<longleftrightarrow> length src \<le> u32_max \<and>
     idx = \<lparr>li_starts = 0 # map Suc (newline_positions src), li_len = length src\<rparr>"
  by (auto simp: LineIndex_new_def u32_try_from_def starts_closed split: option.splits)

lemma length_starts_le: "length (newline_positions src) \<le> length src"
  using length_filter_le [of "\<lambda>i. src ! i = CHR 0x0A" "[0..<length src]"] by simp

text \<open>The found line brackets the offset: it starts at or before it, the next one after it.\<close>

lemma line_of_brackets:
  assumes "LineIndex_new src = Some idx" "off \<le> length src"
  defines "starts \<equiv> 0 # map Suc (newline_positions src)"
  shows "line_of idx off < length starts" "starts ! line_of idx off \<le> off"
    and "Suc (line_of idx off) < length starts \<Longrightarrow> off < starts ! Suc (line_of idx off)"
proof -
  have idx: "li_starts idx = starts" "li_len idx = length src" and len: "length src \<le> u32_max"
    using assms(1) by (auto simp: LineIndex_new_Some starts_def)
  let ?f = "\<lambda>i. cmp_of (starts ! i) off"
  have sc: "sorted_cmp ?f (length starts)"
    unfolding starts_def by (rule sorted_cmp_table [OF starts_sorted])
  have small: "length starts \<le> Suc (length src)"
    using length_starts_le [of src] by (simp add: starts_def)
  have *: "line_of idx off < length starts \<and> starts ! line_of idx off \<le> off \<and>
      (Suc (line_of idx off) < length starts \<longrightarrow> off < starts ! Suc (line_of idx off))"
  proof (cases "binary_search_by ?f (length starts)")
    case (Inr i)
    from binary_search_by_Inr [OF sc Inr] have i: "i < length starts" "starts ! i = off" by auto
    moreover have "line_of idx off = i"
      using Inr i(1) small len assms(2) by (simp add: line_of_def idx min_absorb1)
    ultimately show ?thesis
      using starts_less [of i "Suc i" src] unfolding starts_def by (auto simp del: nth_Cons_Suc)
  next
    case (Inl k)
    note k = binary_search_by_Inl [OF sc Inl]
    have "k \<noteq> 0"
      using k(3) [of 0] by (auto simp: starts_def)
    then obtain j where j: "k = Suc j" by (cases k) auto
    moreover have "line_of idx off = j"
      using Inl j k(1) small len assms(2) by (simp add: line_of_def idx min_absorb1)
    ultimately show ?thesis
      using k(1) k(2) [of j] k(3) [of k] by auto
  qed
  then show "line_of idx off < length starts" "starts ! line_of idx off \<le> off"
    "Suc (line_of idx off) < length starts \<Longrightarrow> off < starts ! Suc (line_of idx off)" by auto
qed

lemma filter_prefix:
  assumes "L \<le> length ks" "\<And>j. j < L \<Longrightarrow> P (ks ! j)" "\<And>j. L \<le> j \<Longrightarrow> j < length ks \<Longrightarrow> \<not> P (ks ! j)"
  shows "length (filter P ks) = L"
proof -
  have "filter P (take L ks) = take L ks"
    using assms(1,2) by (intro filter_True) (auto simp: in_set_conv_nth)
  moreover have "filter P (drop L ks) = []"
    using assms(1,3) by (intro filter_False) (auto simp: in_set_conv_nth)
  ultimately have "filter P (take L ks @ drop L ks) = take L ks" by (simp only: filter_append) simp
  then show ?thesis using assms(1) by simp
qed

lemma count_newlines_take:
  assumes "off \<le> length src"
  shows "count_list (take off src) (CHR 0x0A) = length (filter (\<lambda>k. k < off) (newline_positions src))"
proof -
  have split: "[0..<length src] = [0..<off] @ [off..<length src]"
    using upt_add_eq_append [of 0 off "length src - off"] assms by simp
  have "filter (\<lambda>k. k < off) (newline_positions src) = filter (\<lambda>i. src ! i = CHR 0x0A) [0..<off]"
    unfolding split by (auto simp: filter_empty_conv intro!: filter_cong)
  moreover have "count_list (take off src) (CHR 0x0A) = length (filter (\<lambda>i. src ! i = CHR 0x0A) [0..<off])"
    using assms
  proof (induction off)
    case 0
    then show ?case by simp
  next
    case (Suc off)
    then show ?case by (simp add: take_Suc_conv_app_nth)
  qed
  ultimately show ?thesis by simp
qed

text \<open>Between the brackets of a line there is no newline byte.\<close>

lemma no_newline_between:
  fixes src
  defines "starts \<equiv> 0 # map Suc (newline_positions src)"
  assumes "L < length starts" "starts ! L \<le> i" "i < length src"
    and "Suc L < length starts \<Longrightarrow> Suc i < starts ! Suc L"
  shows "src ! i \<noteq> CHR 0x0A"
proof
  assume "src ! i = CHR 0x0A"
  with assms(4) have "i \<in> set (newline_positions src)" by simp
  then obtain j where j: "j < length (newline_positions src)" "newline_positions src ! j = i"
    unfolding in_set_conv_nth by blast
  then have sj: "starts ! Suc j = Suc i" by (simp add: starts_def)
  show False
  proof (cases "Suc j \<le> L")
    case True
    then show False using starts_le [of "Suc j" L src] assms(2,3) sj unfolding starts_def by simp
  next
    case False
    then show False
      using starts_le [of "Suc L" "Suc j" src] assms(5) j(1) sj unfolding starts_def by simp
  qed
qed

lemma line_of_counts:
  assumes "LineIndex_new src = Some idx" "off \<le> length src"
  shows "count_list (take off src) (CHR 0x0A) = line_of idx off"
proof -
  let ?ks = "newline_positions src"
  define L where "L = line_of idx off"
  note br = line_of_brackets [OF assms, folded L_def]
  have Lk: "L \<le> length ?ks" using br(1) by simp
  have "length (filter (\<lambda>k. k < off) ?ks) = L"
  proof (rule filter_prefix [OF Lk])
    fix j assume "j < L"
    then show "?ks ! j < off" using starts_le [of "Suc j" L src] br(1,2) Lk by simp
  next
    fix j assume "L \<le> j" "j < length ?ks"
    then show "\<not> ?ks ! j < off" using starts_le [of "Suc L" "Suc j" src] br(3) by simp
  qed
  then show ?thesis by (simp add: count_newlines_take [OF assms(2)] L_def)
qed

lemma line_range_of:
  assumes "LineIndex_new src = Some idx" "off \<le> length src"
  shows "\<exists>end. line_range idx (line_of idx off) = Some (li_starts idx ! line_of idx off, end) \<and>
           li_starts idx ! line_of idx off \<le> off \<and> off \<le> end \<and>
           CHR 0x0A \<notin> set (slice (li_starts idx ! line_of idx off) end src)"
proof -
  define starts where "starts = 0 # map Suc (newline_positions src)"
  define L where "L = line_of idx off"
  have idx: "li_starts idx = starts" "li_len idx = length src"
    using assms(1) by (auto simp: LineIndex_new_Some starts_def)
  note br = line_of_brackets [OF assms, folded starts_def L_def]
  define e where "e = (if Suc L < length starts then starts ! Suc L - 1 else length src)"
  have "line_range idx L = Some (starts ! L, e)"
    using br(1) by (simp add: line_range_def byte_at_def idx e_def)
  moreover have "off \<le> e" using br(3) assms(2) by (auto simp: e_def)
  moreover have "src ! i \<noteq> CHR 0x0A" if "starts ! L \<le> i" "i < e" "i < length src" for i
    using no_newline_between [of L src i] br(1) that by (auto simp: e_def starts_def split: if_splits)
  then have "CHR 0x0A \<notin> set (slice (starts ! L) e src)"
    by (auto simp: slice_def in_set_conv_nth)
  ultimately show ?thesis using br(2) unfolding L_def [symmetric] idx by blast
qed

text \<open>
  C37. The line index answers what a reader counts: the line of an offset is the number of newline
  bytes before it, the column is the distance from the start of that line, the line's own range
  starts there and holds no newline, and offsets past the end clamp to the end of the buffer.
\<close>

theorem line_col_correct:
  assumes "LineIndex_new src = Some idx"
  shows "lc_line (line_col_of idx off) = count_list (take off src) (CHR 0x0A) \<and>
    (\<exists>start end. line_range idx (lc_line (line_col_of idx off)) = Some (start, end) \<and>
       start + lc_col (line_col_of idx off) = min off (length src) \<and> min off (length src) \<le> end \<and>
       CHR 0x0A \<notin> set (slice start end src))"
proof -
  define p where "p = min off (length src)"
  have p: "p \<le> length src" "take off src = take p src" by (auto simp: p_def min_def)
  have len: "li_len idx = length src" using assms by (simp add: LineIndex_new_Some)
  have lc: "line_col_of idx off = \<lparr>lc_line = line_of idx p, lc_col = p - li_starts idx ! line_of idx p\<rparr>"
    by (simp add: line_col_of_def len Let_def p_def)
  from line_range_of [OF assms p(1)] line_of_counts [OF assms p(1)] show ?thesis
    unfolding lc p(2) p_def [symmetric] by auto
qed

theorem line_col_correct_witness:
  "\<exists>idx. LineIndex_new [CHR ''a'', CHR 0x0A, CHR ''b''] = Some idx \<and>
     lc_line (line_col_of idx 2) = count_list (take 2 [CHR ''a'', CHR 0x0A, CHR ''b'']) (CHR 0x0A)"
proof -
  obtain idx where "LineIndex_new [CHR ''a'', CHR 0x0A, CHR ''b''] = Some idx"
    by (simp add: LineIndex_new_Some)
  with line_col_correct [OF this, of 2] show ?thesis by blast
qed

end
