(* ===== verification/Wolf_Diag.thy ===== *)
theory Wolf_Diag
  imports Wolf_Span "HOL-Library.Multiset"
begin

text \<open>
  The crate \<^verbatim>\<open>crates/wolf_diag\<close> (\<^verbatim>\<open>src/lib.rs\<close>): the diagnostic value, the per-run sink with cascade
  suppression and rollback, the deterministic report order and the passes over a finished batch.

  Prose (messages, labels, notes) is the type parameter \<open>'p\<close>: the code stores it and compares it
  for equality, never looks inside. An empty label is \<open>None\<close>. A \<open>Code\<close> is its spelling.
\<close>

section \<open>Values\<close>

datatype severity = Error | Warning

definition Severity_as_str :: "severity \<Rightarrow> string" where
  "Severity_as_str s = (case s of Error \<Rightarrow> ''error'' | Warning \<Rightarrow> ''warning'')"

type_synonym code = string

record 'p labeled_span =
  ls_span :: span
  ls_label :: "'p option"

definition LabeledSpan_new :: "span \<Rightarrow> 'p option \<Rightarrow> 'p labeled_span" where
  "LabeledSpan_new s l = \<lparr>ls_span = s, ls_label = l\<rparr>"

datatype applicability = MachineApplicable | Maybe | HasPlaceholders

record 'p suggestion =
  sg_message :: 'p
  sg_edits :: "(span \<times> bytes) list"
  sg_applicability :: applicability

definition Suggestion_new :: "'p \<Rightarrow> (span \<times> bytes) list \<Rightarrow> applicability \<Rightarrow> 'p suggestion" where
  "Suggestion_new m es a = \<lparr>sg_message = m, sg_edits = es, sg_applicability = a\<rparr>"

record row_diff =
  rd_missing :: "string list"
  rd_extra :: "string list"

record 'p diagnostic =
  d_code :: code
  d_severity :: severity
  d_message :: 'p
  d_primary :: "'p labeled_span"
  d_secondary :: "'p labeled_span list"
  d_notes :: "'p list"
  d_suggestions :: "'p suggestion list"
  d_row_diff :: "row_diff option"
  d_subject :: "(string \<times> span) option"

definition Diagnostic_new :: "code \<Rightarrow> severity \<Rightarrow> span \<Rightarrow> 'p \<Rightarrow> 'p diagnostic" where
  "Diagnostic_new c sev s m =
     \<lparr>d_code = c, d_severity = sev, d_message = m, d_primary = LabeledSpan_new s None,
      d_secondary = [], d_notes = [], d_suggestions = [], d_row_diff = None, d_subject = None\<rparr>"

definition Diagnostic_error :: "code \<Rightarrow> span \<Rightarrow> 'p \<Rightarrow> 'p diagnostic" where
  "Diagnostic_error c s m = Diagnostic_new c Error s m"

definition Diagnostic_warning :: "code \<Rightarrow> span \<Rightarrow> 'p \<Rightarrow> 'p diagnostic" where
  "Diagnostic_warning c s m = Diagnostic_new c Warning s m"

definition d_span :: "'p diagnostic \<Rightarrow> span" where
  "d_span d = ls_span (d_primary d)"

definition with_label :: "'p \<Rightarrow> 'p diagnostic \<Rightarrow> 'p diagnostic" where
  "with_label l d = d\<lparr>d_primary := (d_primary d)\<lparr>ls_label := Some l\<rparr>\<rparr>"

definition with_secondary :: "span \<Rightarrow> 'p \<Rightarrow> 'p diagnostic \<Rightarrow> 'p diagnostic" where
  "with_secondary s l d = d\<lparr>d_secondary := d_secondary d @ [LabeledSpan_new s (Some l)]\<rparr>"

definition with_note :: "'p \<Rightarrow> 'p diagnostic \<Rightarrow> 'p diagnostic" where
  "with_note n d = d\<lparr>d_notes := d_notes d @ [n]\<rparr>"

definition with_suggestion :: "'p suggestion \<Rightarrow> 'p diagnostic \<Rightarrow> 'p diagnostic" where
  "with_suggestion g d = d\<lparr>d_suggestions := d_suggestions d @ [g]\<rparr>"

definition with_row_diff :: "row_diff \<Rightarrow> 'p diagnostic \<Rightarrow> 'p diagnostic" where
  "with_row_diff r d = d\<lparr>d_row_diff := Some r\<rparr>"

definition about :: "string \<Rightarrow> span \<Rightarrow> 'p diagnostic \<Rightarrow> 'p diagnostic" where
  "about n s d = d\<lparr>d_subject := Some (n, s)\<rparr>"

definition about_opt :: "string option \<Rightarrow> span \<Rightarrow> 'p diagnostic \<Rightarrow> 'p diagnostic" where
  "about_opt n s d = (case n of Some n \<Rightarrow> about n s d | None \<Rightarrow> d)"

lemmas builder_defs = Diagnostic_new_def Diagnostic_error_def Diagnostic_warning_def
  LabeledSpan_new_def with_label_def with_secondary_def with_note_def with_suggestion_def

lemma builder_fields [simp]:
  "d_code (Diagnostic_error c s m) = c" "d_span (Diagnostic_error c s m) = s"
  "d_severity (Diagnostic_error c s m) = Error"
  "d_code (with_label l d) = d_code d" "d_span (with_label l d) = d_span d"
  "d_severity (with_label l d) = d_severity d"
  "d_code (with_secondary s' l d) = d_code d" "d_span (with_secondary s' l d) = d_span d"
  "d_severity (with_secondary s' l d) = d_severity d"
  "d_code (with_note n d) = d_code d" "d_span (with_note n d) = d_span d"
  "d_severity (with_note n d) = d_severity d"
  "d_code (with_suggestion g d) = d_code d" "d_span (with_suggestion g d) = d_span d"
  "d_severity (with_suggestion g d) = d_severity d"
  by (simp_all add: builder_defs d_span_def)

section \<open>Passes over a batch\<close>

definition span_within :: "span \<Rightarrow> span \<Rightarrow> bool" where
  "span_within s region \<longleftrightarrow> sp_file s = sp_file region \<and> sp_lo region \<le> sp_lo s \<and> sp_hi s \<le> sp_hi region"

definition mode_errors :: "'p diagnostic list \<Rightarrow> (string \<times> span) list" where
  "mode_errors ds =
     List.map_filter d_subject (filter (\<lambda>d. d_code d \<in> {''E0804'', ''E1014'', ''E1001''}) ds)"

definition shadowed :: "(string \<times> span) list \<Rightarrow> 'p diagnostic \<Rightarrow> bool" where
  "shadowed errs d =
     (case d_subject d of
        None \<Rightarrow> False
      | Some (name, scope) \<Rightarrow> list_ex (\<lambda>(n, use_site). n = name \<and> span_within use_site scope) errs)"

definition suppress_mode_shadowed :: "'p diagnostic list \<Rightarrow> 'p diagnostic list" where
  "suppress_mode_shadowed ds =
     (let errs = mode_errors ds
      in if errs = [] then ds
         else filter (\<lambda>d. d_code d \<noteq> ''W1002'' \<or> \<not> shadowed errs d) ds)"

definition waits_for_mem :: "'p diagnostic \<Rightarrow> bool" where
  "waits_for_mem d \<longleftrightarrow> d_severity d = Error \<and> d_code d = ''W1002''"

definition stops_early :: "'p diagnostic list \<Rightarrow> bool" where
  "stops_early ds = list_ex (\<lambda>d. d_severity d = Error \<and> \<not> waits_for_mem d) ds"

definition phase_rank :: "code \<Rightarrow> nat" where
  "phase_rank c =
     (let n = (case parse_uint u32_max (drop 1 c) of Some n \<Rightarrow> n | None \<Rightarrow> u32_max)
      in if 100 \<le> n \<and> n \<le> 199 then 0
         else if n \<le> 99 \<or> 200 \<le> n \<and> n \<le> 299 then 1
         else if 300 \<le> n \<and> n \<le> 399 then 2
         else 3)"

definition report_order :: "'p diagnostic \<Rightarrow> file_id \<times> nat \<times> nat \<times> nat \<times> code" where
  "report_order d =
     (let s = ls_span (d_primary d)
      in (sp_file s, sp_lo s, phase_rank (d_code d), sp_hi s, d_code d))"

definition sort_diagnostics :: "'p diagnostic list \<Rightarrow> 'p diagnostic list" where
  "sort_diagnostics ds = sort_key report_order ds"

text \<open>\<open>Iterator::min_by_key\<close>: of several minima, the first.\<close>

fun min_by_key :: "('a \<Rightarrow> 'k::linorder) \<Rightarrow> 'a list \<Rightarrow> 'a option" where
  "min_by_key f [] = None"
| "min_by_key f (x # xs) =
     (case min_by_key f xs of None \<Rightarrow> Some x | Some y \<Rightarrow> if f x \<le> f y then Some x else Some y)"

definition first_error :: "'p diagnostic list \<Rightarrow> 'p diagnostic option" where
  "first_error ds = min_by_key report_order (filter (\<lambda>d. d_severity d = Error) ds)"

text \<open>\<open>notes.retain(|n| seen.insert((code, n.clone())))\<close>: \<open>insert\<close> is true when the pair is new.\<close>

fun retain_new :: "code \<Rightarrow> (code \<times> 'p) set \<Rightarrow> 'p list \<Rightarrow> 'p list \<times> (code \<times> 'p) set" where
  "retain_new c seen [] = ([], seen)"
| "retain_new c seen (n # ns) =
     (let (kept, seen') = retain_new c (insert (c, n) seen) ns
      in (if (c, n) \<in> seen then kept else n # kept, seen'))"

fun dedup_notes_from :: "(code \<times> 'p) set \<Rightarrow> 'p diagnostic list \<Rightarrow> 'p diagnostic list" where
  "dedup_notes_from seen [] = []"
| "dedup_notes_from seen (d # ds) =
     (let (kept, seen') = retain_new (d_code d) seen (d_notes d)
      in d\<lparr>d_notes := kept\<rparr> # dedup_notes_from seen' ds)"

definition dedup_notes :: "'p diagnostic list \<Rightarrow> 'p diagnostic list" where
  "dedup_notes ds = dedup_notes_from {} ds"

section \<open>The sink\<close>

record 'p diagnostics =
  dg_diags :: "'p diagnostic list"
  dg_suppressed :: "span list"

record diag_mark =
  dm_diags :: nat
  dm_suppressed :: nat

definition Diagnostics_new :: "'p diagnostics" where
  "Diagnostics_new = \<lparr>dg_diags = [], dg_suppressed = []\<rparr>"

definition is_suppressed :: "'p diagnostics \<Rightarrow> span \<Rightarrow> bool" where
  "is_suppressed g s =
     list_ex (\<lambda>r. sp_file r = sp_file s \<and> sp_lo r \<le> sp_lo s \<and> sp_hi s \<le> sp_hi r \<and> sp_lo s < sp_hi r)
       (dg_suppressed g)"

definition dg_push :: "'p diagnostic \<Rightarrow> 'p diagnostics \<Rightarrow> 'p diagnostics" where
  "dg_push d g =
     (if is_suppressed g (ls_span (d_primary d)) then g
      else if d_code d = ''E0201'' \<and>
              list_ex (\<lambda>p. d_code p = d_code d \<and> ls_span (d_primary p) = ls_span (d_primary d)) (dg_diags g)
      then g
      else g\<lparr>dg_diags := dg_diags g @ [d]\<rparr>)"

definition dg_push_forced :: "'p diagnostic \<Rightarrow> 'p diagnostics \<Rightarrow> 'p diagnostics" where
  "dg_push_forced d g = g\<lparr>dg_diags := dg_diags g @ [d]\<rparr>"

definition dg_suppress :: "span \<Rightarrow> 'p diagnostics \<Rightarrow> 'p diagnostics" where
  "dg_suppress r g = (if span_is_empty r then g else g\<lparr>dg_suppressed := dg_suppressed g @ [r]\<rparr>)"

definition dg_suppressed_regions :: "'p diagnostics \<Rightarrow> span list" where
  "dg_suppressed_regions g = dg_suppressed g"

definition dg_has_errors :: "'p diagnostics \<Rightarrow> bool" where
  "dg_has_errors g = list_ex (\<lambda>d. d_severity d = Error) (dg_diags g)"

definition dg_len :: "'p diagnostics \<Rightarrow> nat" where
  "dg_len g = length (dg_diags g)"

definition dg_mark :: "'p diagnostics \<Rightarrow> diag_mark" where
  "dg_mark g = \<lparr>dm_diags = length (dg_diags g), dm_suppressed = length (dg_suppressed g)\<rparr>"

definition dg_rollback :: "diag_mark \<Rightarrow> 'p diagnostics \<Rightarrow> 'p diagnostics" where
  "dg_rollback m g =
     g\<lparr>dg_diags := take (dm_diags m) (dg_diags g), dg_suppressed := take (dm_suppressed m) (dg_suppressed g)\<rparr>"

definition dg_into_vec :: "'p diagnostics \<Rightarrow> 'p diagnostic list" where
  "dg_into_vec g = dg_diags g"

definition dg_into_parts :: "'p diagnostics \<Rightarrow> 'p diagnostic list \<times> span list" where
  "dg_into_parts g = (dg_diags g, dg_suppressed g)"

section \<open>Report order\<close>

lemma min_by_key_hd: "min_by_key f xs = (case sort_key f xs of [] \<Rightarrow> None | y # _ \<Rightarrow> Some y)"
proof (induction xs)
  case Nil
  then show ?case by simp
next
  case (Cons x xs)
  then show ?case by (cases "sort_key f xs") auto
qed

lemma find_filter_hd: "find P xs = (case filter P xs of [] \<Rightarrow> None | y # _ \<Rightarrow> Some y)"
  by (induction xs) auto

text \<open>
  C38. The diagnostic a refusal carries is the first error of the report, whatever order the batch
  is in: \<open>first_error\<close> (a linear minimum over the unsorted batch) agrees with searching the sorted
  batch from the front, ties included.
\<close>

theorem first_error_sorted:
  "first_error ds = find (\<lambda>d. d_severity d = Error) (sort_diagnostics ds)"
  by (simp add: first_error_def sort_diagnostics_def min_by_key_hd find_filter_hd filter_sort)

lemma sort_diagnostics_facts:
  "mset (sort_diagnostics ds) = mset ds" "sorted (map report_order (sort_diagnostics ds))"
  "filter (\<lambda>d. report_order d = k) (sort_diagnostics ds) = filter (\<lambda>d. report_order d = k) ds"
  by (simp_all add: sort_diagnostics_def sort_key_stable)

section \<open>Retiring the mode warning\<close>

lemma suppress_keeps: "d \<in> set ds \<Longrightarrow> d_code d \<noteq> ''W1002'' \<Longrightarrow> d \<in> set (suppress_mode_shadowed ds)"
  by (simp add: suppress_mode_shadowed_def Let_def)

lemma suppress_filter:
  "suppress_mode_shadowed ds = filter (\<lambda>d. d_code d \<noteq> ''W1002'' \<or> \<not> shadowed (mode_errors ds) d) ds"
  by (auto simp: suppress_mode_shadowed_def Let_def shadowed_def split: option.splits
           intro!: filter_True [symmetric])

lemma mode_errors_suppress: "mode_errors (suppress_mode_shadowed ds) = mode_errors ds"
  unfolding mode_errors_def suppress_filter [unfolded mode_errors_def] filter_filter
  by (rule arg_cong [where f = "List.map_filter d_subject"], rule filter_cong) auto

text \<open>
  Retiring shadowed \<open>W1002\<close> warnings changes no verdict: it is idempotent, it removes nothing
  but \<open>W1002\<close>, and whether a front-end rung stops early is the same before and after.
\<close>

theorem suppress_mode_shadowed_safe:
  "suppress_mode_shadowed (suppress_mode_shadowed ds) = suppress_mode_shadowed ds \<and>
   filter (\<lambda>d. d_code d \<noteq> ''W1002'') (suppress_mode_shadowed ds) = filter (\<lambda>d. d_code d \<noteq> ''W1002'') ds \<and>
   stops_early (suppress_mode_shadowed ds) = stops_early ds"
proof (intro conjI)
  show "suppress_mode_shadowed (suppress_mode_shadowed ds) = suppress_mode_shadowed ds"
    unfolding suppress_filter [of "suppress_mode_shadowed ds"] mode_errors_suppress
    by (simp add: suppress_filter)
  show "filter (\<lambda>d. d_code d \<noteq> ''W1002'') (suppress_mode_shadowed ds) = filter (\<lambda>d. d_code d \<noteq> ''W1002'') ds"
    unfolding suppress_filter filter_filter by (rule filter_cong) auto
  show "stops_early (suppress_mode_shadowed ds) = stops_early ds"
    unfolding stops_early_def suppress_filter by (auto simp: list_ex_iff waits_for_mem_def)
qed

section \<open>Collapsing notes\<close>

definition note_keys :: "'p diagnostic list \<Rightarrow> (code \<times> 'p) list" where
  "note_keys ds = concat (map (\<lambda>d. map (Pair (d_code d)) (d_notes d)) ds)"

lemma retain_new_keys:
  assumes "retain_new c seen ns = (kept, seen')"
  shows "seen' = seen \<union> Pair c ` set ns \<and> distinct kept \<and> set kept = {n \<in> set ns. (c, n) \<notin> seen}"
  using assms
proof (induction ns arbitrary: seen kept seen')
  case Nil
  then show ?case by simp
next
  case (Cons n ns)
  obtain kept' where k: "retain_new c (insert (c, n) seen) ns = (kept', seen')"
    and kept: "kept = (if (c, n) \<in> seen then kept' else n # kept')"
    using Cons.prems by (simp add: Let_def split: prod.splits)
  note IH = Cons.IH [OF k]
  have s': "seen' = seen \<union> Pair c ` set (n # ns)" using IH by simp
  have set': "set kept' = {x \<in> set ns. (c, x) \<notin> seen \<and> x \<noteq> n}" using IH by blast
  have "distinct kept" using IH set' by (simp add: kept)
  moreover have "set kept = {x \<in> set (n # ns). (c, x) \<notin> seen}"
    using set' by (cases "(c, n) \<in> seen") (simp add: kept, blast)+
  ultimately show ?case using s' by blast
qed

lemma note_keys_Cons: "note_keys (d # ds) = map (Pair (d_code d)) (d_notes d) @ note_keys ds"
  by (simp add: note_keys_def)

lemma dedup_notes_from_keys:
  "distinct (note_keys (dedup_notes_from seen ds)) \<and>
   set (note_keys (dedup_notes_from seen ds)) = set (note_keys ds) - seen"
proof (induction ds arbitrary: seen)
  case Nil
  then show ?case by (simp add: note_keys_def)
next
  case (Cons d ds)
  obtain kept seen' where r: "retain_new (d_code d) seen (d_notes d) = (kept, seen')"
    by fastforce
  note keys = retain_new_keys [OF r]
  show ?case
    using Cons.IH [of seen'] keys
    by (auto simp: r note_keys_Cons distinct_map inj_on_def)
qed

lemma dedup_notes_from_frame:
  "map (\<lambda>d. d\<lparr>d_notes := []\<rparr>) (dedup_notes_from seen ds) = map (\<lambda>d. d\<lparr>d_notes := []\<rparr>) ds"
  by (induction seen ds rule: dedup_notes_from.induct) (auto split: prod.splits)

text \<open>
  Collapsing repeated teach notes leaves each (code, note) pair exactly once in the batch,
  loses no pair and touches nothing but the notes.
\<close>

theorem dedup_notes_correct:
  "distinct (note_keys (dedup_notes ds)) \<and> set (note_keys (dedup_notes ds)) = set (note_keys ds) \<and>
   map (\<lambda>d. d\<lparr>d_notes := []\<rparr>) (dedup_notes ds) = map (\<lambda>d. d\<lparr>d_notes := []\<rparr>) ds"
  unfolding dedup_notes_def using dedup_notes_from_keys [of "{}" ds] dedup_notes_from_frame [of "{}" ds]
  by simp

section \<open>The sink under speculation\<close>

text \<open>What a phase does to its sink between two rollback points.\<close>

datatype 'p sink_op = Push "'p diagnostic" | Push_forced "'p diagnostic" | Suppress span

fun sink_step :: "'p sink_op \<Rightarrow> 'p diagnostics \<Rightarrow> 'p diagnostics" where
  "sink_step (Push d) g = dg_push d g"
| "sink_step (Push_forced d) g = dg_push_forced d g"
| "sink_step (Suppress r) g = dg_suppress r g"

definition sink_run :: "'p sink_op list \<Rightarrow> 'p diagnostics \<Rightarrow> 'p diagnostics" where
  "sink_run ops g = fold sink_step ops g"

lemmas sink_op_defs = dg_push_def dg_push_forced_def dg_suppress_def

lemma sink_step_appends:
  "\<exists>ds rs. dg_diags (sink_step op g) = dg_diags g @ ds \<and> dg_suppressed (sink_step op g) = dg_suppressed g @ rs"
  by (cases op) (simp_all add: sink_op_defs)

lemma sink_run_appends:
  "\<exists>ds rs. dg_diags (sink_run ops g) = dg_diags g @ ds \<and> dg_suppressed (sink_run ops g) = dg_suppressed g @ rs"
proof (induction ops arbitrary: g)
  case Nil
  then show ?case by (simp add: sink_run_def)
next
  case (Cons op ops)
  from sink_step_appends [of op g] Cons.IH [of "sink_step op g"] show ?case
    by (auto simp: sink_run_def)
qed

text \<open>
  C39. Speculation leaves no trace: whatever is pushed, forced or suppressed after a mark, rolling
  back to it restores the sink exactly; and a plain push inside a suppressed region is dropped.
\<close>

theorem rollback_restores:
  "dg_rollback (dg_mark g) (sink_run ops g) = g \<and>
   (is_suppressed g (d_span d) \<longrightarrow> dg_push d g = g)"
proof -
  obtain ds rs where "dg_diags (sink_run ops g) = dg_diags g @ ds"
    "dg_suppressed (sink_run ops g) = dg_suppressed g @ rs"
    using sink_run_appends by blast
  then show ?thesis by (simp add: dg_rollback_def dg_mark_def dg_push_def d_span_def)
qed

theorem rollback_restores_witness:
  "dg_rollback (dg_mark (Diagnostics_new :: nat diagnostics))
     (sink_run [Push (Diagnostic_error ''E0101'' \<lparr>sp_file = 0, sp_lo = 1, sp_hi = 2\<rparr> (0::nat))] Diagnostics_new)
   = Diagnostics_new"
  using rollback_restores
    [of Diagnostics_new _ "Diagnostic_error ''E0101'' \<lparr>sp_file = 0, sp_lo = 1, sp_hi = 2\<rparr> (0::nat)"]
  by (rule conjunct1)

text \<open>With nothing suppressed and a code other than \<open>E0201\<close>, push appends (what the lexer relies on).\<close>

lemma dg_push_plain:
  "dg_suppressed g = [] \<Longrightarrow> d_code d \<noteq> ''E0201'' \<Longrightarrow> dg_push d g = g\<lparr>dg_diags := dg_diags g @ [d]\<rparr>"
  by (simp add: dg_push_def is_suppressed_def)

end
