(* ===== verification/Lex_Token.thy ===== *)
theory Lex_Token
  imports Wolf_Diag
begin

text \<open>
  The lexer's data, \<^verbatim>\<open>crates/wolf_lex/src/lib.rs\<close>: keywords and their table, punctuation, string and
  token kinds, trivia, tokens and the lexed stream; with the \<open>[gram.lex.newline]\<close> token class
  (\<open>ends_statement\<close>) and the callable lossless invariant (\<open>reassemble\<close>). Also the punctuation table
  and the context frames of \<^verbatim>\<open>crates/wolf_lex/src/lexer.rs\<close>. The \<open>dump\<close> text is not modelled.
\<close>

section \<open>Keywords\<close>

definition MAX_NEST :: nat where
  "MAX_NEST = 32"

datatype keyword =
    Kw_As | Kw_Asm | Kw_Assume | Kw_Borrow | Kw_Break | Kw_Comptime | Kw_Const |
    Kw_Continue | Kw_Copy | Kw_Defer | Kw_Distinct | Kw_Dyn | Kw_Else | Kw_Enum |
    Kw_Errdefer | Kw_Export | Kw_Extern | Kw_False | Kw_Fn | Kw_For | Kw_Freeze |
    Kw_Handle | Kw_If | Kw_Impl | Kw_Import | Kw_In | Kw_Let | Kw_Loop | Kw_Match |
    Kw_Move | Kw_Mut | Kw_Proc | Kw_Pub | Kw_Region | Kw_Return | Kw_Scope | Kw_Select |
    Kw_Shared | Kw_Spawn | Kw_Struct | Kw_Take | Kw_Trait | Kw_True | Kw_Type | Kw_Unsafe |
    Kw_Use | Kw_Var | Kw_Weak | Kw_When | Kw_While

definition KEYWORDS :: "(bytes \<times> keyword) list" where
  "KEYWORDS =
   [(''as'', Kw_As), (''asm'', Kw_Asm), (''assume'', Kw_Assume), (''borrow'', Kw_Borrow),
    (''break'', Kw_Break), (''comptime'', Kw_Comptime), (''const'', Kw_Const),
    (''continue'', Kw_Continue), (''copy'', Kw_Copy), (''defer'', Kw_Defer),
    (''distinct'', Kw_Distinct), (''dyn'', Kw_Dyn), (''else'', Kw_Else),
    (''enum'', Kw_Enum), (''errdefer'', Kw_Errdefer), (''export'', Kw_Export),
    (''extern'', Kw_Extern), (''false'', Kw_False), (''fn'', Kw_Fn), (''for'', Kw_For),
    (''freeze'', Kw_Freeze), (''handle'', Kw_Handle), (''if'', Kw_If), (''impl'', Kw_Impl),
    (''import'', Kw_Import), (''in'', Kw_In), (''let'', Kw_Let), (''loop'', Kw_Loop),
    (''match'', Kw_Match), (''move'', Kw_Move), (''mut'', Kw_Mut), (''proc'', Kw_Proc),
    (''pub'', Kw_Pub), (''region'', Kw_Region), (''return'', Kw_Return),
    (''scope'', Kw_Scope), (''select'', Kw_Select), (''shared'', Kw_Shared),
    (''spawn'', Kw_Spawn), (''struct'', Kw_Struct), (''take'', Kw_Take),
    (''trait'', Kw_Trait), (''true'', Kw_True), (''type'', Kw_Type),
    (''unsafe'', Kw_Unsafe), (''use'', Kw_Use), (''var'', Kw_Var), (''weak'', Kw_Weak),
    (''when'', Kw_When), (''while'', Kw_While)]"

definition keyword_of :: "bytes \<Rightarrow> keyword option" where
  "keyword_of text =
     (case binary_search_by (\<lambda>i. cmp_of (fst (KEYWORDS ! i)) text) (length KEYWORDS) of
        Inr i \<Rightarrow> Some (snd (KEYWORDS ! i))
      | Inl _ \<Rightarrow> None)"

section \<open>Punctuation\<close>

datatype punctuation =
    P_LParen | P_RParen | P_LBracket | P_RBracket | P_LBrace | P_RBrace | P_Comma | P_Dot |
    P_DotDot | P_DotDotEq | P_Colon | P_At | P_Arrow | P_FatArrow | P_Eq | P_EqEq |
    P_NotEq | P_Lt | P_Gt | P_LtEq | P_GtEq | P_Spaceship | P_Plus | P_Minus | P_Star |
    P_Slash | P_Percent | P_Amp | P_AmpAmp | P_Pipe | P_PipePipe | P_Caret | P_Not |
    P_Question | P_Shl | P_Shr | P_PlusEq | P_MinusEq | P_StarEq | P_SlashEq |
    P_PercentEq | P_AmpEq | P_PipeEq | P_CaretEq | P_ShlEq | P_ShrEq

text \<open>The longest-match table of \<^verbatim>\<open>lexer.rs\<close>, multi-byte entries first.\<close>

definition PUNCTS :: "(bytes \<times> punctuation) list" where
  "PUNCTS =
   [(''<<='', P_ShlEq), (''>>='', P_ShrEq), (''<=>'', P_Spaceship), (''..='', P_DotDotEq),
    (''->'', P_Arrow), (''=>'', P_FatArrow), (''=='', P_EqEq), (''!='', P_NotEq),
    (''<='', P_LtEq), (''>='', P_GtEq), (''&&'', P_AmpAmp), (''||'', P_PipePipe),
    (''<<'', P_Shl), (''>>'', P_Shr), (''+='', P_PlusEq), (''-='', P_MinusEq),
    (''*='', P_StarEq), (''/='', P_SlashEq), (''%='', P_PercentEq), (''&='', P_AmpEq),
    (''|='', P_PipeEq), (''^='', P_CaretEq), (''..'', P_DotDot), (''('', P_LParen),
    ('')'', P_RParen), (''['', P_LBracket), ('']'', P_RBracket), (''{'', P_LBrace),
    (''}'', P_RBrace), ('','', P_Comma), (''.'', P_Dot), ('':'', P_Colon), (''='', P_Eq),
    (''+'', P_Plus), (''-'', P_Minus), (''*'', P_Star), (''/'', P_Slash),
    (''%'', P_Percent), (''&'', P_Amp), (''|'', P_Pipe), (''^'', P_Caret), (''<'', P_Lt),
    (''>'', P_Gt), (''!'', P_Not), (''?'', P_Question), (''@'', P_At)]"

section \<open>Tokens\<close>

datatype str_kind = Plain | Multiline | Raw nat | Generalized

datatype token_kind =
    T_Ident | T_Underscore | T_Int | T_Float | T_Char
  | T_Kw keyword
  | T_Punct punctuation
  | T_PoundBracket | T_PoundBangBracket
  | T_Term
  | T_StrBegin str_kind
  | T_StrFragment | T_InterpOpen | T_InterpClose | T_FormatSpecBegin
  | T_StrEnd nat
  | T_Error
  | T_Eof

definition ends_statement :: "token_kind \<Rightarrow> bool" where
  "ends_statement k =
     (case k of
        T_Ident \<Rightarrow> True | T_Underscore \<Rightarrow> True | T_Int \<Rightarrow> True | T_Float \<Rightarrow> True | T_Char \<Rightarrow> True
      | T_StrEnd _ \<Rightarrow> True
      | T_Kw kw \<Rightarrow> kw \<in> {Kw_True, Kw_False, Kw_Return, Kw_Break, Kw_Continue}
      | T_Punct p \<Rightarrow> p \<in> {P_RParen, P_RBracket, P_RBrace, P_Question}
      | _ \<Rightarrow> False)"

datatype trivia_kind = Whitespace | LineComment | DocComment | InnerDocComment | Bom | Shebang

record trivia =
  tv_kind :: trivia_kind
  tv_span :: span

record token =
  tk_kind :: token_kind
  tk_span :: span
  tk_leading :: "trivia list"
  tk_trailing :: "trivia list"

record 'p lexed =
  lexed_tokens :: "token list"
  lexed_diagnostics :: "'p diagnostic list"

definition lexed_has_errors :: "'p lexed \<Rightarrow> bool" where
  "lexed_has_errors l = list_ex (\<lambda>d. d_severity d = Error) (lexed_diagnostics l)"

definition span_text :: "bytes \<Rightarrow> span \<Rightarrow> bytes" where
  "span_text src s = slice (sp_lo s) (sp_hi s) src"

definition token_spans :: "token \<Rightarrow> span list" where
  "token_spans t = map tv_span (tk_leading t) @ [tk_span t] @ map tv_span (tk_trailing t)"

definition reassemble :: "bytes \<Rightarrow> 'p lexed \<Rightarrow> bytes" where
  "reassemble src l = concat (map (\<lambda>t. concat (map (span_text src) (token_spans t))) (lexed_tokens l))"

section \<open>Context frames\<close>

text \<open>The frame stack is a list with its top at the head.\<close>

record str_frame =
  sf_kind :: str_kind
  sf_open_lo :: nat
  sf_content_lo :: nat

datatype frame = Paren | Bracket bool | Brace | Interp bool | StrF str_frame

section \<open>The keyword table\<close>

lemma KEYWORDS_sorted: "sorted_wrt (<) (map fst KEYWORDS)"
  unfolding KEYWORDS_def by code_simp

lemma map_of_index:
  "distinct (map fst xs) \<Longrightarrow> i < length xs \<Longrightarrow> map_of xs (fst (xs ! i)) = Some (snd (xs ! i))"
  by (auto simp: map_of_eq_Some_iff in_set_conv_nth)

lemma keyword_of_map_of: "keyword_of text = map_of KEYWORDS text"
proof -
  let ?f = "\<lambda>i. cmp_of (fst (KEYWORDS ! i)) text"
  have sorted: "sorted_wrt (\<lambda>a b. fst a < fst b) KEYWORDS"
    using KEYWORDS_sorted by (simp add: sorted_wrt_map)
  then have sc: "sorted_cmp ?f (length KEYWORDS)"
    unfolding sorted_cmp_def sorted_wrt_iff_nth_less by (simp, meson order.strict_trans)
  have dist: "distinct (map fst KEYWORDS)"
    using KEYWORDS_sorted strict_sorted_iff by blast
  show ?thesis
  proof (cases "binary_search_by ?f (length KEYWORDS)")
    case (Inr i)
    from binary_search_by_Inr [OF sc Inr] have "i < length KEYWORDS" "fst (KEYWORDS ! i) = text" by auto
    then show ?thesis using Inr map_of_index [OF dist] by (auto simp: keyword_of_def)
  next
    case (Inl k)
    have no: "fst (KEYWORDS ! i) \<noteq> text" if "i < length KEYWORDS" for i
      using binary_search_by_Inl(2,3) [OF sc Inl, of i] that by (cases "i < k") auto
    have "text \<noteq> fst e" if "e \<in> set KEYWORDS" for e
      using that no by (auto simp: in_set_conv_nth)
    then have "map_of KEYWORDS text = None"
      unfolding map_of_eq_None_iff by blast
    then show ?thesis using Inl by (simp add: keyword_of_def)
  qed
qed

section \<open>The punctuation table\<close>

lemma PUNCTS_by_length: "sorted_wrt (\<lambda>a b. length (fst b) \<le> length (fst a)) PUNCTS"
  unfolding PUNCTS_def by code_simp

lemma PUNCTS_nonempty: "e \<in> set PUNCTS \<Longrightarrow> fst e \<noteq> []"
  unfolding PUNCTS_def by auto

lemma find_sorted_max:
  assumes "sorted_wrt (\<lambda>a b. m b \<le> (m a :: nat)) xs" "find P xs = Some x" "y \<in> set xs" "P y"
  shows "m y \<le> m x"
  using assms by (induction xs) (auto split: if_splits)

text \<open>
  The binary search over the keyword table is exact: a text is classified as a keyword iff the
  table lists it, with the table's keyword, and all fifty entries are found.
\<close>

theorem keyword_lookup_exact:
  "(keyword_of text = Some k \<longleftrightarrow> (text, k) \<in> set KEYWORDS) \<and> length KEYWORDS = 50"
proof -
  have "distinct (map fst KEYWORDS)" using KEYWORDS_sorted strict_sorted_iff by blast
  moreover have "length KEYWORDS = 50" by (simp add: KEYWORDS_def)
  ultimately show ?thesis by (simp add: keyword_of_map_of)
qed

end
