(* ===== verification/Lex_Utf8.thy ===== *)
theory Lex_Utf8
  imports Wolf_Prelude
begin

text \<open>
  UTF-8 as the lexer sees it: \<open>std::str::from_utf8\<close> (validation with \<open>valid_up_to\<close> and
  \<open>error_len\<close>), the lexer's \<open>decode\<close> of one character (\<^verbatim>\<open>crates/wolf_lex/src/lexer.rs\<close>), and the
  character classes it asks for. A Rust \<open>char\<close> is its scalar value, a \<open>nat\<close>. The \<open>XID\<close> classes come
  from the crate \<open>unicode_ident\<close>, which is not part of the repository: they are the record \<open>xid\<close>
  passed to the definitions that use them.
\<close>

section \<open>Validation\<close>

text \<open>
  One step of \<open>from_utf8\<close>: a scalar and its width, an invalid sequence with its \<open>error_len\<close>, or a
  sequence cut off by the end of the input (\<open>error_len\<close> is then \<open>None\<close>).
\<close>

datatype utf8_step = U_char nat nat | U_bad nat | U_cut

definition is_cont :: "nat \<Rightarrow> bool" where
  "is_cont b \<longleftrightarrow> 0x80 \<le> b \<and> b \<le> 0xBF"

definition second_ok :: "nat \<Rightarrow> nat \<Rightarrow> bool" where
  "second_ok b0 b1 =
     (if b0 = 0xE0 then 0xA0 \<le> b1 \<and> b1 \<le> 0xBF
      else if b0 = 0xED then 0x80 \<le> b1 \<and> b1 \<le> 0x9F
      else if b0 = 0xF0 then 0x90 \<le> b1 \<and> b1 \<le> 0xBF
      else if b0 = 0xF4 then 0x80 \<le> b1 \<and> b1 \<le> 0x8F
      else is_cont b1)"

fun utf8_first :: "nat list \<Rightarrow> utf8_step" where
  "utf8_first [] = U_cut"
| "utf8_first (b0 # bs) =
     (if b0 < 0x80 then U_char b0 1
      else if 0xC2 \<le> b0 \<and> b0 \<le> 0xDF then
        (case bs of
           [] \<Rightarrow> U_cut
         | b1 # _ \<Rightarrow> if is_cont b1 then U_char ((b0 - 0xC0) * 64 + (b1 - 0x80)) 2 else U_bad 1)
      else if 0xE0 \<le> b0 \<and> b0 \<le> 0xEF then
        (case bs of
           [] \<Rightarrow> U_cut
         | b1 # bs' \<Rightarrow>
             if \<not> second_ok b0 b1 then U_bad 1
             else (case bs' of
                     [] \<Rightarrow> U_cut
                   | b2 # _ \<Rightarrow>
                       if is_cont b2
                       then U_char ((b0 - 0xE0) * 4096 + (b1 - 0x80) * 64 + (b2 - 0x80)) 3
                       else U_bad 2))
      else if 0xF0 \<le> b0 \<and> b0 \<le> 0xF4 then
        (case bs of
           [] \<Rightarrow> U_cut
         | b1 # bs' \<Rightarrow>
             if \<not> second_ok b0 b1 then U_bad 1
             else (case bs' of
                     [] \<Rightarrow> U_cut
                   | b2 # bs'' \<Rightarrow>
                       if \<not> is_cont b2 then U_bad 2
                       else (case bs'' of
                               [] \<Rightarrow> U_cut
                             | b3 # _ \<Rightarrow>
                                 if is_cont b3
                                 then U_char ((b0 - 0xF0) * 262144 + (b1 - 0x80) * 4096
                                              + (b2 - 0x80) * 64 + (b3 - 0x80)) 4
                                 else U_bad 3)))
      else U_bad 1)"

text \<open>\<open>Utf8_ok\<close> carries the scalars; \<open>Utf8_err\<close> is \<open>(valid_up_to, error_len)\<close>.\<close>

datatype utf8_result = Utf8_ok "nat list" | Utf8_err nat "nat option"

lemma utf8_first_width:
  "utf8_first bs = U_char c n \<Longrightarrow> 1 \<le> n \<and> n \<le> length bs \<and> n \<le> 4"
  "utf8_first bs = U_bad n \<Longrightarrow> 1 \<le> n \<and> n \<le> length bs \<and> n \<le> 3"
  by (cases bs; auto split: if_splits list.splits)+

function from_utf8_at :: "nat \<Rightarrow> nat list \<Rightarrow> utf8_result" where
  "from_utf8_at up bs =
     (if bs = [] then Utf8_ok []
      else case utf8_first bs of
             U_char c n \<Rightarrow>
               (case from_utf8_at (up + n) (drop n bs) of
                  Utf8_ok cs \<Rightarrow> Utf8_ok (c # cs)
                | Utf8_err v e \<Rightarrow> Utf8_err v e)
           | U_bad e \<Rightarrow> Utf8_err up (Some e)
           | U_cut \<Rightarrow> Utf8_err up None)"
  by pat_completeness auto
termination
  by (relation "measure (\<lambda>(up, bs). length bs)") (auto dest: utf8_first_width)

declare from_utf8_at.simps [simp del]

definition from_utf8 :: "bytes \<Rightarrow> utf8_result" where
  "from_utf8 bs = from_utf8_at 0 (map of_char bs)"

text \<open>\<open>char::len_utf8\<close>.\<close>

definition len_utf8 :: "nat \<Rightarrow> nat" where
  "len_utf8 c = (if c < 0x80 then 1 else if c < 0x800 then 2 else if c < 0x10000 then 3 else 4)"

section \<open>Decoding one character\<close>

datatype decoded = D_Char nat nat | D_Invalid nat | D_Eof

definition decode :: "bytes \<Rightarrow> nat \<Rightarrow> decoded" where
  "decode src at =
     (case byte_at src at of
        None \<Rightarrow> D_Eof
      | Some b \<Rightarrow>
          if byte_val b < 0x80 then D_Char (byte_val b) 1
          else
            let chunk = slice at (min (length src) (at + 4)) src
            in case from_utf8 chunk of
                 Utf8_ok cs \<Rightarrow> (case cs of c # _ \<Rightarrow> D_Char c (len_utf8 c) | [] \<Rightarrow> D_Invalid 1)
               | Utf8_err up e \<Rightarrow>
                   if 0 < up then
                     (case from_utf8 (take up chunk) of
                        Utf8_ok (c # _) \<Rightarrow> D_Char c (len_utf8 c)
                      | _ \<Rightarrow> D_Invalid 1)
                   else D_Invalid (max 1 (case e of Some n \<Rightarrow> n | None \<Rightarrow> length chunk)))"

section \<open>Character classes\<close>

record xid =
  xid_start :: "nat \<Rightarrow> bool"
  xid_continue :: "nat \<Rightarrow> bool"

definition is_inline_ws :: "byte \<Rightarrow> bool" where
  "is_inline_ws b \<longleftrightarrow> byte_val b \<in> {0x20, 0x09, 0x0D, 0x0B, 0x0C}"

definition is_alpha :: "byte \<Rightarrow> bool" where
  "is_alpha b \<longleftrightarrow> 97 \<le> byte_val b \<and> byte_val b \<le> 122 \<or> 65 \<le> byte_val b \<and> byte_val b \<le> 90"

definition is_alnum :: "byte \<Rightarrow> bool" where
  "is_alnum b \<longleftrightarrow> is_alpha b \<or> is_digit b"

definition hex_digit :: "byte \<Rightarrow> nat option" where
  "hex_digit b =
     (if is_digit b then Some (byte_val b - 48)
      else if 97 \<le> byte_val b \<and> byte_val b \<le> 102 then Some (byte_val b - 87)
      else if 65 \<le> byte_val b \<and> byte_val b \<le> 70 then Some (byte_val b - 55)
      else None)"

definition is_hexdigit :: "byte \<Rightarrow> bool" where
  "is_hexdigit b \<longleftrightarrow> hex_digit b \<noteq> None"

text \<open>\<open>char::is_digit(radix)\<close> for the radices the lexer uses.\<close>

definition is_radix_digit :: "nat \<Rightarrow> byte \<Rightarrow> bool" where
  "is_radix_digit radix b = (case hex_digit b of Some v \<Rightarrow> v < radix | None \<Rightarrow> False)"

text \<open>\<open>u32::from_str_radix(s, 16)\<close> on unsigned text.\<close>

definition parse_hex :: "bytes \<Rightarrow> nat option" where
  "parse_hex s =
     (let ds = (case s of [] \<Rightarrow> [] | c # cs \<Rightarrow> if c = CHR ''+'' then cs else s)
      in if ds = [] \<or> \<not> list_all is_hexdigit ds then None
         else let v = foldl (\<lambda>v d. 16 * v + the (hex_digit d)) 0 ds
              in if v \<le> u32_max then Some v else None)"

text \<open>\<open>char::is_whitespace\<close>: the Unicode \<open>White_Space\<close> scalars.\<close>

definition is_whitespace :: "nat \<Rightarrow> bool" where
  "is_whitespace c \<longleftrightarrow>
     c = 0x20 \<or> 0x09 \<le> c \<and> c \<le> 0x0D \<or> c = 0x85 \<or> c = 0xA0 \<or> c = 0x1680
     \<or> 0x2000 \<le> c \<and> c \<le> 0x200A \<or> c = 0x2028 \<or> c = 0x2029 \<or> c = 0x202F \<or> c = 0x205F \<or> c = 0x3000"

text \<open>\<open>char::from_u32\<close> succeeds exactly on the Unicode scalar values.\<close>

definition is_scalar :: "nat \<Rightarrow> bool" where
  "is_scalar v \<longleftrightarrow> v < 0xD800 \<or> 0xE000 \<le> v \<and> v \<le> 0x10FFFF"

section \<open>What decode returns\<close>

lemma from_utf8_Nil [simp]: "from_utf8_at up [] = Utf8_ok []"
  by (simp add: from_utf8_at.simps)

lemma utf8_first_cases:
  assumes "utf8_first bs = U_char c n"
  obtains (one) b0 where "b0 < 0x80" "c = b0" "n = 1"
  | (two) x y where "2 \<le> x" "x \<le> 31" "y \<le> 63" "c = x * 64 + y" "n = 2"
  | (three) x y z where "x \<le> 15" "y \<le> 63" "z \<le> 63" "x = 0 \<longrightarrow> 32 \<le> y" "x = 13 \<longrightarrow> y \<le> 31"
      "c = x * 4096 + y * 64 + z" "n = 3"
  | (four) x y z w where "x \<le> 4" "y \<le> 63" "z \<le> 63" "w \<le> 63" "x = 0 \<longrightarrow> 16 \<le> y" "x = 4 \<longrightarrow> y \<le> 15"
      "c = x * 262144 + y * 4096 + z * 64 + w" "n = 4"
proof -
  obtain b0 bs' where bs: "bs = b0 # bs'" using assms by (cases bs) auto
  consider "b0 < 0x80" | "0xC2 \<le> b0" "b0 \<le> 0xDF" | "0xE0 \<le> b0" "b0 \<le> 0xEF" | "0xF0 \<le> b0" "b0 \<le> 0xF4"
    using assms unfolding bs by (auto split: if_splits)
  then show thesis
  proof cases
    case 1
    then show thesis using assms one unfolding bs by simp
  next
    case 2
    then obtain b1 bs1 where b1: "bs' = b1 # bs1" "is_cont b1" "c = (b0 - 0xC0) * 64 + (b1 - 0x80)" "n = 2"
      using assms unfolding bs by (auto split: if_splits list.splits)
    show thesis by (rule two [of "b0 - 0xC0" "b1 - 0x80"]) (use 2 b1 in \<open>auto simp: is_cont_def\<close>)
  next
    case 3
    then obtain b1 b2 bs2 where b: "bs' = b1 # b2 # bs2" "second_ok b0 b1" "is_cont b2"
        "c = (b0 - 0xE0) * 4096 + (b1 - 0x80) * 64 + (b2 - 0x80)" "n = 3"
      using assms unfolding bs by (auto split: if_splits list.splits)
    show thesis
      by (rule three [of "b0 - 0xE0" "b1 - 0x80" "b2 - 0x80"])
        (use 3 b in \<open>auto simp: is_cont_def second_ok_def split: if_splits\<close>)
  next
    case 4
    then obtain b1 b2 b3 bs3 where b: "bs' = b1 # b2 # b3 # bs3" "second_ok b0 b1" "is_cont b2" "is_cont b3"
        "c = (b0 - 0xF0) * 262144 + (b1 - 0x80) * 4096 + (b2 - 0x80) * 64 + (b3 - 0x80)" "n = 4"
      using assms unfolding bs by (auto split: if_splits list.splits)
    show thesis
      by (rule four [of "b0 - 0xF0" "b1 - 0x80" "b2 - 0x80" "b3 - 0x80"])
        (use 4 b in \<open>auto simp: is_cont_def second_ok_def split: if_splits\<close>)
  qed
qed

lemma utf8_first_scalar:
  assumes "utf8_first bs = U_char c n" shows "is_scalar c \<and> len_utf8 c = n"
  using assms
proof (cases rule: utf8_first_cases)
  case (three x y z)
  have "x = 0 \<or> 1 \<le> x \<and> x \<le> 12 \<or> x = 13 \<or> 14 \<le> x" by linarith
  then have "c < 0xD800 \<or> 0xE000 \<le> c" "0x800 \<le> c" "c < 0x10000" using three by auto
  then show ?thesis using three(7) by (auto simp: is_scalar_def len_utf8_def)
next
  case (four x y z w)
  have "x = 0 \<or> 1 \<le> x \<and> x \<le> 3 \<or> x = 4" using four(1) by linarith
  then have "0x10000 \<le> c" "c \<le> 0x10FFFF" using four by auto
  then show ?thesis using four(8) by (auto simp: is_scalar_def len_utf8_def)
qed (auto simp: is_scalar_def len_utf8_def)

text \<open>Truncating to the first character does not change it.\<close>

lemma utf8_first_take: "utf8_first bs = U_char c n \<Longrightarrow> n \<le> m \<Longrightarrow> utf8_first (take m bs) = U_char c n"
proof -
  assume a: "utf8_first bs = U_char c n" and m: "n \<le> m"
  then obtain b0 bs' where bs: "bs = b0 # bs'" by (cases bs) auto
  from a have "1 \<le> n" by (auto dest: utf8_first_width)
  with m obtain m' where m': "m = Suc m'" by (cases m) auto
  have "m' = 0 \<or> m' = 1 \<or> m' = 2 \<or> (\<exists>k. m' = Suc (Suc (Suc k)))" by presburger
  with a m show ?thesis unfolding bs m' 
    by (auto split: if_splits list.splits simp: take_Suc_conv_app_nth numeral_2_eq_2)
qed

lemma from_utf8_valid_prefix:
  "from_utf8_at up bs = Utf8_err v e \<Longrightarrow> up \<le> v \<and> (\<forall>up'. \<exists>cs. from_utf8_at up' (take (v - up) bs) = Utf8_ok cs)"
proof (induction up bs arbitrary: v rule: from_utf8_at.induct)
  case (1 up bs)
  then have ne: "bs \<noteq> []" by (auto simp: from_utf8_at.simps [of up bs])
  show ?case
  proof (cases "utf8_first bs")
    case (U_char c n)
    with "1.prems" ne have rec: "from_utf8_at (up + n) (drop n bs) = Utf8_err v e"
      by (auto simp: from_utf8_at.simps [of up bs] split: utf8_result.splits)
    have v: "up + n \<le> v" and pre: "\<exists>cs. from_utf8_at up' (take (v - (up + n)) (drop n bs)) = Utf8_ok cs" for up'
      using "1.IH" [OF ne U_char rec] by auto
    have n: "1 \<le> n" "n \<le> length bs" using utf8_first_width(1) [OF U_char] by auto
    have first: "utf8_first (take (v - up) bs) = U_char c n"
      using v by (intro utf8_first_take [OF U_char]) simp
    have dr: "drop n (take (v - up) bs) = take (v - (up + n)) (drop n bs)"
      by (simp add: drop_take add.commute)
    have "\<exists>cs. from_utf8_at up' (take (v - up) bs) = Utf8_ok cs" for up'
    proof -
      obtain cs where "from_utf8_at (up' + n) (take (v - (up + n)) (drop n bs)) = Utf8_ok cs"
        using pre by blast
      then show ?thesis
        using ne v n first by (auto simp: from_utf8_at.simps [of up' "take (v - up) bs"] dr)
    qed
    then show ?thesis using v by auto
  next
    case (U_bad e')
    with "1.prems" ne show ?thesis by (auto simp: from_utf8_at.simps [of up bs])
  next
    case U_cut
    with "1.prems" ne show ?thesis by (auto simp: from_utf8_at.simps [of up bs])
  qed
qed

lemma from_utf8_first_ok:
  "from_utf8_at up bs = Utf8_ok cs \<Longrightarrow> bs \<noteq> [] \<Longrightarrow> \<exists>c n cs'. utf8_first bs = U_char c n \<and> cs = c # cs'"
  by (auto simp: from_utf8_at.simps [of up bs] split: utf8_step.splits utf8_result.splits)

lemma from_utf8_first_err:
  "from_utf8_at up bs = Utf8_err v e \<Longrightarrow>
   (\<exists>c n. utf8_first bs = U_char c n \<and> up + n \<le> v) \<or>
   v = up \<and> (utf8_first bs = U_cut \<and> e = None \<or> (\<exists>n. utf8_first bs = U_bad n \<and> e = Some n))"
  using from_utf8_valid_prefix
  by (fastforce simp: from_utf8_at.simps [of up bs] split: if_splits utf8_step.splits utf8_result.splits)

text \<open>
  The lexer's \<open>decode\<close> reads one step of the validator from the window of four bytes: the detour over
  \<open>valid_up_to\<close> finds the same first character as the plain validator.
\<close>

lemma decode_first:
  assumes "at < length src"
  defines "w \<equiv> map of_char (take 4 (drop at src)) :: nat list"
  shows "decode src at =
    (case utf8_first w of
       U_char c n \<Rightarrow> D_Char c n
     | U_bad n \<Rightarrow> D_Invalid n
     | U_cut \<Rightarrow> D_Invalid (length w))"
proof -
  have chunk: "slice at (min (length src) (at + 4)) src = take 4 (drop at src)"
    using assms(1) by (simp add: slice_def min_def)
  have wne: "w \<noteq> []" using assms(1) by (simp add: w_def)
  have w0: "w ! 0 = byte_val (src ! at)" using assms(1) by (simp add: w_def)
  show ?thesis
  proof (cases "byte_val (src ! at) < 0x80")
    case True
    moreover have "utf8_first w = U_char (byte_val (src ! at)) 1"
      using True w0 wne by (cases w) auto
    ultimately show ?thesis using assms(1) by (simp add: decode_def byte_at_def)
  next
    case False
    have d: "decode src at =
      (case from_utf8_at 0 w of
         Utf8_ok cs \<Rightarrow> (case cs of c # _ \<Rightarrow> D_Char c (len_utf8 c) | [] \<Rightarrow> D_Invalid 1)
       | Utf8_err up e \<Rightarrow>
           if 0 < up then
             (case from_utf8_at 0 (take up w) of
                Utf8_ok (c # _) \<Rightarrow> D_Char c (len_utf8 c)
              | _ \<Rightarrow> D_Invalid 1)
           else D_Invalid (max 1 (case e of Some n \<Rightarrow> n | None \<Rightarrow> length w)))"
    proof -
      have "from_utf8 (take up (take 4 (drop at src))) = from_utf8_at 0 (take up w)" for up
        by (simp only: from_utf8_def w_def take_map)
      moreover have "from_utf8 (take 4 (drop at src)) = from_utf8_at 0 w" "length w = length (take 4 (drop at src))"
        by (simp_all only: from_utf8_def w_def length_map)
      ultimately show ?thesis
        using assms(1) False by (simp only: decode_def byte_at_def Let_def chunk if_True if_False option.case)
    qed
    show ?thesis
    proof (cases "from_utf8_at 0 w")
      case (Utf8_ok cs)
      then show ?thesis
        using from_utf8_first_ok [OF Utf8_ok wne] d utf8_first_scalar by fastforce
    next
      case (Utf8_err v e)
      from from_utf8_first_err [OF Utf8_err] show ?thesis
      proof (elim disjE exE conjE)
        fix c n assume cn: "utf8_first w = U_char c n" "0 + n \<le> v"
        then have n: "0 < v" using utf8_first_width(1) [OF cn(1)] by simp
        obtain cs where cs: "from_utf8_at 0 (take v w) = Utf8_ok cs"
          using from_utf8_valid_prefix [OF Utf8_err] by force
        moreover have "utf8_first (take v w) = U_char c n" using utf8_first_take [OF cn(1)] cn(2) by simp
        ultimately obtain cs' where "cs = c # cs'"
          using from_utf8_first_ok [OF cs] wne n by auto
        then show ?thesis using d Utf8_err n cs cn utf8_first_scalar [OF cn(1)] by simp
      next
        assume "v = 0" "utf8_first w = U_cut" "e = None"
        then show ?thesis using d Utf8_err wne by (cases w) simp_all
      next
        fix n assume "v = 0" "utf8_first w = U_bad n" "e = Some n"
        then show ?thesis using d Utf8_err utf8_first_width(2) [of w n] by simp
      qed
    qed
  qed
qed

lemma decode_Eof: "decode src at = D_Eof \<longleftrightarrow> length src \<le> at"
proof (cases "at < length src")
  case True
  then show ?thesis unfolding decode_first [OF True] by (auto split: utf8_step.splits)
next
  case False
  then show ?thesis by (simp add: decode_def byte_at_def)
qed

text \<open>Every decoded step is at least one byte and stays inside the buffer.\<close>

lemma decode_Char_bounds: "decode src at = D_Char c n \<Longrightarrow> 1 \<le> n \<and> at + n \<le> length src \<and> is_scalar c"
proof -
  assume a: "decode src at = D_Char c n"
  then have l: "at < length src" using decode_Eof [of src at] by force
  from a show ?thesis
    unfolding decode_first [OF l]
    using utf8_first_width(1) [of "map of_char (take 4 (drop at src))" c n] utf8_first_scalar l
    by (auto split: utf8_step.splits)
qed

lemma decode_Invalid_bounds: "decode src at = D_Invalid n \<Longrightarrow> 1 \<le> n \<and> at + n \<le> length src"
proof -
  assume a: "decode src at = D_Invalid n"
  then have l: "at < length src" using decode_Eof [of src at] by force
  from a show ?thesis
    unfolding decode_first [OF l]
    using utf8_first_width(2) [of "map of_char (take 4 (drop at src))" n] l
    by (auto split: utf8_step.splits)
qed

lemma decode_ascii: "at < length src \<Longrightarrow> byte_val (src ! at) < 0x80 \<Longrightarrow> decode src at = D_Char (byte_val (src ! at)) 1"
  by (simp add: decode_def byte_at_def)

end
