(* ===== verification/Lex_State.thy ===== *)
theory Lex_State
  imports Lex_Token Lex_Utf8
begin

text \<open>
  The engine's state and plumbing, \<^verbatim>\<open>crates/wolf_lex/src/lexer.rs\<close>: the \<open>Lexer\<close> struct as a record,
  \<open>emit\<close>, \<open>push_trivia\<close>, the nesting rail, the terminator decision (\<open>term_due\<close>, \<open>else_follows\<close>), the
  escape scanner and every diagnostic the lexer builds.

  The text of a message, label or note is a \<open>prose\<close> value: a key naming the literal of the source,
  and the values its \<open>format!\<close> inserts; codes, spans, severities and the edits of
  suggestions are modelled in full.
\<close>

section \<open>Prose\<close>

datatype prose = Prose string "nat list"

section \<open>The state\<close>

record lexer =
  lsrc :: bytes
  lfile :: file_id
  pos :: nat
  tokens :: "token list"
  diags :: "prose diagnostics"
  frames :: "frame list"
  pending :: "trivia list"
  line_broken :: bool
  attr_close :: bool

definition lexer_init :: "file_id \<Rightarrow> bytes \<Rightarrow> lexer" where
  "lexer_init f s =
     \<lparr>lsrc = s, lfile = f, pos = 0, tokens = [], diags = Diagnostics_new, frames = [], pending = [],
      line_broken = True, attr_close = False\<rparr>"

definition peek :: "lexer \<Rightarrow> nat \<Rightarrow> byte option" where
  "peek st off = byte_at (lsrc st) (pos st + off)"

definition mk_span :: "lexer \<Rightarrow> nat \<Rightarrow> nat \<Rightarrow> span" where
  "mk_span st lo hi = \<lparr>sp_file = lfile st, sp_lo = as_u32 lo, sp_hi = as_u32 hi\<rparr>"

definition emit :: "token_kind \<Rightarrow> nat \<Rightarrow> nat \<Rightarrow> lexer \<Rightarrow> lexer" where
  "emit k lo hi st =
     st\<lparr>pending := [],
        tokens := tokens st @ [\<lparr>tk_kind = k, tk_span = mk_span st lo hi, tk_leading = pending st, tk_trailing = []\<rparr>],
        line_broken := False, attr_close := False\<rparr>"

definition push_diag :: "prose diagnostic \<Rightarrow> lexer \<Rightarrow> lexer" where
  "push_diag d st = st\<lparr>diags := dg_push d (diags st)\<rparr>"

definition push_trailing :: "trivia \<Rightarrow> token list \<Rightarrow> token list" where
  "push_trailing piece ts = butlast ts @ [(last ts)\<lparr>tk_trailing := tk_trailing (last ts) @ [piece]\<rparr>]"

definition push_trivia :: "trivia_kind \<Rightarrow> nat \<Rightarrow> nat \<Rightarrow> lexer \<Rightarrow> lexer" where
  "push_trivia kind lo hi st =
     (if lo = hi then st
      else
        let piece = \<lparr>tv_kind = kind, tv_span = mk_span st lo hi\<rparr>
        in if tokens st \<noteq> [] \<and> \<not> line_broken st
           then st\<lparr>tokens := push_trailing piece (tokens st)\<rparr>
           else st\<lparr>pending := pending st @ [piece]\<rparr>)"

definition is_nest :: "frame \<Rightarrow> bool" where
  "is_nest f = (case f of StrF _ \<Rightarrow> True | Interp _ \<Rightarrow> True | _ \<Rightarrow> False)"

definition nest_depth :: "frame list \<Rightarrow> nat" where
  "nest_depth fs = length (filter is_nest fs)"

definition push_frame :: "frame \<Rightarrow> lexer \<Rightarrow> lexer" where
  "push_frame f st = st\<lparr>frames := f # frames st\<rparr>"

definition pop_frame :: "lexer \<Rightarrow> lexer" where
  "pop_frame st = st\<lparr>frames := tl (frames st)\<rparr>"

definition advance :: "nat \<Rightarrow> lexer \<Rightarrow> lexer" where
  "advance n st = st\<lparr>pos := pos st + n\<rparr>"

section \<open>Lookahead\<close>

text \<open>\<open>else_follows\<close>: skip inline whitespace, newlines and \<open>//\<close> comments.\<close>

abbreviation nl :: byte where
  "nl \<equiv> CHR 0x0A"

function skip_blank :: "bytes \<Rightarrow> nat \<Rightarrow> nat" where
  "skip_blank s i =
     (case byte_at s i of
        None \<Rightarrow> i
      | Some b \<Rightarrow>
          if b = nl then skip_blank s (i + 1)
          else if is_inline_ws b then skip_blank s (i + 1)
          else if b = CHR ''/'' \<and> byte_at s (i + 1) = Some (CHR ''/'')
               then skip_blank s (skip_while (\<lambda>b. b \<noteq> nl) s i)
          else i)"
  by pat_completeness auto
termination
  by (relation "measure (\<lambda>(s, i). length s - i)")
    (auto simp: byte_at_Some diff_less_mono2 skip_while_gt)

declare skip_blank.simps [simp del]

definition else_follows :: "bytes \<Rightarrow> nat \<Rightarrow> bool" where
  "else_follows s at =
     (let i = skip_blank s at
      in starts_with_at s i ''else'' \<and>
         \<not> (case byte_at s (i + 4) of
              None \<Rightarrow> False
            | Some b \<Rightarrow> is_alnum b \<or> b = CHR ''_'' \<or> 0x80 \<le> byte_val b))"

definition term_due :: "lexer \<Rightarrow> bool" where
  "term_due st =
     (if attr_close st then False
      else case frames st of
             Paren # _ \<Rightarrow> False
           | Bracket _ # _ \<Rightarrow> False
           | Interp _ # _ \<Rightarrow> False
           | _ \<Rightarrow> tokens st \<noteq> [] \<and> ends_statement (tk_kind (last (tokens st))) \<and>
                  \<not> else_follows (lsrc st) (pos st))"

definition BOM :: bytes where
  "BOM = [CHR 0xEF, CHR 0xBB, CHR 0xBF]"

definition at_file_start :: "lexer \<Rightarrow> bool" where
  "at_file_start st \<longleftrightarrow> pos st = 0 \<or> pos st = length BOM \<and> starts_with_at (lsrc st) 0 BOM"

section \<open>Escapes\<close>

text \<open>\<open>Inr n\<close>: a valid escape of \<open>n\<close> bytes at \<open>pos\<close>; \<open>Inl (n, msg)\<close>: an invalid one.\<close>

definition hex_at :: "lexer \<Rightarrow> nat \<Rightarrow> bool" where
  "hex_at st off = (case peek st off of None \<Rightarrow> False | Some b \<Rightarrow> is_hexdigit b)"

definition escape_len :: "lexer \<Rightarrow> (nat \<times> prose) + nat" where
  "escape_len st =
     (case peek st 1 of
        None \<Rightarrow> Inl (1, (Prose ''Esc_at_eof'' []))
      | Some b \<Rightarrow>
          if b \<in> set ''ntr'' \<or> b = CHR 0x5C \<or> b = CHR 0x22 \<or> b = CHR ''0'' then Inr 2
          else if b = CHR ''x'' then
            (if hex_at st 2 \<and> hex_at st 3 then Inr 4
             else Inl (2 + (if hex_at st 2 then 1 else 0), (Prose ''Esc_hex_two'' [])))
          else if b = CHR ''u'' then
            (if peek st 2 \<noteq> Some (CHR ''{'') then Inl (2, (Prose ''Esc_u_form'' []))
             else
               let i = skip_while is_hexdigit (lsrc st) (pos st + 3) - pos st; digits = i - 3
               in if peek st i = Some (CHR ''}'') \<and> 1 \<le> digits \<and> digits \<le> 6 then Inr (i + 1)
                  else Inl (i + (if peek st i = Some (CHR ''}'') then 1 else 0), (Prose ''Esc_u_digits'' [])))
          else
            (case decode (lsrc st) (pos st + 1) of
               D_Char c n \<Rightarrow> Inl (1 + n, (Prose ''Esc_none'' [c]))
             | _ \<Rightarrow> Inl (1, (Prose ''Esc_unrecognized'' []))))"

definition char_escape_len :: "lexer \<Rightarrow> (nat \<times> prose) + (nat \<times> nat option)" where
  "char_escape_len st =
     (if peek st 1 = Some (CHR 0x27) then Inr (2, None)
      else case escape_len st of
             Inl e \<Rightarrow> Inl e
           | Inr n \<Rightarrow>
               Inr (n, if peek st 1 = Some (CHR ''x'')
                       then parse_hex (slice (pos st + 2) (pos st + n) (lsrc st))
                       else if peek st 1 = Some (CHR ''u'')
                       then parse_hex (slice (pos st + 3) (pos st + n - 1) (lsrc st))
                       else None))"

section \<open>Diagnostics\<close>

definition nest_diag :: "nat \<Rightarrow> nat \<Rightarrow> lexer \<Rightarrow> lexer" where
  "nest_diag lo hi st =
     push_diag (with_note (Prose ''Nest_note'' []) (with_label (Prose ''Nest_level'' [MAX_NEST + 1])
       (Diagnostic_error ''E0108'' (mk_span st lo hi) (Prose ''Nest_too_deep'' [MAX_NEST])))) st"

definition escape_diag :: "nat \<Rightarrow> nat \<Rightarrow> prose \<Rightarrow> lexer \<Rightarrow> lexer" where
  "escape_diag lo hi msg st =
     push_diag (with_note (Prose ''Esc_note'' []) (Diagnostic_error ''E0101'' (mk_span st lo hi) msg)) st"

definition lone_brace_diag :: "nat \<Rightarrow> lexer \<Rightarrow> lexer" where
  "lone_brace_diag lo st =
     (let span = mk_span st lo (lo + 1)
      in push_diag (with_suggestion (Suggestion_new (Prose ''Lone_brace_fix'' []) [(span, ''}}'')] MachineApplicable)
           (with_label (Prose ''Lone_brace_label'' []) (Diagnostic_error ''E0107'' span (Prose ''Lone_brace'' [])))) st)"

definition unterminated_here :: "str_frame \<Rightarrow> lexer \<Rightarrow> lexer" where
  "unterminated_here f st =
     (let at = pos st; span = mk_span st (sf_open_lo f) at; insert_at = mk_span st at at;
          st = push_diag
                 (with_suggestion (Suggestion_new (Prose ''Str_close_fix'' []) [(insert_at, [CHR 0x22])] Maybe)
                   (with_note (Prose ''Str_eol_note'' [])
                     (with_label (Prose ''Str_runs_to_eol'' []) (Diagnostic_error ''E0102'' span (Prose ''Str_never_closes'' []))))) st
      in pop_frame (emit (T_StrEnd 0) at at st))"

section \<open>The bare brace\<close>

fun plain_interp_in :: "bool \<Rightarrow> frame list \<Rightarrow> str_frame option" where
  "plain_interp_in seen [] = None"
| "plain_interp_in seen (Interp _ # fs) = plain_interp_in True fs"
| "plain_interp_in seen (StrF s # fs) = (if seen \<and> sf_kind s = Plain then Some s else None)"
| "plain_interp_in seen (_ # fs) = plain_interp_in seen fs"

definition plain_interp_open :: "lexer \<Rightarrow> str_frame option" where
  "plain_interp_open st = plain_interp_in False (frames st)"

definition plain_interp_open_below :: "lexer \<Rightarrow> str_frame option" where
  "plain_interp_open_below st = plain_interp_in False (drop 1 (frames st))"

text \<open>The popping loop of \<open>unterminated_interp\<close>, over the frames still on the stack.\<close>

fun unwind_to :: "str_frame \<Rightarrow> nat \<Rightarrow> frame list \<Rightarrow> lexer \<Rightarrow> lexer" where
  "unwind_to f at [] st = st\<lparr>frames := []\<rparr>"
| "unwind_to f at (fr # fs) st =
     (case fr of
        Interp _ \<Rightarrow> unwind_to f at fs (emit T_InterpClose at at (st\<lparr>frames := fs\<rparr>))
      | StrF s \<Rightarrow>
          let st = emit (T_StrEnd 0) at at (st\<lparr>frames := fs\<rparr>)
          in if s = f then st else unwind_to f at fs st
      | _ \<Rightarrow> unwind_to f at fs (st\<lparr>frames := fs\<rparr>))"

definition has_dollar_brace :: "bytes \<Rightarrow> bool" where
  "has_dollar_brace s = list_ex (\<lambda>i. starts_with_at s i ''${'') [0..<length s]"

definition unterminated_interp :: "str_frame \<Rightarrow> lexer \<Rightarrow> lexer" where
  "unterminated_interp f st =
     (let at = pos st; span = mk_span st (sf_open_lo f) at;
          d = with_note (Prose ''Str_interp_note'' [])
                (with_label (Prose ''Str_interp_open'' []) (Diagnostic_error ''E0102'' span (Prose ''Str_never_closes'' [])));
          d = (if has_dollar_brace (slice (sf_open_lo f) at (lsrc st)) then with_note (Prose ''Str_dollar_note'' []) d else d)
      in unwind_to f at (frames st) (push_diag d st))"

end
