(* ===== verification/Lex_Scan.thy ===== *)
theory Lex_Scan
  imports Lex_State
begin

text \<open>
  Normal-mode scanning, \<^verbatim>\<open>crates/wolf_lex/src/lexer.rs\<close>: trivia, punctuation, numbers, words, \<open>char\<close>
  literals and stray input. Each definition is one method; loops are the scanners of the prelude or
  recursive functions whose termination is proved from \<open>decode\<close>'s bounds.
\<close>

section \<open>Frames shrink when an interpolation is unwound\<close>

lemma unwind_to_frames: "length (frames (unwind_to f at fs st)) \<le> length fs"
  by (induction f at fs st rule: unwind_to.induct)
    (auto simp: emit_def Let_def le_SucI split: frame.splits)

lemma unwind_to_same [simp]:
  "lsrc (unwind_to f at fs st) = lsrc st" "pos (unwind_to f at fs st) = pos st"
  by (induction f at fs st rule: unwind_to.induct) (simp_all add: emit_def Let_def split: frame.splits)

lemma unwind_to_shrinks: "fs \<noteq> [] \<Longrightarrow> length (frames (unwind_to f at fs st)) < length fs"
proof -
  assume "fs \<noteq> []"
  then obtain fr fs' where fs: "fs = fr # fs'" by (cases fs) auto
  have "length (frames (unwind_to f at fs' st')) < Suc (length fs')" for st'
    using unwind_to_frames [of f at fs' st'] by simp
  then show ?thesis unfolding fs by (simp add: emit_def Let_def split: frame.splits)
qed

lemma unterminated_interp_same [simp]:
  "lsrc (unterminated_interp f st) = lsrc st" "pos (unterminated_interp f st) = pos st"
  by (simp_all add: unterminated_interp_def Let_def push_diag_def)

lemma unterminated_interp_shrinks:
  "frames st \<noteq> [] \<Longrightarrow> length (frames (unterminated_interp f st)) < length (frames st)"
  using unwind_to_shrinks by (simp add: unterminated_interp_def Let_def)

lemma plain_interp_in_nonempty: "plain_interp_in seen fs = Some f \<Longrightarrow> fs \<noteq> []"
  by (cases fs) auto

lemma push_trivia_same [simp]:
  "lsrc (push_trivia k lo hi st) = lsrc st" "pos (push_trivia k lo hi st) = pos st"
  "frames (push_trivia k lo hi st) = frames st"
  by (simp_all add: push_trivia_def Let_def)

lemma emit_same [simp]:
  "lsrc (emit k lo hi st) = lsrc st" "pos (emit k lo hi st) = pos st" "frames (emit k lo hi st) = frames st"
  by (simp_all add: emit_def)

section \<open>Trivia\<close>

definition trivia_bom :: "lexer \<Rightarrow> lexer" where
  "trivia_bom st = push_trivia Bom 0 (length BOM) (st\<lparr>pos := length BOM\<rparr>)"

definition trivia_newline :: "lexer \<Rightarrow> lexer" where
  "trivia_newline st =
     (if \<not> line_broken st \<and> term_due st then
        let lo = pos st; st = emit T_Term lo (lo + 1) (st\<lparr>pos := lo + 1\<rparr>)
        in st\<lparr>line_broken := True\<rparr>
      else
        let start = pos st; st = st\<lparr>line_broken := True, pos := start + 1\<rparr>;
            st = st\<lparr>pos := skip_while (\<lambda>b. is_inline_ws b \<or> b = nl) (lsrc st) (pos st)\<rparr>
        in push_trivia Whitespace start (pos st) st)"

definition trivia_ws :: "lexer \<Rightarrow> lexer" where
  "trivia_ws st =
     (let start = pos st; st = st\<lparr>pos := skip_while is_inline_ws (lsrc st) start\<rparr>
      in push_trivia Whitespace start (pos st) st)"

definition trivia_shebang :: "lexer \<Rightarrow> lexer" where
  "trivia_shebang st =
     (let start = pos st; st = st\<lparr>pos := skip_while (\<lambda>b. b \<noteq> nl) (lsrc st) start\<rparr>
      in push_trivia Shebang start (pos st) st)"

definition comment_kind :: "bytes \<Rightarrow> trivia_kind" where
  "comment_kind rest =
     (if starts_with_at rest 0 ''//!'' then InnerDocComment
      else if starts_with_at rest 0 ''///'' \<and> \<not> starts_with_at rest 0 ''////'' then DocComment
      else LineComment)"

definition trivia_comment :: "lexer \<Rightarrow> lexer" where
  "trivia_comment st =
     (let start = pos st; st = st\<lparr>pos := skip_while (\<lambda>b. b \<noteq> nl) (lsrc st) start\<rparr>
      in push_trivia (comment_kind (slice start (pos st) (lsrc st))) start (pos st) st)"

lemmas trivia_step_defs = trivia_bom_def trivia_newline_def trivia_ws_def trivia_shebang_def trivia_comment_def

lemma trivia_steps_src [simp]:
  "lsrc (trivia_bom st) = lsrc st" "lsrc (trivia_newline st) = lsrc st" "lsrc (trivia_ws st) = lsrc st"
  "lsrc (trivia_shebang st) = lsrc st" "lsrc (trivia_comment st) = lsrc st"
  by (simp_all add: trivia_step_defs Let_def)

lemma trivia_steps_pos:
  "pos st = 0 \<Longrightarrow> pos st < pos (trivia_bom st)"
  "peek st 0 = Some nl \<Longrightarrow> pos st < pos (trivia_newline st)"
  "peek st 0 = Some b \<Longrightarrow> is_inline_ws b \<Longrightarrow> pos st < pos (trivia_ws st)"
  "peek st 0 = Some b \<Longrightarrow> b \<noteq> nl \<Longrightarrow> pos st < pos (trivia_shebang st)"
  "peek st 0 = Some b \<Longrightarrow> b \<noteq> nl \<Longrightarrow> pos st < pos (trivia_comment st)"
  using skip_while_ge [of "Suc (pos st)" "\<lambda>b. is_inline_ws b \<or> b = nl" "lsrc st"]
  by (auto simp: trivia_step_defs Let_def BOM_def peek_def byte_at_Some intro!: skip_while_gt)

lemma diff_rank: "i < n \<Longrightarrow> i < j \<Longrightarrow> n - j < n - (i :: nat)"
  by simp

lemma trivia_steps_rank:
  "peek st 0 = Some b \<Longrightarrow> pos st = 0 \<Longrightarrow> length (lsrc st) - pos (trivia_bom st) < length (lsrc st)"
  "peek st 0 = Some nl \<Longrightarrow> length (lsrc st) - pos (trivia_newline st) < length (lsrc st) - pos st"
  "peek st 0 = Some b \<Longrightarrow> is_inline_ws b \<Longrightarrow> length (lsrc st) - pos (trivia_ws st) < length (lsrc st) - pos st"
  "peek st 0 = Some b \<Longrightarrow> b \<noteq> nl \<Longrightarrow> length (lsrc st) - pos (trivia_shebang st) < length (lsrc st) - pos st"
  "peek st 0 = Some b \<Longrightarrow> b \<noteq> nl \<Longrightarrow> length (lsrc st) - pos (trivia_comment st) < length (lsrc st) - pos st"
proof -
  show "peek st 0 = Some b \<Longrightarrow> pos st = 0 \<Longrightarrow> length (lsrc st) - pos (trivia_bom st) < length (lsrc st)"
    using trivia_steps_pos(1) [of st] by (auto simp: peek_def byte_at_Some)
qed (rule diff_rank, auto simp: peek_def byte_at_Some intro: trivia_steps_pos)+

lemma plain_interp_open_shrinks:
  "plain_interp_open st = Some f \<Longrightarrow> length (frames (unterminated_interp f st)) < length (frames st)"
  using plain_interp_in_nonempty by (auto simp: plain_interp_open_def intro!: unterminated_interp_shrinks)

function skip_trivia :: "lexer \<Rightarrow> lexer" where
  "skip_trivia st =
     (case peek st 0 of
        None \<Rightarrow> st
      | Some b \<Rightarrow>
          if b = CHR 0xEF \<and> pos st = 0 \<and> starts_with_at (lsrc st) 0 BOM then skip_trivia (trivia_bom st)
          else if b = nl then
            (case plain_interp_open st of
               Some f \<Rightarrow> skip_trivia (unterminated_interp f st)
             | None \<Rightarrow> skip_trivia (trivia_newline st))
          else if is_inline_ws b then skip_trivia (trivia_ws st)
          else if b = CHR ''#'' \<and> at_file_start st \<and> peek st 1 = Some (CHR ''!'') \<and> peek st 2 \<noteq> Some (CHR ''['')
          then skip_trivia (trivia_shebang st)
          else if b = CHR ''/'' \<and> peek st 1 = Some (CHR ''/'') then skip_trivia (trivia_comment st)
          else st)"
  by pat_completeness auto
termination
  by (relation "measures [\<lambda>st. length (lsrc st) - pos st, \<lambda>st. length (frames st)]")
    (auto simp: trivia_steps_rank plain_interp_open_shrinks)

declare skip_trivia.simps [simp del]

text \<open>The pieces of one \<open>skip_trivia\<close> call, as a step relation.\<close>

inductive trivia_step :: "lexer \<Rightarrow> lexer \<Rightarrow> bool" where
  step_bom: "peek st 0 = Some b \<Longrightarrow> pos st = 0 \<Longrightarrow> starts_with_at (lsrc st) 0 BOM \<Longrightarrow>
    trivia_step st (trivia_bom st)"
| step_unwind: "peek st 0 = Some nl \<Longrightarrow> plain_interp_open st = Some f \<Longrightarrow>
    trivia_step st (unterminated_interp f st)"
| step_newline: "peek st 0 = Some nl \<Longrightarrow> plain_interp_open st = None \<Longrightarrow> trivia_step st (trivia_newline st)"
| step_ws: "peek st 0 = Some b \<Longrightarrow> is_inline_ws b \<Longrightarrow> trivia_step st (trivia_ws st)"
| step_shebang: "peek st 0 = Some (CHR ''#'') \<Longrightarrow> peek st 1 = Some (CHR ''!'') \<Longrightarrow> at_file_start st \<Longrightarrow>
    trivia_step st (trivia_shebang st)"
| step_comment: "peek st 0 = Some (CHR ''/'') \<Longrightarrow> peek st 1 = Some (CHR ''/'') \<Longrightarrow>
    trivia_step st (trivia_comment st)"

lemma skip_trivia_steps: "trivia_step\<^sup>*\<^sup>* st (skip_trivia st)"
proof (induction st rule: skip_trivia.induct)
  case (1 st)
  have step: "trivia_step st t \<Longrightarrow> trivia_step\<^sup>*\<^sup>* t (skip_trivia t) \<Longrightarrow> skip_trivia st = skip_trivia t \<Longrightarrow>
      trivia_step\<^sup>*\<^sup>* st (skip_trivia st)" for t
    by simp
  show ?case
  proof (cases "peek st 0")
    case None
    then show ?thesis by (simp add: skip_trivia.simps [of st])
  next
    case (Some b)
    note eq = skip_trivia.simps [of st] and IH = "1.IH" [OF Some]
    consider (bom) "b = CHR 0xEF \<and> pos st = 0 \<and> starts_with_at (lsrc st) 0 BOM"
      | (unwind) f where "\<not> (b = CHR 0xEF \<and> pos st = 0 \<and> starts_with_at (lsrc st) 0 BOM)" "b = nl"
          "plain_interp_open st = Some f"
      | (newline) "\<not> (b = CHR 0xEF \<and> pos st = 0 \<and> starts_with_at (lsrc st) 0 BOM)" "b = nl"
          "plain_interp_open st = None"
      | (ws) "\<not> (b = CHR 0xEF \<and> pos st = 0 \<and> starts_with_at (lsrc st) 0 BOM)" "b \<noteq> nl" "is_inline_ws b"
      | (other) "\<not> (b = CHR 0xEF \<and> pos st = 0 \<and> starts_with_at (lsrc st) 0 BOM)" "b \<noteq> nl" "\<not> is_inline_ws b"
      by (cases "plain_interp_open st") blast+
    then show ?thesis
    proof cases
      case bom
      then show ?thesis by (intro step [OF step_bom [OF Some] IH(1)]) (auto simp: eq Some)
    next
      case unwind
      have pk: "peek st 0 = Some nl" using Some unwind(2) by simp
      show ?thesis
        by (rule step [OF step_unwind [OF pk unwind(3)] IH(3) [OF unwind]])
          (use unwind in \<open>simp add: eq Some\<close>)
    next
      case newline
      have pk: "peek st 0 = Some nl" using Some newline(2) by simp
      show ?thesis
        by (rule step [OF step_newline [OF pk newline(3)] IH(2) [OF newline]])
          (use newline in \<open>simp add: eq Some\<close>)
    next
      case ws
      show ?thesis
        by (rule step [OF step_ws [OF Some ws(3)] IH(4) [OF ws]])
          (use ws in \<open>auto simp: eq Some\<close>)
    next
      case other
      let ?sheb = "b = CHR ''#'' \<and> at_file_start st \<and> peek st 1 = Some (CHR ''!'') \<and> peek st 2 \<noteq> Some (CHR ''['')"
      let ?comm = "b = CHR ''/'' \<and> peek st 1 = Some (CHR ''/'')"
      consider (sheb) ?sheb | (comm) "\<not> ?sheb" ?comm | (stop) "\<not> ?sheb" "\<not> ?comm" by blast
      then show ?thesis
      proof cases
        case sheb
        show ?thesis
          by (rule step [OF step_shebang IH(5) [OF other sheb]])
            (use other sheb Some in \<open>auto simp: eq\<close>)
      next
        case comm
        show ?thesis
          by (rule step [OF step_comment IH(6) [OF other comm]])
            (use other comm Some in \<open>auto simp: eq\<close>)
      next
        case stop
        have "skip_trivia st = st"
          using other stop by (auto simp: eq Some)
        then show ?thesis by simp
      qed
    qed
  qed
qed

section \<open>Punctuation\<close>

definition punct :: "nat \<Rightarrow> punctuation \<Rightarrow> lexer \<Rightarrow> lexer" where
  "punct len p st =
     (let lo = pos st; st = advance len st
      in case (p, frames st) of
           (P_RBrace, Interp b # fs) \<Rightarrow> emit T_InterpClose lo (pos st) (pop_frame st)
         | (P_Colon, Interp False # fs) \<Rightarrow>
             emit T_FormatSpecBegin lo (pos st) (st\<lparr>frames := Interp True # fs\<rparr>)
         | _ \<Rightarrow>
             let st = emit (T_Punct p) lo (pos st) st
             in case p of
                  P_LParen \<Rightarrow> push_frame Paren st
                | P_LBracket \<Rightarrow> push_frame (Bracket False) st
                | P_LBrace \<Rightarrow> push_frame Brace st
                | P_RParen \<Rightarrow> (case frames st of Paren # _ \<Rightarrow> pop_frame st | _ \<Rightarrow> st)
                | P_RBracket \<Rightarrow>
                    (case frames st of
                       Bracket attr # _ \<Rightarrow>
                         let st = pop_frame st in if attr then st\<lparr>attr_close := True\<rparr> else st
                     | _ \<Rightarrow> st)
                | P_RBrace \<Rightarrow> (case frames st of Brace # _ \<Rightarrow> pop_frame st | _ \<Rightarrow> st)
                | _ \<Rightarrow> st)"

definition find_punct :: "bytes \<Rightarrow> nat \<Rightarrow> (bytes \<times> punctuation) option" where
  "find_punct s at = find (\<lambda>e. starts_with_at s at (fst e)) PUNCTS"

section \<open>Numbers\<close>

definition dec_digits :: "lexer \<Rightarrow> lexer" where
  "dec_digits st = st\<lparr>pos := skip_while (\<lambda>b. b = CHR ''_'' \<or> is_digit b) (lsrc st) (pos st)\<rparr>"

definition opt_test :: "('a \<Rightarrow> bool) \<Rightarrow> 'a option \<Rightarrow> bool" where
  "opt_test P x = (case x of None \<Rightarrow> False | Some b \<Rightarrow> P b)"

definition radix_prefix :: "lexer \<Rightarrow> nat" where
  "radix_prefix st =
     (if peek st 0 = Some (CHR ''0'') then
        (if peek st 1 = Some (CHR ''x'') then 16
         else if peek st 1 = Some (CHR ''o'') then 8
         else if peek st 1 = Some (CHR ''b'') then 2
         else 0)
      else 0)"

definition number_fraction :: "lexer \<Rightarrow> lexer \<times> bool" where
  "number_fraction st =
     (if peek st 0 = Some (CHR ''.'') \<and> opt_test is_digit (peek st 1)
      then (dec_digits (advance 1 st), True) else (st, False))"

definition number_exponent :: "lexer \<times> bool \<Rightarrow> lexer \<times> bool" where
  "number_exponent sf =
     (let (st, float) = sf
      in if peek st 0 = Some (CHR ''e'') \<or> peek st 0 = Some (CHR ''E'') then
           let signed = (peek st 1 = Some (CHR ''+'') \<or> peek st 1 = Some (CHR ''-''));
               skip = (if signed then 2 else 1)
           in if opt_test is_digit (peek st skip)
              then (dec_digits (advance skip st), True) else (st, float)
         else (st, float))"

definition number :: "lexer \<Rightarrow> lexer" where
  "number st =
     (let lo = pos st; radix = radix_prefix st
      in if radix \<noteq> 0 \<and> opt_test (is_radix_digit radix) (peek st 2) then
           let st = advance 2 st;
               st = st\<lparr>pos := skip_while (\<lambda>b. b = CHR ''_'' \<or> is_radix_digit radix b) (lsrc st) (pos st)\<rparr>
           in emit T_Int lo (pos st) st
         else
           let (st, float) = number_exponent (number_fraction (dec_digits st))
           in emit (if float then T_Float else T_Int) lo (pos st) st)"

section \<open>Opening a string\<close>

definition open_string :: "str_kind \<Rightarrow> nat \<Rightarrow> nat \<Rightarrow> lexer \<Rightarrow> lexer" where
  "open_string kind open_lo content_lo st =
     (if MAX_NEST \<le> nest_depth (frames st) then
        emit T_Error open_lo content_lo ((nest_diag open_lo content_lo st)\<lparr>pos := content_lo\<rparr>)
      else
        push_frame (StrF \<lparr>sf_kind = kind, sf_open_lo = open_lo, sf_content_lo = content_lo\<rparr>)
          (emit (T_StrBegin kind) open_lo content_lo (st\<lparr>pos := content_lo\<rparr>)))"

definition open_quote_string :: "lexer \<Rightarrow> lexer" where
  "open_quote_string st =
     (let lo = pos st
      in if starts_with_at (lsrc st) (pos st) (replicate 3 (CHR 0x22)) then
           let st = open_string Multiline lo (lo + 3) st
           in case frames st of
                StrF _ # _ \<Rightarrow>
                  let i = skip_while is_inline_ws (lsrc st) (pos st)
                  in if opt_test (\<lambda>b. b \<noteq> nl) (byte_at (lsrc st) i) then
                       let eol = skip_while (\<lambda>b. b \<noteq> nl) (lsrc st) i
                       in push_diag (with_note (Prose ''Multi_opener_note'' [])
                            (with_secondary (mk_span st lo (lo + 3)) (Prose ''Multi_opens_here'' [])
                              (with_label (Prose ''Multi_move_down'' [])
                                (Diagnostic_error ''E0103'' (mk_span st i eol) (Prose ''Multi_content_below'' []))))) st
                     else st
              | _ \<Rightarrow> st
         else open_string Plain lo (lo + 1) st)"

section \<open>Words\<close>

function skip_word :: "xid \<Rightarrow> bytes \<Rightarrow> nat \<Rightarrow> nat" where
  "skip_word u s i =
     (case decode s i of
        D_Char c n \<Rightarrow> if c = 0x5F \<or> xid_continue u c then skip_word u s (i + n) else i
      | _ \<Rightarrow> i)"
  by pat_completeness auto
termination
  by (relation "measure (\<lambda>(u, s, i). length s - i)") (auto dest!: decode_Char_bounds)

declare skip_word.simps [simp del]

definition utf8_text :: "bytes \<Rightarrow> bytes" where
  "utf8_text s = (case from_utf8 s of Utf8_ok _ \<Rightarrow> s | Utf8_err _ _ \<Rightarrow> [])"

definition word :: "xid \<Rightarrow> lexer \<Rightarrow> lexer" where
  "word u st =
     (let lo = pos st;
          st = (case decode (lsrc st) (pos st) of D_Char _ n \<Rightarrow> advance n st | _ \<Rightarrow> st);
          st = st\<lparr>pos := skip_word u (lsrc st) (pos st)\<rparr>;
          text = utf8_text (slice lo (pos st) (lsrc st));
          q = skip_while (\<lambda>b. b = CHR ''#'') (lsrc st) (pos st); hashes = q - pos st
      in if text = ''r'' \<and> byte_at (lsrc st) q = Some (CHR 0x22)
         then open_string (Raw hashes) lo (q + 1) st
         else if byte_at (lsrc st) (pos st) = Some (CHR 0x22) \<and> keyword_of text = None \<and> text \<noteq> ''_''
         then open_string Generalized lo (pos st + 1) st
         else emit (if text = ''_'' then T_Underscore
                    else case keyword_of text of Some k \<Rightarrow> T_Kw k | None \<Rightarrow> T_Ident) lo (pos st) st)"

section \<open>Char literals\<close>

definition char_diag :: "span \<Rightarrow> prose \<Rightarrow> prose \<Rightarrow> prose \<Rightarrow> lexer \<Rightarrow> lexer" where
  "char_diag span msg label note st =
     push_diag (with_note note (with_label label (Diagnostic_error ''E0110'' span msg))) st"

text \<open>
  The scanning loop of \<open>char_literal\<close>: \<open>Inl\<close> is the early return on invalid UTF-8, \<open>Inr\<close> carries
  \<open>closed\<close>, the state, \<open>scalars\<close>, \<open>second_at\<close> and \<open>bad_value\<close>.
\<close>

definition note_second :: "nat \<Rightarrow> nat option \<Rightarrow> nat \<Rightarrow> nat option" where
  "note_second scalars second_at at = (if scalars = 1 \<and> second_at = None then Some at else second_at)"

definition char_escape_width :: "lexer \<Rightarrow> nat" where
  "char_escape_width st = (case char_escape_len st of Inr (n, _) \<Rightarrow> n | Inl (n, _) \<Rightarrow> n)"

lemma escape_len_pos: "escape_len st = Inr n \<Longrightarrow> 1 \<le> n" "escape_len st = Inl (n, m) \<Longrightarrow> 1 \<le> n"
  using skip_while_ge [of "pos st + 3" is_hexdigit "lsrc st"]
  by (auto simp: escape_len_def Let_def split: option.splits if_splits decoded.splits)

lemma char_escape_len_pos:
  "char_escape_len st = Inr (n, v) \<Longrightarrow> 1 \<le> n" "char_escape_len st = Inl (n, m) \<Longrightarrow> 1 \<le> n"
  by (auto simp: char_escape_len_def split: if_splits sum.splits dest: escape_len_pos)

lemma escape_diag_same [simp]: "lsrc (escape_diag lo hi m st) = lsrc st" "pos (escape_diag lo hi m st) = pos st"
  by (simp_all add: escape_diag_def push_diag_def)

function char_loop :: "nat \<Rightarrow> lexer \<Rightarrow> nat \<Rightarrow> nat option \<Rightarrow> (nat \<times> nat \<times> nat) option \<Rightarrow>
    lexer + bool \<times> lexer \<times> nat \<times> nat option \<times> (nat \<times> nat \<times> nat) option" where
  "char_loop lo st scalars second_at bad_value =
     (case peek st 0 of
        None \<Rightarrow> Inr (False, st, scalars, second_at, bad_value)
      | Some b \<Rightarrow>
          if b = nl then Inr (False, st, scalars, second_at, bad_value)
          else if b = CHR 0x27 then Inr (True, advance 1 st, scalars, second_at, bad_value)
          else if b = CHR 0x5C then
            (case char_escape_len st of
               Inr (len, val) \<Rightarrow>
                 char_loop lo (advance len st) (scalars + 1) (note_second scalars second_at (pos st))
                   (case val of
                      Some v \<Rightarrow> if \<not> is_scalar v \<and> bad_value = None then Some (pos st, pos st + len, v) else bad_value
                    | None \<Rightarrow> bad_value)
             | Inl (consumed, msg) \<Rightarrow>
                 char_loop lo (advance consumed (escape_diag (pos st) (pos st + consumed) msg st)) (scalars + 1)
                   (note_second scalars second_at (pos st)) bad_value)
          else
            (case decode (lsrc st) (pos st) of
               D_Char _ n \<Rightarrow>
                 char_loop lo (advance n st) (scalars + 1) (note_second scalars second_at (pos st)) bad_value
             | _ \<Rightarrow>
                 Inl (emit T_Error lo (pos st)
                   (char_diag (mk_span st lo (pos st)) (Prose ''Char_never_closes'' [])
                      (Prose ''Char_opened_here'' []) (Prose ''Char_note'' []) st))))"
  by pat_completeness auto
termination
  by (relation "measure (\<lambda>(lo, st, _). length (lsrc st) - pos st)")
    (auto simp: advance_def peek_def byte_at_Some dest!: decode_Char_bounds char_escape_len_pos)

declare char_loop.simps [simp del]

definition char_literal :: "lexer \<Rightarrow> lexer" where
  "char_literal st =
     (let lo = pos st
      in case char_loop lo (advance 1 st) 0 None None of
           Inl st \<Rightarrow> st
         | Inr (closed, st, scalars, second_at, bad_value) \<Rightarrow>
             let span = mk_span st lo (pos st)
             in if \<not> closed then
                  emit T_Error lo (pos st)
                    (char_diag span (Prose ''Char_never_closes'' []) (Prose ''Char_expected_close'' [])
                       (Prose ''Char_note'' []) st)
                else if scalars = 0 then
                  emit T_Error lo (pos st)
                    (char_diag span (Prose ''Char_empty'' []) (Prose ''Char_nothing_between'' [])
                       (Prose ''Char_note'' []) st)
                else if 1 < scalars then
                  let at = (case second_at of Some a \<Rightarrow> a | None \<Rightarrow> pos st)
                  in emit T_Error lo (pos st)
                       (char_diag span (Prose ''Char_one_scalar'' []) (Prose ''Char_second_at'' [at - lo])
                          (Prose ''Char_one_scalar_note'' []) st)
                else
                  case bad_value of
                    Some (blo, bhi, v) \<Rightarrow>
                      let (what, hint) =
                        (if 0xD800 \<le> v \<and> v \<le> 0xDFFF
                         then (Prose ''Char_surrogate'' [v], Prose ''Char_surrogate_note'' [])
                         else (Prose ''Char_beyond'' [v], Prose ''Char_beyond_note'' []))
                      in emit T_Error lo (pos st)
                           (char_diag (mk_span st blo bhi) what (Prose ''Char_names_none'' []) hint st)
                  | None \<Rightarrow> emit T_Char lo (pos st) st)"

section \<open>Stray input\<close>

definition is_stray :: "xid \<Rightarrow> nat \<Rightarrow> bool" where
  "is_stray u c =
     (if c = 0xFEFF then True
      else if c < 0x80 then
        let b = char_of c
        in \<not> (is_inline_ws b \<or> b = nl \<or> is_alnum b \<or> b \<in> {CHR ''_'', CHR 0x22, CHR ''#'', CHR '';''}
              \<or> list_ex (\<lambda>e. hd (fst e) = b) PUNCTS)
      else \<not> (xid_start u c \<or> is_whitespace c))"

function skip_invalid :: "bytes \<Rightarrow> nat \<Rightarrow> nat" where
  "skip_invalid s i = (case decode s i of D_Invalid n \<Rightarrow> skip_invalid s (i + n) | _ \<Rightarrow> i)"
  by pat_completeness auto
termination
  by (relation "measure (\<lambda>(s, i). length s - i)") (auto dest!: decode_Invalid_bounds)

function skip_stray :: "xid \<Rightarrow> bytes \<Rightarrow> nat \<Rightarrow> nat" where
  "skip_stray u s i =
     (case decode s i of D_Char c n \<Rightarrow> if is_stray u c then skip_stray u s (i + n) else i | _ \<Rightarrow> i)"
  by pat_completeness auto
termination
  by (relation "measure (\<lambda>(u, s, i). length s - i)") (auto dest!: decode_Char_bounds)

declare skip_invalid.simps [simp del] skip_stray.simps [simp del]

definition stray_diag :: "nat \<Rightarrow> nat \<Rightarrow> lexer \<Rightarrow> prose diagnostic" where
  "stray_diag first lo st =
     (let span = mk_span st lo (pos st); text = slice lo (pos st) (lsrc st)
      in if first = 0xFEFF then
           with_suggestion (Suggestion_new (Prose ''Bom_delete'' []) [(span, [])] MachineApplicable)
             (with_note (Prose ''Bom_note'' []) (with_label (Prose ''Bom_here'' [])
               (Diagnostic_error ''E0107'' span (Prose ''Bom_middle'' []))))
         else if list_all (\<lambda>b. b = CHR ''~'') text then
           with_suggestion
             (Suggestion_new (Prose ''Tilde_fix'' []) [(span, replicate (pos st - lo) (CHR ''!''))] MachineApplicable)
             (with_note (Prose ''Tilde_note'' []) (with_label (Prose ''Tilde_label'' [])
               (Diagnostic_error ''E0107'' span (Prose ''Tilde_msg'' []))))
         else
           with_note (Prose ''Stray_note'' []) (with_label (Prose ''Stray_label'' [])
             (Diagnostic_error ''E0107'' span (Prose ''Stray_char'' [first]))))"

definition stray :: "xid \<Rightarrow> lexer \<Rightarrow> lexer" where
  "stray u st =
     (let lo = pos st
      in case decode (lsrc st) lo of
           D_Invalid n \<Rightarrow>
             let st = st\<lparr>pos := skip_invalid (lsrc st) (lo + n)\<rparr>
             in emit T_Error lo (pos st)
                  (push_diag (with_note (Prose ''Utf8_note'' []) (with_label (Prose ''Utf8_no_char'' [])
                     (Diagnostic_error ''E0106'' (mk_span st lo (pos st)) (Prose ''Utf8_invalid'' [])))) st)
         | D_Char first n \<Rightarrow>
             let st = st\<lparr>pos := skip_stray u (lsrc st) (lo + n)\<rparr>
             in emit T_Error lo (pos st) (push_diag (stray_diag first lo st) st)
         | D_Eof \<Rightarrow> st)"

section \<open>One token\<close>

definition lex_token :: "xid \<Rightarrow> lexer \<Rightarrow> lexer" where
  "lex_token u st =
     (case peek st 0 of
        None \<Rightarrow> st
      | Some b \<Rightarrow>
          if b = CHR 0x22 then open_quote_string st
          else if b = CHR 0x27 then char_literal st
          else if is_digit b then number st
          else if b = CHR ''#'' then
            (if peek st 1 = Some (CHR ''['') then
               let lo = pos st; st = advance 2 st
               in push_frame (Bracket True) (emit T_PoundBracket lo (pos st) st)
             else if peek st 1 = Some (CHR ''!'') \<and> peek st 2 = Some (CHR ''['') then
               let lo = pos st; st = advance 3 st
               in push_frame (Bracket True) (emit T_PoundBangBracket lo (pos st) st)
             else stray u st)
          else if b = CHR '';'' then
            let lo = pos st; st = advance 1 st in emit T_Term lo (pos st) st
          else if b = CHR ''_'' \<or> is_alpha b then word u st
          else if byte_val b < 0x80 then
            (case find_punct (lsrc st) (pos st) of
               Some (text, p) \<Rightarrow> punct (length text) p st
             | None \<Rightarrow> stray u st)
          else
            (case decode (lsrc st) (pos st) of
               D_Char c _ \<Rightarrow> if xid_start u c then word u st else stray u st
             | _ \<Rightarrow> stray u st))"

definition normal_step :: "xid \<Rightarrow> lexer \<Rightarrow> lexer" where
  "normal_step u st =
     (let st = skip_trivia st
      in if pos st < length (lsrc st) then lex_token u st else st)"

end
