(* ===== verification/Lex_Strings.thy ===== *)
theory Lex_Strings
  imports Lex_Scan
begin

text \<open>
  String-mode scanning, \<^verbatim>\<open>crates/wolf_lex/src/lexer.rs\<close>: the bodies of plain and multiline strings
  (escapes, interpolations, recovery at end of line), raw and generalized bodies, format specs, and
  the margin rule of multiline literals (\<open>close_multiline\<close>).
\<close>

section \<open>The margin of a multiline literal\<close>

definition rposition :: "('a \<Rightarrow> bool) \<Rightarrow> 'a list \<Rightarrow> nat option" where
  "rposition P xs =
     (let js = filter (\<lambda>j. P (xs ! j)) [0..<length xs] in if js = [] then None else Some (last js))"

text \<open>The complaint about a content line \<open>[ls, eol)\<close> that does not begin with the margin.\<close>

definition margin_diag :: "bytes \<Rightarrow> nat \<Rightarrow> nat \<Rightarrow> nat \<Rightarrow> bytes \<Rightarrow> lexer \<Rightarrow> prose diagnostic" where
  "margin_diag margin close_at close_line_start ls line st =
     (let lead = length (takeWhile is_inline_ws line);
          (code, msg, label, note) =
            (if length margin \<le> lead
             then (''E0105'', Prose ''Margin_mismatch'' [], Prose ''Margin_mismatch_here'' [],
                   Prose ''Margin_mismatch_note'' [])
             else (''E0104'', Prose ''Margin_under'' [], Prose ''Margin_under_here'' [],
                   Prose ''Margin_under_note'' []));
          hi = ls + min (max lead 1) (length line);
          span = mk_span st ls hi;
          note_span = (if margin = [] then mk_span st close_at (close_at + 3)
                       else mk_span st close_line_start close_at)
      in with_note note
           (with_secondary note_span (Prose ''Margin_set_here'' [])
             (with_label label (Diagnostic_error code span msg))))"

text \<open>One byte of the content-line loop: the state is \<open>line_start\<close> and the lexer.\<close>

definition margin_step :: "bytes \<Rightarrow> nat \<Rightarrow> nat \<Rightarrow> nat option \<times> lexer \<Rightarrow> nat \<Rightarrow> nat option \<times> lexer" where
  "margin_step margin close_at close_line_start acc i =
     (let (line_start, st) = acc
      in if lsrc st ! i = nl then (Some (i + 1), st)
         else case line_start of
                None \<Rightarrow> (None, st)
              | Some ls \<Rightarrow>
                  let eol = skip_while (\<lambda>b. b \<noteq> nl) (take close_line_start (lsrc st)) i;
                      line = slice ls eol (lsrc st);
                      blank = list_all is_inline_ws line
                  in if \<not> blank \<and> \<not> starts_with_at line 0 margin
                     then (None, push_diag (margin_diag margin close_at close_line_start ls line st) st)
                     else (None, st))"

definition close_multiline :: "str_frame \<Rightarrow> nat \<Rightarrow> lexer \<Rightarrow> nat \<times> lexer" where
  "close_multiline f close_at st =
     (let close_line_start =
            (case rposition (\<lambda>b. b = nl) (take close_at (lsrc st)) of None \<Rightarrow> 0 | Some i \<Rightarrow> i + 1)
      in if close_line_start \<le> sf_content_lo f then (0, st)
         else
           let margin = slice close_line_start close_at (lsrc st)
           in if list_ex (\<lambda>b. \<not> is_inline_ws b) margin then
                (0, push_diag (with_note (Prose ''Multi_close_note'' [])
                      (with_secondary (mk_span st (sf_open_lo f) (sf_open_lo f + 3)) (Prose ''Multi_opens_here'' [])
                        (with_label (Prose ''Multi_ws_before'' [])
                          (Diagnostic_error ''E0103'' (mk_span st close_at (close_at + 3))
                            (Prose ''Multi_close_alone'' []))))) st)
              else
                (as_u32 (length margin),
                 snd (foldl (margin_step margin close_at close_line_start) (None, st)
                        [sf_content_lo f..<close_line_start])))"

section \<open>Plain and multiline bodies\<close>

definition flush_frag :: "nat \<Rightarrow> lexer \<Rightarrow> lexer" where
  "flush_frag start st = (if start < pos st then emit T_StrFragment start (pos st) st else st)"

text \<open>The three exits that bodies and format specs share.\<close>

definition exit_bad_escape :: "nat \<Rightarrow> nat \<Rightarrow> prose \<Rightarrow> lexer \<Rightarrow> lexer" where
  "exit_bad_escape start n msg st =
     (let st = flush_frag start st; lo = pos st; st = advance n st;
          st = escape_diag lo (pos st) msg st
      in emit T_Error lo (pos st) st)"

definition exit_interp_open :: "nat \<Rightarrow> lexer \<Rightarrow> lexer" where
  "exit_interp_open start st =
     (let st = flush_frag start st; lo = pos st; st = advance 1 st
      in if MAX_NEST \<le> nest_depth (frames st) then
           emit T_Error lo (pos st) (nest_diag lo (pos st) st)
         else push_frame (Interp False) (emit T_InterpOpen lo (pos st) st))"

definition exit_str_end :: "nat \<Rightarrow> lexer \<Rightarrow> lexer" where
  "exit_str_end start st =
     (let st = flush_frag start st; lo = pos st; st = advance 1 st
      in pop_frame (emit (T_StrEnd 0) lo (pos st) st))"

definition exit_lone_brace :: "nat \<Rightarrow> lexer \<Rightarrow> lexer" where
  "exit_lone_brace start st =
     (let st = flush_frag start st; lo = pos st; st = advance 1 st; st = lone_brace_diag lo st
      in emit T_Error lo (pos st) st)"

definition exit_multi_end :: "str_frame \<Rightarrow> nat \<Rightarrow> lexer \<Rightarrow> lexer" where
  "exit_multi_end f start st =
     (let st = flush_frag start st; lo = pos st; (dedent, st) = close_multiline f lo st; st = advance 3 st
      in pop_frame (emit (T_StrEnd dedent) lo (pos st) st))"

lemma advance_same [simp]: "lsrc (advance n st) = lsrc st" "pos (advance n st) = pos st + n"
  "frames (advance n st) = frames st"
  by (simp_all add: advance_def)

lemma escape_rank:
  "peek st 0 = Some b \<Longrightarrow> escape_len st = Inr n \<Longrightarrow> length (lsrc st) - (pos st + n) < length (lsrc st) - pos st"
  using escape_len_pos(1) [of st n] by (auto simp: peek_def byte_at_Some)

lemma one_rank:
  "peek st 0 = Some b \<Longrightarrow> length (lsrc st) - Suc (pos st) < length (lsrc st) - pos st"
  "peek st 0 = Some b \<Longrightarrow> length (lsrc st) - Suc (Suc (pos st)) < length (lsrc st) - pos st"
  by (auto simp: peek_def byte_at_Some)

function cooked_body :: "str_frame \<Rightarrow> nat \<Rightarrow> lexer \<Rightarrow> lexer" where
  "cooked_body f start st =
     (let multi = (sf_kind f = Multiline)
      in case peek st 0 of
           None \<Rightarrow> flush_frag start st
         | Some b \<Rightarrow>
             if b = CHR 0x5C then
               (case escape_len st of
                  Inr n \<Rightarrow> cooked_body f start (advance n st)
                | Inl (n, msg) \<Rightarrow> exit_bad_escape start n msg st)
             else if b = CHR ''{'' \<and> peek st 1 = Some (CHR ''{'') then cooked_body f start (advance 2 st)
             else if b = CHR ''}'' \<and> peek st 1 = Some (CHR ''}'') then cooked_body f start (advance 2 st)
             else if b = CHR ''{'' then exit_interp_open start st
             else if b = CHR ''}'' then exit_lone_brace start st
             else if b = CHR 0x22 \<and> \<not> multi then exit_str_end start st
             else if b = CHR 0x22 \<and> multi \<and> starts_with_at (lsrc st) (pos st) (replicate 3 (CHR 0x22))
             then exit_multi_end f start st
             else if b = nl \<and> \<not> multi then unterminated_here f (flush_frag start st)
             else cooked_body f start (advance 1 st))"
  by pat_completeness auto
termination
  by (relation "measure (\<lambda>(f, start, st). length (lsrc st) - pos st)") (auto simp: escape_rank one_rank)

declare cooked_body.simps [simp del]

section \<open>Raw and generalized bodies\<close>

definition exit_fence :: "nat \<Rightarrow> nat \<Rightarrow> lexer \<Rightarrow> lexer" where
  "exit_fence hashes start st =
     (let fence_end = pos st + 1 + hashes; st = flush_frag start st; lo = pos st; st = st\<lparr>pos := fence_end\<rparr>
      in pop_frame (emit (T_StrEnd 0) lo (pos st) st))"

text \<open>
  A generalized literal at the end of its line: if it sits in an unclosed interpolation of a plain
  string, the error is that string's.
\<close>

definition exit_gen_newline :: "str_frame \<Rightarrow> nat \<Rightarrow> lexer \<Rightarrow> lexer" where
  "exit_gen_newline f start st =
     (let st = flush_frag start st
      in case plain_interp_open_below st of
           Some outer \<Rightarrow> unterminated_interp outer st
         | None \<Rightarrow>
             let at = pos st; span = mk_span st (sf_open_lo f) at;
                 st = push_diag
                        (with_suggestion
                          (Suggestion_new (Prose ''Gen_close_fix'' []) [(mk_span st at at, [CHR 0x22])] Maybe)
                          (with_label (Prose ''Gen_opens'' [])
                            (Diagnostic_error ''E0109'' span (Prose ''Gen_never_closes'' [])))) st
             in pop_frame (emit (T_StrEnd 0) at at st))"

function raw_body :: "nat \<Rightarrow> nat \<Rightarrow> lexer \<Rightarrow> lexer" where
  "raw_body hashes start st =
     (case peek st 0 of
        None \<Rightarrow> flush_frag start st
      | Some b \<Rightarrow>
          let fence_end = pos st + 1 + hashes
          in if b = CHR 0x22 \<and> fence_end \<le> length (lsrc st) \<and>
                list_all (\<lambda>c. c = CHR ''#'') (slice (pos st + 1) fence_end (lsrc st))
             then exit_fence hashes start st
             else raw_body hashes start (advance 1 st))"
  by pat_completeness auto
termination
  by (relation "measure (\<lambda>(hashes, start, st). length (lsrc st) - pos st)") (auto simp: one_rank)

function gen_body :: "str_frame \<Rightarrow> nat \<Rightarrow> lexer \<Rightarrow> lexer" where
  "gen_body f start st =
     (if peek st 0 = None \<or> peek st 0 = Some nl then exit_gen_newline f start st
      else if peek st 0 = Some (CHR 0x22) then exit_str_end start st
      else gen_body f start (advance 1 st))"
  by pat_completeness auto
termination
  by (relation "measure (\<lambda>(f, start, st). length (lsrc st) - pos st)") (auto simp: one_rank)

declare raw_body.simps [simp del] gen_body.simps [simp del]

definition body_step :: "str_frame \<Rightarrow> lexer \<Rightarrow> lexer" where
  "body_step f st =
     (case sf_kind f of
        Plain \<Rightarrow> cooked_body f (pos st) st
      | Multiline \<Rightarrow> cooked_body f (pos st) st
      | Raw hashes \<Rightarrow> raw_body hashes (pos st) st
      | Generalized \<Rightarrow> gen_body f (pos st) st)"

section \<open>Format specs\<close>

fun innermost_str :: "frame list \<Rightarrow> str_frame option" where
  "innermost_str [] = None"
| "innermost_str (StrF f # fs) = Some f"
| "innermost_str (_ # fs) = innermost_str fs"

text \<open>The spec of a plain string is still open at the end of its line: close the episode.\<close>

definition exit_spec_newline :: "str_frame option \<Rightarrow> nat \<Rightarrow> lexer \<Rightarrow> lexer" where
  "exit_spec_newline enclosing start st =
     (let st = flush_frag start st; at = pos st;
          open_lo = (case enclosing of Some f \<Rightarrow> sf_open_lo f | None \<Rightarrow> at);
          st = push_diag (with_note (Prose ''Str_spec_note'' []) (with_label (Prose ''Str_spec_open'' [])
                 (Diagnostic_error ''E0102'' (mk_span st open_lo at) (Prose ''Str_never_closes'' [])))) st;
          st = emit T_InterpClose at at (pop_frame st)
      in case frames st of
           StrF _ # _ \<Rightarrow> emit (T_StrEnd 0) at at (pop_frame st)
         | _ \<Rightarrow> st)"

definition exit_spec_close :: "nat \<Rightarrow> lexer \<Rightarrow> lexer" where
  "exit_spec_close start st =
     (let st = flush_frag start st; lo = pos st; st = advance 1 st
      in emit T_InterpClose lo (pos st) (pop_frame st))"

function spec_loop :: "str_frame option \<Rightarrow> nat \<Rightarrow> lexer \<Rightarrow> lexer" where
  "spec_loop enclosing start st =
     (let multi = opt_test (\<lambda>f. sf_kind f = Multiline) enclosing
      in case peek st 0 of
           None \<Rightarrow> flush_frag start st
         | Some b \<Rightarrow>
             if b = CHR ''{'' \<and> peek st 1 = Some (CHR ''{'') then spec_loop enclosing start (advance 2 st)
             else if b = CHR ''}'' \<and> peek st 1 = Some (CHR ''}'') then spec_loop enclosing start (advance 2 st)
             else if b = CHR ''{'' then exit_interp_open start st
             else if b = CHR ''}'' then exit_spec_close start st
             else if b = CHR 0x5C then
               (case escape_len st of
                  Inr n \<Rightarrow> spec_loop enclosing start (advance n st)
                | Inl (n, msg) \<Rightarrow> exit_bad_escape start n msg st)
             else if b = nl \<and> \<not> multi then exit_spec_newline enclosing start st
             else spec_loop enclosing start (advance 1 st))"
  by pat_completeness auto
termination
  by (relation "measure (\<lambda>(e, start, st). length (lsrc st) - pos st)") (auto simp: escape_rank one_rank)

declare spec_loop.simps [simp del]

definition spec_step :: "lexer \<Rightarrow> lexer" where
  "spec_step st = spec_loop (innermost_str (frames st)) (pos st) st"

section \<open>How each body ends\<close>

text \<open>
  A body scans some bytes forward, then leaves through one of its exits: the relations list the exits
  with what is known there, so that proofs about bodies need no loop induction of their own.
\<close>

inductive cooked_exit :: "str_frame \<Rightarrow> nat \<Rightarrow> lexer \<Rightarrow> lexer \<Rightarrow> bool" where
  ce_eof: "peek st 0 = None \<Longrightarrow> cooked_exit f start st (flush_frag start st)"
| ce_escape: "peek st 0 = Some b \<Longrightarrow> escape_len st = Inl (n, msg) \<Longrightarrow>
    cooked_exit f start st (exit_bad_escape start n msg st)"
| ce_interp: "peek st 0 = Some (CHR ''{'') \<Longrightarrow> cooked_exit f start st (exit_interp_open start st)"
| ce_lone: "peek st 0 = Some (CHR ''}'') \<Longrightarrow> cooked_exit f start st (exit_lone_brace start st)"
| ce_end: "peek st 0 = Some (CHR 0x22) \<Longrightarrow> sf_kind f \<noteq> Multiline \<Longrightarrow> cooked_exit f start st (exit_str_end start st)"
| ce_multi: "starts_with_at (lsrc st) (pos st) (replicate 3 (CHR 0x22)) \<Longrightarrow> sf_kind f = Multiline \<Longrightarrow>
    cooked_exit f start st (exit_multi_end f start st)"
| ce_newline: "sf_kind f \<noteq> Multiline \<Longrightarrow> cooked_exit f start st (unterminated_here f (flush_frag start st))"

inductive raw_exit :: "nat \<Rightarrow> nat \<Rightarrow> lexer \<Rightarrow> lexer \<Rightarrow> bool" where
  re_eof: "peek st 0 = None \<Longrightarrow> raw_exit hashes start st (flush_frag start st)"
| re_fence: "peek st 0 = Some (CHR 0x22) \<Longrightarrow> pos st + 1 + hashes \<le> length (lsrc st) \<Longrightarrow>
    list_all (\<lambda>c. c = CHR ''#'') (slice (pos st + 1) (pos st + 1 + hashes) (lsrc st)) \<Longrightarrow>
    raw_exit hashes start st (exit_fence hashes start st)"

inductive gen_exit :: "str_frame \<Rightarrow> nat \<Rightarrow> lexer \<Rightarrow> lexer \<Rightarrow> bool" where
  ge_newline: "gen_exit f start st (exit_gen_newline f start st)"
| ge_end: "peek st 0 = Some (CHR 0x22) \<Longrightarrow> gen_exit f start st (exit_str_end start st)"

inductive spec_exit :: "str_frame option \<Rightarrow> nat \<Rightarrow> lexer \<Rightarrow> lexer \<Rightarrow> bool" where
  se_eof: "peek st 0 = None \<Longrightarrow> spec_exit e start st (flush_frag start st)"
| se_interp: "peek st 0 = Some (CHR ''{'') \<Longrightarrow> spec_exit e start st (exit_interp_open start st)"
| se_close: "peek st 0 = Some (CHR ''}'') \<Longrightarrow> spec_exit e start st (exit_spec_close start st)"
| se_escape: "peek st 0 = Some b \<Longrightarrow> escape_len st = Inl (n, msg) \<Longrightarrow>
    spec_exit e start st (exit_bad_escape start n msg st)"
| se_newline: "spec_exit e start st (exit_spec_newline e start st)"

text \<open>An escape never reaches past the end of the buffer.\<close>

lemma hex_at_bound: "hex_at st off \<Longrightarrow> pos st + off < length (lsrc st)"
  by (auto simp: hex_at_def peek_def byte_at_def split: if_splits)

lemma peek_bound: "peek st off = Some b \<Longrightarrow> pos st + off < length (lsrc st)"
  by (simp add: peek_def byte_at_Some)

lemma escape_len_bound:
  assumes "peek st 0 = Some b"
  shows "case escape_len st of Inr n \<Rightarrow> pos st + n \<le> length (lsrc st) | Inl (n, _) \<Rightarrow> pos st + n \<le> length (lsrc st)"
proof (cases "peek st (Suc 0)")
  case None
  then show ?thesis using peek_bound [OF assms] by (simp add: escape_len_def)
next
  case (Some c)
  have c: "Suc (Suc (pos st)) \<le> length (lsrc st)" using peek_bound [OF Some] by simp
  let ?i = "skip_while is_hexdigit (lsrc st) (pos st + 3)"
  have i: "pos st + 3 \<le> ?i" "peek st 2 = Some d \<Longrightarrow> ?i \<le> length (lsrc st)" for d
    using skip_while_ge [of "pos st + 3"] skip_while_le [of "pos st + 3" "lsrc st"] peek_bound [of st 2 d] by auto
  have closing: "peek st (?i - pos st) = Some d \<Longrightarrow> Suc ?i \<le> length (lsrc st)" for d
    using peek_bound [of st "?i - pos st" d] i(1) by simp
  have other: "decode (lsrc st) (Suc (pos st)) = D_Char ch n \<Longrightarrow> Suc (pos st + n) \<le> length (lsrc st)" for ch n
    by (auto dest: decode_Char_bounds)
  have hex: "hex_at st k \<Longrightarrow> Suc (pos st + k) \<le> length (lsrc st)" for k
    using hex_at_bound [of st k] by simp
  have eqs: "escape_len st =
      (if c \<in> set ''ntr'' \<or> c = CHR 0x5C \<or> c = CHR 0x22 \<or> c = CHR ''0'' then Inr 2
       else if c = CHR ''x'' then
         (if hex_at st 2 \<and> hex_at st 3 then Inr 4
          else Inl (2 + (if hex_at st 2 then 1 else 0), (Prose ''Esc_hex_two'' [])))
       else if c = CHR ''u'' then
         (if peek st 2 \<noteq> Some (CHR ''{'') then Inl (2, (Prose ''Esc_u_form'' []))
          else if peek st (?i - pos st) = Some (CHR ''}'') \<and> 1 \<le> ?i - pos st - 3 \<and> ?i - pos st - 3 \<le> 6
               then Inr (?i - pos st + 1)
               else Inl (?i - pos st + (if peek st (?i - pos st) = Some (CHR ''}'') then 1 else 0),
                      (Prose ''Esc_u_digits'' [])))
       else (case decode (lsrc st) (pos st + 1) of
               D_Char ch n \<Rightarrow> Inl (1 + n, (Prose ''Esc_none'' [ch]))
             | _ \<Rightarrow> Inl (1, (Prose ''Esc_unrecognized'' []))))"
    by (simp add: escape_len_def Some Let_def)
  consider "c \<in> set ''ntr'' \<or> c = CHR 0x5C \<or> c = CHR 0x22 \<or> c = CHR ''0''" | "c = CHR ''x''" | "c = CHR ''u''"
    | "\<not> (c \<in> set ''ntr'' \<or> c = CHR 0x5C \<or> c = CHR 0x22 \<or> c = CHR ''0'')" "c \<noteq> CHR ''x''" "c \<noteq> CHR ''u''"
    by blast
  then show ?thesis
  proof cases
    case 1
    then show ?thesis using c by (simp only: eqs if_True) simp
  next
    case 2
    then show ?thesis using c hex [of 2] hex [of 3] by (simp add: eqs add.commute)
  next
    case 3
    then show ?thesis using c i closing by (auto simp: eqs)
  next
    case 4
    then show ?thesis
      using c by (simp only: eqs if_False) (simp split: decoded.split, auto dest!: other)
  qed
qed

lemma advance_advance [simp]: "advance k (advance n st) = advance (n + k) st"
  by (simp add: advance_def add.assoc)

lemma advance_zero [simp]: "advance 0 st = st"
  by (simp add: advance_def)

lemma exit_later:
  assumes "\<exists>k. pos (advance n st) + k \<le> length (lsrc st) \<and> P (advance k (advance n st))"
  shows "\<exists>k. pos st + k \<le> length (lsrc st) \<and> P (advance k st)"
  using assms by (metis add.assoc advance_advance advance_same(2))

lemma exit_now: "P st \<Longrightarrow> pos st \<le> length (lsrc st) \<Longrightarrow> \<exists>k. pos st + k \<le> length (lsrc st) \<and> P (advance k st)"
  by (rule exI [of _ 0]) simp

lemma escape_Inr_bound: "peek st 0 = Some b \<Longrightarrow> escape_len st = Inr n \<Longrightarrow> pos st + n \<le> length (lsrc st)"
  and escape_Inl_bound: "peek st 0 = Some b \<Longrightarrow> escape_len st = Inl (n, m) \<Longrightarrow> pos st + n \<le> length (lsrc st)"
  using escape_len_bound [of st b] by auto

lemma advance_ok:
  "peek st 0 = Some b \<Longrightarrow> pos (advance (Suc 0) st) \<le> length (lsrc (advance (Suc 0) st))"
  "peek st (Suc 0) = Some b \<Longrightarrow> pos (advance 2 st) \<le> length (lsrc (advance 2 st))"
  using peek_bound [of st 0 b] peek_bound [of st "Suc 0" b] by auto

text \<open>A body from \<open>st\<close> ends in \<open>r\<close>: some state ahead of \<open>st\<close> takes an exit to \<open>r\<close>.\<close>

definition exits_via :: "(lexer \<Rightarrow> lexer \<Rightarrow> bool) \<Rightarrow> lexer \<Rightarrow> lexer \<Rightarrow> bool" where
  "exits_via R st r \<longleftrightarrow> (\<exists>k. pos st + k \<le> length (lsrc st) \<and> R (advance k st) r)"

lemma exits_now: "pos st \<le> length (lsrc st) \<Longrightarrow> R st r \<Longrightarrow> exits_via R st r"
  unfolding exits_via_def by (rule exit_now [of "\<lambda>s. R s r"])

lemma exits_later: "exits_via R (advance n st) r \<Longrightarrow> exits_via R st r"
  unfolding exits_via_def by (rule exit_later [of n st "\<lambda>s. R s r"]) simp

lemma exits_if:
  "(c \<Longrightarrow> exits_via R st a) \<Longrightarrow> (\<not> c \<Longrightarrow> exits_via R st b) \<Longrightarrow> exits_via R st (if c then a else b)"
  by simp

lemma exits_sum:
  "(\<And>x. v = Inl x \<Longrightarrow> exits_via R st (f x)) \<Longrightarrow> (\<And>x. v = Inr x \<Longrightarrow> exits_via R st (g x)) \<Longrightarrow>
   exits_via R st (case v of Inl x \<Rightarrow> f x | Inr x \<Rightarrow> g x)"
  by (simp split: sum.split)

lemmas exits_split = exits_if exits_sum

lemma exits_advance:
  "\<lbrakk>peek st 0 = Some b; pos (advance 1 st) \<le> length (lsrc (advance 1 st)) \<Longrightarrow> exits_via R (advance 1 st) r\<rbrakk> \<Longrightarrow>
   exits_via R st r"
  "\<lbrakk>peek st 1 = Some b; pos (advance 2 st) \<le> length (lsrc (advance 2 st)) \<Longrightarrow> exits_via R (advance 2 st) r\<rbrakk> \<Longrightarrow>
   exits_via R st r"
  "\<lbrakk>peek st 0 = Some b; escape_len st = Inr n;
    pos (advance n st) \<le> length (lsrc (advance n st)) \<Longrightarrow> exits_via R (advance n st) r\<rbrakk> \<Longrightarrow> exits_via R st r"
  using advance_ok [of st b] escape_Inr_bound [of st b n] by (auto intro: exits_later)

lemma exits_bad_escape:
  assumes "\<And>n m. escape_len st = Inl (n, m) \<Longrightarrow> R st (exit_bad_escape start n m st)"
    and "pos st \<le> length (lsrc st)" and "escape_len st = Inl x"
  shows "exits_via R st (case x of (n, m) \<Rightarrow> exit_bad_escape start n m st)"
  using assms by (cases x) (auto intro: exits_now)

lemma cooked_body_exit:
  "pos st \<le> length (lsrc st) \<Longrightarrow> exits_via (cooked_exit f start) st (cooked_body f start st)"
proof (induction f start st rule: cooked_body.induct)
  case (1 f start st)
  show ?case
  proof (cases "peek st 0")
    case None
    then show ?thesis using "1.prems" by (auto simp: cooked_body.simps [of f start st] intro!: exits_now cooked_exit.intros)
  next
    case (Some b)
    note IH = "1.IH" [OF refl Some] and exit = exits_now [where R = "cooked_exit f start", OF "1.prems"]
    show ?thesis
      unfolding cooked_body.simps [of f start st] Some Let_def option.case
      apply (intro exits_split)
               apply (rule exits_bad_escape [OF _ "1.prems"], erule (1) ce_escape [OF Some])
              apply (rule exits_advance(3) [OF Some], assumption, rule IH(1); assumption)
             apply (rule exits_advance(2), erule conjunct2, rule IH(2); assumption)
            apply (rule exits_advance(2), erule conjunct2, rule IH(3); assumption)
           apply (rule exit, rule ce_interp, simp add: Some)
          apply (rule exit, rule ce_lone, simp add: Some)
         apply (rule exit, rule ce_end; simp add: Some)
        apply (rule exit, rule ce_multi; simp)
       apply (rule exit, rule ce_newline, simp)
      apply (rule exits_advance(1) [OF Some], rule IH(4); assumption)
      done
  qed
qed

lemma spec_loop_exit: "pos st \<le> length (lsrc st) \<Longrightarrow> exits_via (spec_exit e start) st (spec_loop e start st)"
proof (induction e start st rule: spec_loop.induct)
  case (1 e start st)
  show ?case
  proof (cases "peek st 0")
    case None
    then show ?thesis using "1.prems" by (auto simp: spec_loop.simps [of e start st] intro!: exits_now spec_exit.intros)
  next
    case (Some b)
    note IH = "1.IH" [OF refl Some] and exit = exits_now [where R = "spec_exit e start", OF "1.prems"]
    show ?thesis
      unfolding spec_loop.simps [of e start st] Some Let_def option.case
      apply (intro exits_split)
             apply (rule exits_advance(2), erule conjunct2, rule IH(1); assumption)
            apply (rule exits_advance(2), erule conjunct2, rule IH(2); assumption)
           apply (rule exit, rule se_interp, simp add: Some)
          apply (rule exit, rule se_close, simp add: Some)
         apply (rule exits_bad_escape [OF _ "1.prems"], erule (1) se_escape [OF Some])
        apply (rule exits_advance(3) [OF Some], assumption, rule IH(3); assumption)
       apply (rule exit, rule se_newline)
      apply (rule exits_advance(1) [OF Some], rule IH(4); assumption)
      done
  qed
qed

lemma raw_body_exit: "pos st \<le> length (lsrc st) \<Longrightarrow> exits_via (raw_exit hashes start) st (raw_body hashes start st)"
proof (induction hashes start st rule: raw_body.induct)
  case (1 hashes start st)
  show ?case
  proof (cases "peek st 0")
    case None
    then show ?thesis using "1.prems" by (auto simp: raw_body.simps [of hashes start st] intro!: exits_now raw_exit.intros)
  next
    case (Some b)
    note IH = "1.IH" [OF Some refl] and exit = exits_now [where R = "raw_exit hashes start", OF "1.prems"]
    show ?thesis
      unfolding raw_body.simps [of hashes start st] Some Let_def option.case
      apply (intro exits_split)
       apply (rule exit, rule re_fence; simp add: Some)
      apply (rule exits_advance(1) [OF Some], rule IH; assumption)
      done
  qed
qed

lemma gen_body_exit: "pos st \<le> length (lsrc st) \<Longrightarrow> exits_via (gen_exit f start) st (gen_body f start st)"
proof (induction f start st rule: gen_body.induct)
  case (1 f start st)
  note exit = exits_now [where R = "gen_exit f start", OF "1.prems"]
  show ?case
    unfolding gen_body.simps [of f start st]
    apply (intro exits_split)
      apply (rule exit, rule ge_newline)
     apply (rule exit, erule ge_end)
    apply (cases "peek st 0", blast)
    apply (rule exits_advance(1), assumption, rule "1.IH"; assumption)
    done
qed

end
