(* ===== verification/Lexer.thy ===== *)
theory Lexer
  imports Lex_Strings
begin

text \<open>
  The engine of \<^verbatim>\<open>crates/wolf_lex/src/lexer.rs\<close>: mode dispatch, the run loop with its termination
  (every step moves forward or pops a frame), the end-of-file drain and \<open>lex\<close>.
\<close>

section \<open>Every step makes progress\<close>

definition moves :: "lexer \<Rightarrow> lexer \<Rightarrow> bool" where
  "moves st st' \<longleftrightarrow> lsrc st' = lsrc st \<and> pos st < pos st'"

definition moves_on :: "lexer \<Rightarrow> lexer \<Rightarrow> bool" where
  "moves_on st st' \<longleftrightarrow> lsrc st' = lsrc st \<and> pos st \<le> pos st'"

definition progress :: "lexer \<Rightarrow> lexer \<Rightarrow> bool" where
  "progress st st' \<longleftrightarrow>
     lsrc st' = lsrc st \<and>
     (pos st < pos st' \<or> pos st = pos st' \<and> length (frames st') < length (frames st))"

lemmas move_defs = moves_def moves_on_def progress_def

lemma prim_same [simp]:
  "lsrc (push_diag d st) = lsrc st" "pos (push_diag d st) = pos st" "frames (push_diag d st) = frames st"
  "lsrc (pop_frame st) = lsrc st" "pos (pop_frame st) = pos st" "frames (pop_frame st) = tl (frames st)"
  "lsrc (push_frame f st) = lsrc st" "pos (push_frame f st) = pos st" "frames (push_frame f st) = f # frames st"
  "lsrc (nest_diag lo hi st) = lsrc st" "pos (nest_diag lo hi st) = pos st" "frames (nest_diag lo hi st) = frames st"
  "lsrc (lone_brace_diag lo st) = lsrc st" "pos (lone_brace_diag lo st) = pos st"
  "frames (lone_brace_diag lo st) = frames st"
  "lsrc (flush_frag n st) = lsrc st" "pos (flush_frag n st) = pos st" "frames (flush_frag n st) = frames st"
  "lsrc (char_diag s a b c st) = lsrc st" "pos (char_diag s a b c st) = pos st"
  "frames (char_diag s a b c st) = frames st" "frames (escape_diag lo hi m st) = frames st"
  by (simp_all add: push_diag_def pop_frame_def push_frame_def nest_diag_def lone_brace_diag_def Let_def
      flush_frag_def char_diag_def escape_diag_def emit_def)

lemma open_string_same [simp]:
  "lsrc (open_string k lo c st) = lsrc st" "pos (open_string k lo c st) = c"
  by (simp_all add: open_string_def)

lemma moves_trans:
  "moves a b \<Longrightarrow> moves_on b c \<Longrightarrow> moves a c" "moves_on a b \<Longrightarrow> moves b c \<Longrightarrow> moves a c"
  "moves_on a b \<Longrightarrow> moves_on b c \<Longrightarrow> moves_on a c"
  by (auto simp: move_defs)

lemma moves_imp_on: "moves a b \<Longrightarrow> moves_on a b"
  by (simp add: move_defs)

lemma trivia_step_moves: "trivia_step st t \<Longrightarrow> moves st t \<or> progress st t"
proof (induction rule: trivia_step.induct)
  case (step_bom st b)
  then show ?case using trivia_steps_pos(1) [of st] by (simp add: moves_def)
next
  case (step_unwind st f)
  then show ?case using plain_interp_open_shrinks [of st f] by (simp add: progress_def)
qed (simp_all add: moves_def trivia_steps_pos)

lemma trivia_moves: "skip_trivia st = st \<or> progress st (skip_trivia st)"
proof -
  have "trivia_step\<^sup>*\<^sup>* st t \<Longrightarrow> t = st \<or> progress st t" for t
    by (induction rule: rtranclp_induct) (auto dest!: trivia_step_moves simp: move_defs)
  then show ?thesis using skip_trivia_steps by metis
qed

lemma dec_digits_moves [simp]: "moves_on st (dec_digits st)"
  by (simp add: dec_digits_def moves_on_def skip_while_ge)

lemma dec_digits_digit: "peek st 0 = Some b \<Longrightarrow> is_digit b \<Longrightarrow> moves st (dec_digits st)"
  by (auto simp: dec_digits_def moves_def peek_def byte_at_Some intro!: skip_while_gt)

lemma advance_moves: "moves_on st (advance n st)" "0 < n \<Longrightarrow> moves st (advance n st)"
  by (simp_all add: move_defs)

lemma fraction_moves: "moves_on st (fst (number_fraction st))"
  using moves_trans(3) [OF advance_moves(1) dec_digits_moves, of st 1]
  by (auto simp: number_fraction_def moves_on_def)

lemma exponent_moves: "moves_on (fst p) (fst (number_exponent p))"
proof (cases p)
  case (Pair st f)
  show ?thesis
    using moves_trans(3) [OF advance_moves(1) dec_digits_moves, of st 1]
      moves_trans(3) [OF advance_moves(1) dec_digits_moves, of st 2]
    by (auto simp: Pair number_exponent_def Let_def moves_on_def)
qed

lemma emit_moves [simp]: "moves s (emit k lo hi st) = moves s st" "moves_on s (emit k lo hi st) = moves_on s st"
  by (simp_all add: move_defs)

lemma number_moves: "peek st 0 = Some b \<Longrightarrow> is_digit b \<Longrightarrow> moves st (number st)"
proof -
  assume b: "peek st 0 = Some b" "is_digit b"
  obtain t f where t: "number_exponent (number_fraction (dec_digits st)) = (t, f)" by fastforce
  have "moves st t"
    using dec_digits_digit [OF b] fraction_moves exponent_moves t
    by (metis fst_conv moves_trans(1))
  moreover have "pos st < skip_while P (lsrc st) (Suc (Suc (pos st)))" for P
    using skip_while_ge [of "Suc (Suc (pos st))" P "lsrc st"] by simp
  ultimately show ?thesis
    by (simp add: number_def t Let_def split_def) (simp add: moves_def)
qed

lemma char_loop_moves:
  "case char_loop lo st scalars second_at bad of
     Inl st' \<Rightarrow> moves_on st st' | Inr (c, st', _) \<Rightarrow> moves_on st st'"
proof (induction lo st scalars second_at bad rule: char_loop.induct)
  case (1 lo st scalars second_at bad)
  let ?goal = "\<lambda>r. case r of Inl st' \<Rightarrow> moves_on st st' | Inr (c, st', _) \<Rightarrow> moves_on st st'"
  have on: "?goal (char_loop lo t a b c)"
    if "moves_on st t" and "case char_loop lo t a b c of Inl st' \<Rightarrow> moves_on t st' | Inr (c, st', _) \<Rightarrow> moves_on t st'"
    for t a b c
    using that by (auto split: sum.splits dest: moves_trans(3))
  show ?case
  proof (cases "peek st 0")
    case None
    then show ?thesis by (simp add: char_loop.simps [of lo st] moves_on_def)
  next
    case (Some b)
    note IH = "1.IH" [OF Some]
    consider "b = nl" | "b = CHR 0x27" | (esc) "b \<noteq> nl" "b \<noteq> CHR 0x27" "b = CHR 0x5C"
      | (ch) "b \<noteq> nl" "b \<noteq> CHR 0x27" "b \<noteq> CHR 0x5C" by blast
    then show ?thesis
    proof cases
      case esc
      then show ?thesis
        using IH(1,2) [OF esc]
        by (cases "char_escape_len st")
          (auto simp: char_loop.simps [of lo st] Some on moves_on_def intro!: on)
    next
      case ch
      then show ?thesis
        using IH(3) [OF ch]
        by (cases "decode (lsrc st) (pos st)")
          (auto simp: char_loop.simps [of lo st] Some moves_on_def intro!: on)
    qed (simp_all add: char_loop.simps [of lo st] Some moves_on_def)
  qed
qed

lemma char_literal_moves: "moves st (char_literal st)"
proof -
  let ?r = "char_loop (pos st) (advance (Suc 0) st) 0 None None"
  have loop: "case ?r of Inl t \<Rightarrow> moves st t | Inr (c, t, _) \<Rightarrow> moves st t"
    using char_loop_moves [where lo = "pos st" and st = "advance (Suc 0) st" and scalars = 0 and second_at = None and bad = None]
    by (auto simp: move_defs split: sum.splits)
  show ?thesis
  proof (cases ?r)
    case (Inl t)
    then show ?thesis using loop by (simp add: char_literal_def)
  next
    case (Inr r)
    obtain closed t n second bad where r: "r = (closed, t, n, second, bad)" by (cases r) auto
    have "moves st t" using loop by (simp add: Inr r)
    then show ?thesis
      by (simp add: char_literal_def Inr r Let_def split: option.split) (simp add: moves_def)
  qed
qed

lemma skip_word_ge: "i \<le> skip_word u s i"
proof (induction u s i rule: skip_word.induct)
  case (1 u s i)
  then show ?case by (subst skip_word.simps) (fastforce split: decoded.split)
qed

lemma skip_invalid_ge: "i \<le> skip_invalid s i"
proof (induction s i rule: skip_invalid.induct)
  case (1 s i)
  then show ?case by (subst skip_invalid.simps) (fastforce split: decoded.split)
qed

lemma skip_stray_ge: "i \<le> skip_stray u s i"
proof (induction u s i rule: skip_stray.induct)
  case (1 u s i)
  then show ?case by (subst skip_stray.simps) (fastforce split: decoded.split)
qed

lemma open_quote_moves: "moves st (open_quote_string st)"
  by (simp add: open_quote_string_def moves_def Let_def split: list.split frame.split)

lemma word_moves:
  assumes "decode (lsrc st) (pos st) = D_Char c n"
  shows "moves st (word u st)"
proof -
  let ?i = "skip_word u (lsrc st) (pos st + n)"
  have lt: "pos st < ?i"
    using skip_word_ge [of "pos st + n" u "lsrc st"] decode_Char_bounds [OF assms] by simp
  then have "pos st < Suc (skip_while P (lsrc st) ?i)" for P
    using skip_while_ge [of ?i P "lsrc st"] by linarith
  with lt show ?thesis
    by (simp add: word_def assms Let_def moves_def)
qed

lemma stray_moves:
  assumes "decode (lsrc st) (pos st) \<noteq> D_Eof"
  shows "moves st (stray u st)"
proof (cases "decode (lsrc st) (pos st)")
  case (D_Char c n)
  then show ?thesis
    using skip_stray_ge [of "pos st + n" u "lsrc st"] decode_Char_bounds [OF D_Char]
    by (simp add: stray_def moves_def Let_def)
next
  case (D_Invalid n)
  then show ?thesis
    using skip_invalid_ge [of "pos st + n" "lsrc st"] decode_Invalid_bounds [OF D_Invalid]
    by (simp add: stray_def moves_def Let_def)
qed (use assms in simp)

lemma punct_pos: "lsrc (punct n p st) = lsrc st" "pos (punct n p st) = pos st + n"
  by (simp_all add: punct_def Let_def split: punctuation.split list.split frame.split bool.split)

lemma find_punct_Some:
  assumes "find_punct s i = Some (text, p)"
  shows "(text, p) \<in> set PUNCTS" "starts_with_at s i text" "0 < length text"
  using assms PUNCTS_nonempty [of "(text, p)"]
  by (auto simp: find_punct_def find_Some_iff) (metis fst_conv)

lemma decode_peek: "peek st 0 = Some b \<Longrightarrow> decode (lsrc st) (pos st) \<noteq> D_Eof"
  by (auto simp: peek_def decode_Eof byte_at_Some)

lemma decode_alpha:
  assumes "peek st 0 = Some b" "b = CHR ''_'' \<or> is_alpha b"
  shows "decode (lsrc st) (pos st) = D_Char (byte_val b) 1"
  using assms decode_ascii [of "pos st" "lsrc st"] by (auto simp: peek_def byte_at_Some is_alpha_def)

lemma lex_token_moves:
  assumes "pos st < length (lsrc st)"
  shows "moves st (lex_token u st)"
proof -
  obtain b where b: "peek st 0 = Some b" using assms by (simp add: peek_def byte_at_def)
  note stray = stray_moves [OF decode_peek [OF b]]
  have find: "moves st (case find_punct (lsrc st) (pos st) of Some (text, p) \<Rightarrow> punct (length text) p st | None \<Rightarrow> stray u st)"
    using stray find_punct_Some(3) by (auto simp: moves_def punct_pos split: option.split)
  have dec: "moves st (case decode (lsrc st) (pos st) of D_Char c n \<Rightarrow> if xid_start u c then word u st else stray u st
      | _ \<Rightarrow> stray u st)"
    using stray by (auto intro: word_moves split: decoded.split)
  show ?thesis
    unfolding lex_token_def b option.case
    by (auto simp: open_quote_moves char_literal_moves number_moves [OF b] find dec stray
        word_moves [OF decode_alpha [OF b]] Let_def) (simp_all add: moves_def)
qed

lemma normal_step_progress: "pos st < length (lsrc st) \<Longrightarrow> progress st (normal_step u st)"
  using trivia_moves [of st] lex_token_moves [of "skip_trivia st" u]
  by (auto simp: normal_step_def Let_def move_defs)

section \<open>Bodies make progress\<close>

lemma margin_step_cases: "snd (margin_step m c l acc i) = snd acc \<or>
    (\<exists>ls line. snd (margin_step m c l acc i) = push_diag (margin_diag m c l ls line (snd acc)) (snd acc))"
  by (cases acc) (auto simp: margin_step_def Let_def split: option.split)

lemma margin_step_diags: "\<exists>D. snd (margin_step m c l acc i) = (snd acc)\<lparr>diags := D\<rparr>"
proof -
  have "(st :: lexer) = st\<lparr>diags := diags st\<rparr>" for st by simp
  then show ?thesis
    using margin_step_cases [of m c l acc i] unfolding push_diag_def by metis
qed

lemma margin_fold_diags: "\<exists>D. snd (foldl (margin_step m c l) acc is) = (snd acc)\<lparr>diags := D\<rparr>"
proof (induction "is" arbitrary: acc)
  case Nil
  show ?case by (rule exI [of _ "diags (snd acc)"]) simp
next
  case (Cons i "is")
  obtain D where "snd (foldl (margin_step m c l) (margin_step m c l acc i) is) = (snd (margin_step m c l acc i))\<lparr>diags := D\<rparr>"
    using Cons.IH by blast
  then show ?case using margin_step_diags [of m c l acc i] by auto
qed

lemma close_multiline_diags: "\<exists>D. snd (close_multiline f at st) = st\<lparr>diags := D\<rparr>"
proof -
  let ?l = "case rposition (\<lambda>b. b = nl) (take at (lsrc st)) of None \<Rightarrow> 0 | Some i \<Rightarrow> i + 1"
  show ?thesis
    using margin_fold_diags [of "slice ?l at (lsrc st)" at ?l "(None, st)" "[sf_content_lo f..<?l]"]
    by (auto simp: close_multiline_def Let_def push_diag_def intro: exI [of _ "diags st"])
qed

lemma close_multiline_same [simp]:
  "lsrc (snd (close_multiline f at st)) = lsrc st" "pos (snd (close_multiline f at st)) = pos st"
  "frames (snd (close_multiline f at st)) = frames st"
  using close_multiline_diags [of f at st] by auto

lemma exits_move:
  "escape_len st = Inl (n, m) \<Longrightarrow> moves st (exit_bad_escape start n m st)"
  "moves st (exit_interp_open start st)" "moves st (exit_str_end start st)"
  "moves st (exit_lone_brace start st)" "moves st (exit_multi_end f start st)"
  "moves st (exit_fence hashes start st)" "moves st (exit_spec_close start st)"
  using escape_len_pos(2) [of st n m]
  by (auto simp: exit_bad_escape_def exit_interp_open_def exit_str_end_def exit_lone_brace_def
      exit_multi_end_def exit_fence_def exit_spec_close_def Let_def moves_def split_def)

lemma exits_shrink:
  assumes "frames st \<noteq> []"
  shows "progress st (unterminated_here f (flush_frag start st))" "progress st (exit_spec_newline e start st)"
    "progress st (exit_gen_newline f start st)"
proof -
  show "progress st (unterminated_here f (flush_frag start st))" "progress st (exit_spec_newline e start st)"
    using assms
    by (auto simp: unterminated_here_def exit_spec_newline_def Let_def progress_def neq_Nil_conv split: list.split frame.split)
  have "plain_interp_open_below s = Some g \<Longrightarrow> frames s \<noteq> []" for s g
    by (auto simp: plain_interp_open_below_def)
  then show "progress st (exit_gen_newline f start st)"
    using assms unterminated_interp_shrinks [of "flush_frag start st"]
    by (auto simp: exit_gen_newline_def Let_def progress_def split: option.split)
qed

lemma exits_via_progress:
  assumes "exits_via R st r" "frames st \<noteq> []" "pos st < length (lsrc st)"
    and "\<And>s. R s r \<Longrightarrow> frames s \<noteq> [] \<Longrightarrow> progress s r \<or> (peek s 0 = None \<and> moves_on s r)"
  shows "progress st r"
proof -
  obtain k where k: "R (advance k st) r" using assms(1) by (auto simp: exits_via_def)
  have "progress (advance k st) r \<or> (peek (advance k st) 0 = None \<and> moves_on (advance k st) r)"
    using assms(4) [OF k] assms(2) by simp
  then show ?thesis
    using assms(3) by (cases "k = 0") (auto simp: move_defs peek_def byte_at_None)
qed

lemma moves_progress: "moves st r \<Longrightarrow> progress st r"
  by (simp add: move_defs)

lemma flush_moves_on: "moves_on st (flush_frag start st)"
  by (simp add: moves_on_def)

lemmas exit_progress = exits_move [THEN moves_progress] exits_shrink flush_moves_on

lemma body_step_progress:
  assumes "frames st \<noteq> []" "pos st < length (lsrc st)"
  shows "progress st (body_step f st)"
proof -
  have le: "pos st \<le> length (lsrc st)" using assms by simp
  show ?thesis
  proof (cases "sf_kind f")
    case (Raw hashes)
    show ?thesis
      unfolding body_step_def Raw str_kind.case
      by (rule exits_via_progress [OF raw_body_exit [OF le] assms])
        (auto elim!: raw_exit.cases simp: exit_progress)
  next
    case Generalized
    show ?thesis
      unfolding body_step_def Generalized str_kind.case
      by (rule exits_via_progress [OF gen_body_exit [OF le] assms])
        (auto elim!: gen_exit.cases simp: exit_progress)
  next
    case Plain
    show ?thesis
      unfolding body_step_def Plain str_kind.case
      by (rule exits_via_progress [OF cooked_body_exit [OF le] assms])
        (auto elim!: cooked_exit.cases simp: exit_progress)
  next
    case Multiline
    show ?thesis
      unfolding body_step_def Multiline str_kind.case
      by (rule exits_via_progress [OF cooked_body_exit [OF le] assms])
        (auto elim!: cooked_exit.cases simp: exit_progress)
  qed
qed

lemma spec_step_progress:
  assumes "frames st \<noteq> []" "pos st < length (lsrc st)"
  shows "progress st (spec_step st)"
proof -
  have le: "pos st \<le> length (lsrc st)" using assms by simp
  show ?thesis
    unfolding spec_step_def
    by (rule exits_via_progress [OF spec_loop_exit [OF le] assms])
      (auto elim!: spec_exit.cases simp: exit_progress)
qed

section \<open>The run loop\<close>

definition lex_step :: "xid \<Rightarrow> lexer \<Rightarrow> lexer" where
  "lex_step u st =
     (case frames st of
        StrF f # _ \<Rightarrow> body_step f st
      | Interp True # _ \<Rightarrow> spec_step st
      | _ \<Rightarrow> normal_step u st)"

lemma lex_step_progress: "pos st < length (lsrc st) \<Longrightarrow> progress st (lex_step u st)"
  by (auto simp: lex_step_def normal_step_progress body_step_progress spec_step_progress
      split: list.split frame.split bool.split)

definition at_end :: "lexer \<Rightarrow> bool" where
  "at_end st \<longleftrightarrow> length (lsrc st) \<le> pos st"

definition progress_rel :: "(lexer \<times> lexer) set" where
  "progress_rel = measures [\<lambda>st. length (lsrc st) - pos st, \<lambda>st. length (frames st)]"

lemma lex_step_rank: "\<not> at_end st \<Longrightarrow> (lex_step u st, st) \<in> progress_rel"
  using lex_step_progress [of st u] by (auto simp: at_end_def progress_rel_def progress_def)

function lex_loop :: "xid \<Rightarrow> lexer \<Rightarrow> lexer" where
  "lex_loop u st = (if at_end st then st else lex_loop u (lex_step u st))"
  by pat_completeness auto
termination
proof (relation "inv_image progress_rel snd")
  show "wf (inv_image progress_rel snd)" by (simp add: progress_rel_def)
qed (simp add: lex_step_rank)

declare lex_loop.simps [simp del]

section \<open>End of file\<close>

text \<open>
  The drain of \<open>finish\<close>: zero-width closers and diagnostics for the frames still open; \<open>rest\<close> collects
  the delimiter frames, innermost first.
\<close>

definition drain_diag :: "str_frame \<Rightarrow> lexer \<Rightarrow> prose diagnostic" where
  "drain_diag f st =
     (let span = mk_span st (sf_open_lo f) (length (lsrc st))
      in case sf_kind f of
           Raw _ \<Rightarrow>
             with_note (Prose ''Raw_close_note'' []) (with_label (Prose ''Raw_opens'' [])
               (Diagnostic_error ''E0109'' span (Prose ''Raw_never_closes'' [])))
         | Generalized \<Rightarrow>
             with_label (Prose ''Gen_opens'' []) (Diagnostic_error ''E0109'' span (Prose ''Gen_never_closes'' []))
         | _ \<Rightarrow>
             with_note (Prose ''Str_close_note'' []) (with_label (Prose ''Str_opens'' [])
               (Diagnostic_error ''E0102'' span (Prose ''Str_open_at_eof'' []))))"

fun finish_drain :: "frame list \<Rightarrow> frame list \<Rightarrow> lexer \<Rightarrow> lexer \<times> frame list" where
  "finish_drain rest [] st = (st\<lparr>frames := []\<rparr>, rest)"
| "finish_drain rest (fr # fs) st =
     (let end = length (lsrc st)
      in case fr of
           Interp _ \<Rightarrow> finish_drain rest fs (emit T_InterpClose end end (st\<lparr>frames := fs\<rparr>))
         | StrF f \<Rightarrow>
             finish_drain rest fs (emit (T_StrEnd 0) end end (push_diag (drain_diag f st) (st\<lparr>frames := fs\<rparr>)))
         | other \<Rightarrow> finish_drain (rest @ [other]) fs (st\<lparr>frames := fs\<rparr>))"

definition eof_term :: "frame list \<Rightarrow> lexer \<Rightarrow> lexer" where
  "eof_term rest st =
     (let end = length (lsrc st);
          suppressed = (case rest of Paren # _ \<Rightarrow> True | Bracket _ # _ \<Rightarrow> True | _ \<Rightarrow> False)
      in if \<not> line_broken st \<and> \<not> attr_close st \<and> \<not> suppressed \<and>
            tokens st \<noteq> [] \<and> ends_statement (tk_kind (last (tokens st)))
         then emit T_Term end end st else st)"

definition finish :: "lexer \<Rightarrow> lexer" where
  "finish st =
     (let end = length (lsrc st);
          st = (case plain_interp_open st of Some f \<Rightarrow> unterminated_interp f st | None \<Rightarrow> st);
          (st, rest) = finish_drain [] (frames st) st
      in emit T_Eof end end (eof_term rest st))"

text \<open>\<open>lex\<close>: \<open>None\<close> is the panic of the length assertion.\<close>

definition lex :: "xid \<Rightarrow> file_id \<Rightarrow> bytes \<Rightarrow> prose lexed option" where
  "lex u f src =
     (if length src \<le> u32_max then
        let st = finish (lex_loop u (lexer_init f src))
        in Some \<lparr>lexed_tokens = tokens st, lexed_diagnostics = dg_into_vec (diags st)\<rparr>
      else None)"

end
