(* ===== verification/Lex_Spec.thy ===== *)
theory Lex_Spec
  imports Lexer
begin

text \<open>
  The abstract specification of the lexer: an action system (\<open>lex_act\<close>) whose steps are the only
  things the engine of \<^verbatim>\<open>crates/wolf_lex/src/lexer.rs\<close> does to its state (append a token over the bytes
  it consumes, attach trivia, report a diagnostic, move the delimiter stack), each with its guard.
  \<open>Lex_Refine\<close> shows that every method of the engine is a sequence of such actions; the invariants
  here are proved once per action and hold of the engine by that refinement.
\<close>

section \<open>The string protocol\<close>

datatype nest = N_Str str_kind | N_Interp bool

fun nests :: "frame list \<Rightarrow> nest list" where
  "nests [] = []"
| "nests (StrF s # fs) = N_Str (sf_kind s) # nests fs"
| "nests (Interp b # fs) = N_Interp b # nests fs"
| "nests (_ # fs) = nests fs"

definition closer :: "str_kind \<Rightarrow> bytes" where
  "closer k =
     (case k of
        Multiline \<Rightarrow> replicate 3 (CHR 0x22)
      | Raw n \<Rightarrow> CHR 0x22 # replicate n (CHR ''#'')
      | _ \<Rightarrow> [CHR 0x22])"

text \<open>Which states are string text: inside a string body or a format spec.\<close>

fun nest_text :: "nest list \<Rightarrow> bool" where
  "nest_text (N_Str _ # _) = True"
| "nest_text (N_Interp b # _) = b"
| "nest_text [] = False"

fun nest_cooked :: "nest list \<Rightarrow> bool" where
  "nest_cooked (N_Str k # _) = (k = Plain \<or> k = Multiline)"
| "nest_cooked (N_Interp b # _) = b"
| "nest_cooked [] = False"

text \<open>One token of the protocol: \<open>None\<close> is a violation.\<close>

definition proto :: "token_kind \<Rightarrow> bytes \<Rightarrow> nest list \<Rightarrow> nest list option" where
  "proto k t ns =
     (case k of
        T_StrBegin sk \<Rightarrow> if nest_text ns \<or> MAX_NEST \<le> length ns then None else Some (N_Str sk # ns)
      | T_StrEnd _ \<Rightarrow>
          (case ns of N_Str sk # r \<Rightarrow> if t = [] \<or> t = closer sk then Some r else None | _ \<Rightarrow> None)
      | T_StrFragment \<Rightarrow> if nest_text ns then Some ns else None
      | T_InterpOpen \<Rightarrow>
          if nest_cooked ns \<and> length ns < MAX_NEST then Some (N_Interp False # ns) else None
      | T_FormatSpecBegin \<Rightarrow> (case ns of N_Interp False # r \<Rightarrow> Some (N_Interp True # r) | _ \<Rightarrow> None)
      | T_InterpClose \<Rightarrow> (case ns of N_Interp _ # r \<Rightarrow> Some r | _ \<Rightarrow> None)
      | T_Error \<Rightarrow> Some ns
      | _ \<Rightarrow> if nest_text ns then None else Some ns)"

fun proto_run :: "(token_kind \<times> bytes) list \<Rightarrow> nest list \<Rightarrow> nest list option" where
  "proto_run [] ns = Some ns"
| "proto_run ((k, t) # ts) ns = Option.bind (proto k t ns) (proto_run ts)"

lemma proto_run_append:
  "proto_run (xs @ ys) ns = Option.bind (proto_run xs ns) (proto_run ys)"
  by (induction xs ns rule: proto_run.induct) (auto split: bind_splits)

section \<open>What a token's bytes are\<close>

definition text_ok :: "bytes \<Rightarrow> nat \<Rightarrow> nat \<Rightarrow> token_kind \<Rightarrow> bool" where
  "text_ok src lo hi k =
     (let t = slice lo hi src
      in case k of
           T_Ident \<Rightarrow> t \<noteq> [] \<and> map_of KEYWORDS t = None \<and> t \<noteq> ''_''
         | T_Underscore \<Rightarrow> t = ''_''
         | T_Int \<Rightarrow> t \<noteq> [] \<and> is_digit (hd t)
         | T_Float \<Rightarrow> t \<noteq> [] \<and> is_digit (hd t)
         | T_Char \<Rightarrow> 3 \<le> length t \<and> hd t = CHR 0x27 \<and> last t = CHR 0x27
         | T_Kw kw \<Rightarrow> (t, kw) \<in> set KEYWORDS
         | T_Punct p \<Rightarrow>
             (t, p) \<in> set PUNCTS \<and>
             list_all (\<lambda>e. \<not> (starts_with_at src lo (fst e) \<and> length t < length (fst e))) PUNCTS
         | T_PoundBracket \<Rightarrow> t = ''#[''
         | T_PoundBangBracket \<Rightarrow> t = ''#![''
         | T_Term \<Rightarrow> t = '';'' \<or> t = [nl] \<or> t = [] \<and> lo = length src
         | T_StrBegin sk \<Rightarrow>
             (case sk of
                Plain \<Rightarrow> t = [CHR 0x22]
              | Multiline \<Rightarrow> t = replicate 3 (CHR 0x22)
              | Raw n \<Rightarrow> t = CHR ''r'' # replicate n (CHR ''#'') @ [CHR 0x22]
              | Generalized \<Rightarrow> 2 \<le> length t \<and> last t = CHR 0x22)
         | T_StrFragment \<Rightarrow> t \<noteq> []
         | T_InterpOpen \<Rightarrow> t = ''{''
         | T_InterpClose \<Rightarrow> t = ''}'' \<or> t = []
         | T_FormatSpecBegin \<Rightarrow> t = '':''
         | T_StrEnd _ \<Rightarrow> True
         | T_Error \<Rightarrow> t \<noteq> []
         | T_Eof \<Rightarrow> t = [])"

definition trivia_ok :: "bytes \<Rightarrow> trivia_kind \<Rightarrow> bool" where
  "trivia_ok t k =
     (case k of
        Whitespace \<Rightarrow> list_all (\<lambda>b. is_inline_ws b \<or> b = nl) t
      | Bom \<Rightarrow> t = BOM
      | Shebang \<Rightarrow> starts_with_at t 0 ''#!'' \<and> nl \<notin> set t
      | _ \<Rightarrow> starts_with_at t 0 ''//'' \<and> nl \<notin> set t \<and> k = comment_kind t)"

definition lex_codes :: "code list" where
  "lex_codes =
     [''E0101'', ''E0102'', ''E0103'', ''E0104'', ''E0105'', ''E0106'', ''E0107'', ''E0108'', ''E0109'', ''E0110'']"

section \<open>Well-formed frame stacks\<close>

fun in_text :: "frame list \<Rightarrow> bool" where
  "in_text (StrF _ # _) = True"
| "in_text (Interp b # _) = b"
| "in_text _ = False"

fun in_cooked :: "frame list \<Rightarrow> bool" where
  "in_cooked (StrF s # _) = (sf_kind s = Plain \<or> sf_kind s = Multiline)"
| "in_cooked (Interp b # _) = b"
| "in_cooked _ = False"

fun frames_ok :: "nat \<Rightarrow> frame list \<Rightarrow> bool" where
  "frames_ok p [] = True"
| "frames_ok p (f # fs) =
     ((case f of
         Interp _ \<Rightarrow> in_cooked fs
       | StrF s \<Rightarrow> \<not> in_text fs \<and> sf_open_lo s \<le> sf_content_lo s \<and> sf_content_lo s \<le> p
       | _ \<Rightarrow> \<not> in_text fs) \<and> frames_ok p fs)"

definition st_ok :: "lexer \<Rightarrow> bool" where
  "st_ok st \<longleftrightarrow> length (lsrc st) \<le> u32_max \<and> pos st \<le> length (lsrc st) \<and> frames_ok (pos st) (frames st)"

lemma frames_ok_mono: "frames_ok p fs \<Longrightarrow> p \<le> q \<Longrightarrow> frames_ok q fs"
  by (induction fs) (auto split: frame.splits)

lemma frames_ok_tl: "frames_ok p fs \<Longrightarrow> frames_ok p (tl fs)"
  by (cases fs) auto

lemma nest_text_frames: "frames_ok p fs \<Longrightarrow> nest_text (nests fs) = in_text fs"
  by (induction fs rule: nests.induct) auto

lemma nest_cooked_frames: "in_cooked fs \<Longrightarrow> nest_cooked (nests fs)"
  by (cases fs rule: in_cooked.cases) auto

lemma in_cooked_text: "in_cooked fs \<Longrightarrow> in_text fs"
  by (cases fs rule: in_cooked.cases) auto

lemma nests_length: "length (nests fs) = nest_depth fs"
  by (induction fs rule: nests.induct) (auto simp: nest_depth_def is_nest_def)

section \<open>Actions\<close>

definition diag_ok :: "nat \<Rightarrow> nat \<Rightarrow> lexer \<Rightarrow> prose diagnostic \<Rightarrow> bool" where
  "diag_ok lo hi st d \<longleftrightarrow>
     d_code d \<in> set lex_codes \<and> d_severity d = Error \<and> sp_file (d_span d) = lfile st \<and>
     lo \<le> sp_lo (d_span d) \<and> sp_lo (d_span d) \<le> sp_hi (d_span d) \<and> sp_hi (d_span d) \<le> hi"

definition put_token :: "token_kind \<Rightarrow> nat \<Rightarrow> frame list \<Rightarrow> lexer \<Rightarrow> lexer" where
  "put_token k n fs st = (emit k (pos st) (pos st + n) st)\<lparr>pos := pos st + n, frames := fs\<rparr>"

definition put_trivia :: "trivia_kind \<Rightarrow> nat \<Rightarrow> lexer \<Rightarrow> lexer" where
  "put_trivia k n st = (push_trivia k (pos st) (pos st + n) st)\<lparr>pos := pos st + n\<rparr>"

text \<open>Does the last token end a statement?\<close>

definition last_ends :: "lexer \<Rightarrow> bool" where
  "last_ends st \<longleftrightarrow> tokens st \<noteq> [] \<and> ends_statement (tk_kind (last (tokens st)))"

abbreviation text_at :: "lexer \<Rightarrow> nat \<Rightarrow> bytes" where
  "text_at st n \<equiv> slice (pos st) (pos st + n) (lsrc st)"

inductive lex_act :: "lexer \<Rightarrow> lexer \<Rightarrow> bool" where
  act_token: "\<lbrakk>k \<noteq> T_Term; k \<noteq> T_Error; k \<noteq> T_Eof; text_ok (lsrc st) (pos st) (pos st + n) k;
    proto k (text_at st n) (nests (frames st)) = Some (nests fs); st_ok (put_token k n fs st)\<rbrakk> \<Longrightarrow>
    lex_act st (put_token k n fs st)"
| act_term: "\<lbrakk>\<not> in_text (frames st);
    text_at st n = '';'' \<or> (text_at st n = [nl] \<or> n = 0 \<and> pos st = length (lsrc st)) \<and> last_ends st;
    st_ok (put_token T_Term n (frames st) st)\<rbrakk> \<Longrightarrow>
    lex_act st (put_token T_Term n (frames st) st)"
| act_error: "\<lbrakk>0 < n; diag_ok (pos st) (pos st + n) st d;
    st_ok (put_token T_Error n (frames st) (push_diag d st))\<rbrakk> \<Longrightarrow>
    lex_act st (put_token T_Error n (frames st) (push_diag d st))"
| act_diag: "\<lbrakk>diag_ok 0 (length (lsrc st)) st d; st_ok st\<rbrakk> \<Longrightarrow> lex_act st (push_diag d st)"
| act_trivia: "\<lbrakk>0 < n; trivia_ok (text_at st n) k; k = Bom \<longrightarrow> pos st = 0; k = Shebang \<longrightarrow> at_file_start st;
    \<not> in_text (frames st); st_ok (put_trivia k n st)\<rbrakk> \<Longrightarrow> lex_act st (put_trivia k n st)"
| act_break: "st_ok st \<Longrightarrow> lex_act st (st\<lparr>line_broken := True\<rparr>)"
| act_attr: "st_ok st \<Longrightarrow> lex_act st (st\<lparr>attr_close := True\<rparr>)"
| act_push: "\<lbrakk>\<not> is_nest f; \<not> in_text (frames st); st_ok (push_frame f st)\<rbrakk> \<Longrightarrow> lex_act st (push_frame f st)"
| act_pop: "\<lbrakk>frames st = f # fs; \<not> is_nest f; st_ok (pop_frame st)\<rbrakk> \<Longrightarrow> lex_act st (pop_frame st)"

abbreviation lex_acts :: "lexer \<Rightarrow> lexer \<Rightarrow> bool" where
  "lex_acts \<equiv> lex_act\<^sup>*\<^sup>*"

lemma put_same [simp]:
  "lsrc (put_token k n fs st) = lsrc st" "lfile (put_token k n fs st) = lfile st"
  "pos (put_token k n fs st) = pos st + n" "frames (put_token k n fs st) = fs"
  "diags (put_token k n fs st) = diags st"
  "lsrc (put_trivia tk n st) = lsrc st" "lfile (put_trivia tk n st) = lfile st"
  "pos (put_trivia tk n st) = pos st + n" "frames (put_trivia tk n st) = frames st"
  "diags (put_trivia tk n st) = diags st"
  by (simp_all add: put_token_def put_trivia_def emit_def push_trivia_def Let_def)

lemma lfile_same [simp]:
  "lfile (push_diag d st) = lfile st" "lfile (push_frame f st) = lfile st" "lfile (pop_frame st) = lfile st"
  "lfile (advance n st) = lfile st" "lfile (emit k lo hi st) = lfile st"
  by (simp_all add: push_diag_def push_frame_def pop_frame_def advance_def emit_def)

lemma act_ok: "lex_act st st' \<Longrightarrow> st_ok st'"
  by (induction rule: lex_act.induct) (auto simp: st_ok_def)

lemma acts_ok: "lex_acts st st' \<Longrightarrow> st_ok st \<Longrightarrow> st_ok st'"
  by (induction rule: rtranclp_induct) (auto dest: act_ok)

lemma act_frame: "lex_act st st' \<Longrightarrow> lsrc st' = lsrc st \<and> lfile st' = lfile st \<and> pos st \<le> pos st'"
  by (induction rule: lex_act.induct) auto

lemma acts_frame: "lex_acts st st' \<Longrightarrow> lsrc st' = lsrc st \<and> lfile st' = lfile st \<and> pos st \<le> pos st'"
  by (induction rule: rtranclp_induct) (auto dest!: act_frame)

section \<open>Views of the token stream\<close>

definition skel :: "token list \<Rightarrow> (token_kind \<times> span) list" where
  "skel ts = map (\<lambda>t. (tk_kind t, tk_span t)) ts"

definition kind_texts :: "bytes \<Rightarrow> token list \<Rightarrow> (token_kind \<times> bytes) list" where
  "kind_texts src ts = map (\<lambda>(k, s). (k, span_text src s)) (skel ts)"

definition pieces :: "lexer \<Rightarrow> span list" where
  "pieces st = concat (map token_spans (tokens st)) @ map tv_span (pending st)"

definition all_trivia :: "token list \<Rightarrow> trivia set" where
  "all_trivia ts = (\<Union>t \<in> set ts. set (tk_leading t) \<union> set (tk_trailing t))"

fun tiles :: "file_id \<Rightarrow> nat \<Rightarrow> span list \<Rightarrow> nat \<Rightarrow> bool" where
  "tiles f lo [] hi = (lo = hi)"
| "tiles f lo (s # ss) hi = (sp_file s = f \<and> sp_lo s = lo \<and> lo \<le> sp_hi s \<and> tiles f (sp_hi s) ss hi)"

lemma tiles_append: "tiles f lo (xs @ ys) hi \<longleftrightarrow> (\<exists>mid. tiles f lo xs mid \<and> tiles f mid ys hi)"
  by (induction xs arbitrary: lo) auto

lemma tiles_le: "tiles f lo ss hi \<Longrightarrow> lo \<le> hi"
  by (induction ss arbitrary: lo) (auto intro: order_trans)

lemma tiles_in: "tiles f lo ss hi \<Longrightarrow> s \<in> set ss \<Longrightarrow> sp_file s = f \<and> lo \<le> sp_lo s \<and> sp_lo s \<le> sp_hi s \<and> sp_hi s \<le> hi"
proof (induction ss arbitrary: lo)
  case (Cons a ss)
  then show ?case using tiles_le [of f "sp_hi a" ss hi] by fastforce
qed simp

lemma tiles_text: "tiles f lo ss hi \<Longrightarrow> concat (map (span_text src) ss) = slice lo hi src"
proof (induction ss arbitrary: lo)
  case (Cons a ss)
  then show ?case
    using tiles_le [of f "sp_hi a" ss hi] by (auto simp: span_text_def intro: slice_append)
qed simp

lemma mk_span_exact: "lo \<le> hi \<Longrightarrow> hi \<le> u32_max \<Longrightarrow> mk_span st lo hi = \<lparr>sp_file = lfile st, sp_lo = lo, sp_hi = hi\<rparr>"
  by (simp add: mk_span_def)

lemma skel_snoc: "skel (ts @ [t]) = skel ts @ [(tk_kind t, tk_span t)]"
  by (simp add: skel_def)

lemma kind_texts_snoc: "kind_texts src (ts @ [t]) = kind_texts src ts @ [(tk_kind t, span_text src (tk_span t))]"
  by (simp add: kind_texts_def skel_snoc)

lemma skel_trailing: "ts \<noteq> [] \<Longrightarrow> skel (push_trailing p ts) = skel ts"
  by (cases ts rule: rev_cases) (simp_all add: skel_def push_trailing_def)

lemma tokens_put_token: "tokens (put_token k n fs st) =
    tokens st @ [\<lparr>tk_kind = k, tk_span = mk_span st (pos st) (pos st + n), tk_leading = pending st, tk_trailing = []\<rparr>]"
  by (simp add: put_token_def emit_def)

lemma skel_put_trivia [simp]: "skel (tokens (put_trivia k n st)) = skel (tokens st)"
  by (simp add: put_trivia_def push_trivia_def Let_def skel_trailing)

lemma tokens_same [simp]:
  "tokens (push_diag d st) = tokens st" "tokens (push_frame f st) = tokens st" "tokens (pop_frame st) = tokens st"
  "pending (push_diag d st) = pending st" "pending (push_frame f st) = pending st"
  "pending (pop_frame st) = pending st"
  "line_broken (push_diag d st) = line_broken st" "line_broken (push_frame f st) = line_broken st"
  "line_broken (pop_frame st) = line_broken st"
  by (simp_all add: push_diag_def push_frame_def pop_frame_def)

lemma mk_span_same [simp]: "mk_span (push_diag d st) = mk_span st"
  by (simp add: mk_span_def fun_eq_iff)

lemma st_ok_put: "st_ok (put_token k n fs st) \<Longrightarrow> pos st + n \<le> u32_max"
  "st_ok (put_trivia tk n st) \<Longrightarrow> pos st + n \<le> u32_max"
  by (simp_all add: st_ok_def)

section \<open>Tiling: the pieces cover the consumed bytes in order\<close>

definition inv_tiles :: "lexer \<Rightarrow> bool" where
  "inv_tiles st \<longleftrightarrow>
     tiles (lfile st) 0 (pieces st) (pos st) \<and> (tokens st \<noteq> [] \<and> \<not> line_broken st \<longrightarrow> pending st = [])"

lemma pieces_put_token: "pieces (put_token k n fs st) = pieces st @ [mk_span st (pos st) (pos st + n)]"
  by (simp add: pieces_def tokens_put_token token_spans_def) (simp add: put_token_def emit_def)

lemma pieces_push_diag [simp]: "pieces (push_diag d st) = pieces st"
  by (simp add: pieces_def)

lemma pieces_put_trivia:
  assumes "tokens st \<noteq> [] \<and> \<not> line_broken st \<longrightarrow> pending st = []" "0 < n"
  shows "pieces (put_trivia k n st) = pieces st @ [mk_span st (pos st) (pos st + n)]"
  using assms
  by (cases "tokens st" rule: rev_cases)
    (auto simp: pieces_def put_trivia_def push_trivia_def push_trailing_def token_spans_def Let_def)

lemma pending_put:
  "pending (put_token k n fs st) = []"
  "tokens st \<noteq> [] \<and> \<not> line_broken st \<longrightarrow> pending st = [] \<Longrightarrow>
   tokens (put_trivia tk n st) \<noteq> [] \<and> \<not> line_broken (put_trivia tk n st) \<longrightarrow> pending (put_trivia tk n st) = []"
  by (auto simp: put_token_def emit_def put_trivia_def push_trivia_def Let_def push_trailing_def)

lemma act_tiles: "lex_act st st' \<Longrightarrow> inv_tiles st \<Longrightarrow> inv_tiles st'"
proof (induction rule: lex_act.induct)
  case (act_token k st n fs)
  then show ?case
    using st_ok_put(1) [of k n fs st]
    by (auto simp: inv_tiles_def pieces_put_token tiles_append pending_put mk_span_exact)
next
  case (act_term st n)
  then show ?case
    using st_ok_put(1) [of T_Term n "frames st" st]
    by (auto simp: inv_tiles_def pieces_put_token tiles_append pending_put mk_span_exact)
next
  case (act_error n st d)
  then show ?case
    using st_ok_put(1) [of T_Error n "frames st" "push_diag d st"]
    by (auto simp: inv_tiles_def pieces_put_token tiles_append pending_put mk_span_exact)
next
  case (act_trivia n st k)
  then show ?case
    using st_ok_put(2) [of k n st] pending_put(2) [of st k n]
    by (auto simp: inv_tiles_def pieces_put_trivia tiles_append mk_span_exact)
qed (auto simp: inv_tiles_def pieces_def)

section \<open>The protocol, the texts and the terminators\<close>

definition inv_proto :: "lexer \<Rightarrow> bool" where
  "inv_proto st \<longleftrightarrow> proto_run (kind_texts (lsrc st) (tokens st)) [] = Some (nests (frames st))"

definition inv_texts :: "lexer \<Rightarrow> bool" where
  "inv_texts st \<longleftrightarrow>
     (\<forall>(k, s) \<in> set (skel (tokens st)). text_ok (lsrc st) (sp_lo s) (sp_hi s) k \<and> k \<noteq> T_Eof)"

definition term_ok :: "(token_kind \<times> bytes) list \<Rightarrow> nat \<Rightarrow> bool" where
  "term_ok kts i =
     (fst (kts ! i) = T_Term \<longrightarrow>
        snd (kts ! i) = '';'' \<or> (0 < i \<and> ends_statement (fst (kts ! (i - 1)))))"

definition inv_terms :: "lexer \<Rightarrow> bool" where
  "inv_terms st \<longleftrightarrow>
     (let kts = kind_texts (lsrc st) (tokens st) in \<forall>i < length kts. term_ok kts i)"

lemma kind_texts_put_token:
  "st_ok (put_token k n fs st) \<Longrightarrow>
   kind_texts (lsrc st) (tokens (put_token k n fs st)) = kind_texts (lsrc st) (tokens st) @ [(k, text_at st n)]"
  using st_ok_put(1) [of k n fs st]
  by (simp add: tokens_put_token kind_texts_snoc mk_span_exact span_text_def)

lemma kind_texts_put_trivia [simp]: "kind_texts src (tokens (put_trivia k n st)) = kind_texts src (tokens st)"
  by (simp add: kind_texts_def)

lemma push_nests: "\<not> is_nest f \<Longrightarrow> nests (f # fs) = nests fs"
  by (cases f) (simp_all add: is_nest_def)

lemma proto_plain:
  "proto T_Error t ns = Some ns" "proto T_Term t ns = (if nest_text ns then None else Some ns)"
  by (simp_all add: proto_def)

lemma act_proto: "lex_act st st' \<Longrightarrow> inv_proto st \<Longrightarrow> inv_proto st'"
proof (induction rule: lex_act.induct)
  case (act_token k st n fs)
  then show ?case by (simp add: inv_proto_def kind_texts_put_token proto_run_append)
next
  case (act_term st n)
  then have "nest_text (nests (frames st)) = False"
    using nest_text_frames [of "pos st + n" "frames st"] by (simp add: st_ok_def)
  with act_term show ?case by (simp add: inv_proto_def kind_texts_put_token proto_run_append proto_plain)
next
  case (act_error n st d)
  then show ?case
    using kind_texts_put_token [of T_Error n "frames st" "push_diag d st"]
    by (simp add: inv_proto_def proto_run_append proto_plain)
next
  case (act_push f st)
  then show ?case by (simp add: inv_proto_def push_nests)
next
  case (act_pop st f fs)
  then show ?case by (simp add: inv_proto_def push_nests)
qed (simp_all add: inv_proto_def)

lemma skel_put_token:
  "st_ok (put_token k n fs st) \<Longrightarrow>
   skel (tokens (put_token k n fs st)) =
   skel (tokens st) @ [(k, \<lparr>sp_file = lfile st, sp_lo = pos st, sp_hi = pos st + n\<rparr>)]"
  using st_ok_put(1) [of k n fs st] by (simp add: tokens_put_token skel_snoc mk_span_exact)

lemma text_nonempty: "st_ok (put_token k n fs st) \<Longrightarrow> 0 < n \<Longrightarrow> text_at st n \<noteq> []"
  using length_slice [of "pos st" "pos st + n" "lsrc st"] by (auto simp: st_ok_def)

lemma act_texts: "lex_act st st' \<Longrightarrow> inv_texts st \<Longrightarrow> inv_texts st'"
proof (induction rule: lex_act.induct)
  case (act_token k st n fs)
  then show ?case by (auto simp: inv_texts_def skel_put_token)
next
  case (act_term st n)
  then show ?case by (auto simp: inv_texts_def skel_put_token text_ok_def)
next
  case (act_error n st d)
  then show ?case
    using text_nonempty [of T_Error n "frames st" "push_diag d st"]
    by (auto simp: inv_texts_def skel_put_token text_ok_def)
qed (auto simp: inv_texts_def)

lemma term_ok_append: "i < length xs \<Longrightarrow> term_ok (xs @ ys) i = term_ok xs i"
  by (auto simp: term_ok_def nth_append)

lemma inv_terms_snoc:
  assumes "\<forall>i < length xs. term_ok xs i"
    and "k = T_Term \<Longrightarrow> t = '';'' \<or> xs \<noteq> [] \<and> ends_statement (fst (last xs))"
  shows "\<forall>i < length (xs @ [(k, t)]). term_ok (xs @ [(k, t)]) i"
proof (intro allI impI)
  fix i assume "i < length (xs @ [(k, t)])"
  then consider "i < length xs" | "i = length xs" by fastforce
  then show "term_ok (xs @ [(k, t)]) i"
  proof cases
    case 1
    then show ?thesis using assms(1) by (simp add: term_ok_append)
  next
    case 2
    then show ?thesis using assms(2)
      by (cases xs rule: rev_cases) (auto simp: term_ok_def nth_append)
  qed
qed

lemma last_ends_texts:
  "last_ends st \<longleftrightarrow> kind_texts src (tokens st) \<noteq> [] \<and> ends_statement (fst (last (kind_texts src (tokens st))))"
  by (cases "tokens st" rule: rev_cases) (simp_all add: last_ends_def kind_texts_def skel_def)

lemma act_terms: "lex_act st st' \<Longrightarrow> inv_terms st \<Longrightarrow> inv_terms st'"
proof (induction rule: lex_act.induct)
  case (act_token k st n fs)
  then show ?case
    unfolding inv_terms_def Let_def put_same kind_texts_put_token [OF act_token(6)]
    by (intro inv_terms_snoc) auto
next
  case (act_term st n)
  then show ?case
    unfolding inv_terms_def Let_def put_same kind_texts_put_token [OF act_term(3)]
    by (intro inv_terms_snoc) (auto simp: last_ends_texts [of st "lsrc st"])
next
  case (act_error n st d)
  note eq = kind_texts_put_token [OF act_error(3)]
  from act_error show ?case
    unfolding inv_terms_def Let_def put_same eq
    by (intro inv_terms_snoc) auto
qed (simp_all add: inv_terms_def)

section \<open>Trivia\<close>

definition piece_ok :: "bytes \<Rightarrow> trivia \<Rightarrow> bool" where
  "piece_ok src p \<longleftrightarrow>
     trivia_ok (span_text src (tv_span p)) (tv_kind p) \<and> sp_lo (tv_span p) < sp_hi (tv_span p) \<and>
     (tv_kind p = Bom \<longrightarrow> sp_lo (tv_span p) = 0) \<and>
     (tv_kind p = Shebang \<longrightarrow>
        sp_lo (tv_span p) = 0 \<or> sp_lo (tv_span p) = 3 \<and> starts_with_at src 0 BOM)"

definition inv_trivia :: "lexer \<Rightarrow> bool" where
  "inv_trivia st \<longleftrightarrow> (\<forall>p \<in> all_trivia (tokens st) \<union> set (pending st). piece_ok (lsrc st) p)"

lemma trivia_put_token:
  "all_trivia (tokens (put_token k n fs st)) \<union> set (pending (put_token k n fs st)) =
   all_trivia (tokens st) \<union> set (pending st)"
  by (auto simp: put_token_def emit_def all_trivia_def)

lemma trivia_put_trivia:
  "all_trivia (tokens (put_trivia k n st)) \<union> set (pending (put_trivia k n st)) \<subseteq>
   insert \<lparr>tv_kind = k, tv_span = mk_span st (pos st) (pos st + n)\<rparr> (all_trivia (tokens st) \<union> set (pending st))"
  by (cases "tokens st" rule: rev_cases)
    (auto simp: put_trivia_def push_trivia_def push_trailing_def all_trivia_def Let_def)

lemma act_trivia_inv: "lex_act st st' \<Longrightarrow> inv_trivia st \<Longrightarrow> inv_trivia st'"
proof (induction rule: lex_act.induct)
  case (act_trivia n st k)
  have "piece_ok (lsrc st) \<lparr>tv_kind = k, tv_span = mk_span st (pos st) (pos st + n)\<rparr>"
    using act_trivia st_ok_put(2) [OF act_trivia(6)]
    by (auto simp: piece_ok_def mk_span_exact span_text_def at_file_start_def BOM_def)
  then show ?case
    using act_trivia(7) trivia_put_trivia [of k n st] by (auto simp: inv_trivia_def)
qed (simp_all add: inv_trivia_def trivia_put_token)

section \<open>Diagnostics\<close>

definition inv_diags :: "lexer \<Rightarrow> bool" where
  "inv_diags st \<longleftrightarrow>
     dg_suppressed (diags st) = [] \<and>
     (\<forall>d \<in> set (dg_diags (diags st)). diag_ok 0 (length (lsrc st)) st d) \<and>
     (\<forall>(k, s) \<in> set (skel (tokens st)). k = T_Error \<longrightarrow>
        (\<exists>d \<in> set (dg_diags (diags st)). diag_ok (sp_lo s) (sp_hi s) st d))"

lemma diag_ok_same [simp]:
  "diag_ok lo hi (put_token k n fs st) = diag_ok lo hi st"
  "diag_ok lo hi (put_trivia tk n st) = diag_ok lo hi st"
  "diag_ok lo hi (push_diag e st) = diag_ok lo hi st"
  "diag_ok lo hi (push_frame f st) = diag_ok lo hi st"
  "diag_ok lo hi (pop_frame st) = diag_ok lo hi st"
  "diag_ok lo hi (st\<lparr>line_broken := a\<rparr>) = diag_ok lo hi st"
  "diag_ok lo hi (st\<lparr>attr_close := a\<rparr>) = diag_ok lo hi st"
  by (simp_all add: diag_ok_def fun_eq_iff)

lemma diag_ok_widen: "diag_ok lo hi st d \<Longrightarrow> lo' \<le> lo \<Longrightarrow> hi \<le> hi' \<Longrightarrow> diag_ok lo' hi' st d"
  by (auto simp: diag_ok_def)

lemma push_ok:
  "dg_suppressed (diags st) = [] \<Longrightarrow> diag_ok lo hi st d \<Longrightarrow>
   diags (push_diag d st) = (diags st)\<lparr>dg_diags := dg_diags (diags st) @ [d]\<rparr>"
  using dg_push_plain [of "diags st" d] by (auto simp: push_diag_def diag_ok_def lex_codes_def)

lemma diags_same [simp]:
  "diags (push_frame f st) = diags st" "diags (pop_frame st) = diags st"
  by (simp_all add: push_frame_def pop_frame_def)

lemma inv_diags_push: "inv_diags st \<Longrightarrow> diag_ok 0 (length (lsrc st)) st d \<Longrightarrow>
    inv_diags (push_diag d st) \<and> d \<in> set (dg_diags (diags (push_diag d st)))"
  by (auto simp: inv_diags_def push_ok)

lemma act_diags: "lex_act st st' \<Longrightarrow> inv_diags st \<Longrightarrow> inv_diags st'"
proof (induction rule: lex_act.induct)
  case (act_token k st n fs)
  then show ?case by (auto simp: inv_diags_def skel_put_token)
next
  case (act_term st n)
  then show ?case by (auto simp: inv_diags_def skel_put_token)
next
  case (act_error n st d)
  let ?st = "push_diag d st"
  have "pos st + n \<le> length (lsrc st)" using act_error(3) by (simp add: st_ok_def)
  then have inv: "inv_diags ?st" "d \<in> set (dg_diags (diags ?st))"
    using inv_diags_push [OF act_error(4)] diag_ok_widen [OF act_error(2)] by auto
  then show ?case
    using act_error(2) skel_put_token [OF act_error(3)] by (auto simp: inv_diags_def)
next
  case (act_diag st d)
  then show ?case using inv_diags_push by blast
qed (auto simp: inv_diags_def)

section \<open>The whole invariant\<close>

definition lex_inv :: "lexer \<Rightarrow> bool" where
  "lex_inv st \<longleftrightarrow>
     st_ok st \<and> inv_tiles st \<and> inv_proto st \<and> inv_texts st \<and> inv_terms st \<and> inv_trivia st \<and> inv_diags st"

theorem lex_inv_init: "length src \<le> u32_max \<Longrightarrow> lex_inv (lexer_init f src)"
  by (simp add: lex_inv_def st_ok_def inv_tiles_def inv_proto_def inv_texts_def inv_terms_def inv_trivia_def
      inv_diags_def lexer_init_def pieces_def kind_texts_def skel_def all_trivia_def Diagnostics_new_def)

lemma act_lex_inv: "lex_act st st' \<Longrightarrow> lex_inv st \<Longrightarrow> lex_inv st'"
  using act_ok act_tiles act_proto act_texts act_terms act_trivia_inv act_diags
  by (simp add: lex_inv_def)

lemma acts_lex_inv: "lex_acts st st' \<Longrightarrow> lex_inv st \<Longrightarrow> lex_inv st'"
  by (induction rule: rtranclp_induct) (auto intro: act_lex_inv)

end
