(* ===== verification/Lex_Refine_Trivia.thy ===== *)
theory Lex_Refine_Trivia
  imports Lex_Spec
begin

text \<open>
  The engine of \<^verbatim>\<open>crates/wolf_lex/src/lexer.rs\<close> refines the action system of \<open>Lex_Spec\<close>: from every
  well-formed state, each method is a sequence of actions. One lemma per method, in the order of the
  definitions.
\<close>

section \<open>Doing one action\<close>

lemma do_token:
  assumes "k \<noteq> T_Term" "k \<noteq> T_Error" "k \<noteq> T_Eof" "st_ok st" "pos st + n \<le> length (lsrc st)"
    and "text_ok (lsrc st) (pos st) (pos st + n) k"
    and "proto k (text_at st n) (nests (frames st)) = Some (nests fs)" "frames_ok (pos st + n) fs"
  shows "lex_acts st (put_token k n fs st)"
  using assms by (intro r_into_rtranclp act_token) (auto simp: st_ok_def)

definition plain_kind :: "token_kind \<Rightarrow> bool" where
  "plain_kind k =
     (case k of
        T_StrBegin _ \<Rightarrow> False | T_StrEnd _ \<Rightarrow> False | T_StrFragment \<Rightarrow> False | T_InterpOpen \<Rightarrow> False
      | T_InterpClose \<Rightarrow> False | T_FormatSpecBegin \<Rightarrow> False | T_Error \<Rightarrow> False | T_Term \<Rightarrow> False | T_Eof \<Rightarrow> False
      | _ \<Rightarrow> True)"

lemma do_plain:
  assumes "plain_kind k" "st_ok st" "pos st + n \<le> length (lsrc st)" "\<not> in_text (frames st)"
    and "text_ok (lsrc st) (pos st) (pos st + n) k"
  shows "lex_acts st (put_token k n (frames st) st)"
proof (rule do_token)
  have ok: "frames_ok (pos st) (frames st)" using assms(2) by (simp add: st_ok_def)
  then show "frames_ok (pos st + n) (frames st)" by (rule frames_ok_mono) simp
  show "proto k (text_at st n) (nests (frames st)) = Some (nests (frames st))"
    using assms(1,4) nest_text_frames [OF ok] by (cases k) (auto simp: plain_kind_def proto_def)
qed (use assms in \<open>auto simp: plain_kind_def\<close>)

lemma do_error:
  assumes "0 < n" "st_ok st" "pos st + n \<le> length (lsrc st)" "diag_ok (pos st) (pos st + n) st d"
  shows "lex_acts st (put_token T_Error n (frames st) (push_diag d st))"
  using assms frames_ok_mono [of "pos st" "frames st" "pos st + n"]
  by (intro r_into_rtranclp act_error) (auto simp: st_ok_def)

lemma do_diag: "diag_ok 0 (length (lsrc st)) st d \<Longrightarrow> st_ok st \<Longrightarrow> lex_acts st (push_diag d st)"
  by (intro r_into_rtranclp act_diag)

lemma do_term:
  assumes "st_ok st" "\<not> in_text (frames st)" "pos st + n \<le> length (lsrc st)"
    and "text_at st n = '';'' \<or> (text_at st n = [nl] \<or> n = 0 \<and> pos st = length (lsrc st)) \<and> last_ends st"
  shows "lex_acts st (put_token T_Term n (frames st) st)"
  using assms frames_ok_mono [of "pos st" "frames st" "pos st + n"]
  by (intro r_into_rtranclp act_term) (auto simp: st_ok_def)

lemma do_trivia:
  assumes "0 < n" "st_ok st" "\<not> in_text (frames st)" "pos st + n \<le> length (lsrc st)" "trivia_ok (text_at st n) k"
    and "k = Bom \<Longrightarrow> pos st = 0" "k = Shebang \<Longrightarrow> at_file_start st"
  shows "lex_acts st (put_trivia k n st)"
  using assms frames_ok_mono [of "pos st" "frames st" "pos st + n"]
  by (intro r_into_rtranclp act_trivia) (auto simp: st_ok_def)

lemma mk_span_ok:
  "st_ok st \<Longrightarrow> lo \<le> hi \<Longrightarrow> hi \<le> length (lsrc st) \<Longrightarrow>
   mk_span st lo hi = \<lparr>sp_file = lfile st, sp_lo = lo, sp_hi = hi\<rparr>"
  by (rule mk_span_exact) (auto simp: st_ok_def)

text \<open>Diagnostics of the lexer are built by the builder from an error at a span of the buffer.\<close>

lemma diag_ok_builders [simp]:
  "diag_ok lo hi st (with_note n d) = diag_ok lo hi st d"
  "diag_ok lo hi st (with_label n d) = diag_ok lo hi st d"
  "diag_ok lo hi st (with_secondary s n d) = diag_ok lo hi st d"
  "diag_ok lo hi st (with_suggestion g d) = diag_ok lo hi st d"
  by (simp_all add: diag_ok_def d_span_def with_note_def with_label_def with_secondary_def with_suggestion_def)

lemma diag_ok_error:
  "c \<in> set lex_codes \<Longrightarrow> st_ok st \<Longrightarrow> lo \<le> a \<Longrightarrow> a \<le> b \<Longrightarrow> b \<le> hi \<Longrightarrow> b \<le> length (lsrc st) \<Longrightarrow>
   diag_ok lo hi st (Diagnostic_error c (mk_span st a b) m)"
  by (simp add: diag_ok_def d_span_def mk_span_ok Diagnostic_error_def Diagnostic_new_def LabeledSpan_new_def)

lemma lex_codes_in [simp]:
  "''E0101'' \<in> set lex_codes" "''E0102'' \<in> set lex_codes" "''E0103'' \<in> set lex_codes"
  "''E0104'' \<in> set lex_codes" "''E0105'' \<in> set lex_codes" "''E0106'' \<in> set lex_codes"
  "''E0107'' \<in> set lex_codes" "''E0108'' \<in> set lex_codes" "''E0109'' \<in> set lex_codes"
  "''E0110'' \<in> set lex_codes"
  by (simp_all add: lex_codes_def)

section \<open>Unwinding\<close>

lemma do_close:
  assumes "st_ok st" "frames st = fr # fs"
  shows "fr = Interp b \<Longrightarrow> lex_acts st (put_token T_InterpClose 0 fs st)"
    and "fr = StrF s \<Longrightarrow> lex_acts st (put_token (T_StrEnd d) 0 fs st)"
  using assms by (auto intro!: do_token simp: st_ok_def text_ok_def proto_def)

lemma do_pop: "st_ok st \<Longrightarrow> frames st = f # fs \<Longrightarrow> \<not> is_nest f \<Longrightarrow> lex_acts st (pop_frame st)"
  by (intro r_into_rtranclp act_pop) (auto simp: st_ok_def)

lemma put_token_zero:
  "frames st = fr # fs \<Longrightarrow> emit k (pos st) (pos st) (st\<lparr>frames := fs\<rparr>) = put_token k 0 fs st"
  by (simp add: put_token_def emit_def mk_span_def)

lemma pop_frame_eq: "frames st = fr # fs \<Longrightarrow> st\<lparr>frames := fs\<rparr> = pop_frame st"
  by (simp add: pop_frame_def)

lemma unwind_to_acts: "st_ok st \<Longrightarrow> frames st = fs \<Longrightarrow> lex_acts st (unwind_to f (pos st) fs st)"
proof (induction fs arbitrary: st)
  case Nil
  then have "st\<lparr>frames := []\<rparr> = st" by simp
  then show ?case by simp
next
  case (Cons fr fs)
  note ok = Cons.prems
  have step: "lex_acts st t \<Longrightarrow> frames t = fs \<Longrightarrow> pos t = pos st \<Longrightarrow> lex_acts st (unwind_to f (pos st) fs t)" for t
    using Cons.IH [of t] acts_ok [OF _ ok(1)] by auto
  have pop: "lex_acts st (unwind_to f (pos st) fs (st\<lparr>frames := fs\<rparr>))" if "\<not> is_nest fr"
    unfolding pop_frame_eq [OF ok(2)] using step [OF do_pop [OF ok that]] ok(2) by simp
  show ?case
  proof (cases fr)
    case (Interp b)
    show ?thesis
      unfolding unwind_to.simps Interp frame.case put_token_zero [OF ok(2)]
      by (rule step [OF do_close(1) [OF ok Interp]]) simp_all
  next
    case (StrF s)
    show ?thesis
      unfolding unwind_to.simps StrF frame.case Let_def put_token_zero [OF ok(2)]
      using step [OF do_close(2) [OF ok StrF]] do_close(2) [OF ok StrF] by simp
  qed (use pop in \<open>simp_all add: is_nest_def\<close>)
qed

lemma unwind_to_mode: "frames_ok p fs \<Longrightarrow> \<not> in_text (frames (unwind_to f at fs st))"
  by (induction f at fs st rule: unwind_to.induct) (auto simp: Let_def split: frame.splits)

lemma plain_interp_in_mem: "plain_interp_in seen fs = Some f \<Longrightarrow> StrF f \<in> set fs"
  by (induction seen fs rule: plain_interp_in.induct) (auto split: if_splits)

lemma frames_ok_mem: "frames_ok p fs \<Longrightarrow> StrF s \<in> set fs \<Longrightarrow> sf_open_lo s \<le> sf_content_lo s \<and> sf_content_lo s \<le> p"
  by (induction fs) auto

lemma st_ok_mem: "st_ok st \<Longrightarrow> StrF s \<in> set (frames st) \<Longrightarrow> sf_open_lo s \<le> pos st"
  using frames_ok_mem [of "pos st" "frames st" s] by (auto simp: st_ok_def)

lemma st_ok_pos: "st_ok st \<Longrightarrow> pos st \<le> length (lsrc st)"
  by (simp add: st_ok_def)

lemma unterminated_interp_acts:
  assumes "st_ok st" "StrF f \<in> set (frames st)"
  shows "lex_acts st (unterminated_interp f st)"
proof -
  have *: "lex_acts st (unwind_to f (pos st) (frames st) (push_diag d st))"
    if "diag_ok 0 (length (lsrc st)) st d" for d
    using do_diag [OF that assms(1)] unwind_to_acts [of "push_diag d st" "frames st" f]
      acts_ok [OF do_diag [OF that assms(1)] assms(1)] by (auto intro: rtranclp_trans)
  show ?thesis
    unfolding unterminated_interp_def Let_def
    by (rule *) (auto intro!: diag_ok_error st_ok_pos assms st_ok_mem)
qed

lemma unterminated_interp_mode: "st_ok st \<Longrightarrow> \<not> in_text (frames (unterminated_interp f st))"
  unfolding unterminated_interp_def Let_def by (rule unwind_to_mode [of "pos st"]) (simp add: st_ok_def)

lemma plain_interp_open_mem:
  "plain_interp_open st = Some f \<Longrightarrow> StrF f \<in> set (frames st)"
  "plain_interp_open_below st = Some f \<Longrightarrow> StrF f \<in> set (frames st)"
  by (auto simp: plain_interp_open_def plain_interp_open_below_def dest!: plain_interp_in_mem in_set_dropD)

section \<open>Trivia\<close>

text \<open>In normal mode, and staying there.\<close>

definition normal_acts :: "lexer \<Rightarrow> lexer \<Rightarrow> bool" where
  "normal_acts st st' \<longleftrightarrow> lex_acts st st' \<and> \<not> in_text (frames st')"

lemma push_trivia_pos: "lo < hi \<Longrightarrow> lo = pos st \<Longrightarrow> push_trivia k lo hi (st\<lparr>pos := hi\<rparr>) = put_trivia k (hi - lo) st"
  by (simp add: push_trivia_def put_trivia_def Let_def mk_span_def)

lemma skip_text: "i \<le> length s \<Longrightarrow> list_all P (slice i (skip_while P s i) s)"
proof -
  have "slice i (skip_while P s i) s = takeWhile P (drop i s)"
    unfolding slice_def skip_while_def by (simp add: takeWhile_eq_take [symmetric])
  then show ?thesis by (simp add: list_all_iff) (blast dest: set_takeWhileD)
qed

lemma slice_Cons: "i < length s \<Longrightarrow> i < j \<Longrightarrow> slice i j s = s ! i # slice (Suc i) j s"
  by (simp add: slice_def Cons_nth_drop_Suc [symmetric] take_Cons')

lemma at_zero: "peek st 0 = Some b \<Longrightarrow> pos st < length (lsrc st) \<and> lsrc st ! pos st = b"
  by (auto simp: peek_def byte_at_Some)

lemma at_one: "peek st (Suc 0) = Some b \<Longrightarrow> Suc (pos st) < length (lsrc st) \<and> lsrc st ! Suc (pos st) = b"
  by (auto simp: peek_def byte_at_Some)

lemma text_one: "peek st 0 = Some b \<Longrightarrow> slice (pos st) (Suc (pos st)) (lsrc st) = [b]"
  using at_zero [of st b] by (simp add: slice_Cons)

lemma term_due_last: "term_due st \<Longrightarrow> last_ends st"
  by (auto simp: term_due_def last_ends_def split: if_splits list.splits frame.splits)

lemma trivia_skip_acts:
  assumes "st_ok st" "\<not> in_text (frames st)" "pos st < skip_while P (lsrc st) i" "pos st < i \<or> i = pos st"
    and "i \<le> length (lsrc st)" "trivia_ok (slice (pos st) (skip_while P (lsrc st) i) (lsrc st)) k"
    and "k \<noteq> Bom" "k = Shebang \<Longrightarrow> at_file_start st"
  shows "normal_acts st (push_trivia k (pos st) (skip_while P (lsrc st) i) (st\<lparr>pos := skip_while P (lsrc st) i\<rparr>))"
proof -
  let ?hi = "skip_while P (lsrc st) i"
  have le: "?hi \<le> length (lsrc st)" using assms(5) by (rule skip_while_le)
  have eq: "push_trivia k (pos st) ?hi (st\<lparr>pos := ?hi\<rparr>) = put_trivia k (?hi - pos st) st"
    using assms(3) by (simp add: push_trivia_pos)
  show ?thesis
    unfolding eq normal_acts_def using assms le by (intro conjI do_trivia) auto
qed

lemma slice_at: "pos st \<le> hi \<Longrightarrow> hi \<le> length (lsrc st) \<Longrightarrow> i < hi - pos st \<Longrightarrow> slice (pos st) hi (lsrc st) ! i = lsrc st ! (pos st + i)"
  by (simp add: slice_def)

lemma starts_two:
  assumes "peek st 0 = Some a" "peek st 1 = Some b" "Suc (pos st) < hi"
  shows "starts_with_at (slice (pos st) hi (lsrc st)) 0 [a, b]"
  using assms at_zero [of st a] at_one [of st b]
  by (simp add: starts_with_at_def slice_Cons)

lemma skip_two:
  assumes "peek st 0 = Some a" "peek st 1 = Some b" "P a" "P b"
  shows "Suc (pos st) < skip_while P (lsrc st) (pos st)"
  using assms at_zero [of st a] at_one [of st b] skip_while_gt [of "Suc (pos st)" "lsrc st" P]
  by (simp add: skip_while_step)

lemma comment_kind_cases: "comment_kind t \<noteq> Bom" "comment_kind t \<noteq> Shebang"
  by (simp_all add: comment_kind_def)

lemma trivia_step_acts:
  assumes "trivia_step st st'" "st_ok st" "\<not> in_text (frames st)"
  shows "normal_acts st st'"
  using assms
proof (cases rule: trivia_step.cases)
  case (step_bom b)
  have len: "length BOM \<le> length (lsrc st)"
    using step_bom(4) by (auto simp: starts_with_at_def BOM_def dest: arg_cong [where f = length])
  have eq: "trivia_bom st = put_trivia Bom (length BOM) st"
    using step_bom push_trivia_pos [of 0 "length BOM" st Bom] by (simp add: trivia_bom_def BOM_def)
  show ?thesis
    unfolding step_bom(1) eq normal_acts_def using assms step_bom len
    by (intro conjI do_trivia) (auto simp: trivia_ok_def starts_with_at_def slice_def BOM_def)
next
  case (step_unwind f)
  then show ?thesis
    using unterminated_interp_acts [OF assms(2) plain_interp_open_mem(1)] unterminated_interp_mode [OF assms(2)]
    by (simp add: normal_acts_def)
next
  case step_newline
  note b = at_zero [OF step_newline(2)] text_one [OF step_newline(2)]
  show ?thesis
  proof (cases "\<not> line_broken st \<and> term_due st")
    case True
    have t: "lex_acts st (put_token T_Term 1 (frames st) st)"
      using b True assms by (intro do_term) (auto simp: term_due_last)
    have "trivia_newline st = (put_token T_Term 1 (frames st) st)\<lparr>line_broken := True\<rparr>"
      using True by (simp add: trivia_newline_def Let_def put_token_def emit_def mk_span_def)
    then show ?thesis
      using rtranclp.rtrancl_into_rtrancl [OF t act_break] acts_ok [OF t assms(2)] assms step_newline
      by (simp add: normal_acts_def)
  next
    case False
    let ?st = "st\<lparr>line_broken := True\<rparr>" and ?P = "\<lambda>b. is_inline_ws b \<or> b = nl"
    let ?hi = "skip_while ?P (lsrc st) (Suc (pos st))"
    have br: "lex_acts st ?st" using act_break [OF assms(2)] by blast
    have "pos st < ?hi" using skip_while_ge [of "Suc (pos st)" ?P "lsrc st"] by simp
    moreover have "?hi = skip_while ?P (lsrc st) (pos st)"
      using b by (simp add: skip_while_step)
    moreover have "list_all ?P (slice (pos st) (skip_while ?P (lsrc st) (pos st)) (lsrc st))"
      by (rule skip_text) (use b in simp)
    ultimately have "normal_acts ?st (push_trivia Whitespace (pos ?st) ?hi (?st\<lparr>pos := ?hi\<rparr>))"
      using trivia_skip_acts [of ?st ?P "Suc (pos st)" Whitespace] assms b acts_ok [OF br assms(2)]
      by (simp add: trivia_ok_def)
    moreover have "trivia_newline st = push_trivia Whitespace (pos ?st) ?hi (?st\<lparr>pos := ?hi\<rparr>)"
      using False by (auto simp: trivia_newline_def Let_def)
    ultimately show ?thesis using br step_newline by (auto simp: normal_acts_def)
  qed
next
  case (step_ws b)
  note b = at_zero [OF step_ws(2)]
  have "list_all is_inline_ws (slice (pos st) (skip_while is_inline_ws (lsrc st) (pos st)) (lsrc st))"
    by (rule skip_text) (use b in simp)
  then show ?thesis
    using trivia_skip_acts [of st is_inline_ws "pos st" Whitespace] assms b step_ws
    by (auto simp: trivia_ws_def Let_def trivia_ok_def list_all_iff skip_while_gt)
next
  case step_shebang
  have l: "list_all (\<lambda>b. b \<noteq> nl) (slice (pos st) (skip_while (\<lambda>b. b \<noteq> nl) (lsrc st) (pos st)) (lsrc st))"
    by (rule skip_text) (use at_zero [OF step_shebang(2)] in simp)
  have two: "Suc (pos st) < skip_while (\<lambda>b. b \<noteq> nl) (lsrc st) (pos st)"
    using skip_two [OF step_shebang(2,3)] by simp
  show ?thesis
    using trivia_skip_acts [of st "\<lambda>b. b \<noteq> nl" "pos st" Shebang] assms l two at_zero [OF step_shebang(2)]
      starts_two [OF step_shebang(2,3) two] step_shebang
    by (auto simp: trivia_shebang_def Let_def trivia_ok_def list_all_iff)
next
  case step_comment
  let ?hi = "skip_while (\<lambda>b. b \<noteq> nl) (lsrc st) (pos st)"
  have l: "list_all (\<lambda>b. b \<noteq> nl) (slice (pos st) ?hi (lsrc st))"
    by (rule skip_text) (use at_zero [OF step_comment(2)] in simp)
  have two: "Suc (pos st) < ?hi" using skip_two [OF step_comment(2,3)] by simp
  have "trivia_ok (slice (pos st) ?hi (lsrc st)) (comment_kind (slice (pos st) ?hi (lsrc st)))"
    using l starts_two [OF step_comment(2,3) two]
    by (auto simp: trivia_ok_def comment_kind_def list_all_iff)
  then show ?thesis
    using trivia_skip_acts [of st "\<lambda>b. b \<noteq> nl" "pos st" "comment_kind (slice (pos st) ?hi (lsrc st))"]
      assms two at_zero [OF step_comment(2)]
    by (simp add: trivia_comment_def Let_def comment_kind_cases step_comment(1))
qed

lemma skip_trivia_acts:
  assumes "st_ok st" "\<not> in_text (frames st)"
  shows "normal_acts st (skip_trivia st)"
proof -
  have "trivia_step\<^sup>*\<^sup>* st t \<Longrightarrow> normal_acts st t" for t
  proof (induction rule: rtranclp_induct)
    case base
    then show ?case using assms by (simp add: normal_acts_def)
  next
    case (step s t)
    have "st_ok s" using step.IH acts_ok [OF _ assms(1)] by (simp add: normal_acts_def)
    then show ?case
      using trivia_step_acts [OF step.hyps(2)] step.IH by (auto simp: normal_acts_def)
  qed
  then show ?thesis using skip_trivia_steps by blast
qed

end
