(* ===== verification/Lex_Refine_Token.thy ===== *)
theory Lex_Refine_Token
  imports Lex_Refine_Trivia
begin

text \<open>
  Normal mode of \<^verbatim>\<open>crates/wolf_lex/src/lexer.rs\<close>: each token scanner (punctuation, numbers, words,
  \<open>char\<close> literals, string openers, stray input) refines the action system of \<open>Lex_Spec\<close>.
\<close>

section \<open>Punctuation\<close>

lemma starts_slice: "starts_with_at s i t \<Longrightarrow> slice i (i + length t) s = t"
  by (simp add: starts_with_at_def slice_def)

lemma starts_bound: "starts_with_at s i t \<Longrightarrow> t \<noteq> [] \<Longrightarrow> i + length t \<le> length s"
proof -
  assume "starts_with_at s i t" "t \<noteq> []"
  then have "length (take (length t) (drop i s)) = length t" "0 < length t"
    by (simp_all add: starts_with_at_def)
  then have "length t \<le> length s - i" "0 < length t" by (auto simp: min_def split: if_splits)
  then show ?thesis by linarith
qed

lemma find_punct_longest:
  assumes "find_punct s i = Some (text, p)" "e \<in> set PUNCTS" "starts_with_at s i (fst e)"
  shows "length (fst e) \<le> length text"
  using find_sorted_max [OF PUNCTS_by_length assms(1) [unfolded find_punct_def] assms(2,3)] by simp

lemma find_punct_text:
  assumes "find_punct (lsrc st) (pos st) = Some (text, p)"
  shows "text_ok (lsrc st) (pos st) (pos st + length text) (T_Punct p)"
    and "pos st + length text \<le> length (lsrc st)" and "text_at st (length text) = text"
  using find_punct_Some [OF assms] find_punct_longest [OF assms]
  by (auto simp: text_ok_def starts_slice list_all_iff not_less Let_def intro: starts_bound)

lemma PUNCTS_brace: "(t, P_RBrace) \<in> set PUNCTS \<Longrightarrow> t = ''}''" "(t, P_Colon) \<in> set PUNCTS \<Longrightarrow> t = '':''"
  by (auto simp: PUNCTS_def)

lemma do_push:
  "st_ok st \<Longrightarrow> \<not> in_text (frames st) \<Longrightarrow> \<not> is_nest f \<Longrightarrow> lex_acts st (push_frame f st)"
  by (intro r_into_rtranclp act_push) (auto simp: st_ok_def is_nest_def split: frame.splits)

lemma do_attr: "st_ok st \<Longrightarrow> lex_acts st (st\<lparr>attr_close := True\<rparr>)"
  by (intro r_into_rtranclp act_attr)

lemma st_ok_pop: "st_ok st \<Longrightarrow> st_ok (pop_frame st)"
  by (simp add: st_ok_def frames_ok_tl)

lemma emit_put: "emit k (pos st) (pos st + n) (advance n st) = put_token k n (frames st) st"
  by (simp add: put_token_def emit_def advance_def mk_span_def)

lemma punct_cases:
  assumes "\<not> in_text (frames st)"
  obtains (close) fs where "p = P_RBrace" "frames st = Interp False # fs"
      "punct n p st = put_token T_InterpClose n fs st"
  | (spec) fs where "p = P_Colon" "frames st = Interp False # fs"
      "punct n p st = put_token T_FormatSpecBegin n (Interp True # fs) st"
  | (other) "punct n p st = (let st = put_token (T_Punct p) n (frames st) st in
      case p of
        P_LParen \<Rightarrow> push_frame Paren st
      | P_LBracket \<Rightarrow> push_frame (Bracket False) st
      | P_LBrace \<Rightarrow> push_frame Brace st
      | P_RParen \<Rightarrow> (case frames st of Paren # _ \<Rightarrow> pop_frame st | _ \<Rightarrow> st)
      | P_RBracket \<Rightarrow>
          (case frames st of
             Bracket attr # _ \<Rightarrow>
               let st = pop_frame st in if attr then st\<lparr>attr_close := True\<rparr> else st
           | _ \<Rightarrow> st)
      | P_RBrace \<Rightarrow> (case frames st of Brace # _ \<Rightarrow> pop_frame st | _ \<Rightarrow> st)
      | _ \<Rightarrow> st)"
proof -
  consider b fs where "p = P_RBrace" "frames st = Interp b # fs"
    | b fs where "p = P_Colon" "frames st = Interp b # fs"
    | "(p \<noteq> P_RBrace \<and> p \<noteq> P_Colon) \<or> (\<forall>b fs. frames st \<noteq> Interp b # fs)"
    by blast
  then show ?thesis
  proof cases
    case (1 b fs)
    have "emit T_InterpClose (pos st) (pos st + n) (pop_frame (advance n st)) = put_token T_InterpClose n fs st"
      using 1 by (simp add: put_token_def emit_def advance_def pop_frame_def mk_span_def)
    then show ?thesis using 1 assms close by (simp add: punct_def)
  next
    case (2 b fs)
    have "emit T_FormatSpecBegin (pos st) (pos st + n) ((advance n st)\<lparr>frames := Interp True # fs\<rparr>) =
        put_token T_FormatSpecBegin n (Interp True # fs) st"
      by (simp add: put_token_def emit_def advance_def mk_span_def)
    then show ?thesis using 2 assms spec by (simp add: punct_def)
  next
    case 3
    then show ?thesis
      by (intro other, cases p; cases "frames st"; cases "hd (frames st)")
        (auto simp: punct_def emit_put Let_def)
  qed
qed

lemma punct_acts:
  assumes "find_punct (lsrc st) (pos st) = Some (text, p)" "st_ok st" "\<not> in_text (frames st)"
  shows "lex_acts st (punct (length text) p st)"
proof -
  note found = find_punct_Some [OF assms(1)] find_punct_text [OF assms(1)]
  let ?n = "length text"
  have ok: "frames_ok (pos st + ?n) (frames st)"
    using assms(2) by (auto simp: st_ok_def intro: frames_ok_mono)
  show ?thesis
    using assms(3)
  proof (cases rule: punct_cases [where p = p and n = ?n])
    case (close fs)
    have "text = ''}''" using close(1) found(1) PUNCTS_brace by blast
    then show ?thesis
      unfolding close(3) using assms found close(2) ok
      by (intro do_token) (auto simp: text_ok_def proto_def)
  next
    case (spec fs)
    have "text = '':''" using spec(1) found(1) PUNCTS_brace by blast
    then show ?thesis
      unfolding spec(3) using assms found spec(2) ok
      by (intro do_token) (auto simp: text_ok_def proto_def)
  next
    case other
    define s where "s = put_token (T_Punct p) ?n (frames st) st"
    have fs: "frames s = frames st" by (simp add: s_def)
    have s: "lex_acts st s"
      unfolding s_def using assms found by (intro do_plain) (auto simp: plain_kind_def)
    have sok: "st_ok s" using acts_ok [OF s assms(2)] .
    have push: "lex_acts st (push_frame f s)" if "\<not> is_nest f" for f
      using rtranclp_trans [OF s do_push [OF sok _ that]] assms(3) fs by simp
    have pop: "lex_acts st (pop_frame s)" if "frames s = f # fs" "\<not> is_nest f" for f fs
      using rtranclp_trans [OF s do_pop [OF sok that]] .
    have attr: "lex_acts st ((pop_frame s)\<lparr>attr_close := True\<rparr>)" if "frames s = f # fs" "\<not> is_nest f" for f fs
      using rtranclp_trans [OF pop [OF that] do_attr [OF st_ok_pop [OF sok]]] .
    have n: "\<not> is_nest Paren" "\<not> is_nest (Bracket b)" "\<not> is_nest Brace" for b
      by (simp_all add: is_nest_def)
    show ?thesis
      unfolding other s_def [symmetric] Let_def using s
      by (auto simp: n split: punctuation.split list.split frame.split intro: push pop attr)
  qed
qed

section \<open>Numbers\<close>

definition scans :: "lexer \<Rightarrow> lexer \<Rightarrow> bool" where
  "scans st t \<longleftrightarrow> (\<exists>p. t = st\<lparr>pos := p\<rparr> \<and> pos st \<le> p \<and> p \<le> length (lsrc st))"

lemma scans_trans: "scans a b \<Longrightarrow> scans b c \<Longrightarrow> scans a c"
  by (auto simp: scans_def)

lemma scans_emit: "scans st t \<Longrightarrow> emit k (pos st) (pos t) t = put_token k (pos t - pos st) (frames st) st"
  by (auto simp: scans_def put_token_def emit_def mk_span_def)

lemma scans_le: "scans st t \<Longrightarrow> pos st \<le> pos t \<and> pos t \<le> length (lsrc st) \<and> lsrc t = lsrc st"
  by (auto simp: scans_def)

lemma scans_skip: "pos st \<le> length (lsrc st) \<Longrightarrow> scans st (st\<lparr>pos := skip_while P (lsrc st) (pos st)\<rparr>)"
  using skip_while_ge [of "pos st" P] skip_while_le [of "pos st"] by (auto simp: scans_def)

lemma scans_advance: "pos st + n \<le> length (lsrc st) \<Longrightarrow> scans st (advance n st)"
  by (auto simp: scans_def advance_def)

lemma scans_refl: "pos st \<le> length (lsrc st) \<Longrightarrow> scans st st"
  by (auto simp: scans_def intro: exI [of _ "pos st"])

lemma dec_digits_scans: "pos st \<le> length (lsrc st) \<Longrightarrow> scans st (dec_digits st)"
  unfolding dec_digits_def by (rule scans_skip)

lemma advance_digits_scans: "opt_test P (peek st n) \<Longrightarrow> scans st (dec_digits (advance n st))"
proof -
  assume "opt_test P (peek st n)"
  then have "pos st + n \<le> length (lsrc st)"
    using peek_bound [of st n] by (auto simp: opt_test_def split: option.splits)
  then show ?thesis
    using scans_trans [OF scans_advance [of st n] dec_digits_scans [of "advance n st"]] by simp
qed

lemma fraction_scans: "pos st \<le> length (lsrc st) \<Longrightarrow> scans st (fst (number_fraction st))"
  using advance_digits_scans [of is_digit st 1] by (auto simp: number_fraction_def scans_refl)

lemma exponent_scans: "pos (fst p) \<le> length (lsrc (fst p)) \<Longrightarrow> scans (fst p) (fst (number_exponent p))"
  using advance_digits_scans [of is_digit "fst p" 1] advance_digits_scans [of is_digit "fst p" 2]
  by (cases p) (auto simp: number_exponent_def scans_refl Let_def)

lemma scans_number_acts:
  assumes "scans st t" "pos st < pos t" "st_ok st" "\<not> in_text (frames st)" "is_digit (lsrc st ! pos st)"
    and "k = T_Int \<or> k = T_Float"
  shows "lex_acts st (emit k (pos st) (pos t) t)"
proof -
  note le = scans_le [OF assms(1)]
  have "slice (pos st) (pos t) (lsrc st) = lsrc st ! pos st # slice (Suc (pos st)) (pos t) (lsrc st)"
    using assms le by (intro slice_Cons) auto
  then show ?thesis
    unfolding scans_emit [OF assms(1)]
    using assms le by (intro do_plain) (auto simp: plain_kind_def text_ok_def)
qed

lemma number_acts:
  assumes "peek st 0 = Some b" "is_digit b" "st_ok st" "\<not> in_text (frames st)"
  shows "lex_acts st (number st)"
proof -
  let ?P = "\<lambda>r b. b = CHR ''_'' \<or> is_radix_digit r b"
  note b = at_zero [OF assms(1)]
  obtain t f where t: "number_exponent (number_fraction (dec_digits st)) = (t, f)" by fastforce
  have d: "scans st (dec_digits st)" using b by (intro dec_digits_scans) simp
  have fr: "scans (dec_digits st) (fst (number_fraction (dec_digits st)))"
    using fraction_scans scans_le [OF d] by simp
  have "scans (fst (number_fraction (dec_digits st))) t"
    using exponent_scans [of "number_fraction (dec_digits st)"] scans_le [OF fr] scans_le [OF d] t by simp
  with d fr have sc: "scans st t" by (blast intro: scans_trans)
  have lt: "pos st < pos t"
    using dec_digits_digit [OF assms(1,2)] fraction_moves exponent_moves [of "number_fraction (dec_digits st)"] t
    by (metis fst_conv moves_def moves_trans(1))
  let ?t2 = "\<lambda>r. (advance 2 st)\<lparr>pos := skip_while (?P r) (lsrc st) (pos st + 2)\<rparr>"
  have r: "scans st (?t2 r)" "pos st < pos (?t2 r)" if "opt_test Q (peek st 2)" for Q r
  proof -
    have "pos st + 2 \<le> length (lsrc st)"
      using that peek_bound [of st 2] by (auto simp: opt_test_def split: option.splits)
    then show "scans st (?t2 r)"
      using scans_trans [OF scans_advance [of st 2] scans_skip [of "advance 2 st" "?P r"]] by simp
    show "pos st < pos (?t2 r)" using skip_while_ge [of "pos st + 2" "?P r" "lsrc st"] by simp
  qed
  show ?thesis
    using scans_number_acts [OF sc lt assms(3,4)] scans_number_acts [OF r assms(3,4)] b assms(2)
    unfolding number_def Let_def t prod.case by auto
qed

section \<open>Opening strings, words\<close>

lemma open_string_acts:
  assumes "st_ok st" "\<not> in_text (frames st)" "pos st < c" "c \<le> length (lsrc st)"
    and "text_ok (lsrc st) (pos st) c (T_StrBegin k)"
  shows "lex_acts st (open_string k (pos st) c st)"
proof (cases "MAX_NEST \<le> nest_depth (frames st)")
  case True
  let ?d = "with_note (Prose ''Nest_note'' []) (with_label (Prose ''Nest_level'' [MAX_NEST + 1])
       (Diagnostic_error ''E0108'' (mk_span st (pos st) c) (Prose ''Nest_too_deep'' [MAX_NEST])))"
  have eq: "open_string k (pos st) c st = put_token T_Error (c - pos st) (frames st) (push_diag ?d st)"
    using True assms(3)
    by (simp add: open_string_def put_token_def emit_def nest_diag_def push_diag_def mk_span_def)
  show ?thesis
    unfolding eq using assms by (intro do_error) (auto intro!: diag_ok_error)
next
  case False
  let ?f = "\<lparr>sf_kind = k, sf_open_lo = pos st, sf_content_lo = c\<rparr>"
  have eq: "open_string k (pos st) c st = put_token (T_StrBegin k) (c - pos st) (StrF ?f # frames st) st"
    using False assms(3) by (simp add: open_string_def put_token_def emit_def push_frame_def mk_span_def)
  have ok: "frames_ok (pos st) (frames st)" using assms(1) by (simp add: st_ok_def)
  then have "frames_ok c (frames st)" using assms(3) by (auto intro: frames_ok_mono)
  then show ?thesis
    unfolding eq using assms False nest_text_frames [OF ok]
    by (intro do_token) (auto simp: proto_def nests_length)
qed

lemma open_quote_acts:
  assumes "st_ok st" "\<not> in_text (frames st)" "peek st 0 = Some (CHR 0x22)"
  shows "lex_acts st (open_quote_string st)"
proof (cases "starts_with_at (lsrc st) (pos st) (replicate 3 (CHR 0x22))")
  case True
  note b = starts_bound [OF True] starts_slice [OF True]
  let ?s = "open_string Multiline (pos st) (pos st + 3) st"
  have s: "lex_acts st ?s"
    using assms b by (intro open_string_acts) (auto simp: text_ok_def)
  have sok: "st_ok ?s" using acts_ok [OF s assms(1)] .
  let ?i = "skip_while is_inline_ws (lsrc st) (pos st + 3)"
  let ?e = "skip_while (\<lambda>b. b \<noteq> nl) (lsrc st) ?i"
  have i: "?i \<le> length (lsrc st)" using b by (intro skip_while_le) simp
  have e: "?i \<le> ?e" "?e \<le> length (lsrc st)"
    using skip_while_ge [of ?i "\<lambda>b. b \<noteq> nl" "lsrc st"] skip_while_le [OF i] by auto
  have d: "lex_acts st (push_diag (with_note n (with_secondary sp m (with_label l
      (Diagnostic_error ''E0103'' (mk_span ?s ?i ?e) t)))) ?s)" for n sp m l t
    using e by (intro rtranclp_trans [OF s do_diag [OF _ sok]]) (auto intro!: diag_ok_error sok)
  show ?thesis
    using True s d unfolding open_quote_string_def Let_def
    by (simp split: list.split frame.split)
next
  case False
  then show ?thesis
    using open_string_acts [OF assms(1,2), of "Suc (pos st)" Plain] at_zero [OF assms(3)] text_one [OF assms(3)]
    by (simp add: open_quote_string_def text_ok_def Let_def)
qed

lemma skip_word_le: "i \<le> length s \<Longrightarrow> skip_word u s i \<le> length s"
proof (induction u s i rule: skip_word.induct)
  case (1 u s i)
  then show ?case by (subst skip_word.simps) (auto split: decoded.split dest: decode_Char_bounds)
qed

lemma keyword_utf8: "list_all (\<lambda>e. utf8_text (fst e) = fst e) KEYWORDS"
  unfolding KEYWORDS_def by code_simp

lemma underscore_utf8: "utf8_text ''_'' = ''_''"
  by code_simp

lemma keyword_nonempty: "(t, k) \<in> set KEYWORDS \<Longrightarrow> t \<noteq> []"
proof -
  have "list_all (\<lambda>e. fst e \<noteq> []) KEYWORDS" unfolding KEYWORDS_def by code_simp
  then show "(t, k) \<in> set KEYWORDS \<Longrightarrow> t \<noteq> []" by (auto simp: list_all_iff)
qed

lemma utf8_text_keyword: "map_of KEYWORDS t = Some k \<Longrightarrow> utf8_text t = t"
  using keyword_utf8 by (auto simp: list_all_iff dest!: map_of_SomeD)

lemma utf8_text_back: "utf8_text t = x \<Longrightarrow> x \<noteq> [] \<Longrightarrow> t = x"
  by (auto simp: utf8_text_def split: utf8_result.splits)

lemma word_kind_ok:
  assumes "slice lo hi src = t" "t \<noteq> []" "x = utf8_text t"
  shows "text_ok src lo hi (if x = ''_'' then T_Underscore else case keyword_of x of Some k \<Rightarrow> T_Kw k | None \<Rightarrow> T_Ident)"
proof -
  have kw: "keyword_of x = Some k \<Longrightarrow> t = x" for k
    using utf8_text_back [of t x] assms(3) by (auto simp: keyword_of_map_of dest!: map_of_SomeD keyword_nonempty)
  have id: "keyword_of x = None \<Longrightarrow> map_of KEYWORDS t = None"
    using utf8_text_keyword [of t] assms(3) by (cases "map_of KEYWORDS t") (auto simp: keyword_of_map_of)
  have us: "x \<noteq> ''_'' \<Longrightarrow> t \<noteq> ''_''" using assms(3) underscore_utf8 by auto
  show ?thesis
    using assms kw id us utf8_text_back [of t "''_''"]
    by (auto simp: text_ok_def keyword_of_map_of dest: map_of_SomeD split: option.split)
qed

lemma slice_snoc: "i \<le> j \<Longrightarrow> j < length s \<Longrightarrow> slice i (Suc j) s = slice i j s @ [s ! j]"
  by (simp add: slice_def Suc_diff_le take_Suc_conv_app_nth)

lemma slice_skip_replicate: "i \<le> length s \<Longrightarrow>
   slice i (skip_while (\<lambda>b. b = c) s i) s = replicate (skip_while (\<lambda>b. b = c) s i - i) c"
proof -
  assume i: "i \<le> length s"
  let ?q = "skip_while (\<lambda>b. b = c) s i"
  have "list_all (\<lambda>b. b = c) (slice i ?q s)" using i by (rule skip_text)
  moreover have "length (slice i ?q s) = ?q - i"
    using skip_while_le [OF i, of "\<lambda>b. b = c"] skip_while_ge [of i "\<lambda>b. b = c" s] by (simp add: length_slice)
  ultimately show ?thesis
    by (intro replicate_eqI) (auto simp: list_all_iff)
qed

lemma open_string_moved: "open_string k lo c (st\<lparr>pos := p\<rparr>) = open_string k lo c st"
  by (simp add: open_string_def nest_diag_def push_diag_def mk_span_def emit_def push_frame_def)

lemma acts_if:
  "(c \<Longrightarrow> lex_acts s a) \<Longrightarrow> (\<not> c \<Longrightarrow> lex_acts s b) \<Longrightarrow> lex_acts s (if c then a else b)"
  by simp

lemma word_acts:
  assumes "decode (lsrc st) (pos st) = D_Char c n" "st_ok st" "\<not> in_text (frames st)"
  shows "lex_acts st (word u st)"
proof -
  let ?p = "skip_word u (lsrc st) (pos st + n)" and ?lo = "pos st"
  let ?t = "slice ?lo ?p (lsrc st)" and ?H = "\<lambda>b. b = CHR ''#''"
  let ?q = "skip_while ?H (lsrc st) ?p"
  have p: "?lo < ?p" "?p \<le> length (lsrc st)"
    using skip_word_ge [of "?lo + n" u "lsrc st"] skip_word_le [of "?lo + n" "lsrc st" u]
      decode_Char_bounds [OF assms(1)] by auto
  have q: "?p \<le> ?q" "?q \<le> length (lsrc st)"
    using skip_while_ge [of ?p ?H "lsrc st"] skip_while_le [OF p(2)] by auto
  have t: "?t \<noteq> []" using p length_slice [of ?lo ?p "lsrc st"] by auto
  have raw: "lex_acts st (open_string (Raw (?q - ?p)) ?lo (Suc ?q) st)"
    if "utf8_text ?t = ''r''" "byte_at (lsrc st) ?q = Some (CHR 0x22)"
  proof (rule open_string_acts)
    have "slice ?lo ?q (lsrc st) = ''r'' @ replicate (?q - ?p) (CHR ''#'')"
      using slice_append [of ?lo ?p ?q "lsrc st"] slice_skip_replicate [OF p(2), of "CHR ''#''"] p q
        utf8_text_back [OF that(1)] by simp
    then show "text_ok (lsrc st) ?lo (Suc ?q) (T_StrBegin (Raw (?q - ?p)))"
      using that p q slice_snoc [of ?lo ?q "lsrc st"] by (simp add: text_ok_def byte_at_Some)
  qed (use assms p q that in \<open>auto simp: byte_at_Some\<close>)
  have gen: "lex_acts st (open_string Generalized ?lo (Suc ?p) st)" if "byte_at (lsrc st) ?p = Some (CHR 0x22)"
    using assms p t that slice_snoc [of ?lo ?p "lsrc st"]
    by (intro open_string_acts) (auto simp: text_ok_def byte_at_Some Suc_le_eq)
  have tok: "lex_acts st (emit k ?lo ?p (st\<lparr>pos := ?p\<rparr>))"
    if "k = (if x = ''_'' then T_Underscore else case keyword_of x of Some k \<Rightarrow> T_Kw k | None \<Rightarrow> T_Ident)"
      "x = utf8_text ?t" for k x
  proof -
    have "emit k ?lo ?p (st\<lparr>pos := ?p\<rparr>) = put_token k (?p - ?lo) (frames st) st"
      using p by (simp add: put_token_def emit_def mk_span_def)
    moreover have "text_ok (lsrc st) ?lo ?p k" using word_kind_ok [OF refl t that(2)] that(1) by simp
    ultimately show ?thesis
      using assms p that by (auto intro!: do_plain simp: plain_kind_def split: option.split)
  qed
  have eq: "word u st =
      (if utf8_text ?t = ''r'' \<and> byte_at (lsrc st) ?q = Some (CHR 0x22)
       then open_string (Raw (?q - ?p)) ?lo (Suc ?q) st
       else if byte_at (lsrc st) ?p = Some (CHR 0x22) \<and> keyword_of (utf8_text ?t) = None \<and> utf8_text ?t \<noteq> ''_''
       then open_string Generalized ?lo (Suc ?p) st
       else emit (if utf8_text ?t = ''_'' then T_Underscore
                  else case keyword_of (utf8_text ?t) of Some k \<Rightarrow> T_Kw k | None \<Rightarrow> T_Ident) ?lo ?p (st\<lparr>pos := ?p\<rparr>))"
    by (simp add: word_def assms(1) Let_def advance_def open_string_moved)
  show ?thesis
    unfolding eq
    apply (intro acts_if)
      apply (rule raw; simp)
     apply (rule gen; simp)
    apply (rule tok [OF refl refl])
    done
qed

section \<open>Char literals\<close>

text \<open>A chain of diagnostics at a fixed position, while the scanner looks ahead.\<close>

definition at_pos :: "nat \<Rightarrow> lexer \<Rightarrow> lexer" where
  "at_pos p st = st\<lparr>pos := p\<rparr>"

lemma at_pos_simps [simp]:
  "lsrc (at_pos p st) = lsrc st" "pos (at_pos p st) = p" "frames (at_pos p st) = frames st"
  "at_pos p (advance n st) = at_pos p st" "at_pos p (at_pos q st) = at_pos p st"
  "push_diag d (at_pos p st) = at_pos p (push_diag d st)" "mk_span (at_pos p st) = mk_span st"
  "at_pos (pos st) st = st" "diag_ok lo hi (at_pos p st) = diag_ok lo hi st"
  by (simp_all add: at_pos_def advance_def push_diag_def mk_span_def diag_ok_def fun_eq_iff)

lemma at_pos_put: "pos t = p + n \<Longrightarrow> emit k p (pos t) t = put_token k n (frames t) (at_pos p t)"
  by (simp add: at_pos_def put_token_def emit_def mk_span_def)

lemma char_escape_bound:
  assumes "peek st 0 = Some b"
  shows "char_escape_len st = Inr (n, v) \<Longrightarrow> pos st + n \<le> length (lsrc st)"
    and "char_escape_len st = Inl (n, m) \<Longrightarrow> pos st + n \<le> length (lsrc st)"
  using escape_Inr_bound [OF assms] escape_Inl_bound [OF assms] peek_bound [of st 1]
  by (auto simp: char_escape_len_def split: if_splits sum.splits)

text \<open>What holds of the scanning loop from a state \<open>st\<close> with the literal opened at \<open>lo\<close> and \<open>k\<close> scalars seen.\<close>

definition char_scanned :: "nat \<Rightarrow> nat \<Rightarrow> lexer \<Rightarrow> lexer + bool \<times> lexer \<times> nat \<times> nat option \<times> (nat \<times> nat \<times> nat) option \<Rightarrow> bool" where
  "char_scanned lo k st r \<longleftrightarrow>
     (case r of
        Inl st' \<Rightarrow> \<exists>t. lex_acts (at_pos lo st) (at_pos lo t) \<and> frames t = frames st \<and>
          pos st \<le> pos t \<and> pos t \<le> length (lsrc st) \<and>
          st' = emit T_Error lo (pos t)
            (char_diag (mk_span t lo (pos t)) (Prose ''Char_never_closes'' []) (Prose ''Char_opened_here'' [])
               (Prose ''Char_note'' []) t)
      | Inr (closed, t, scalars, second_at, bad) \<Rightarrow>
          lex_acts (at_pos lo st) (at_pos lo t) \<and> frames t = frames st \<and>
          pos st \<le> pos t \<and> pos t \<le> length (lsrc st) \<and>
          k \<le> scalars \<and> (closed \<longrightarrow> pos st + (scalars - k) < pos t \<and> lsrc st ! (pos t - 1) = CHR 0x27) \<and>
          (\<forall>a b v. bad = Some (a, b, v) \<longrightarrow> lo \<le> a \<and> a \<le> b \<and> b \<le> pos t))"

lemma char_scanned_later:
  assumes "lex_acts (at_pos lo st) (at_pos lo t)" "frames t = frames st" "pos st < pos t" "lsrc t = lsrc st"
    and "char_scanned lo (k + 1) t r"
  shows "char_scanned lo k st r"
proof -
  have tr: "lex_acts (at_pos lo t) s \<Longrightarrow> lex_acts (at_pos lo st) s" for s
    using assms(1) by (rule rtranclp_trans)
  show ?thesis
  proof (cases r)
    case (Inl a)
    then obtain s where s: "lex_acts (at_pos lo t) (at_pos lo s)" "frames s = frames t" "pos t \<le> pos s"
        "pos s \<le> length (lsrc t)"
        "a = emit T_Error lo (pos s) (char_diag (mk_span s lo (pos s)) (Prose ''Char_never_closes'' [])
           (Prose ''Char_opened_here'' []) (Prose ''Char_note'' []) s)"
      using assms(5) by (auto simp: char_scanned_def)
    show ?thesis
      unfolding Inl char_scanned_def sum.case
      using s assms(2-4) tr by (intro exI [of _ s]) simp
  next
    case (Inr a)
    obtain c s n m b where "a = (c, s, n, m, b)" by (cases a) auto
    then show ?thesis
      using assms(2-5) tr [of "at_pos lo s"] Inr by (auto simp: char_scanned_def)
  qed
qed

lemma char_loop_scanned:
  assumes "lo \<le> pos st" "pos st \<le> length (lsrc st)" "st_ok (at_pos lo st)"
    and "\<And>a b v. bad = Some (a, b, v) \<Longrightarrow> lo \<le> a \<and> a \<le> b \<and> b \<le> pos st"
  shows "char_scanned lo scalars st (char_loop lo st scalars second_at bad)"
  using assms
proof (induction lo st scalars second_at bad rule: char_loop.induct)
  case (1 lo st scalars second_at bad)
  note prems = "1.prems"
  have stop: "char_scanned lo scalars st (Inr (False, st, scalars, second_at, bad))"
    using prems by (auto simp: char_scanned_def)
  show ?case
  proof (cases "peek st 0")
    case None
    then show ?thesis using stop by (simp add: char_loop.simps [of lo st])
  next
    case (Some b)
    note IH = "1.IH" [OF Some] and z = at_zero [OF Some]
    consider "b = nl" | "b = CHR 0x27" | (esc) "b \<noteq> nl" "b \<noteq> CHR 0x27" "b = CHR 0x5C"
      | (ch) "b \<noteq> nl" "b \<noteq> CHR 0x27" "b \<noteq> CHR 0x5C" by blast
    then show ?thesis
    proof cases
      case 1
      then show ?thesis using stop Some by (simp add: char_loop.simps [of lo st])
    next
      case 2
      have "char_scanned lo scalars st (Inr (True, advance 1 st, scalars, second_at, bad))"
        using prems z 2 by (auto simp: char_scanned_def)
      then show ?thesis using 2 Some by (simp add: char_loop.simps [of lo st])
    next
      case esc
      show ?thesis
      proof (cases "char_escape_len st")
        case (Inl e)
        obtain n m where e: "char_escape_len st = Inl (n, m)" using Inl by (cases e) auto
        let ?s = "escape_diag (pos st) (pos st + n) m st"
        have n: "pos st + n \<le> length (lsrc st)" using char_escape_bound(2) [OF Some e] .
        have d: "lex_acts (at_pos lo st) (at_pos lo ?s)"
          unfolding escape_diag_def at_pos_simps(6) [symmetric]
          using prems n diag_ok_error [of "''E0101''" "at_pos lo st" 0 "pos st" "pos st + n" "length (lsrc st)"]
          by (intro do_diag) auto
        have "char_scanned lo (scalars + 1) (advance n ?s) (char_loop lo (advance n ?s) (scalars + 1)
            (note_second scalars second_at (pos st)) bad)"
          using n prems acts_ok [OF d prems(3)] by (intro IH(1) [OF esc e refl]) (auto intro: le_trans)
        then have "char_scanned lo scalars st (char_loop lo (advance n ?s) (scalars + 1)
            (note_second scalars second_at (pos st)) bad)"
          using d char_escape_len_pos(2) [OF e] by (intro char_scanned_later [of lo st "advance n ?s"]) auto
        then show ?thesis using esc e Some by (simp add: char_loop.simps [of lo st])
      next
        case (Inr e)
        obtain n v where e: "char_escape_len st = Inr (n, v)" using Inr by (cases e) auto
        let ?bad = "case v of Some v \<Rightarrow> if \<not> is_scalar v \<and> bad = None then Some (pos st, pos st + n, v) else bad
            | None \<Rightarrow> bad"
        have n: "pos st + n \<le> length (lsrc st)" using char_escape_bound(1) [OF Some e] .
        have "char_scanned lo (scalars + 1) (advance n st) (char_loop lo (advance n st) (scalars + 1)
            (note_second scalars second_at (pos st)) ?bad)"
          using n prems
          by (intro IH(2) [OF esc e refl]) (auto split: option.splits if_splits intro: le_trans)
        then have "char_scanned lo scalars st (char_loop lo (advance n st) (scalars + 1)
            (note_second scalars second_at (pos st)) ?bad)"
          using char_escape_len_pos(1) [OF e] by (intro char_scanned_later [of lo st "advance n st"]) auto
        then show ?thesis using esc e Some by (simp add: char_loop.simps [of lo st])
      qed
    next
      case ch
      have inv: "char_scanned lo scalars st (Inl (emit T_Error lo (pos st) (char_diag (mk_span st lo (pos st))
          (Prose ''Char_never_closes'' []) (Prose ''Char_opened_here'' []) (Prose ''Char_note'' []) st)))"
        using prems by (auto simp: char_scanned_def intro!: exI [of _ st])
      show ?thesis
      proof (cases "decode (lsrc st) (pos st)")
        case (D_Char c n)
        have "char_scanned lo (scalars + 1) (advance n st) (char_loop lo (advance n st) (scalars + 1)
            (note_second scalars second_at (pos st)) bad)"
          using ch D_Char prems decode_Char_bounds [OF D_Char] by (intro IH(3)) (auto intro: le_trans)
        then have "char_scanned lo scalars st (char_loop lo (advance n st) (scalars + 1)
            (note_second scalars second_at (pos st)) bad)"
          using decode_Char_bounds [OF D_Char] by (intro char_scanned_later [of lo st "advance n st"]) auto
        then show ?thesis using ch D_Char Some by (simp add: char_loop.simps [of lo st])
      qed (use ch Some inv in \<open>simp_all add: char_loop.simps [of lo st]\<close>)
    qed
  qed
qed

lemma error_put:
  assumes "p < pos t"
  shows "emit T_Error p (pos t) (char_diag sp m l n t) =
    put_token T_Error (pos t - p) (frames t)
      (push_diag (with_note n (with_label l (Diagnostic_error ''E0110'' sp m))) (at_pos p t))"
  using assms by (simp add: char_diag_def at_pos_def put_token_def emit_def mk_span_def push_diag_def)

lemma char_error_acts:
  assumes "st_ok (at_pos p t)" "p < pos t" "pos t \<le> length (lsrc t)" "p \<le> a" "a \<le> b" "b \<le> pos t"
  shows "lex_acts (at_pos p t) (emit T_Error p (pos t) (char_diag (mk_span t a b) m l n t))"
proof -
  have "diag_ok p (pos t) (at_pos p t) (Diagnostic_error ''E0110'' (mk_span (at_pos p t) a b) m)"
    using assms by (intro diag_ok_error) auto
  then have "lex_acts (at_pos p t) (put_token T_Error (pos t - p) (frames (at_pos p t))
      (push_diag (with_note n (with_label l (Diagnostic_error ''E0110'' (mk_span t a b) m))) (at_pos p t)))"
    using assms by (intro do_error) auto
  then show ?thesis using assms by (simp only: error_put at_pos_simps)
qed

lemma char_literal_acts:
  assumes "peek st 0 = Some (CHR 0x27)" "st_ok st" "\<not> in_text (frames st)"
  shows "lex_acts st (char_literal st)"
proof -
  let ?lo = "pos st" and ?r = "char_loop (pos st) (advance 1 st) 0 None None"
  note z = at_zero [OF assms(1)]
  have sc: "char_scanned ?lo 0 (advance 1 st) ?r"
    using assms z by (intro char_loop_scanned) auto
  show ?thesis
  proof (cases ?r)
    case (Inl s)
    then obtain t where t: "lex_acts st (at_pos ?lo t)" "frames t = frames st" "Suc ?lo \<le> pos t"
        "pos t \<le> length (lsrc st)" "s = emit T_Error ?lo (pos t) (char_diag (mk_span t ?lo (pos t))
          (Prose ''Char_never_closes'' []) (Prose ''Char_opened_here'' []) (Prose ''Char_note'' []) t)"
      using sc by (auto simp: char_scanned_def)
    have "lsrc t = lsrc st" using acts_frame [OF t(1)] by simp
    then have "lex_acts (at_pos ?lo t) s"
      unfolding t(5) using t acts_ok [OF t(1) assms(2)] by (intro char_error_acts) auto
    then show ?thesis using t(1) Inl by (auto simp: char_literal_def)
  next
    case (Inr r)
    obtain closed t scalars second bad where r: "r = (closed, t, scalars, second, bad)" by (cases r) auto
    have r': "char_loop (pos st) (advance (Suc 0) st) 0 None None = Inr (closed, t, scalars, second, bad)"
      using Inr r by simp
    have t: "lex_acts st (at_pos ?lo t)" "frames t = frames st" "Suc ?lo \<le> pos t" "pos t \<le> length (lsrc st)"
        "closed \<Longrightarrow> Suc ?lo + scalars < pos t \<and> lsrc st ! (pos t - 1) = CHR 0x27"
      and bad: "bad = Some (a, b, v) \<Longrightarrow> ?lo \<le> a \<and> a \<le> b \<and> b \<le> pos t" for a b v
      using sc by (auto simp: char_scanned_def r')
    have ok: "st_ok (at_pos ?lo t)" and src: "lsrc t = lsrc st"
      using acts_ok [OF t(1) assms(2)] acts_frame [OF t(1)] by auto
    have err: "lex_acts st (emit T_Error ?lo (pos t) (char_diag (mk_span t a b) m l n t))"
      if "?lo \<le> a" "a \<le> b" "b \<le> pos t" for a b m l n
      using rtranclp_trans [OF t(1) char_error_acts [OF ok]] t src that by simp
    have char: "lex_acts st (emit T_Char ?lo (pos t) t)" if "closed" "2 < pos t - ?lo"
    proof -
      let ?x = "slice ?lo (pos t) (lsrc st)"
      have len: "length ?x = pos t - ?lo" using t by (simp add: length_slice)
      have hd: "hd ?x = CHR 0x27" using z t by (simp add: slice_Cons)
      have "last ?x = ?x ! (length ?x - 1)" using len that by (intro last_conv_nth) auto
      also have "\<dots> = lsrc st ! (pos t - 1)" using that t len by (simp add: slice_at)
      finally have "last ?x = CHR 0x27" using t(5) that by simp
      then have "text_ok (lsrc st) ?lo (pos t) T_Char" using that len hd by (simp add: text_ok_def)
      then have "lex_acts (at_pos ?lo t) (put_token T_Char (pos t - ?lo) (frames (at_pos ?lo t)) (at_pos ?lo t))"
        using ok t src assms(3) by (intro do_plain) (auto simp: plain_kind_def)
      moreover have "emit T_Char ?lo (pos t) t = put_token T_Char (pos t - ?lo) (frames (at_pos ?lo t)) (at_pos ?lo t)"
        using t at_pos_put [of t ?lo "pos t - ?lo" T_Char] by simp
      ultimately show ?thesis using t(1) by simp
    qed
    have wide: "2 < pos t - ?lo" if "closed" "scalars \<noteq> 0"
      using t(5) that by auto
    show ?thesis
      using Inr r err char wide bad t
      by (simp add: char_literal_def Let_def split: option.split)
  qed
qed

section \<open>Stray input and one token\<close>

lemma skip_invalid_le: "i \<le> length s \<Longrightarrow> skip_invalid s i \<le> length s"
proof (induction s i rule: skip_invalid.induct)
  case (1 s i)
  then show ?case by (subst skip_invalid.simps) (auto split: decoded.split dest: decode_Invalid_bounds)
qed

lemma skip_stray_le: "i \<le> length s \<Longrightarrow> skip_stray u s i \<le> length s"
proof (induction u s i rule: skip_stray.induct)
  case (1 u s i)
  then show ?case by (subst skip_stray.simps) (auto split: decoded.split dest: decode_Char_bounds)
qed

lemma error_moved:
  assumes "pos st < p"
  shows "emit T_Error (pos st) p (push_diag d (st\<lparr>pos := p\<rparr>)) = put_token T_Error (p - pos st) (frames st) (push_diag d st)"
  using assms by (simp add: put_token_def emit_def push_diag_def mk_span_def)

lemma stray_acts:
  assumes "decode (lsrc st) (pos st) \<noteq> D_Eof" "st_ok st"
  shows "lex_acts st (stray u st)"
proof -
  have go: "lex_acts st (emit T_Error (pos st) p (push_diag d (st\<lparr>pos := p\<rparr>)))"
    if "pos st < p" "p \<le> length (lsrc st)" "diag_ok (pos st) p st d" for p d
    unfolding error_moved [OF that(1)] using that assms(2) by (intro do_error) auto
  show ?thesis
  proof (cases "decode (lsrc st) (pos st)")
    case (D_Char c n)
    let ?p = "skip_stray u (lsrc st) (pos st + n)"
    have p: "pos st < ?p" "?p \<le> length (lsrc st)"
      using skip_stray_ge [of "pos st + n" u "lsrc st"] skip_stray_le [of "pos st + n" "lsrc st" u]
        decode_Char_bounds [OF D_Char] by auto
    have "mk_span (st\<lparr>pos := ?p\<rparr>) = mk_span st" by (simp add: mk_span_def fun_eq_iff)
    then have "diag_ok (pos st) ?p st (stray_diag c (pos st) (st\<lparr>pos := ?p\<rparr>))"
      using assms(2) p unfolding stray_diag_def Let_def by (auto intro!: diag_ok_error)
    then show ?thesis using go [OF p] by (simp add: stray_def D_Char Let_def)
  next
    case (D_Invalid n)
    let ?p = "skip_invalid (lsrc st) (pos st + n)"
    have p: "pos st < ?p" "?p \<le> length (lsrc st)"
      using skip_invalid_ge [of "pos st + n" "lsrc st"] skip_invalid_le [of "pos st + n" "lsrc st"]
        decode_Invalid_bounds [OF D_Invalid] by auto
    have "mk_span (st\<lparr>pos := ?p\<rparr>) = mk_span st" by (simp add: mk_span_def fun_eq_iff)
    then show ?thesis using assms(2) p
      by (simp add: stray_def D_Invalid Let_def) (rule go [OF p], auto intro!: diag_ok_error)
  qed (use assms in simp)
qed

lemma pound_acts:
  assumes "k = T_PoundBracket \<and> text_at st n = ''#['' \<or> k = T_PoundBangBracket \<and> text_at st n = ''#!['' "
    and "st_ok st" "\<not> in_text (frames st)" "pos st + n \<le> length (lsrc st)"
  shows "lex_acts st (push_frame (Bracket True) (emit k (pos st) (pos st + n) (advance n st)))"
proof -
  have s: "lex_acts st (put_token k n (frames st) st)"
    using assms by (intro do_plain) (auto simp: plain_kind_def text_ok_def)
  show ?thesis
    unfolding emit_put
    using rtranclp_trans [OF s do_push [OF acts_ok [OF s assms(2)]]] assms(3) by (simp add: is_nest_def)
qed

lemma lex_token_acts:
  assumes "pos st < length (lsrc st)" "st_ok st" "\<not> in_text (frames st)"
  shows "lex_acts st (lex_token u st)"
proof -
  obtain b where b: "peek st 0 = Some b" using assms by (simp add: peek_def byte_at_def)
  note z = at_zero [OF b] text_one [OF b]
  have stray: "lex_acts st (stray u st)" using stray_acts [OF decode_peek [OF b] assms(2)] .
  have find: "lex_acts st (case find_punct (lsrc st) (pos st) of Some (text, p) \<Rightarrow> punct (length text) p st | None \<Rightarrow> stray u st)"
    using stray assms by (auto split: option.split intro: punct_acts)
  have dec: "lex_acts st (case decode (lsrc st) (pos st) of D_Char c n \<Rightarrow> if xid_start u c then word u st else stray u st
      | _ \<Rightarrow> stray u st)"
    using stray assms by (auto intro: word_acts split: decoded.split)
  have p1: "lex_acts st (push_frame (Bracket True) (emit T_PoundBracket (pos st) (pos st + 2) (advance 2 st)))"
    if "b = CHR ''#''" "peek st 1 = Some (CHR ''['')"
    using that assms z at_one [of st "CHR ''[''"]
    by (intro pound_acts) (auto simp: slice_Cons numeral_2_eq_2)
  have p2: "lex_acts st (push_frame (Bracket True) (emit T_PoundBangBracket (pos st) (pos st + 3) (advance 3 st)))"
    if "b = CHR ''#''" "peek st 1 = Some (CHR ''!'')" "peek st 2 = Some (CHR ''['')"
  proof -
    have "Suc (Suc (pos st)) < length (lsrc st) \<and> lsrc st ! Suc (Suc (pos st)) = CHR ''[''"
      using that(3) by (auto simp: peek_def byte_at_Some)
    then show ?thesis
      using that assms z at_one [of st "CHR ''!''"]
      by (intro pound_acts) (auto simp: slice_Cons numeral_3_eq_3)
  qed
  have semi: "lex_acts st (emit T_Term (pos st) (pos st + 1) (advance 1 st))" if "b = CHR '';''"
    unfolding emit_put using that assms z by (intro do_term) auto
  show ?thesis
    unfolding lex_token_def b option.case Let_def advance_same
    apply (intro acts_if)
             apply (rule open_quote_acts; simp add: assms b)
            apply (rule char_literal_acts; simp add: assms b)
           apply (rule number_acts [OF b]; simp add: assms)
          apply (rule p1; simp)
         apply (rule p2; simp)
        apply (rule stray)
       apply (rule semi; simp)
      apply (rule word_acts [OF decode_alpha [OF b]]; simp add: assms)
     apply (rule find)
    apply (rule dec)
    done
qed

lemma normal_step_acts:
  assumes "st_ok st" "\<not> in_text (frames st)"
  shows "lex_acts st (normal_step u st)"
proof -
  have t: "lex_acts st (skip_trivia st)" "\<not> in_text (frames (skip_trivia st))"
    using skip_trivia_acts [OF assms] by (auto simp: normal_acts_def)
  then show ?thesis
    using lex_token_acts [of "skip_trivia st" u] acts_ok [OF t(1) assms(1)]
    by (auto simp: normal_step_def Let_def)
qed

end
