(* ===== verification/Lex_Refine_Strings.thy ===== *)
theory Lex_Refine_Strings
  imports Lex_Refine_Token
begin

text \<open>
  String modes of \<^verbatim>\<open>crates/wolf_lex/src/lexer.rs\<close>: every exit of a body and of a format spec, the margin
  check of multiline literals, and the end-of-file drain refine the action system of \<open>Lex_Spec\<close>.
\<close>

section \<open>Fragments\<close>

lemma flush_acts:
  assumes "st_ok st" "in_text (frames st)" "pos st + k \<le> length (lsrc st)"
  shows "lex_acts st (flush_frag (pos st) (advance k st))"
proof (cases "k = 0")
  case False
  have eq: "flush_frag (pos st) (advance k st) = put_token T_StrFragment k (frames st) st"
    using False by (simp add: flush_frag_def put_token_def emit_def advance_def mk_span_def)
  have ok: "frames_ok (pos st) (frames st)" using assms(1) by (simp add: st_ok_def)
  have "text_at st k \<noteq> []" using False assms length_slice [of "pos st" "pos st + k" "lsrc st"] by auto
  then show ?thesis
    unfolding eq using assms ok nest_text_frames [OF ok] frames_ok_mono [OF ok]
    by (intro do_token) (auto simp: text_ok_def proto_def)
qed (simp add: flush_frag_def)

lemma peek_cong: "lsrc a = lsrc b \<Longrightarrow> pos a = pos b \<Longrightarrow> peek a = peek b"
  by (simp add: peek_def fun_eq_iff)

lemma escape_cong: "lsrc a = lsrc b \<Longrightarrow> pos a = pos b \<Longrightarrow> escape_len a = escape_len b"
  unfolding escape_len_def hex_at_def by (simp only: peek_cong [of a b])

section \<open>Exits, from the state after the fragment\<close>

lemma bad_escape_acts:
  assumes "st_ok st" "peek st 0 = Some b" "escape_len st = Inl (n, m)"
  shows "lex_acts st (emit T_Error (pos st) (pos st + n) (escape_diag (pos st) (pos st + n) m (advance n st)))"
proof -
  let ?d = "with_note (Prose ''Esc_note'' []) (Diagnostic_error ''E0101'' (mk_span st (pos st) (pos st + n)) m)"
  have "emit T_Error (pos st) (pos st + n) (escape_diag (pos st) (pos st + n) m (advance n st)) =
      put_token T_Error n (frames st) (push_diag ?d st)"
    by (simp add: put_token_def emit_def escape_diag_def push_diag_def advance_def mk_span_def)
  then show ?thesis
    using assms escape_Inl_bound [OF assms(2,3)] escape_len_pos(2) [OF assms(3)]
    by (auto intro!: do_error diag_ok_error)
qed

lemma one_error:
  assumes "st_ok st" "pos st < length (lsrc st)" "diag_ok (pos st) (Suc (pos st)) st d"
  shows "lex_acts st (emit T_Error (pos st) (Suc (pos st)) (push_diag d (advance 1 st)))"
proof -
  have "emit T_Error (pos st) (Suc (pos st)) (push_diag d (advance 1 st)) =
      put_token T_Error 1 (frames st) (push_diag d st)"
    by (simp add: put_token_def emit_def push_diag_def advance_def mk_span_def)
  then show ?thesis using assms by (auto intro!: do_error)
qed

lemma span_advance: "mk_span (advance n st) = mk_span st"
  by (simp add: mk_span_def advance_def fun_eq_iff)

lemma lone_brace_acts:
  assumes "st_ok st" "pos st < length (lsrc st)"
  shows "lex_acts st (emit T_Error (pos st) (Suc (pos st)) (lone_brace_diag (pos st) (advance 1 st)))"
  unfolding lone_brace_diag_def Let_def span_advance
  using assms by (intro one_error) (auto intro!: diag_ok_error)

lemma interp_open_acts:
  assumes "st_ok st" "in_cooked (frames st)" "peek st 0 = Some (CHR ''{'')"
  shows "lex_acts st
    (if MAX_NEST \<le> nest_depth (frames st) then
       emit T_Error (pos st) (Suc (pos st)) (nest_diag (pos st) (Suc (pos st)) (advance 1 st))
     else push_frame (Interp False) (emit T_InterpOpen (pos st) (Suc (pos st)) (advance 1 st)))"
proof (rule acts_if)
  show "lex_acts st (emit T_Error (pos st) (Suc (pos st)) (nest_diag (pos st) (Suc (pos st)) (advance 1 st)))"
    unfolding nest_diag_def span_advance
    using assms at_zero [OF assms(3)] by (intro one_error) (auto intro!: diag_ok_error)
next
  assume d: "\<not> MAX_NEST \<le> nest_depth (frames st)"
  have ok: "frames_ok (Suc (pos st)) (frames st)"
    using assms(1) by (auto simp: st_ok_def intro: frames_ok_mono)
  have "push_frame (Interp False) (emit T_InterpOpen (pos st) (Suc (pos st)) (advance 1 st)) =
      put_token T_InterpOpen 1 (Interp False # frames st) st"
    by (simp add: put_token_def emit_def push_frame_def advance_def mk_span_def)
  then show "lex_acts st (push_frame (Interp False) (emit T_InterpOpen (pos st) (Suc (pos st)) (advance 1 st)))"
    using assms d ok at_zero [OF assms(3)] text_one [OF assms(3)] nest_cooked_frames [OF assms(2)]
    by (auto intro!: do_token simp: text_ok_def proto_def nests_length)
qed

lemma str_end_acts:
  assumes "st_ok st" "frames st = StrF f # fs" "text_at st n = closer (sf_kind f) \<or> n = 0"
    and "pos st + n \<le> length (lsrc st)"
  shows "lex_acts st (put_token (T_StrEnd d) n fs st)"
  using assms frames_ok_mono [of "pos st" fs "pos st + n"]
  by (intro do_token) (auto simp: text_ok_def proto_def st_ok_def)

lemma interp_close_acts:
  assumes "st_ok st" "frames st = Interp b # fs" "text_at st n = ''}'' \<or> n = 0"
    and "pos st + n \<le> length (lsrc st)"
  shows "lex_acts st (put_token T_InterpClose n fs st)"
  using assms frames_ok_mono [of "pos st" fs "pos st + n"]
  by (intro do_token) (auto simp: text_ok_def proto_def st_ok_def)

lemma pop_emit: "frames st = f # fs \<Longrightarrow>
  pop_frame (emit k (pos st) (pos st + n) (st\<lparr>pos := pos st + n\<rparr>)) = put_token k n fs st"
  by (simp add: pop_frame_def put_token_def emit_def mk_span_def)

lemma emit_pop: "frames st = f # fs \<Longrightarrow>
  emit k (pos st) (pos st + n) (pop_frame (st\<lparr>pos := pos st + n\<rparr>)) = put_token k n fs st"
  by (simp add: pop_frame_def put_token_def emit_def mk_span_def)

lemma emit_pop_zero: "frames st = f # fs \<Longrightarrow> emit k (pos st) (pos st) (pop_frame st) = put_token k 0 fs st"
  by (simp add: pop_frame_def put_token_def emit_def mk_span_def)

lemma end_here_acts:
  assumes "st_ok st" "frames st = StrF f # fs" "diag_ok 0 (length (lsrc st)) st d"
  shows "lex_acts st (pop_frame (emit (T_StrEnd n) (pos st) (pos st) (push_diag d st)))"
proof -
  have d: "lex_acts st (push_diag d st)" using do_diag [OF assms(3,1)] .
  have "lex_acts (push_diag d st) (put_token (T_StrEnd n) 0 fs (push_diag d st))"
    using assms acts_ok [OF d assms(1)] st_ok_pos [OF assms(1)] by (intro str_end_acts) auto
  then show ?thesis
    using d pop_emit [of "push_diag d st" "StrF f" fs "T_StrEnd n" 0] assms(2) by (simp add: push_diag_def)
qed

lemma unterminated_here_acts:
  assumes "st_ok st" "frames st = StrF f # fs"
  shows "lex_acts st (unterminated_here f st)"
proof -
  have lo: "sf_open_lo f \<le> pos st" using st_ok_mem [OF assms(1)] assms(2) by simp
  show ?thesis
    unfolding unterminated_here_def Let_def prim_same
    by (rule end_here_acts [OF assms]) (auto intro!: diag_ok_error assms lo st_ok_pos)
qed

section \<open>The margin of a multiline literal\<close>

lemma margin_diag_ok:
  assumes "st_ok st" "ls \<le> length (lsrc st)" "line = slice ls eol (lsrc st)"
  shows "diag_ok 0 (length (lsrc st)) st (margin_diag m c l ls line st)"
proof -
  have "length line \<le> length (lsrc st) - ls" using assms(3) by (simp add: length_slice)
  then have "ls + min (max x 1) (length line) \<le> length (lsrc st)" for x
    using assms(2) by linarith
  then show ?thesis
    using assms(1) unfolding margin_diag_def Let_def by (auto intro!: diag_ok_error)
qed

lemma margin_step_acts:
  assumes "st_ok (snd acc)" "i < length (lsrc (snd acc))"
    and "\<And>ls. fst acc = Some ls \<Longrightarrow> ls \<le> length (lsrc (snd acc))"
  shows "lex_acts (snd acc) (snd (margin_step m c l acc i)) \<and>
    (\<forall>ls. fst (margin_step m c l acc i) = Some ls \<longrightarrow> ls \<le> length (lsrc (snd acc)))"
proof (cases acc)
  case (Pair ls st)
  show ?thesis
    using assms margin_diag_ok [of st] unfolding Pair margin_step_def Let_def
    by (auto split: option.split intro!: do_diag)
qed

lemma margin_fold_acts:
  assumes "st_ok (snd acc)" "\<And>i. i \<in> set is \<Longrightarrow> i < length (lsrc (snd acc))"
    and "\<And>ls. fst acc = Some ls \<Longrightarrow> ls \<le> length (lsrc (snd acc))"
  shows "lex_acts (snd acc) (snd (foldl (margin_step m c l) acc is))"
  using assms
proof (induction "is" arbitrary: acc)
  case (Cons i "is")
  let ?acc = "margin_step m c l acc i"
  have s: "lex_acts (snd acc) (snd ?acc)" "\<And>ls. fst ?acc = Some ls \<Longrightarrow> ls \<le> length (lsrc (snd acc))"
    using margin_step_acts [of acc i m c l] Cons.prems by auto
  have "lsrc (snd ?acc) = lsrc (snd acc)" using acts_frame [OF s(1)] by simp
  then have "lex_acts (snd ?acc) (snd (foldl (margin_step m c l) ?acc is))"
    using Cons.prems s acts_ok [OF s(1)] by (intro Cons.IH) auto
  then show ?case using s(1) by (auto intro: rtranclp_trans)
qed simp

lemma rposition_less: "rposition P xs = Some i \<Longrightarrow> i < length xs"
proof -
  assume a: "rposition P xs = Some i"
  let ?js = "filter (\<lambda>j. P (xs ! j)) [0..<length xs]"
  have "?js \<noteq> []" "i = last ?js" using a by (auto simp: rposition_def Let_def split: if_splits)
  then have "i \<in> set ?js" by (metis last_in_set)
  then show ?thesis by simp
qed

lemma close_multiline_acts:
  assumes "st_ok st" "pos st + 3 \<le> length (lsrc st)"
  shows "lex_acts st (snd (close_multiline f (pos st) st))"
proof -
  let ?l = "case rposition (\<lambda>b. b = nl) (take (pos st) (lsrc st)) of None \<Rightarrow> 0 | Some i \<Rightarrow> i + 1"
  have l: "?l \<le> length (lsrc st)"
    by (auto split: option.split dest!: rposition_less)
  have fold: "lex_acts st (snd (foldl (margin_step m c ?l) (None, st) [sf_content_lo f..<?l]))" for m c
    by (rule margin_fold_acts [of "(None, st)", unfolded snd_conv fst_conv]) (use assms(1) l in auto)
  show ?thesis
    using fold assms unfolding close_multiline_def Let_def
    by (auto intro!: do_diag diag_ok_error)
qed

section \<open>Each exit, as a sequence of actions\<close>

lemma exit_escape_acts:
  assumes "st_ok (flush_frag start s)" "peek s 0 = Some b" "escape_len s = Inl (n, m)"
  shows "lex_acts (flush_frag start s) (exit_bad_escape start n m s)"
  using bad_escape_acts [of "flush_frag start s" b n m] assms
    peek_cong [of "flush_frag start s" s] escape_cong [of "flush_frag start s" s]
  by (simp add: exit_bad_escape_def Let_def)

lemma exit_interp_acts:
  assumes "st_ok (flush_frag start s)" "in_cooked (frames s)" "peek s 0 = Some (CHR ''{'')"
  shows "lex_acts (flush_frag start s) (exit_interp_open start s)"
  using interp_open_acts [of "flush_frag start s"] assms peek_cong [of "flush_frag start s" s]
  by (simp add: exit_interp_open_def Let_def split: if_splits)

lemma exit_lone_acts:
  assumes "st_ok (flush_frag start s)" "peek s 0 = Some b"
  shows "lex_acts (flush_frag start s) (exit_lone_brace start s)"
  using lone_brace_acts [of "flush_frag start s"] assms at_zero [OF assms(2)]
  by (simp add: exit_lone_brace_def Let_def)

lemma exit_end_acts:
  assumes "st_ok (flush_frag start s)" "frames s = StrF f # fs" "peek s 0 = Some (CHR 0x22)"
    and "closer (sf_kind f) = [CHR 0x22]"
  shows "lex_acts (flush_frag start s) (exit_str_end start s)"
proof -
  let ?F = "flush_frag start s"
  have "exit_str_end start s = put_token (T_StrEnd 0) 1 fs ?F"
    using pop_emit [of ?F "StrF f" fs "T_StrEnd 0" 1] assms(2) by (simp add: exit_str_end_def Let_def advance_def)
  then show ?thesis
    using assms at_zero [OF assms(3)] text_one [of ?F] peek_cong [of ?F s] by (auto intro!: str_end_acts)
qed

lemma exit_multi_acts:
  assumes "st_ok (flush_frag start s)" "frames s = StrF f # fs"
    and "starts_with_at (lsrc s) (pos s) (replicate 3 (CHR 0x22))" "sf_kind f = Multiline"
  shows "lex_acts (flush_frag start s) (exit_multi_end f start s)"
proof -
  let ?F = "flush_frag start s"
  obtain d t where t: "close_multiline f (pos ?F) ?F = (d, t)" by fastforce
  note b = starts_bound [OF assms(3)] starts_slice [OF assms(3)]
  have m: "lex_acts ?F t"
    using close_multiline_acts [OF assms(1), of f] t b by simp
  have "t = snd (close_multiline f (pos ?F) ?F)" using t by simp
  then have same: "lsrc t = lsrc s" "pos t = pos s" "frames t = frames s" by simp_all
  have "exit_multi_end f start s = put_token (T_StrEnd d) 3 fs t"
    using pop_emit [of t "StrF f" fs "T_StrEnd d" 3] assms(2) same t
    by (simp add: exit_multi_end_def Let_def advance_def)
  moreover have "lex_acts t (put_token (T_StrEnd d) 3 fs t)"
    using assms same b acts_ok [OF m assms(1)] by (intro str_end_acts) (auto simp: closer_def)
  ultimately show ?thesis using m by simp
qed

lemma exit_fence_acts:
  assumes "st_ok (flush_frag start s)" "frames s = StrF f # fs" "sf_kind f = Raw hashes"
    and "peek s 0 = Some (CHR 0x22)" "pos s + 1 + hashes \<le> length (lsrc s)"
    and "list_all (\<lambda>c. c = CHR ''#'') (slice (pos s + 1) (pos s + 1 + hashes) (lsrc s))"
  shows "lex_acts (flush_frag start s) (exit_fence hashes start s)"
proof -
  let ?F = "flush_frag start s"
  have eq: "exit_fence hashes start s = put_token (T_StrEnd 0) (Suc hashes) fs ?F"
    using pop_emit [of ?F "StrF f" fs "T_StrEnd 0" "Suc hashes"] assms(2)
    by (simp add: exit_fence_def Let_def)
  have "length (slice (pos s + 1) (pos s + 1 + hashes) (lsrc s)) = hashes"
    using assms(5) by (simp add: length_slice)
  then have "slice (pos s + 1) (pos s + 1 + hashes) (lsrc s) = replicate hashes (CHR ''#'')"
    using assms(6) by (intro replicate_eqI) (auto simp: list_all_iff)
  then have "slice (pos s) (Suc (pos s + hashes)) (lsrc s) = closer (sf_kind f)"
    using at_zero [OF assms(4)] assms(3) by (simp add: slice_Cons closer_def)
  then show ?thesis unfolding eq using assms by (intro str_end_acts) auto
qed

lemma cooked_exit_acts:
  assumes "cooked_exit f start s r" "st_ok (flush_frag start s)" "frames s = StrF f # fs"
    and "sf_kind f = Plain \<or> sf_kind f = Multiline"
  shows "lex_acts (flush_frag start s) r"
  using assms
proof (cases rule: cooked_exit.cases)
  case (ce_escape b n msg)
  then show ?thesis using exit_escape_acts assms(2) by blast
next
  case ce_interp
  then show ?thesis using exit_interp_acts [of start s] assms by simp
next
  case ce_lone
  then show ?thesis using exit_lone_acts assms(2) by blast
next
  case ce_end
  then show ?thesis using exit_end_acts assms by (auto simp: closer_def)
next
  case ce_multi
  then show ?thesis using exit_multi_acts assms by blast
next
  case ce_newline
  then show ?thesis using unterminated_here_acts assms by simp
qed simp

lemma raw_exit_acts:
  assumes "raw_exit hashes start s r" "st_ok (flush_frag start s)" "frames s = StrF f # fs" "sf_kind f = Raw hashes"
  shows "lex_acts (flush_frag start s) r"
  using assms by (cases rule: raw_exit.cases) (auto intro: exit_fence_acts)

lemma frames_tail_text: "st_ok st \<Longrightarrow> frames st = StrF f # fs \<Longrightarrow> \<not> in_text fs"
  by (simp add: st_ok_def)

lemma gen_exit_acts:
  assumes "gen_exit f start s r" "st_ok (flush_frag start s)" "frames s = StrF f # fs" "sf_kind f = Generalized"
  shows "lex_acts (flush_frag start s) r"
  using assms
proof (cases rule: gen_exit.cases)
  case ge_end
  then show ?thesis using exit_end_acts assms by (auto simp: closer_def)
next
  case ge_newline
  let ?F = "flush_frag start s"
  show ?thesis
  proof (cases "plain_interp_open_below ?F")
    case (Some g)
    then show ?thesis
      unfolding ge_newline exit_gen_newline_def Let_def
      using unterminated_interp_acts [OF assms(2) plain_interp_open_mem(2)] by simp
  next
    case None
    have lo: "sf_open_lo f \<le> pos ?F" using st_ok_mem [OF assms(2)] assms(3) by simp
    have fr: "frames ?F = StrF f # fs" using assms(3) by simp
    show ?thesis
      unfolding ge_newline exit_gen_newline_def Let_def None option.case
      by (rule end_here_acts [OF assms(2) fr])
        (use lo st_ok_pos [OF assms(2)] assms(2) in \<open>auto intro!: diag_ok_error\<close>)
  qed
qed

lemma innermost_str_mem: "innermost_str fs = Some f \<Longrightarrow> StrF f \<in> set fs"
  by (induction fs rule: innermost_str.induct) auto

lemma exit_spec_newline_acts:
  assumes "st_ok (flush_frag start s)" "frames s = Interp True # fs" "e = innermost_str (frames s)"
  shows "lex_acts (flush_frag start s) (exit_spec_newline e start s)"
proof -
  let ?F = "flush_frag start s"
  let ?lo = "case e of Some f \<Rightarrow> sf_open_lo f | None \<Rightarrow> pos ?F"
  let ?d = "with_note (Prose ''Str_spec_note'' []) (with_label (Prose ''Str_spec_open'' [])
      (Diagnostic_error ''E0102'' (mk_span ?F ?lo (pos ?F)) (Prose ''Str_never_closes'' [])))"
  have lo: "?lo \<le> pos ?F"
    using st_ok_mem [OF assms(1)] innermost_str_mem [of "frames s"] assms(3) by (auto split: option.split)
  have d: "lex_acts ?F (push_diag ?d ?F)"
    using assms(1) lo st_ok_pos [OF assms(1)] by (intro do_diag) (auto intro!: diag_ok_error)
  have dok: "st_ok (push_diag ?d ?F)" using acts_ok [OF d assms(1)] .
  let ?c = "put_token T_InterpClose 0 fs (push_diag ?d ?F)"
  have c: "lex_acts (push_diag ?d ?F) ?c"
    using dok assms(2) st_ok_pos [OF assms(1)] by (intro interp_close_acts) auto
  have cok: "st_ok ?c" using acts_ok [OF c dok] .
  have ceq: "emit T_InterpClose (pos ?F) (pos ?F) (pop_frame (push_diag ?d ?F)) = ?c"
    using emit_pop_zero [of "push_diag ?d ?F" "Interp True" fs T_InterpClose] assms(2) by simp
  have s: "lex_acts ?F (emit (T_StrEnd 0) (pos ?F) (pos ?F) (pop_frame ?c))" if "fs = StrF g # r" for g r
  proof -
    have "lex_acts ?c (put_token (T_StrEnd 0) 0 r ?c)"
      using cok that st_ok_pos [OF assms(1)] by (intro str_end_acts) auto
    then show ?thesis
      using emit_pop_zero [of ?c "StrF g" r "T_StrEnd 0"] that rtranclp_trans [OF d c] by simp
  qed
  show ?thesis
    unfolding exit_spec_newline_def Let_def ceq
    using rtranclp_trans [OF d c] s by (auto split: list.split frame.split)
qed

lemma spec_exit_acts:
  assumes "spec_exit e start s r" "st_ok (flush_frag start s)" "frames s = Interp True # fs"
    and "e = innermost_str (frames s)"
  shows "lex_acts (flush_frag start s) r"
  using assms
proof (cases rule: spec_exit.cases)
  case se_interp
  then show ?thesis using exit_interp_acts [of start s] assms by simp
next
  case se_close
  let ?F = "flush_frag start s"
  have "exit_spec_close start s = put_token T_InterpClose 1 fs ?F"
    using emit_pop [of ?F "Interp True" fs T_InterpClose 1] assms(3) by (simp add: exit_spec_close_def Let_def advance_def)
  then show ?thesis
    using assms se_close at_zero [OF se_close(2)] text_one [of ?F] peek_cong [of ?F s]
    by (auto intro!: interp_close_acts)
next
  case (se_escape b n msg)
  then show ?thesis using exit_escape_acts assms(2) by blast
next
  case se_newline
  then show ?thesis using exit_spec_newline_acts assms by blast
qed simp

section \<open>Whole steps\<close>

lemma exits_acts:
  assumes "exits_via R st r" "st_ok st" "in_text (frames st)"
    and "\<And>s. R s r \<Longrightarrow> frames s = frames st \<Longrightarrow> st_ok (flush_frag (pos st) s) \<Longrightarrow> lex_acts (flush_frag (pos st) s) r"
  shows "lex_acts st r"
proof -
  obtain k where k: "pos st + k \<le> length (lsrc st)" "R (advance k st) r"
    using assms(1) by (auto simp: exits_via_def)
  have f: "lex_acts st (flush_frag (pos st) (advance k st))" using flush_acts assms(2,3) k(1) by blast
  then have "lex_acts (flush_frag (pos st) (advance k st)) r"
    using assms(4) [OF k(2)] acts_ok [OF f assms(2)] by simp
  with f show ?thesis by (rule rtranclp_trans)
qed

lemma body_step_acts:
  assumes "st_ok st" "frames st = StrF f # fs"
  shows "lex_acts st (body_step f st)"
proof -
  have t: "in_text (frames st)" using assms(2) by simp
  note le = st_ok_pos [OF assms(1)]
  show ?thesis
  proof (cases "sf_kind f")
    case Plain
    show ?thesis unfolding body_step_def Plain str_kind.case
      by (rule exits_acts [OF cooked_body_exit [OF le] assms(1) t], rule cooked_exit_acts)
        (use assms Plain in auto)
  next
    case Multiline
    show ?thesis unfolding body_step_def Multiline str_kind.case
      by (rule exits_acts [OF cooked_body_exit [OF le] assms(1) t], rule cooked_exit_acts)
        (use assms Multiline in auto)
  next
    case (Raw hashes)
    show ?thesis unfolding body_step_def Raw str_kind.case
      by (rule exits_acts [OF raw_body_exit [OF le] assms(1) t], rule raw_exit_acts)
        (use assms Raw in auto)
  next
    case Generalized
    show ?thesis unfolding body_step_def Generalized str_kind.case
      by (rule exits_acts [OF gen_body_exit [OF le] assms(1) t], rule gen_exit_acts)
        (use assms Generalized in auto)
  qed
qed

lemma spec_step_acts:
  assumes "st_ok st" "frames st = Interp True # fs"
  shows "lex_acts st (spec_step st)"
  unfolding spec_step_def
  by (rule exits_acts [OF spec_loop_exit [OF st_ok_pos [OF assms(1)]] assms(1)], simp add: assms(2),
      rule spec_exit_acts) (use assms in auto)

theorem lex_step_acts: "st_ok st \<Longrightarrow> lex_acts st (lex_step u st)"
  using body_step_acts spec_step_acts normal_step_acts
  by (auto simp: lex_step_def split: list.split frame.split bool.split)

section \<open>The run loop and the end of file\<close>

interpretation engine: guarded_loop "\<lambda>st. \<not> at_end st" "lex_step u" "lex_loop u" st_ok progress_rel for u
proof
  show "lex_loop u s = (if \<not> at_end s then lex_loop u (lex_step u s) else s)" for s
    by (simp add: lex_loop.simps [of u s])
  show "wf progress_rel" by (simp add: progress_rel_def)
  show "st_ok s \<Longrightarrow> \<not> at_end s \<Longrightarrow> (lex_step u s, s) \<in> progress_rel" for s
    by (rule lex_step_rank)
  show "st_ok s \<Longrightarrow> \<not> at_end s \<Longrightarrow> st_ok (lex_step u s)" for s
    using lex_step_acts acts_ok by blast
qed

lemma lex_loop_acts: "st_ok st \<Longrightarrow> lex_acts st (lex_loop u st)"
proof (rule engine.run_rel)
  show "lex_acts s t" if "st_ok s" "lex_acts (lex_step u s) t" for s t
    using rtranclp_trans [OF lex_step_acts [OF that(1)] that(2)] .
qed simp_all

lemma lex_loop_at_end: "st_ok st \<Longrightarrow> pos (lex_loop u st) = length (lsrc (lex_loop u st))"
  using engine.run_stops [of st u] engine.run_inv [of st u] by (simp add: at_end_def st_ok_def)

lemma drain_diag_ok:
  assumes "st_ok st" "StrF f \<in> set (frames st)"
  shows "diag_ok 0 (length (lsrc st)) st (drain_diag f st)"
  using assms st_ok_mem [OF assms] st_ok_pos [OF assms(1)]
  by (cases "sf_kind f") (auto simp: drain_diag_def Let_def intro!: diag_ok_error)

lemma finish_drain_acts:
  "st_ok st \<Longrightarrow> pos st = length (lsrc st) \<Longrightarrow> frames st = fs \<Longrightarrow>
   lex_acts st (fst (finish_drain rest fs st)) \<and> frames (fst (finish_drain rest fs st)) = []"
proof (induction fs arbitrary: st rest)
  case Nil
  then have eq: "st\<lparr>frames := []\<rparr> = st" by simp
  show ?case unfolding finish_drain.simps eq using Nil by simp
next
  case (Cons fr fs)
  note ok = Cons.prems
  have step: "lex_acts st (fst (finish_drain r fs t)) \<and> frames (fst (finish_drain r fs t)) = []"
    if "lex_acts st t" "frames t = fs" "pos t = pos st" for t r
    using Cons.IH [of t r] acts_ok [OF that(1) ok(1)] acts_frame [OF that(1)] that ok(2)
    by (auto intro: rtranclp_trans)
  have pop: "lex_acts st (fst (finish_drain r fs (st\<lparr>frames := fs\<rparr>))) \<and>
      frames (fst (finish_drain r fs (st\<lparr>frames := fs\<rparr>))) = []" if "\<not> is_nest fr" for r
    using step [OF do_pop [OF ok(1,3) that], of r] ok(3) by (simp add: pop_frame_eq)
  show ?case
  proof (cases fr)
    case (Interp b)
    have "emit T_InterpClose (length (lsrc st)) (length (lsrc st)) (st\<lparr>frames := fs\<rparr>) = put_token T_InterpClose 0 fs st"
      using put_token_zero [OF ok(3)] ok(2) by simp
    then show ?thesis
      using step [OF do_close(1) [OF ok(1,3) Interp], of rest] by (simp add: Interp)
  next
    case (StrF f)
    let ?d = "drain_diag f st"
    have d: "lex_acts st (push_diag ?d st)"
      using drain_diag_ok [OF ok(1)] ok(3) StrF by (intro do_diag ok(1)) auto
    have c: "lex_acts st (put_token (T_StrEnd 0) 0 fs (push_diag ?d st))"
      using do_close(2) [of "push_diag ?d st" fr fs f 0] acts_ok [OF d ok(1)] ok(3) StrF d by simp
    have "push_diag (drain_diag f st) (st\<lparr>frames := fs\<rparr>) = (push_diag ?d st)\<lparr>frames := fs\<rparr>"
      by (simp add: push_diag_def)
    then have "emit (T_StrEnd 0) (length (lsrc st)) (length (lsrc st)) (push_diag (drain_diag f st) (st\<lparr>frames := fs\<rparr>)) =
        put_token (T_StrEnd 0) 0 fs (push_diag ?d st)"
      using put_token_zero [of "push_diag ?d st" fr fs "T_StrEnd 0"] ok by simp
    then show ?thesis using step [OF c, of rest] by (simp add: StrF)
  qed (use pop in \<open>simp_all add: is_nest_def\<close>)
qed

lemma eof_term_acts:
  assumes "st_ok st" "pos st = length (lsrc st)" "frames st = []"
  shows "lex_acts st (eof_term rest st)"
proof -
  have "emit T_Term (length (lsrc st)) (length (lsrc st)) st = put_token T_Term 0 (frames st) st"
    using assms(2) by (simp add: put_token_def emit_def mk_span_def)
  then show ?thesis
    using do_term [of st 0] assms by (auto simp: eof_term_def Let_def last_ends_def)
qed

text \<open>The whole of \<open>finish\<close> is actions, then the \<open>Eof\<close> token.\<close>

lemma finish_acts:
  assumes "st_ok st" "pos st = length (lsrc st)"
  obtains t where "lex_acts st t" "frames t = []" "pos t = length (lsrc t)"
    "finish st = emit T_Eof (length (lsrc t)) (length (lsrc t)) t"
proof -
  let ?a = "case plain_interp_open st of Some f \<Rightarrow> unterminated_interp f st | None \<Rightarrow> st"
  have a: "lex_acts st ?a"
    using unterminated_interp_acts [OF assms(1) plain_interp_open_mem(1)] by (auto split: option.split)
  have aok: "st_ok ?a" using acts_ok [OF a assms(1)] .
  have asame: "lsrc ?a = lsrc st" "pos ?a = pos st" by (simp_all split: option.split)
  obtain b rest where b: "finish_drain [] (frames ?a) ?a = (b, rest)" by fastforce
  have bact: "lex_acts ?a b" "frames b = []"
    using finish_drain_acts [OF aok, of "frames ?a" "[]"] asame assms(2) b by auto
  have bok: "st_ok b" "lsrc b = lsrc st" "pos b = length (lsrc b)"
    using acts_ok [OF bact(1) aok] acts_frame [OF bact(1)] asame assms(2) by (auto simp: st_ok_def)
  have c: "lex_acts b (eof_term rest b)" using eof_term_acts bok bact by blast
  have fin: "finish st = emit T_Eof (length (lsrc st)) (length (lsrc st)) (eof_term rest b)"
    by (simp add: finish_def Let_def b)
  have "frames (eof_term rest b) = []" "lsrc (eof_term rest b) = lsrc b" "pos (eof_term rest b) = pos b"
    using bact by (simp_all add: eof_term_def Let_def)
  then show ?thesis
    using that [of "eof_term rest b"] rtranclp_trans [OF rtranclp_trans [OF a bact(1)] c] bok fin by simp
qed

end
