(* ===== verification/Lex_Theorems.thy ===== *)
theory Lex_Theorems
  imports Lex_Refine_Strings
begin

text \<open>
  What \<open>lex\<close> (\<^verbatim>\<open>crates/wolf_lex/src/lexer.rs\<close>) promises for every byte buffer: the theorems about the
  whole lexer, read off the invariant of \<open>Lex_Spec\<close> through the refinement. Each is stated over the
  result of \<open>lex\<close>, whose only failure is the length assertion.
\<close>

section \<open>The final state\<close>

lemma lex_final:
  assumes "lex u f src = Some l"
  obtains t where "lex_inv t" "frames t = []" "pos t = length src" "lsrc t = src" "lfile t = f"
    "length src \<le> u32_max"
    "lexed_tokens l = tokens t @ [\<lparr>tk_kind = T_Eof,
       tk_span = \<lparr>sp_file = f, sp_lo = length src, sp_hi = length src\<rparr>, tk_leading = pending t, tk_trailing = []\<rparr>]"
    "lexed_diagnostics l = dg_diags (diags t)"
proof -
  let ?s = "lexer_init f src"
  have len: "length src \<le> u32_max" using assms by (auto simp: lex_def split: if_splits)
  note inv = lex_inv_init [OF len, of f]
  have ok: "st_ok ?s" using inv by (simp add: lex_inv_def)
  have run: "lex_acts ?s (lex_loop u ?s)" using lex_loop_acts [OF ok] .
  obtain t where t: "lex_acts (lex_loop u ?s) t" "frames t = []" "pos t = length (lsrc t)"
      "finish (lex_loop u ?s) = emit T_Eof (length (lsrc t)) (length (lsrc t)) t"
    using finish_acts [OF acts_ok [OF run ok] lex_loop_at_end [OF ok]] .
  have all: "lex_acts ?s t" using run t(1) by (rule rtranclp_trans)
  have src: "lsrc t = src" "lfile t = f" using acts_frame [OF all] by (simp_all add: lexer_init_def)
  have "mk_span t (length src) (length src) = \<lparr>sp_file = f, sp_lo = length src, sp_hi = length src\<rparr>"
    using len src by (simp add: mk_span_def)
  moreover have "l = \<lparr>lexed_tokens = tokens (finish (lex_loop u ?s)),
      lexed_diagnostics = dg_into_vec (diags (finish (lex_loop u ?s)))\<rparr>"
    using assms len by (simp add: lex_def Let_def)
  ultimately show ?thesis
    using that [of t] acts_lex_inv [OF all inv] t src len by (simp add: emit_def dg_into_vec_def)
qed

lemma lex_None: "lex u f src = None \<longleftrightarrow> u32_max < length src"
  by (simp add: lex_def Let_def not_le)

lemma lex_cases:
  assumes "\<And>l. lex u f src = Some l \<Longrightarrow> P l"
  shows "case lex u f src of None \<Rightarrow> u32_max < length src | Some l \<Rightarrow> P l"
  using assms lex_None [of u f src] by (cases "lex u f src") auto

section \<open>Losslessness\<close>

lemma concat_spans: "concat (map (\<lambda>t. concat (map g (token_spans t))) ts) = concat (map g (concat (map token_spans ts)))"
  by (induction ts) auto

text \<open>
  C1. The lexer is total and lossless: on every buffer of at most \<open>u32::MAX\<close> bytes it returns, the spans
  of its trivia and tokens, in order, tile the buffer without gap or overlap, and \<open>reassemble\<close> gives
  the source back byte for byte; only longer buffers trip the assertion.
\<close>

theorem lex_lossless:
  "case lex u f src of
     None \<Rightarrow> u32_max < length src
   | Some l \<Rightarrow>
       tiles f 0 (concat (map token_spans (lexed_tokens l))) (length src) \<and> reassemble src l = src"
proof (rule lex_cases)
  fix l assume "lex u f src = Some l"
  then obtain t where t: "lex_inv t" "pos t = length src" "lsrc t = src" "lfile t = f"
      "lexed_tokens l = tokens t @ [\<lparr>tk_kind = T_Eof,
         tk_span = \<lparr>sp_file = f, sp_lo = length src, sp_hi = length src\<rparr>, tk_leading = pending t, tk_trailing = []\<rparr>]"
    using lex_final by metis
  have "concat (map token_spans (lexed_tokens l)) =
      pieces t @ [\<lparr>sp_file = f, sp_lo = length src, sp_hi = length src\<rparr>]"
    by (simp add: t(5) token_spans_def pieces_def)
  moreover have "tiles f 0 (pieces t) (length src)"
    using t(1,2,4) by (simp add: lex_inv_def inv_tiles_def)
  ultimately have tiles: "tiles f 0 (concat (map token_spans (lexed_tokens l))) (length src)"
    by (auto simp: tiles_append)
  have "reassemble src l = concat (map (span_text src) (concat (map token_spans (lexed_tokens l))))"
    unfolding reassemble_def by (rule concat_spans)
  then have "reassemble src l = src" using tiles_text [OF tiles, of src] by (simp add: slice_all)
  with tiles show "tiles f 0 (concat (map token_spans (lexed_tokens l))) (length src) \<and> reassemble src l = src"
    by simp
qed

section \<open>The string protocol\<close>

lemma proto_depth: "proto k t ns = Some ns' \<Longrightarrow> length ns \<le> MAX_NEST \<Longrightarrow> length ns' \<le> MAX_NEST"
  by (auto simp: proto_def split: token_kind.splits if_splits list.splits nest.splits bool.splits)

lemma proto_run_prefix:
  "proto_run xs ns = Some r \<Longrightarrow> length ns \<le> MAX_NEST \<Longrightarrow>
   \<exists>m. proto_run (take n xs) ns = Some m \<and> length m \<le> MAX_NEST"
proof (induction xs ns arbitrary: n rule: proto_run.induct)
  case (2 k t ts ns)
  show ?case
  proof (cases n)
    case (Suc n')
    obtain m where m: "proto k t ns = Some m" "proto_run ts m = Some r"
      using "2.prems" by (auto simp: bind_eq_Some_conv)
    then show ?thesis using "2.IH" [OF m(1) m(2)] proto_depth [OF m(1)] "2.prems" Suc by auto
  qed (use "2.prems" in simp)
qed simp

text \<open>
  C13. String tokens are well bracketed and nesting is bounded: the token stream of every buffer, well
  formed or not, is a complete run of the string protocol (each \<open>StrEnd\<close> is zero-width or the
  delimiter its own \<open>StrBegin\<close> requires, fragments occur only in text, interpolations open only in
  cooked text, expression tokens never occur in text), and no prefix of it is more than \<open>MAX_NEST\<close>
  levels deep.
\<close>

theorem lex_string_protocol:
  "case lex u f src of
     None \<Rightarrow> u32_max < length src
   | Some l \<Rightarrow>
       let kts = kind_texts src (lexed_tokens l)
       in proto_run kts [] = Some [] \<and>
          (\<forall>n. \<exists>ns. proto_run (take n kts) [] = Some ns \<and> length ns \<le> MAX_NEST)"
proof (rule lex_cases)
  fix l assume "lex u f src = Some l"
  then obtain t where t: "lex_inv t" "frames t = []" "lsrc t = src"
      "lexed_tokens l = tokens t @ [\<lparr>tk_kind = T_Eof,
         tk_span = \<lparr>sp_file = f, sp_lo = length src, sp_hi = length src\<rparr>, tk_leading = pending t, tk_trailing = []\<rparr>]"
    using lex_final by metis
  have "proto_run (kind_texts src (tokens t)) [] = Some []"
    using t(1-3) by (simp add: lex_inv_def inv_proto_def)
  then have run: "proto_run (kind_texts src (lexed_tokens l)) [] = Some []"
    by (simp add: t(4) kind_texts_snoc proto_run_append proto_def)
  then show "let kts = kind_texts src (lexed_tokens l) in proto_run kts [] = Some [] \<and>
      (\<forall>n. \<exists>ns. proto_run (take n kts) [] = Some ns \<and> length ns \<le> MAX_NEST)"
    using proto_run_prefix [OF run] by (simp add: Let_def)
qed

section \<open>Tokens and trivia are what their bytes say\<close>

text \<open>
  C22. Every token's kind agrees with the bytes it spans: keywords are exactly the keyword texts and
  identifiers never are, punctuation is the longest table entry that matches at its position, openers
  spell their string kind, numbers start with a digit, \<open>char\<close> literals are quoted, error tokens are
  never empty.
\<close>

theorem lex_token_texts:
  "case lex u f src of
     None \<Rightarrow> u32_max < length src
   | Some l \<Rightarrow> list_all (\<lambda>t. text_ok src (sp_lo (tk_span t)) (sp_hi (tk_span t)) (tk_kind t)) (lexed_tokens l)"
proof (rule lex_cases)
  fix l assume "lex u f src = Some l"
  then obtain t where t: "lex_inv t" "lsrc t = src"
      "lexed_tokens l = tokens t @ [\<lparr>tk_kind = T_Eof,
         tk_span = \<lparr>sp_file = f, sp_lo = length src, sp_hi = length src\<rparr>, tk_leading = pending t, tk_trailing = []\<rparr>]"
    using lex_final by metis
  show "list_all (\<lambda>t. text_ok src (sp_lo (tk_span t)) (sp_hi (tk_span t)) (tk_kind t)) (lexed_tokens l)"
    using t(1,2) by (auto simp: t(3) lex_inv_def inv_texts_def skel_def list_all_iff text_ok_def [of _ _ _ T_Eof])
qed

text \<open>
  Trivia is what its bytes say: whitespace is only blanks and newlines, comments start with two
  slashes, stop before the line's end and have the kind of their prefix, a byte order mark is trivia
  only at byte 0, a shebang only there or right after that mark; no piece is empty.
\<close>

theorem lex_trivia_texts:
  "case lex u f src of
     None \<Rightarrow> u32_max < length src
   | Some l \<Rightarrow> list_all (\<lambda>t. list_all (piece_ok src) (tk_leading t @ tk_trailing t)) (lexed_tokens l)"
proof (rule lex_cases)
  fix l assume "lex u f src = Some l"
  then obtain t where t: "lex_inv t" "lsrc t = src"
      "lexed_tokens l = tokens t @ [\<lparr>tk_kind = T_Eof,
         tk_span = \<lparr>sp_file = f, sp_lo = length src, sp_hi = length src\<rparr>, tk_leading = pending t, tk_trailing = []\<rparr>]"
    using lex_final by metis
  show "list_all (\<lambda>t. list_all (piece_ok src) (tk_leading t @ tk_trailing t)) (lexed_tokens l)"
    using t(1,2) by (auto simp: t(3) lex_inv_def inv_trivia_def all_trivia_def list_all_iff)
qed

section \<open>Terminators and the end of the stream\<close>

text \<open>
  Statement terminators are inserted only where the grammar says: a \<open>Term\<close> token is an explicit
  semicolon, or a newline or zero-width at the end of the buffer right after a token that ends a
  statement. The stream ends in exactly one \<open>Eof\<close>, zero-width at the end of the buffer.
\<close>

theorem lex_terminators:
  "case lex u f src of
     None \<Rightarrow> u32_max < length src
   | Some l \<Rightarrow>
       (let kts = kind_texts src (lexed_tokens l)
        in list_all (term_ok kts) [0..<length kts] \<and> (T_Eof, []) \<in> set kts \<and>
           kts \<noteq> [] \<and> last kts = (T_Eof, []) \<and> T_Eof \<notin> fst ` set (butlast kts)) \<and>
       sp_lo (tk_span (last (lexed_tokens l))) = length src"
proof (rule lex_cases)
  fix l assume "lex u f src = Some l"
  then obtain t where t: "lex_inv t" "lsrc t = src"
      "lexed_tokens l = tokens t @ [\<lparr>tk_kind = T_Eof,
         tk_span = \<lparr>sp_file = f, sp_lo = length src, sp_hi = length src\<rparr>, tk_leading = pending t, tk_trailing = []\<rparr>]"
    using lex_final by metis
  have kts: "kind_texts src (lexed_tokens l) = kind_texts src (tokens t) @ [(T_Eof, [])]"
    by (simp add: t(3) kind_texts_snoc span_text_def)
  have "\<forall>i < length (kind_texts src (tokens t)). term_ok (kind_texts src (tokens t)) i"
    using t(1,2) by (auto simp: lex_inv_def inv_terms_def Let_def)
  then have "\<forall>i < length (kind_texts src (tokens t) @ [(T_Eof, [])]). term_ok (kind_texts src (tokens t) @ [(T_Eof, [])]) i"
    by (rule inv_terms_snoc) simp
  moreover have "T_Eof \<notin> fst ` set (kind_texts src (tokens t))"
    using t(1) by (auto simp: lex_inv_def inv_texts_def kind_texts_def)
  ultimately show "(let kts = kind_texts src (lexed_tokens l)
        in list_all (term_ok kts) [0..<length kts] \<and> (T_Eof, []) \<in> set kts \<and>
           kts \<noteq> [] \<and> last kts = (T_Eof, []) \<and> T_Eof \<notin> fst ` set (butlast kts)) \<and>
       sp_lo (tk_span (last (lexed_tokens l))) = length src"
    unfolding Let_def kts by (simp add: t(3) list_all_iff)
qed

section \<open>Errors and diagnostics\<close>

text \<open>
  C32. Nothing goes wrong silently and no diagnostic points outside the buffer: every \<open>Error\<close> token has
  a diagnostic inside its own span; every diagnostic is an error with a lexical code whose primary span
  lies in the buffer; \<open>has_errors\<close> holds iff anything was reported.
\<close>

theorem lex_errors_reported:
  "case lex u f src of
     None \<Rightarrow> u32_max < length src
   | Some l \<Rightarrow>
       list_all (\<lambda>d. d_code d \<in> set lex_codes \<and> d_severity d = Error \<and> sp_file (d_span d) = f \<and>
                     sp_lo (d_span d) \<le> sp_hi (d_span d) \<and> sp_hi (d_span d) \<le> length src)
         (lexed_diagnostics l) \<and>
       list_all (\<lambda>t. list_ex (\<lambda>d. span_within (d_span d) (tk_span t)) (lexed_diagnostics l))
         (filter (\<lambda>t. tk_kind t = T_Error) (lexed_tokens l)) \<and>
       (lexed_has_errors l \<longleftrightarrow> lexed_diagnostics l \<noteq> [])"
proof (rule lex_cases)
  fix l assume "lex u f src = Some l"
  then obtain t where t: "lex_inv t" "lsrc t = src" "lfile t = f"
      "lexed_tokens l = tokens t @ [\<lparr>tk_kind = T_Eof,
         tk_span = \<lparr>sp_file = f, sp_lo = length src, sp_hi = length src\<rparr>, tk_leading = pending t, tk_trailing = []\<rparr>]"
      "lexed_diagnostics l = dg_diags (diags t)"
    using lex_final by metis
  have ds: "\<forall>d \<in> set (lexed_diagnostics l). diag_ok 0 (length src) t d"
    and es: "\<forall>(k, s) \<in> set (skel (tokens t)). k = T_Error \<longrightarrow>
        (\<exists>d \<in> set (lexed_diagnostics l). diag_ok (sp_lo s) (sp_hi s) t d)"
    using t(1,2) by (simp_all add: lex_inv_def inv_diags_def t(5))
  have files: "sp_file (tk_span x) = f" if "x \<in> set (tokens t)" for x
  proof -
    have "tiles f 0 (pieces t) (pos t)" using t(1,3) by (simp add: lex_inv_def inv_tiles_def)
    moreover have "tk_span x \<in> set (pieces t)" using that by (auto simp: pieces_def token_spans_def)
    ultimately show ?thesis using tiles_in by blast
  qed
  have "list_all (\<lambda>d. d_code d \<in> set lex_codes \<and> d_severity d = Error \<and> sp_file (d_span d) = f \<and>
      sp_lo (d_span d) \<le> sp_hi (d_span d) \<and> sp_hi (d_span d) \<le> length src) (lexed_diagnostics l)"
    using ds t(3) by (simp add: list_all_iff diag_ok_def)
  moreover have "list_all (\<lambda>t. list_ex (\<lambda>d. span_within (d_span d) (tk_span t)) (lexed_diagnostics l))
      (filter (\<lambda>t. tk_kind t = T_Error) (lexed_tokens l))"
    using es files t(3) unfolding t(4)
    by (fastforce simp: list_all_iff list_ex_iff skel_def diag_ok_def span_within_def)
  moreover have "lexed_has_errors l \<longleftrightarrow> lexed_diagnostics l \<noteq> []"
    using ds by (cases "lexed_diagnostics l") (auto simp: lexed_has_errors_def diag_ok_def)
  ultimately show "list_all (\<lambda>d. d_code d \<in> set lex_codes \<and> d_severity d = Error \<and> sp_file (d_span d) = f \<and>
                     sp_lo (d_span d) \<le> sp_hi (d_span d) \<and> sp_hi (d_span d) \<le> length src)
         (lexed_diagnostics l) \<and>
       list_all (\<lambda>t. list_ex (\<lambda>d. span_within (d_span d) (tk_span t)) (lexed_diagnostics l))
         (filter (\<lambda>t. tk_kind t = T_Error) (lexed_tokens l)) \<and>
       (lexed_has_errors l \<longleftrightarrow> lexed_diagnostics l \<noteq> [])"
    by blast
qed

end
