(* ===== verification/Lex_Examples.thy ===== *)
theory Lex_Examples
  imports Lex_Theorems "HOL-Library.Code_Target_Nat"
begin

text \<open>
  The lexer of \<^verbatim>\<open>crates/wolf_lex\<close> evaluated in the kernel on concrete buffers: a statement with a string
  interpolation and its format spec, and a buffer whose diagnostics are not in source order.
\<close>

text \<open>The identifier tables restricted to ASCII, where they are the letters, digits and underscore.\<close>

definition ascii_xid :: xid where
  "ascii_xid =
     \<lparr>xid_start = (\<lambda>c. 65 \<le> c \<and> c \<le> 90 \<or> 97 \<le> c \<and> c \<le> 122),
      xid_continue = (\<lambda>c. c = 0x5F \<or> 48 \<le> c \<and> c \<le> 57 \<or> 65 \<le> c \<and> c \<le> 90 \<or> 97 \<le> c \<and> c \<le> 122)\<rparr>"

definition kinds_of :: "bytes \<Rightarrow> token_kind list option" where
  "kinds_of src = map_option (\<lambda>l. map tk_kind (lexed_tokens l)) (lex ascii_xid 0 src)"

definition diag_starts :: "bytes \<Rightarrow> (code \<times> nat) list option" where
  "diag_starts src =
     map_option (\<lambda>l. map (\<lambda>d. (d_code d, sp_lo (d_span d))) (lexed_diagnostics l)) (lex ascii_xid 0 src)"

lemma lex_interpolation_example:
  "kinds_of [CHR ''f'', CHR ''('', CHR 0x22, CHR ''a'', CHR ''{'', CHR ''x'', CHR '':'', CHR ''3'', CHR ''}'',
             CHR 0x22, CHR '')'', CHR 0x0A] =
   Some [T_Ident, T_Punct P_LParen, T_StrBegin Plain, T_StrFragment, T_InterpOpen, T_Ident,
         T_FormatSpecBegin, T_StrFragment, T_InterpClose, T_StrEnd 0, T_Punct P_RParen, T_Term, T_Eof]"
  by code_simp

text \<open>
  An unterminated multiline string with a bad escape: the escape at byte 4 is reported before the
  string at byte 0, whose end is only known at the end of the buffer.
\<close>

lemma lex_diagnostics_order_example:
  "diag_starts [CHR 0x22, CHR 0x22, CHR 0x22, CHR 0x0A, CHR 0x5C, CHR ''q''] =
   Some [(''E0101'', 4), (''E0102'', 0)]"
  by code_simp

end
