(* ===== verification/Wolf_Str.thy ===== *)
theory Wolf_Str
  imports Wolf_Prelude
begin

text \<open>
  The standard-library idioms the packaging code (\<^verbatim>\<open>crates/wolf_pkg\<close>) uses on \<open>&str\<close> and
  \<open>BTreeMap\<close>. A \<open>&str\<close> is its UTF-8 bytes; white space is recognised at its encodings, which in valid
  UTF-8 never match inside another character. A \<open>BTreeMap\<close> is its entries in key order.
\<close>

section \<open>Splitting at a byte\<close>

fun split_on :: "byte \<Rightarrow> bytes \<Rightarrow> bytes list" where
  "split_on c [] = [[]]"
| "split_on c (x # xs) =
     (if x = c then [] # split_on c xs
      else case split_on c xs of [] \<Rightarrow> [[x]] | w # ws \<Rightarrow> (x # w) # ws)"

lemma split_on_nonempty [simp]: "split_on c s \<noteq> []"
  by (induction c s rule: split_on.induct) (auto split: list.splits)

lemma split_on_free: "c \<notin> set s \<Longrightarrow> split_on c s = [s]"
  by (induction c s rule: split_on.induct) auto

lemma split_on_sep: "c \<notin> set a \<Longrightarrow> split_on c (a @ c # s) = a # split_on c s"
  by (induction a) auto

section \<open>White space\<close>

text \<open>The length of the white-space character at the head, 0 if there is none.\<close>

fun ws_len :: "bytes \<Rightarrow> nat" where
  "ws_len [] = 0"
| "ws_len (a # r) =
     (let a = byte_val a; c = (\<lambda>i. if i < length r then byte_val (r ! i) else (0 :: nat))
      in if a = 0x20 \<or> 9 \<le> a \<and> a \<le> 13 then 1
         else if a = 0xC2 \<and> (c 0 = 0x85 \<or> c 0 = 0xA0) then 2
         else if a = 0xE1 \<and> c 0 = 0x9A \<and> c 1 = 0x80 then 3
         else if a = 0xE2 \<and> c 0 = 0x80 \<and> (0x80 \<le> c 1 \<and> c 1 \<le> 0x8A \<or> c 1 = 0xA8 \<or> c 1 = 0xA9 \<or> c 1 = 0xAF) then 3
         else if a = 0xE2 \<and> c 0 = 0x81 \<and> c 1 = 0x9F then 3
         else if a = 0xE3 \<and> c 0 = 0x80 \<and> c 1 = 0x80 then 3
         else 0)"

text \<open>\<open>split_whitespace\<close>: the maximal runs without white space.\<close>

function split_ws :: "bytes \<Rightarrow> bytes list" where
  "split_ws s =
     (if s = [] then []
      else if 0 < ws_len s then split_ws (drop (ws_len s) s)
      else case tl s of
             [] \<Rightarrow> [s]
           | t \<Rightarrow> if 0 < ws_len t then [hd s] # split_ws t
                  else case split_ws t of [] \<Rightarrow> [[hd s]] | w # ws \<Rightarrow> (hd s # w) # ws)"
  by pat_completeness auto
termination
  by (relation "measure length") (auto simp: diff_less, (case_tac s; simp)+)

declare split_ws.simps [simp del]

fun trim_start :: "nat \<Rightarrow> bytes \<Rightarrow> bytes" where
  "trim_start 0 s = s"
| "trim_start (Suc n) s = (if 0 < ws_len s then trim_start n (drop (ws_len s) s) else s)"

function trim_end :: "bytes \<Rightarrow> bytes" where
  "trim_end s =
     (if s = [] then []
      else let n = max 1 (ws_len s); r = trim_end (drop n s)
           in if 0 < ws_len s \<and> r = [] then [] else take n s @ r)"
  by pat_completeness auto
termination by (relation "measure length") auto

declare trim_end.simps [simp del]

definition trim :: "bytes \<Rightarrow> bytes" where
  "trim s = trim_end (trim_start (length s) s)"

text \<open>\<open>str::lines\<close>: the line ending is a newline, or a carriage return and a newline.\<close>

definition strip_cr :: "bytes \<Rightarrow> bytes" where
  "strip_cr l = (if l \<noteq> [] \<and> last l = CHR 0x0D then butlast l else l)"

fun lines_from :: "bytes \<Rightarrow> bytes \<Rightarrow> bytes list" where
  "lines_from acc [] = (if acc = [] then [] else [acc])"
| "lines_from acc (c # s) =
     (if c = CHR 0x0A then strip_cr acc # lines_from [] s else lines_from (acc @ [c]) s)"

definition str_lines :: "bytes \<Rightarrow> bytes list" where
  "str_lines s = lines_from [] s"

definition strip_prefix :: "bytes \<Rightarrow> bytes \<Rightarrow> bytes option" where
  "strip_prefix p s = (if take (length p) s = p then Some (drop (length p) s) else None)"

section \<open>Words without white space\<close>

text \<open>
  \<open>ws_free s\<close>: a nonempty text none of whose bytes starts a white-space character wherever it is put,
  so that it survives \<open>split_whitespace\<close> as one word (in particular every ASCII word).
\<close>

definition plain_byte :: "byte \<Rightarrow> bool" where
  "plain_byte b \<longleftrightarrow> 0x20 < byte_val b \<and> byte_val b < 0x80"

definition word_ok :: "bytes \<Rightarrow> bool" where
  "word_ok s \<longleftrightarrow> s \<noteq> [] \<and> list_all plain_byte s"

lemma ws_len_plain [simp]: "plain_byte b \<Longrightarrow> ws_len (b # s) = 0"
  by (auto simp: plain_byte_def Let_def ws_len.simps)

lemma ws_len_space [simp]: "ws_len (CHR 0x20 # s) = 1" "ws_len (CHR 0x0A # s) = 1"
  by (simp_all add: Let_def ws_len.simps)

declare ws_len.simps [simp del]

lemma ws_len_Nil [simp]: "ws_len [] = 0"
  by (simp add: ws_len.simps)

lemma split_ws_Nil [simp]: "split_ws [] = []"
  by (simp add: split_ws.simps)

lemma split_ws_space [simp]: "split_ws (CHR 0x20 # s) = split_ws s" "split_ws (CHR 0x0A # s) = split_ws s"
  by (simp_all add: split_ws.simps [of "_ # s"])

lemma split_ws_word: "word_ok w \<Longrightarrow> split_ws (w @ CHR 0x20 # s) = w # split_ws s"
proof (induction w)
  case (Cons a w)
  then show ?case
    by (cases w) (auto simp: word_ok_def split_ws.simps [of "a # _"])
qed (simp add: word_ok_def)

lemma split_ws_last: "word_ok w \<Longrightarrow> split_ws w = [w]"
proof (induction w)
  case (Cons a w)
  then show ?case
    by (cases w) (auto simp: word_ok_def split_ws.simps [of "a # _"])
qed (simp add: word_ok_def)

lemma word_ok_append: "word_ok a \<Longrightarrow> list_all plain_byte b \<Longrightarrow> word_ok (a @ b)"
  by (simp add: word_ok_def)

lemma digit_plain: "is_digit b \<Longrightarrow> plain_byte b"
  by (simp add: is_digit_def plain_byte_def)

lemma nat_str_word: "word_ok (nat_str n)"
  using nat_str_digits [of n] digit_plain by (auto simp: word_ok_def list_all_iff)

text \<open>Text whose bytes are printable ASCII or spaces, starting and ending with a printable one.\<close>

definition line_ok :: "bytes \<Rightarrow> bool" where
  "line_ok l \<longleftrightarrow> l \<noteq> [] \<and> plain_byte (hd l) \<and> plain_byte (last l) \<and> list_all (\<lambda>b. plain_byte b \<or> b = CHR 0x20) l"

lemma trim_start_plain: "s \<noteq> [] \<Longrightarrow> plain_byte (hd s) \<Longrightarrow> trim_start n s = s"
  by (cases n; cases s) auto

lemma trim_end_Nil [simp]: "trim_end [] = []"
  by (simp add: trim_end.simps)

lemma trim_end_plain: "plain_byte b \<Longrightarrow> trim_end (b # s) = b # trim_end s"
  by (simp add: trim_end.simps [of "b # s"] Let_def)

lemma trim_end_space: "trim_end (CHR 0x20 # s) = (if trim_end s = [] then [] else CHR 0x20 # trim_end s)"
  by (simp add: trim_end.simps [of "_ # s"] Let_def)

lemma trim_end_line: "s \<noteq> [] \<Longrightarrow> plain_byte (last s) \<Longrightarrow> list_all (\<lambda>b. plain_byte b \<or> b = CHR 0x20) s \<Longrightarrow> trim_end s = s"
proof (induction s)
  case (Cons a s)
  then show ?case by (cases s) (auto simp: trim_end_plain trim_end_space plain_byte_def)
qed simp

lemma trim_line: "line_ok l \<Longrightarrow> trim l = l"
  by (simp add: trim_def line_ok_def trim_start_plain trim_end_line)

lemma trim_end_newline:
  "s \<noteq> [] \<Longrightarrow> plain_byte (last s) \<Longrightarrow> list_all (\<lambda>b. plain_byte b \<or> b = CHR 0x20) s \<Longrightarrow>
   trim_end (s @ [CHR 0x0A]) = s"
proof (induction s)
  case (Cons a s)
  have "trim_end [CHR 0x0A] = []" by (simp add: trim_end.simps Let_def)
  with Cons show ?case by (cases s) (auto simp: trim_end_plain trim_end_space plain_byte_def)
qed simp

lemma trim_line_newline: "line_ok l \<Longrightarrow> trim (l @ [CHR 0x0A]) = l"
  using trim_start_plain [of "l @ [CHR 0x0A]"] by (simp add: trim_def line_ok_def trim_end_newline)

section \<open>Lines\<close>

lemma lines_from_line: "CHR 0x0A \<notin> set l \<Longrightarrow> lines_from acc (l @ CHR 0x0A # s) = strip_cr (acc @ l) # lines_from [] s"
  by (induction l arbitrary: acc) auto

text \<open>A text made of whole lines.\<close>

definition whole_lines :: "bytes \<Rightarrow> bool" where
  "whole_lines t \<longleftrightarrow> t = [] \<or> last t = CHR 0x0A"

lemma lines_from_append:
  "whole_lines (acc @ t) \<Longrightarrow> acc = [] \<or> CHR 0x0A \<notin> set acc \<Longrightarrow> lines_from acc (t @ s) = lines_from acc t @ lines_from [] s"
proof (induction acc t rule: lines_from.induct)
  case (1 acc)
  then show ?case by (cases acc rule: rev_cases) (auto simp: whole_lines_def)
next
  case (2 acc c t)
  then show ?case by (auto simp: whole_lines_def split: if_splits)
qed

lemma str_lines_append: "whole_lines t \<Longrightarrow> str_lines (t @ s) = str_lines t @ str_lines s"
  by (simp add: str_lines_def lines_from_append)

lemma strip_cr_line: "line_ok l \<Longrightarrow> strip_cr l = l"
  by (auto simp: strip_cr_def line_ok_def plain_byte_def)

lemma line_ok_no_newline: "line_ok l \<Longrightarrow> CHR 0x0A \<notin> set l"
  by (auto simp: line_ok_def list_all_iff plain_byte_def)

lemma str_lines_one: "line_ok l \<Longrightarrow> str_lines (l @ [CHR 0x0A]) = [l]"
  using lines_from_line [of l "[]" "[]"] by (simp add: str_lines_def line_ok_no_newline strip_cr_line)

section \<open>Ordered maps\<close>

text \<open>A \<open>BTreeMap\<close> as the list of its entries in key order.\<close>

fun bt_insert :: "'k::linorder \<Rightarrow> 'v \<Rightarrow> ('k \<times> 'v) list \<Rightarrow> ('k \<times> 'v) list" where
  "bt_insert k v [] = [(k, v)]"
| "bt_insert k v ((a, b) # m) =
     (if k < a then (k, v) # (a, b) # m
      else if k = a then (k, v) # m
      else (a, b) # bt_insert k v m)"

definition bt_ok :: "('k::linorder \<times> 'v) list \<Rightarrow> bool" where
  "bt_ok m \<longleftrightarrow> sorted_wrt (<) (map fst m)"

lemma bt_insert_keys: "set (map fst (bt_insert k v m)) = insert k (set (map fst m))"
  by (induction k v m rule: bt_insert.induct) auto

lemma bt_insert_ok: "bt_ok m \<Longrightarrow> bt_ok (bt_insert k v m)"
proof (induction k v m rule: bt_insert.induct)
  case (2 k v a b m)
  have "x \<in> fst ` set (bt_insert k v m) \<Longrightarrow> x = k \<or> x \<in> fst ` set m" for x
    using bt_insert_keys [of k v m] by auto
  with 2 show ?case by (fastforce simp: bt_ok_def)
qed (simp add: bt_ok_def)

lemma bt_insert_lookup: "bt_ok m \<Longrightarrow> map_of (bt_insert k v m) x = (if x = k then Some v else map_of m x)"
proof (induction k v m rule: bt_insert.induct)
  case (2 k v a b m)
  have "map_of m k = None" if "k < a"
    using 2(2) that by (fastforce simp: bt_ok_def map_of_eq_None_iff)
  with 2 show ?case by (auto simp: bt_ok_def)
qed simp

lemma bt_distinct: "bt_ok m \<Longrightarrow> distinct (map fst m)"
  by (simp add: bt_ok_def strict_sorted_iff)

lemma bt_mem: "bt_ok m \<Longrightarrow> (k, v) \<in> set m \<longleftrightarrow> map_of m k = Some v"
  by (simp add: bt_distinct)

end
