(* ===== verification/Pkg_Version.thy ===== *)
theory Pkg_Version
  imports Wolf_Str
begin

text \<open>
  Package versions, \<^verbatim>\<open>crates/wolf_pkg/src/version.rs\<close>: \<open>major.minor.patch\<close> with the derived
  lexicographic order, \<open>parse\<close> and \<open>Display\<close>. The three fields are \<open>u32\<close>: \<open>version_ok\<close>.
\<close>

datatype version = Version (ver_major: nat) (ver_minor: nat) (ver_patch: nat)

definition Version_new :: "nat \<Rightarrow> nat \<Rightarrow> nat \<Rightarrow> version" where
  "Version_new = Version"

definition version_key :: "version \<Rightarrow> nat \<times> nat \<times> nat" where
  "version_key v = (ver_major v, ver_minor v, ver_patch v)"

text \<open>\<open>derive(PartialOrd, Ord)\<close>: lexicographic in the order of the fields.\<close>

instantiation version :: linorder
begin

definition less_eq_version :: "version \<Rightarrow> version \<Rightarrow> bool" where
  "less_eq_version a b \<longleftrightarrow> version_key a \<le> version_key b"

definition less_version :: "version \<Rightarrow> version \<Rightarrow> bool" where
  "less_version a b \<longleftrightarrow> version_key a < version_key b"

instance
proof
  fix a b :: version
  show "a \<le> b \<Longrightarrow> b \<le> a \<Longrightarrow> a = b"
    by (cases a; cases b) (auto simp: less_eq_version_def version_key_def)
qed (auto simp: less_eq_version_def less_version_def)

end

definition version_ok :: "version \<Rightarrow> bool" where
  "version_ok v \<longleftrightarrow> ver_major v \<le> u32_max \<and> ver_minor v \<le> u32_max \<and> ver_patch v \<le> u32_max"

definition Version_parse :: "bytes \<Rightarrow> version option" where
  "Version_parse s =
     (case split_on (CHR ''.'') s of
        [] \<Rightarrow> None
      | a # parts \<Rightarrow>
          (case parse_uint u32_max a of
             None \<Rightarrow> None
           | Some major \<Rightarrow>
               (case parts of
                  [] \<Rightarrow> Some (Version_new major 0 0)
                | b # parts \<Rightarrow>
                    (case parse_uint u32_max b of
                       None \<Rightarrow> None
                     | Some minor \<Rightarrow>
                         (case parts of
                            [] \<Rightarrow> Some (Version_new major minor 0)
                          | c # parts \<Rightarrow>
                              (case parse_uint u32_max c of
                                 None \<Rightarrow> None
                               | Some patch \<Rightarrow>
                                   if parts \<noteq> [] then None else Some (Version_new major minor patch)))))))"

definition Version_display :: "version \<Rightarrow> bytes" where
  "Version_display v = nat_str (ver_major v) @ ''.'' @ nat_str (ver_minor v) @ ''.'' @ nat_str (ver_patch v)"

lemma nat_str_no_dot: "CHR ''.'' \<notin> set (nat_str n)"
  using nat_str_digits [of n] by (auto simp: list_all_iff is_digit_def)

lemma parse_display: "version_ok v \<Longrightarrow> Version_parse (Version_display v) = Some v"
  by (cases v)
    (simp add: Version_parse_def Version_display_def version_ok_def split_on_sep split_on_free nat_str_no_dot
      parse_uint_nat_str Version_new_def)

lemma parse_version_ok: "Version_parse s = Some v \<Longrightarrow> version_ok v"
  by (auto simp: Version_parse_def version_ok_def Version_new_def split: list.splits option.splits if_splits
      dest!: parse_uint_le)

text \<open>
  Versions print and parse back: \<open>parse\<close> inverts \<open>Display\<close> on exactly the versions whose fields are
  \<open>u32\<close> values, which are also exactly the versions \<open>parse\<close> ever returns; the short forms fill in zeros.
\<close>

theorem version_roundtrip:
  "(Version_parse (Version_display v) = Some v \<longleftrightarrow> version_ok v) \<and>
   (version_ok v \<longleftrightarrow> (\<exists>s. Version_parse s = Some v)) \<and>
   Version_parse (nat_str 1) = Some (Version 1 0 0) \<and>
   Version_parse (nat_str 1 @ ''.'' @ nat_str 4) = Some (Version 1 4 0)"
proof -
  have "version_ok v \<longleftrightarrow> (\<exists>s. Version_parse s = Some v)"
    using parse_display parse_version_ok by blast
  then show ?thesis
    using parse_display [of v] parse_version_ok [of "Version_display v" v]
    by (auto simp: Version_parse_def split_on_sep split_on_free nat_str_no_dot parse_uint_nat_str Version_new_def)
qed

text \<open>The leading plus sign of \<open>u32::from_str\<close> is accepted too.\<close>

lemma version_plus_accepted: "Version_parse ''+1.4'' = Some (Version 1 4 0)"
  by (simp add: Version_parse_def parse_uint_def digits_val_def is_digit_def Version_new_def)

end
