(* ===== verification/Pkg_Mvs.thy ===== *)
theory Pkg_Mvs
  imports Pkg_Version
begin

text \<open>
  Minimal version selection, \<^verbatim>\<open>crates/wolf_pkg/src/mvs.rs\<close>. The \<open>Universe\<close> trait object is a parameter:
  a state-passing function from its state and a module version to an error or the requirement list.
  \<open>resolve\<close>'s work loop may not end on an infinite universe, so it is a partial function whose \<open>None\<close>
  is non-termination.
\<close>

section \<open>Data\<close>

record req =
  rq_name :: bytes
  rq_major :: nat
  rq_min :: version

record selected =
  sl_name :: bytes
  sl_major :: nat
  sl_version :: version

type_synonym modkey = "bytes \<times> nat"
type_synonym node = "bytes \<times> nat \<times> version"

type_synonym ('s, 'e) universe = "'s \<Rightarrow> bytes \<Rightarrow> nat \<Rightarrow> version \<Rightarrow> ('e + req list) \<times> 's"

definition Req_new :: "bytes \<Rightarrow> nat \<Rightarrow> version \<Rightarrow> req" where
  "Req_new name major mn = \<lparr>rq_name = name, rq_major = major, rq_min = mn\<rparr>"

definition req_key :: "req \<Rightarrow> modkey" where
  "req_key r = (rq_name r, rq_major r)"

definition req_node :: "req \<Rightarrow> node" where
  "req_node r = (rq_name r, rq_major r, rq_min r)"

section \<open>resolve\<close>

text \<open>\<open>selected.entry(key).or_insert(req.min)\<close>, then the raise.\<close>

definition raise_min :: "req \<Rightarrow> (modkey \<times> version) list \<Rightarrow> (modkey \<times> version) list" where
  "raise_min r sel =
     (let cur = (case map_of sel (req_key r) of Some v \<Rightarrow> v | None \<Rightarrow> rq_min r)
      in bt_insert (req_key r) (if cur < rq_min r then rq_min r else cur) sel)"

text \<open>The work stack has its top at the head; \<open>visited\<close> is a set of nodes.\<close>

partial_function (option) resolve_loop ::
  "('s, 'e) universe \<Rightarrow> (modkey \<times> version) list \<Rightarrow> node set \<Rightarrow> req list \<Rightarrow> 's \<Rightarrow>
   (('e + (modkey \<times> version) list) \<times> 's) option" where
  "resolve_loop uni sel visited work us =
     (case work of
        [] \<Rightarrow> Some (Inr sel, us)
      | r # work \<Rightarrow>
          let sel = raise_min r sel
          in if req_node r \<in> visited then resolve_loop uni sel visited work us
             else case uni us (rq_name r) (rq_major r) (rq_min r) of
                    (Inl e, us) \<Rightarrow> Some (Inl e, us)
                  | (Inr deps, us) \<Rightarrow> resolve_loop uni sel (insert (req_node r) visited) (rev deps @ work) us)"

declare resolve_loop.simps [code]

definition resolve :: "req list \<Rightarrow> ('s, 'e) universe \<Rightarrow> 's \<Rightarrow> (('e + selected list) \<times> 's) option" where
  "resolve root uni us =
     (case resolve_loop uni [] {} (rev root) us of
        None \<Rightarrow> None
      | Some (Inl e, us) \<Rightarrow> Some (Inl e, us)
      | Some (Inr sel, us) \<Rightarrow>
          Some (Inr (map (\<lambda>((name, major), v). \<lparr>sl_name = name, sl_major = major, sl_version = v\<rparr>) sel), us))"

section \<open>What it computes\<close>

text \<open>The requirements reachable from the root when the universe's answers are \<open>ans\<close>.\<close>

type_synonym 'e answers = "bytes \<Rightarrow> nat \<Rightarrow> version \<Rightarrow> 'e + req list"

abbreviation asks :: "'e answers \<Rightarrow> req \<Rightarrow> 'e + req list" where
  "asks ans r \<equiv> ans (rq_name r) (rq_major r) (rq_min r)"

inductive_set reach :: "'e answers \<Rightarrow> req list \<Rightarrow> req set" for ans root where
  reach_root: "r \<in> set root \<Longrightarrow> r \<in> reach ans root"
| reach_dep: "r \<in> reach ans root \<Longrightarrow> asks ans r = Inr ds \<Longrightarrow> d \<in> set ds \<Longrightarrow> d \<in> reach ans root"

text \<open>The universe answers as a function of the module version, whatever its state.\<close>

definition answers_as :: "('s, 'e) universe \<Rightarrow> 'e answers \<Rightarrow> bool" where
  "answers_as uni ans \<longleftrightarrow> (\<forall>us n m v. fst (uni us n m v) = ans n m v)"

definition mins :: "req set \<Rightarrow> modkey \<Rightarrow> version set" where
  "mins R k = {rq_min r | r. r \<in> R \<and> req_key r = k}"

text \<open>A selection holds, for each module required in \<open>R\<close>, the greatest minimum.\<close>

definition selects :: "(modkey \<times> version) list \<Rightarrow> req set \<Rightarrow> bool" where
  "selects sel R \<longleftrightarrow>
     bt_ok sel \<and> (\<forall>k. map_of sel k = (if mins R k = {} then None else Some (Max (mins R k))))"

lemma req_node_inj: "req_node r = req_node s \<longleftrightarrow> r = s"
  by (cases r; cases s) (auto simp: req_node_def)

lemma mins_finite: "finite R \<Longrightarrow> finite (mins R k)"
  by (simp add: mins_def)

lemma mins_insert: "mins (insert r R) k = (if req_key r = k then insert (rq_min r) (mins R k) else mins R k)"
  by (auto simp: mins_def)

lemma raise_min_selects:
  assumes "selects sel V" "finite V"
  shows "selects (raise_min r sel) (insert r V)"
proof -
  have ok: "bt_ok sel" using assms(1) by (simp add: selects_def)
  let ?m = "mins V (req_key r)"
  let ?cur = "case map_of sel (req_key r) of Some v \<Rightarrow> v | None \<Rightarrow> rq_min r"
  have lk: "map_of sel k = (if mins V k = {} then None else Some (Max (mins V k)))" for k
    using assms(1) unfolding selects_def by blast
  have cur: "?cur = (if ?m = {} then rq_min r else Max ?m)"
    by (simp add: lk)
  have fin: "finite ?m" using assms(2) by (rule mins_finite)
  have mx: "(if ?cur < rq_min r then rq_min r else ?cur) = Max (insert (rq_min r) ?m)"
    by (cases "?m = {}") (simp_all add: cur fin max_def not_le [symmetric] del: Max_less_iff Max_le_iff Max_ge_iff)
  have "map_of (raise_min r sel) k =
      (if mins (insert r V) k = {} then None else Some (Max (mins (insert r V) k)))" for k
    using mx by (simp add: raise_min_def Let_def bt_insert_lookup [OF ok] mins_insert lk [of k])
  then show ?thesis using bt_insert_ok [OF ok] by (simp add: selects_def raise_min_def Let_def)
qed

text \<open>The loop's invariant: \<open>V\<close> is what was popped; its requirements are popped or still to do.\<close>

definition mvs_inv :: "'e answers \<Rightarrow> req list \<Rightarrow> (modkey \<times> version) list \<Rightarrow> req set \<Rightarrow> req list \<Rightarrow> bool" where
  "mvs_inv ans root sel V work \<longleftrightarrow>
     V \<union> set work \<subseteq> reach ans root \<and> set root \<subseteq> V \<union> set work \<and>
     (\<forall>r \<in> V. \<exists>ds. asks ans r = Inr ds \<and> set ds \<subseteq> V \<union> set work) \<and> selects sel V"

lemma mvs_inv_closed:
  assumes "mvs_inv ans root sel V []"
  shows "V = reach ans root"
proof
  show "V \<subseteq> reach ans root" using assms by (simp add: mvs_inv_def)
  show "reach ans root \<subseteq> V"
  proof
    fix r assume "r \<in> reach ans root"
    then show "r \<in> V"
    proof induction
      case (reach_dep r ds d)
      then show ?case using assms by (fastforce simp: mvs_inv_def)
    qed (use assms in \<open>auto simp: mvs_inv_def\<close>)
  qed
qed

lemma mvs_inv_old:
  "mvs_inv ans root sel V (r # work) \<Longrightarrow> finite V \<Longrightarrow> r \<in> V \<Longrightarrow> mvs_inv ans root (raise_min r sel) V work"
  using raise_min_selects [of sel V r] by (auto simp: mvs_inv_def insert_absorb)

lemma mvs_inv_new:
  assumes "mvs_inv ans root sel V (r # work)" "finite V" "asks ans r = Inr ds"
  shows "mvs_inv ans root (raise_min r sel) (insert r V) (rev ds @ work)"
proof -
  have "r \<in> reach ans root" using assms(1) by (simp add: mvs_inv_def)
  then have "set ds \<subseteq> reach ans root" using assms(3) by (auto intro: reach_dep)
  then show ?thesis
    using assms raise_min_selects [of sel V r] by (fastforce simp: mvs_inv_def)
qed

text \<open>What a run is expected to end in.\<close>

definition mvs_outcome ::
  "'e answers \<Rightarrow> req list \<Rightarrow> (('e + (modkey \<times> version) list) \<times> 's) option \<Rightarrow> bool" where
  "mvs_outcome ans root res =
     (case res of
        None \<Rightarrow> False
      | Some (Inl e, _) \<Rightarrow> (\<exists>r \<in> reach ans root. asks ans r = Inl e)
      | Some (Inr sel, _) \<Rightarrow>
          (\<forall>r \<in> reach ans root. \<exists>ds. asks ans r = Inr ds) \<and> selects sel (reach ans root))"

lemma resolve_loop_outcome:
  assumes "finite (reach ans root)" "answers_as uni ans"
  shows "mvs_inv ans root sel V work \<Longrightarrow>
    mvs_outcome ans root (resolve_loop uni sel (req_node ` V) work us)"
proof (induction "(card (reach ans root - V), length work)" arbitrary: sel V work us
    rule: wf_induct_rule [OF wf_lex_prod [OF wf_less_than wf_less_than]])
  case 1
  note inv = "1.prems"
  have sub: "V \<subseteq> reach ans root" "finite V"
    using inv assms(1) by (auto simp: mvs_inv_def intro: finite_subset)
  show ?case
  proof (cases work)
    case Nil
    then have "V = reach ans root" "\<forall>r \<in> V. \<exists>ds. asks ans r = Inr ds" "selects sel V"
      using mvs_inv_closed inv by (auto simp: mvs_inv_def)
    then show ?thesis by (simp add: Nil mvs_outcome_def resolve_loop.simps)
  next
    case (Cons r rest)
    have r: "r \<in> reach ans root" using inv Cons by (simp add: mvs_inv_def)
    have mem: "req_node r \<in> req_node ` V \<longleftrightarrow> r \<in> V" by (auto simp: req_node_inj)
    show ?thesis
    proof (cases "r \<in> V")
      case True
      have "mvs_outcome ans root (resolve_loop uni (raise_min r sel) (req_node ` V) rest us)"
        using mvs_inv_old [OF inv [unfolded Cons] sub(2) True] by (rule "1.hyps" [rotated]) (simp add: Cons)
      then show ?thesis using True by (simp add: Cons resolve_loop.simps [of _ _ _ "_ # _"] mem)
    next
      case False
      obtain a us' where a: "uni us (rq_name r) (rq_major r) (rq_min r) = (a, us')" by fastforce
      have ans: "asks ans r = a" using assms(2) a by (metis answers_as_def fst_conv)
      show ?thesis
      proof (cases a)
        case (Inl e)
        then show ?thesis using False r ans
          by (auto simp: Cons resolve_loop.simps [of _ _ _ "_ # _"] mem a mvs_outcome_def)
      next
        case (Inr ds)
        have "reach ans root - insert r V \<subset> reach ans root - V" using r False by blast
        then have "card (reach ans root - insert r V) < card (reach ans root - V)"
          using assms(1) by (simp add: psubset_card_mono)
        then have "mvs_outcome ans root
            (resolve_loop uni (raise_min r sel) (req_node ` insert r V) (rev ds @ rest) us')"
          using mvs_inv_new [OF inv [unfolded Cons] sub(2)] ans Inr
          by (intro "1.hyps") simp_all
        then show ?thesis using False Inr
          by (simp add: Cons resolve_loop.simps [of _ _ _ "_ # _"] mem a)
      qed
    qed
  qed
qed

lemma resolve_loop_from_root:
  "finite (reach ans root) \<Longrightarrow> answers_as uni ans \<Longrightarrow> mvs_outcome ans root (resolve_loop uni [] {} (rev root) us)"
  using resolve_loop_outcome [of ans root uni "[]" "{}" "rev root" us]
  by (auto simp: mvs_inv_def selects_def mins_def bt_ok_def intro: reach_root)

section \<open>The selection is the maximum of the minimums\<close>

definition sl_key :: "selected \<Rightarrow> modkey" where
  "sl_key s = (sl_name s, sl_major s)"

definition mvs_correct ::
  "'e answers \<Rightarrow> req list \<Rightarrow> (('e + selected list) \<times> 's) option \<Rightarrow> bool" where
  "mvs_correct ans root res =
     (case res of
        None \<Rightarrow> False
      | Some (Inl e, _) \<Rightarrow> (\<exists>r \<in> reach ans root. asks ans r = Inl e)
      | Some (Inr out, _) \<Rightarrow>
          (\<forall>r \<in> reach ans root. \<exists>ds. asks ans r = Inr ds) \<and>
          sorted_wrt (<) (map sl_key out) \<and>
          set out = {s. mins (reach ans root) (sl_key s) \<noteq> {} \<and>
                        sl_version s = Max (mins (reach ans root) (sl_key s))})"

lemma selects_list:
  assumes "selects sel R"
  defines "out \<equiv> map (\<lambda>((name, major), v). \<lparr>sl_name = name, sl_major = major, sl_version = v\<rparr>) sel"
  shows "sorted_wrt (<) (map sl_key out)"
    and "set out = {s. mins R (sl_key s) \<noteq> {} \<and> sl_version s = Max (mins R (sl_key s))}"
proof -
  have ok: "bt_ok sel" and lk: "map_of sel k = (if mins R k = {} then None else Some (Max (mins R k)))" for k
    using assms(1) unfolding selects_def by blast+
  have "map sl_key out = map fst sel"
    by (auto simp: out_def sl_key_def)
  then show "sorted_wrt (<) (map sl_key out)" using ok by (simp add: bt_ok_def)
  have mem: "s \<in> set out \<longleftrightarrow> (sl_key s, sl_version s) \<in> set sel" for s
    by (cases s) (force simp: out_def sl_key_def)
  have "s \<in> set out \<longleftrightarrow> mins R (sl_key s) \<noteq> {} \<and> sl_version s = Max (mins R (sl_key s))" for s
    unfolding mem bt_mem [OF ok] lk by auto
  then show "set out = {s. mins R (sl_key s) \<noteq> {} \<and> sl_version s = Max (mins R (sl_key s))}" by blast
qed

lemma resolve_correct:
  assumes "finite (reach ans root)" "answers_as uni ans"
  shows "mvs_correct ans root (resolve root uni us)"
  using resolve_loop_from_root [OF assms, of us] selects_list
  by (auto simp: resolve_def mvs_correct_def mvs_outcome_def split: option.splits prod.splits sum.splits)

text \<open>
  C19. Resolution ends and selects, per package and major version, the greatest minimum any reachable
  requirement states, sorted by package, with cycles allowed; it fails only with the error of a
  manifest that is reachable, and whenever one is.
\<close>

theorem mvs_max_of_minimums:
  assumes "finite (reach ans root)" "answers_as uni ans"
  shows "mvs_correct ans root (resolve root uni us)"
  using assms by (rule resolve_correct)

text \<open>The example: two packages that require each other.\<close>

definition cyclic_answers :: "string answers" where
  "cyclic_answers n m v =
     (if n = ''B'' then Inr [Req_new ''C'' 1 (Version 1 2 0)]
      else if n = ''C'' then Inr [Req_new ''B'' 1 (Version 1 1 0)]
      else Inl ''no manifest'')"

lemma cyclic_reach: "reach cyclic_answers [Req_new ''B'' 1 (Version 1 0 0)] \<subseteq>
    {Req_new ''B'' 1 (Version 1 0 0), Req_new ''C'' 1 (Version 1 2 0), Req_new ''B'' 1 (Version 1 1 0)}"
proof
  fix r assume "r \<in> reach cyclic_answers [Req_new ''B'' 1 (Version 1 0 0)]"
  then show "r \<in> {Req_new ''B'' 1 (Version 1 0 0), Req_new ''C'' 1 (Version 1 2 0), Req_new ''B'' 1 (Version 1 1 0)}"
    by induction (auto simp: cyclic_answers_def Req_new_def)
qed

theorem mvs_max_of_minimums_witness:
  "mvs_correct cyclic_answers [Req_new ''B'' 1 (Version 1 0 0)]
     (resolve [Req_new ''B'' 1 (Version 1 0 0)] (\<lambda>us n m v. (cyclic_answers n m v, us)) ())"
proof (rule mvs_max_of_minimums)
  show "finite (reach cyclic_answers [Req_new ''B'' 1 (Version 1 0 0)])"
    by (rule finite_subset [OF cyclic_reach]) simp
qed (simp add: answers_as_def)

lemma reach_agree:
  assumes "\<And>r. r \<in> reach ans root \<Longrightarrow> asks ans' r = asks ans r"
  shows "reach ans' root = reach ans root"
proof
  show "reach ans root \<subseteq> reach ans' root"
  proof
    fix r assume "r \<in> reach ans root"
    then show "r \<in> reach ans' root"
      by induction (auto intro: reach_root reach_dep simp: assms)
  qed
  show "reach ans' root \<subseteq> reach ans root"
  proof
    fix r assume "r \<in> reach ans' root"
    then show "r \<in> reach ans root"
    proof induction
      case (reach_dep r ds d)
      then show ?case using assms [of r] by (auto intro: reach.reach_dep)
    qed (rule reach_root)
  qed
qed

lemma sorted_keys_unique:
  assumes "sorted_wrt (<) (map sl_key xs)" "sorted_wrt (<) (map sl_key ys)" "set xs = set ys"
  shows "xs = ys"
proof (rule map_inj_on)
  have "set (map sl_key xs) = set (map sl_key ys)" using assms(3) by simp
  then show "map sl_key xs = map sl_key ys" using strict_sorted_equal [OF assms(2,1)] by simp
  have "distinct (map sl_key ys)" using assms(2) strict_sorted_iff by blast
  then show "inj_on sl_key (set xs \<union> set ys)" using assms(3) by (simp add: distinct_map)
qed

text \<open>
  A newly published version is never picked up: if two universes agree on the manifests that are
  reachable, whatever else they contain, resolution selects the same versions in both.
\<close>

theorem mvs_ignores_unrequired:
  assumes "finite (reach ans root)" "answers_as uni ans" "answers_as uni' ans'"
    and "\<forall>r \<in> reach ans root. asks ans' r = asks ans r"
    and "resolve root uni us = Some (Inr out, us1)"
  shows "\<exists>us2. resolve root uni' us' = Some (Inr out, us2)"
proof -
  have eq: "reach ans' root = reach ans root" using assms(4) by (intro reach_agree) simp
  have a: "mvs_correct ans root (Some (Inr out, us1))"
    using resolve_correct [OF assms(1,2), of us] assms(5) by simp
  have b: "mvs_correct ans' root (resolve root uni' us')"
    using resolve_correct [of ans' root uni' us'] assms(1,3) eq by simp
  have ok: "\<forall>r \<in> reach ans' root. \<exists>ds. asks ans' r = Inr ds"
    using a assms(4) eq by (auto simp: mvs_correct_def)
  then obtain out' us2 where r: "resolve root uni' us' = Some (Inr out', us2)"
    using b by (fastforce simp: mvs_correct_def split: option.splits prod.splits sum.splits)
  have "out' = out"
    using a b r eq by (intro sorted_keys_unique) (simp_all add: mvs_correct_def)
  with r show ?thesis by blast
qed

text \<open>The example: the same two packages, in a universe where a third one was published since.\<close>

definition grown_answers :: "string answers" where
  "grown_answers n m v = (if n = ''D'' then Inr [] else cyclic_answers n m v)"

lemma cyclic_resolves:
  "resolve [Req_new ''B'' 1 (Version 1 0 0)] (\<lambda>us n m v. (cyclic_answers n m v, us)) () =
     Some (Inr [\<lparr>sl_name = ''B'', sl_major = 1, sl_version = Version 1 1 0\<rparr>,
                \<lparr>sl_name = ''C'', sl_major = 1, sl_version = Version 1 2 0\<rparr>], ())"
  by code_simp

theorem mvs_ignores_unrequired_witness:
  "\<exists>us2. resolve [Req_new ''B'' 1 (Version 1 0 0)] (\<lambda>us n m v. (grown_answers n m v, us)) () =
     Some (Inr [\<lparr>sl_name = ''B'', sl_major = 1, sl_version = Version 1 1 0\<rparr>,
                \<lparr>sl_name = ''C'', sl_major = 1, sl_version = Version 1 2 0\<rparr>], us2)"
proof (rule mvs_ignores_unrequired [OF _ _ _ _ cyclic_resolves, of cyclic_answers _ grown_answers])
  show "finite (reach cyclic_answers [Req_new ''B'' 1 (Version 1 0 0)])"
    by (rule finite_subset [OF cyclic_reach]) simp
  show "\<forall>r \<in> reach cyclic_answers [Req_new ''B'' 1 (Version 1 0 0)]. asks grown_answers r = asks cyclic_answers r"
    using cyclic_reach by (auto simp: grown_answers_def Req_new_def)
qed (simp_all add: answers_as_def)

end
