(* ===== verification/Pkg_Log.thy ===== *)
theory Pkg_Log
  imports Wolf_Str
begin

text \<open>
  The transparency log, \<^verbatim>\<open>crates/wolf_pkg/src/log.rs\<close>: record lines, the append-only log file, the
  RFC-6962-shaped Merkle tree with inclusion and consistency proofs, the signed tree head and the
  client's check of a project. The blake3 crate is a parameter: a record of its two functions, of which
  the code relies on the digest length. Files are the result of reading them.
\<close>

section \<open>Errors, files and blake3\<close>

text \<open>An \<open>Err\<close> with the literal's key and the values it formats, or a panic.\<close>

datatype log_error = Log_err string "bytes list" | Log_panic

datatype file_read = File_missing | File_error string | File_text bytes

record blake3 =
  b3_hash :: "bytes \<Rightarrow> bytes"
  b3_keyed :: "bytes \<Rightarrow> bytes \<Rightarrow> bytes"

definition b3_ok :: "blake3 \<Rightarrow> bool" where
  "b3_ok b \<longleftrightarrow> (\<forall>x. length (b3_hash b x) = 32) \<and> (\<forall>k x. length (b3_keyed b k x) = 32)"

section \<open>Records\<close>

record log_record =
  lr_key :: bytes
  lr_tree :: bytes
  lr_manifest :: bytes
  lr_interface :: bytes

definition LogRecord_line :: "log_record \<Rightarrow> bytes" where
  "LogRecord_line r =
     lr_key r @ '' tree='' @ lr_tree r @ '' manifest='' @ lr_manifest r @ '' interface='' @ lr_interface r"

definition LogRecord_render :: "log_record \<Rightarrow> bytes" where
  "LogRecord_render r = LogRecord_line r @ [CHR 0x0A]"

fun record_fields :: "bytes list \<Rightarrow> bytes option \<times> bytes option \<times> bytes option \<Rightarrow>
    log_error + bytes option \<times> bytes option \<times> bytes option" where
  "record_fields [] acc = Inr acc"
| "record_fields (p # ps) (tree, manifest, interface) =
     (case strip_prefix ''tree='' p of
        Some v \<Rightarrow> record_fields ps (Some v, manifest, interface)
      | None \<Rightarrow>
          (case strip_prefix ''manifest='' p of
             Some v \<Rightarrow> record_fields ps (tree, Some v, interface)
           | None \<Rightarrow>
               (case strip_prefix ''interface='' p of
                  Some v \<Rightarrow> record_fields ps (tree, manifest, Some v)
                | None \<Rightarrow> Inl (Log_err ''unknown log field'' [p]))))"

definition LogRecord_parse :: "bytes \<Rightarrow> log_error + log_record" where
  "LogRecord_parse line =
     (case split_ws line of
        [] \<Rightarrow> Inl (Log_err ''empty log line'' [])
      | key # parts \<Rightarrow>
          (case record_fields parts (None, None, None) of
             Inl e \<Rightarrow> Inl e
           | Inr (None, _, _) \<Rightarrow> Inl (Log_err ''log record missing tree='' [])
           | Inr (Some _, None, _) \<Rightarrow> Inl (Log_err ''log record missing manifest='' [])
           | Inr (Some _, Some _, None) \<Rightarrow> Inl (Log_err ''log record missing interface='' [])
           | Inr (Some t, Some m, Some i) \<Rightarrow>
               Inr \<lparr>lr_key = key, lr_tree = t, lr_manifest = m, lr_interface = i\<rparr>))"

definition hash_bytes :: "blake3 \<Rightarrow> bytes \<Rightarrow> (bytes \<Rightarrow> bytes) \<Rightarrow> bytes" where
  "hash_bytes b bs to_hex = ''b3:'' @ to_hex (b3_hash b bs)"

section \<open>The log file\<close>

definition is_record_line :: "bytes \<Rightarrow> bool" where
  "is_record_line l \<longleftrightarrow> l \<noteq> [] \<and> \<not> starts_with_at l 0 ''#''"

fun find_record :: "bytes \<Rightarrow> bytes list \<Rightarrow> log_error + log_record option" where
  "find_record key [] = Inr None"
| "find_record key (l # ls) =
     (let line = trim l
      in if \<not> is_record_line line then find_record key ls
         else case LogRecord_parse line of
                Inl e \<Rightarrow> Inl e
              | Inr rec \<Rightarrow> if lr_key rec = key then Inr (Some rec) else find_record key ls)"

definition log_lookup :: "file_read \<Rightarrow> bytes \<Rightarrow> log_error + log_record option" where
  "log_lookup f key =
     (case f of
        File_missing \<Rightarrow> Inr None
      | File_error e \<Rightarrow> Inl (Log_err ''read'' [])
      | File_text text \<Rightarrow> find_record key (str_lines text))"

text \<open>\<open>Inr\<close> is the text written back.\<close>

definition log_append :: "file_read \<Rightarrow> log_record \<Rightarrow> log_error + bytes" where
  "log_append f rec =
     (case log_lookup f (lr_key rec) of
        Inl e \<Rightarrow> Inl e
      | Inr (Some _) \<Rightarrow> Inl (Log_err ''already in the log'' [lr_key rec])
      | Inr None \<Rightarrow>
          Inr ((case f of File_text text \<Rightarrow> text | _ \<Rightarrow> []) @ LogRecord_render rec))"

definition read_records :: "file_read \<Rightarrow> log_error + bytes list" where
  "read_records f =
     (case f of
        File_missing \<Rightarrow> Inr []
      | File_error e \<Rightarrow> Inl (Log_err ''read'' [])
      | File_text text \<Rightarrow> Inr (filter is_record_line (map trim (str_lines text))))"

section \<open>Hashes and their hex text\<close>

definition leaf_hash :: "blake3 \<Rightarrow> bytes \<Rightarrow> bytes" where
  "leaf_hash b line = b3_hash b (CHR 0x00 # line)"

definition node_hash :: "blake3 \<Rightarrow> bytes \<Rightarrow> bytes \<Rightarrow> bytes" where
  "node_hash b l r = b3_hash b (CHR 0x01 # l @ r)"

definition hex_char :: "nat \<Rightarrow> byte" where
  "hex_char n = char_of (if n < 10 then 48 + n else 87 + n)"

definition hex :: "bytes \<Rightarrow> bytes" where
  "hex d = concat (map (\<lambda>x. [hex_char (byte_val x div 16), hex_char (byte_val x mod 16)]) d)"

definition hex_value :: "byte \<Rightarrow> nat option" where
  "hex_value b =
     (let n = byte_val b
      in if 48 \<le> n \<and> n \<le> 57 then Some (n - 48)
         else if 97 \<le> n \<and> n \<le> 102 then Some (n - 87)
         else if 65 \<le> n \<and> n \<le> 70 then Some (n - 55)
         else None)"

text \<open>\<open>u8::from_str_radix\<close> on a two-byte slice: a leading plus sign is accepted before one digit.\<close>

definition u8_from_hex :: "byte \<Rightarrow> byte \<Rightarrow> nat option" where
  "u8_from_hex a c =
     (if a = CHR ''+'' then hex_value c
      else case (hex_value a, hex_value c) of
             (Some h, Some l) \<Rightarrow> Some (16 * h + l)
           | _ \<Rightarrow> None)"

text \<open>
  The slicing loop of \<open>unhex\<close>, two bytes at a time; slicing a \<open>&str\<close> inside a character panics. The
  slice's start is a boundary (it was the end of the slice before), so its end is what is checked.
\<close>

definition is_cont_byte :: "byte \<Rightarrow> bool" where
  "is_cont_byte b \<longleftrightarrow> 0x80 \<le> byte_val b \<and> byte_val b < 0xC0"

fun unhex_pairs :: "bytes \<Rightarrow> log_error + bytes" where
  "unhex_pairs (a # c # rest) =
     (if rest \<noteq> [] \<and> is_cont_byte (hd rest) then Inl Log_panic
      else case u8_from_hex a c of
             None \<Rightarrow> Inl (Log_err ''bad hex'' [])
           | Some v \<Rightarrow> (case unhex_pairs rest of Inl e \<Rightarrow> Inl e | Inr d \<Rightarrow> Inr (char_of v # d)))"
| "unhex_pairs _ = Inr []"

definition unhex :: "bytes \<Rightarrow> log_error + bytes" where
  "unhex s = (if length s \<noteq> 64 then Inl (Log_err ''bad hash length'' []) else unhex_pairs s)"

section \<open>The tree\<close>

text \<open>
  The doubling loop of \<open>split_point\<close>; \<open>k\<close> starts at 1 (the test \<open>0 < k\<close> only bounds the recursion).
  Up to \<open>2 ^ 63\<close> leaves, more than any vector of lines, \<open>k * 2\<close> does not overflow.
\<close>

function split_from :: "nat \<Rightarrow> nat \<Rightarrow> nat" where
  "split_from k n = (if 0 < k \<and> k * 2 < n then split_from (k * 2) n else k)"
  by pat_completeness auto
termination by (relation "measure (\<lambda>(k, n). n - k)") auto

declare split_from.simps [simp del]

definition split_point :: "nat \<Rightarrow> nat" where
  "split_point n = split_from 1 n"

lemma split_from_power:
  "0 < k \<Longrightarrow> k < n \<Longrightarrow> k = 2 ^ i \<Longrightarrow> \<exists>j. split_from k n = 2 ^ j \<and> 2 ^ j < n \<and> n \<le> 2 ^ Suc j"
proof (induction k n arbitrary: i rule: split_from.induct)
  case (1 k n)
  show ?case
  proof (cases "k * 2 < n")
    case True
    then have "split_from k n = split_from (k * 2) n" using "1.prems" by (subst split_from.simps) simp
    then show ?thesis using "1.IH" [of "Suc i"] "1.prems" True by simp
  next
    case False
    then show ?thesis using "1.prems" by (intro exI [of _ i]) (subst split_from.simps, simp)
  qed
qed

lemma split_point_power: "2 \<le> n \<Longrightarrow> \<exists>j. split_point n = 2 ^ j \<and> 2 ^ j < n \<and> n \<le> 2 ^ Suc j"
  unfolding split_point_def by (rule split_from_power [of 1 n 0]) auto

lemma split_point_bounds: "2 \<le> n \<Longrightarrow> 0 < split_point n \<and> split_point n < n"
  using split_point_power [of n] by force

lemma split_rank:
  "\<not> hi - lo \<le> 1 \<Longrightarrow> lo + split_point (hi - lo) - lo < hi - lo"
  "\<not> hi - lo \<le> 1 \<Longrightarrow> hi - (lo + split_point (hi - lo)) < hi - (lo :: nat)"
  using split_point_bounds [of "hi - lo"] by auto

text \<open>A tree of \<open>m\<close> leaves, with \<open>m\<close> past the split point of \<open>n \<ge> m\<close> leaves, splits at the same point.\<close>

lemma split_point_shared:
  assumes "split_point n < m" "m \<le> n" "2 \<le> n"
  shows "split_point m = split_point n"
proof -
  obtain j where j: "split_point n = 2 ^ j" "n \<le> 2 ^ Suc j"
    using split_point_power [OF assms(3)] by blast
  have "2 \<le> m" using assms split_point_bounds [OF assms(3)] by linarith
  then obtain i where i: "split_point m = 2 ^ i" "2 ^ i < m" "m \<le> 2 ^ Suc i"
    using split_point_power by blast
  have "(2::nat) ^ i < 2 ^ Suc j" "(2::nat) ^ j < 2 ^ Suc i"
    using i j assms by linarith+
  then have "i = j" by (metis le_antisym less_Suc_eq_le one_less_numeral_iff power_strict_increasing_iff semiring_norm(76))
  then show ?thesis using i j by simp
qed

function mth :: "blake3 \<Rightarrow> bytes list \<Rightarrow> nat \<Rightarrow> nat \<Rightarrow> bytes" where
  "mth b lines lo hi =
     (if hi - lo = 0 then b3_hash b []
      else if hi - lo = 1 then leaf_hash b (lines ! lo)
      else let k = split_point (hi - lo)
           in node_hash b (mth b lines lo (lo + k)) (mth b lines (lo + k) hi))"
  by pat_completeness auto
termination
  by (relation "measure (\<lambda>(b, lines, lo, hi). hi - lo)") (use split_rank in \<open>auto simp: not_le\<close>)

declare mth.simps [simp del]

definition tree_root :: "blake3 \<Rightarrow> bytes list \<Rightarrow> bytes" where
  "tree_root b lines = hex (mth b lines 0 (length lines))"

section \<open>Inclusion\<close>

text \<open>The recursions below are called with at least one leaf; \<open>\<le> 1\<close> is their \<open>== 1\<close>.\<close>

function incl_path :: "blake3 \<Rightarrow> bytes list \<Rightarrow> nat \<Rightarrow> nat \<Rightarrow> nat \<Rightarrow> bytes list" where
  "incl_path b lines m lo hi =
     (if hi - lo \<le> 1 then []
      else let k = split_point (hi - lo)
           in if m < k then incl_path b lines m lo (lo + k) @ [hex (mth b lines (lo + k) hi)]
              else incl_path b lines (m - k) (lo + k) hi @ [hex (mth b lines lo (lo + k))])"
  by pat_completeness auto
termination
  by (relation "measure (\<lambda>(b, lines, m, lo, hi). hi - lo)") (use split_rank in \<open>auto simp: not_le\<close>)

declare incl_path.simps [simp del]

definition inclusion_proof :: "blake3 \<Rightarrow> bytes list \<Rightarrow> nat \<Rightarrow> log_error + bytes list" where
  "inclusion_proof b lines index =
     (if length lines \<le> index then Inl (Log_err ''index out of range'' [])
      else Inr (incl_path b lines index 0 (length lines)))"

function roll :: "blake3 \<Rightarrow> nat \<Rightarrow> nat \<Rightarrow> bytes \<Rightarrow> bytes list \<Rightarrow> log_error + bytes" where
  "roll b m n leaf proof =
     (if n \<le> 1 then
        (if proof = [] then Inr leaf else Inl (Log_err ''proof longer than the tree is deep'' []))
      else if proof = [] then Inl (Log_err ''proof shorter than the tree is deep'' [])
      else case unhex (last proof) of
             Inl e \<Rightarrow> Inl e
           | Inr sib \<Rightarrow>
               let k = split_point n
               in if m < k then
                    (case roll b m k leaf (butlast proof) of Inl e \<Rightarrow> Inl e | Inr h \<Rightarrow> Inr (node_hash b h sib))
                  else
                    (case roll b (m - k) (n - k) leaf (butlast proof) of
                       Inl e \<Rightarrow> Inl e | Inr h \<Rightarrow> Inr (node_hash b sib h)))"
  by pat_completeness auto
termination
  using split_point_bounds by (relation "measure (\<lambda>(b, m, n, leaf, proof). n)") (auto simp: not_le)

declare roll.simps [simp del]

definition verify_inclusion :: "blake3 \<Rightarrow> bytes \<Rightarrow> nat \<Rightarrow> nat \<Rightarrow> bytes list \<Rightarrow> bytes \<Rightarrow> log_error + unit" where
  "verify_inclusion b line index n proof root =
     (if n \<le> index then Inl (Log_err ''index out of range for size'' [])
      else case roll b index n (leaf_hash b line) proof of
             Inl e \<Rightarrow> Inl e
           | Inr h \<Rightarrow>
               if hex h = root then Inr ()
               else Inl (Log_err ''inclusion proof does not reach the signed root'' [hex h, root]))"

section \<open>Consistency\<close>

function cons_sub :: "blake3 \<Rightarrow> bytes list \<Rightarrow> nat \<Rightarrow> nat \<Rightarrow> nat \<Rightarrow> bool \<Rightarrow> bytes list" where
  "cons_sub b lines m lo hi whole =
     (if m = hi - lo \<or> hi - lo \<le> 1 then (if whole then [] else [hex (mth b lines lo hi)])
      else let k = split_point (hi - lo)
           in if m \<le> k then cons_sub b lines m lo (lo + k) whole @ [hex (mth b lines (lo + k) hi)]
              else cons_sub b lines (m - k) (lo + k) hi False @ [hex (mth b lines lo (lo + k))])"
  by pat_completeness auto
termination
  by (relation "measure (\<lambda>(b, lines, m, lo, hi, w). hi - lo)") (use split_rank in \<open>auto simp: not_le\<close>)

declare cons_sub.simps [simp del]

definition consistency_proof :: "blake3 \<Rightarrow> bytes list \<Rightarrow> nat \<Rightarrow> log_error + bytes list" where
  "consistency_proof b lines m =
     (if m = 0 \<or> length lines < m then Inl (Log_err ''no consistency proof'' [])
      else Inr (cons_sub b lines m 0 (length lines) True))"

function cons_walk :: "blake3 \<Rightarrow> nat \<Rightarrow> nat \<Rightarrow> bytes list \<Rightarrow> bool \<Rightarrow> bytes \<Rightarrow> log_error + bytes \<times> bytes" where
  "cons_walk b m n proof whole old =
     (if m = n \<or> n \<le> 1 then
        (if whole then
           (if proof = [] then Inr (old, old) else Inl (Log_err ''consistency proof longer than needed'' []))
         else case proof of
                [one] \<Rightarrow> (case unhex one of Inl e \<Rightarrow> Inl e | Inr h \<Rightarrow> Inr (h, h))
              | _ \<Rightarrow> Inl (Log_err ''aligned subtree wants exactly one hash'' []))
      else if proof = [] then Inl (Log_err ''consistency proof shorter than needed'' [])
      else case unhex (last proof) of
             Inl e \<Rightarrow> Inl e
           | Inr sib \<Rightarrow>
               let k = split_point n
               in if m \<le> k then
                    (case cons_walk b m k (butlast proof) whole old of
                       Inl e \<Rightarrow> Inl e | Inr (ro, rn) \<Rightarrow> Inr (ro, node_hash b rn sib))
                  else
                    (case cons_walk b (m - k) (n - k) (butlast proof) False old of
                       Inl e \<Rightarrow> Inl e | Inr (ro, rn) \<Rightarrow> Inr (node_hash b sib ro, node_hash b sib rn)))"
  by pat_completeness auto
termination
  using split_point_bounds by (relation "measure (\<lambda>(b, m, n, proof, w, old). n)") (auto simp: not_le)

declare cons_walk.simps [simp del]

definition verify_consistency :: "blake3 \<Rightarrow> nat \<Rightarrow> nat \<Rightarrow> bytes \<Rightarrow> bytes \<Rightarrow> bytes list \<Rightarrow> log_error + unit" where
  "verify_consistency b m n old_root new_root proof =
     (if m = 0 \<or> n < m then Inl (Log_err ''no consistency between sizes'' [])
      else if m = n then
        (if proof = [] \<and> old_root = new_root then Inr ()
         else Inl (Log_err ''same-size heads must be identical'' []))
      else case unhex old_root of
             Inl e \<Rightarrow> Inl e
           | Inr old \<Rightarrow>
               (case cons_walk b m n proof True old of
                  Inl e \<Rightarrow> Inl e
                | Inr (got_old, got_new) \<Rightarrow>
                    if hex got_old \<noteq> old_root then
                      Inl (Log_err ''consistency proof does not reproduce the OLD head'' [hex got_old])
                    else if hex got_new \<noteq> new_root then
                      Inl (Log_err ''consistency proof does not reproduce the NEW head'' [hex got_new])
                    else Inr ()))"

end
