(* ===== verification/Pkg_Merkle.thy ===== *)
theory Pkg_Merkle
  imports Pkg_Log
begin

text \<open>
  The Merkle half of \<^verbatim>\<open>crates/wolf_pkg/src/log.rs\<close>: proofs made by the log are accepted by the client
  (completeness), and an accepted proof pins the record, or the append-only extension, unless the hash
  function collides on one of the strings hashed on the way (soundness).
\<close>

section \<open>Hex text\<close>

lemma hex_value_char: "n < 16 \<Longrightarrow> hex_value (hex_char n) = Some n"
proof -
  assume "n < 16"
  then have "byte_val (hex_char n) = (if n < 10 then 48 + n else 87 + n)"
    by (simp add: hex_char_def take_bit_nat_def)
  then show ?thesis using \<open>n < 16\<close> by (auto simp: hex_value_def Let_def)
qed

lemma hex_char_plain: "n < 16 \<Longrightarrow> plain_byte (hex_char n) \<and> hex_char n \<noteq> CHR ''+''"
proof -
  assume "n < 16"
  then have "byte_val (hex_char n) = (if n < 10 then 48 + n else 87 + n)"
    by (simp add: hex_char_def take_bit_nat_def)
  then have "plain_byte (hex_char n)" "byte_val (hex_char n) \<noteq> 43"
    using \<open>n < 16\<close> by (auto simp: plain_byte_def split: if_splits)
  then show ?thesis by auto
qed

lemma byte_halves: "byte_val (x :: byte) div 16 < (16 :: nat)" "byte_val (x :: byte) mod 16 < (16 :: nat)"
  using nat_of_char_less_256 [of x] by (simp_all add: div_less_iff_less_mult)

lemma hex_simps [simp]:
  "hex [] = []"
  "hex (x # d) = hex_char (byte_val x div 16) # hex_char (byte_val x mod 16) # hex d"
  by (simp_all add: hex_def)

lemma hex_length [simp]: "length (hex d) = 2 * length d"
  by (induction d) auto

lemma hex_plain: "list_all plain_byte (hex d)"
  using byte_halves hex_char_plain by (induction d) auto

lemma plain_not_cont: "plain_byte c \<Longrightarrow> \<not> is_cont_byte c"
  by (auto simp: plain_byte_def is_cont_byte_def)

lemma u8_from_hex_byte: "u8_from_hex (hex_char (byte_val x div 16)) (hex_char (byte_val x mod 16)) = Some (byte_val x)"
  using byte_halves [of x] hex_char_plain by (simp add: u8_from_hex_def hex_value_char)

lemma unhex_pairs_hex: "unhex_pairs (hex d) = Inr d"
proof (induction d)
  case (Cons x d)
  have "\<not> (hex d \<noteq> [] \<and> is_cont_byte (hd (hex d)))"
    using hex_plain [of d] plain_not_cont by (cases "hex d") auto
  then show ?case using Cons by (simp add: u8_from_hex_byte)
qed simp

lemma unhex_hex [simp]: "length d = 32 \<Longrightarrow> unhex (hex d) = Inr d"
  by (simp add: unhex_def unhex_pairs_hex)

lemma hex_inj [simp]: "hex x = hex y \<longleftrightarrow> x = y"
  by (metis unhex_pairs_hex sum.inject(2))

lemma unhex_pairs_length: "unhex_pairs s = Inr d \<Longrightarrow> length d = length s div 2"
  by (induction s arbitrary: d rule: unhex_pairs.induct) (auto split: if_splits option.splits sum.splits)

lemma unhex_length: "unhex s = Inr d \<Longrightarrow> length d = 32"
  by (auto simp: unhex_def dest!: unhex_pairs_length split: if_splits)

section \<open>The root of a list of leaves\<close>

text \<open>The tree over a list, with the strings it hashes; the code's \<open>mth\<close> is this on a range.\<close>

lemma slice_whole [simp]: "slice 0 (length xs) xs = xs"
  by (simp add: slice_def)

lemma slice_length: "hi \<le> length xs \<Longrightarrow> length (slice lo hi xs) = hi - lo"
  by (simp add: slice_def)

lemma slice_left: "lo + k \<le> hi \<Longrightarrow> take k (slice lo hi xs) = slice lo (lo + k) xs"
  by (simp add: slice_def min_def)

lemma slice_right: "drop k (slice lo hi xs) = slice (lo + k) hi xs"
  by (simp add: slice_def drop_take add.commute)

function mroot :: "blake3 \<Rightarrow> bytes list \<Rightarrow> bytes" where
  "mroot b [] = b3_hash b []"
| "mroot b [x] = leaf_hash b x"
| "mroot b (x # y # zs) =
     (let k = split_point (length zs + 2)
      in node_hash b (mroot b (take k (x # y # zs))) (mroot b (drop k (x # y # zs))))"
  by pat_completeness auto
termination
  by (relation "measure (\<lambda>(b, xs). length xs)")
    (use split_point_bounds [OF le_add2] in \<open>auto simp: min_def not_le\<close>)

declare mroot.simps(3) [simp del]

lemma mroot_node:
  assumes "2 \<le> length xs" "k = split_point (length xs)"
  shows "mroot b xs = node_hash b (mroot b (take k xs)) (mroot b (drop k xs))"
  using assms by (cases "(b, xs)" rule: mroot.cases) (auto simp: mroot.simps(3) Let_def)

text \<open>Induction along the splits.\<close>

lemma split_induct [case_names leaf node]:
  assumes "\<And>xs. length xs \<le> 1 \<Longrightarrow> P xs"
    and "\<And>xs k. 2 \<le> length xs \<Longrightarrow> k = split_point (length xs) \<Longrightarrow> 0 < k \<Longrightarrow> k < length xs \<Longrightarrow>
      P (take k xs) \<Longrightarrow> P (drop k xs) \<Longrightarrow> P xs"
  shows "P xs"
proof (induction xs rule: length_induct)
  case (1 xs)
  show ?case
  proof (cases "length xs \<le> 1")
    case False
    then have k: "0 < split_point (length xs)" "split_point (length xs) < length xs"
      using split_point_bounds [of "length xs"] by auto
    show ?thesis by (rule assms(2) [OF _ refl k]) (use False k 1 in auto)
  qed (rule assms(1))
qed

lemma node_hash_length [simp]: "b3_ok b \<Longrightarrow> length (node_hash b l r) = 32"
  by (simp add: node_hash_def b3_ok_def)

lemma leaf_hash_length [simp]: "b3_ok b \<Longrightarrow> length (leaf_hash b l) = 32"
  by (simp add: leaf_hash_def b3_ok_def)

lemma mroot_length [simp]: "b3_ok b \<Longrightarrow> length (mroot b xs) = 32"
  by (cases "(b, xs)" rule: mroot.cases) (auto simp: mroot.simps(3) Let_def b3_ok_def)

lemma mth_mroot: "lo \<le> hi \<Longrightarrow> hi \<le> length lines \<Longrightarrow> mth b lines lo hi = mroot b (slice lo hi lines)"
proof (induction b lines lo hi rule: mth.induct)
  case (1 b lines lo hi)
  consider "hi - lo = 0" | "hi - lo = 1" | "2 \<le> hi - lo" by linarith
  then show ?case
  proof cases
    case 2
    then have "slice lo hi lines = [lines ! lo]"
      using "1.prems" Cons_nth_drop_Suc [of lo lines, symmetric] by (simp add: slice_def)
    then show ?thesis using 2 by (subst mth.simps) simp
  next
    case 3
    define k where "k = split_point (hi - lo)"
    have k: "0 < k" "k < hi - lo" using split_point_bounds [OF 3] by (auto simp: k_def)
    have "mth b lines lo hi = node_hash b (mth b lines lo (lo + k)) (mth b lines (lo + k) hi)"
      using 3 by (subst mth.simps) (auto simp: k_def Let_def)
    also have "\<dots> = node_hash b (mroot b (slice lo (lo + k) lines)) (mroot b (slice (lo + k) hi lines))"
      using "1.IH" [OF _ _ k_def] 3 k "1.prems" by simp
    also have "\<dots> = mroot b (slice lo hi lines)"
      using mroot_node [of "slice lo hi lines" k b] 3 k "1.prems"
      by (simp add: slice_length slice_left slice_right k_def)
    finally show ?thesis .
  qed (subst mth.simps, simp add: slice_def)
qed

lemma tree_root_mroot: "tree_root b lines = hex (mroot b lines)"
  by (simp add: tree_root_def mth_mroot)

section \<open>Inclusion proofs\<close>

lemma incl_path_node:
  assumes "2 \<le> hi - lo" "k = split_point (hi - lo)"
  shows "incl_path b lines m lo hi =
    (if m < k then incl_path b lines m lo (lo + k) @ [hex (mth b lines (lo + k) hi)]
     else incl_path b lines (m - k) (lo + k) hi @ [hex (mth b lines lo (lo + k))])"
  using assms by (subst incl_path.simps) (simp add: Let_def)

lemma roll_node:
  assumes "2 \<le> n" "k = split_point n"
  shows "roll b m n leaf (ps @ [p]) =
    (case unhex p of
       Inl e \<Rightarrow> Inl e
     | Inr sib \<Rightarrow>
         if m < k then (case roll b m k leaf ps of Inl e \<Rightarrow> Inl e | Inr h \<Rightarrow> Inr (node_hash b h sib))
         else (case roll b (m - k) (n - k) leaf ps of Inl e \<Rightarrow> Inl e | Inr h \<Rightarrow> Inr (node_hash b sib h)))"
  using assms by (subst roll.simps) (simp add: Let_def split: sum.split)

lemma roll_node_Inr:
  assumes "roll b m n leaf proof = Inr h" "2 \<le> n"
  obtains p sib where "proof = butlast proof @ [p]" "unhex p = Inr sib"
  using assms by (subst (asm) roll.simps)
    (auto split: if_splits sum.splits simp: Let_def intro!: that [of "last proof"])

lemma roll_incl_path:
  "b3_ok b \<Longrightarrow> m < hi - lo \<Longrightarrow> hi \<le> length lines \<Longrightarrow>
    roll b m (hi - lo) (leaf_hash b (lines ! (lo + m))) (incl_path b lines m lo hi) = Inr (mth b lines lo hi)"
proof (induction b lines m lo hi rule: incl_path.induct)
  case (1 b lines m lo hi)
  show ?case
  proof (cases "hi - lo \<le> 1")
    case True
    then have "hi - lo = 1" "m = 0" using "1.prems" by auto
    then show ?thesis by (simp add: roll.simps [of b 0] incl_path.simps [of b] mth.simps [of b])
  next
    case False
    define k where "k = split_point (hi - lo)"
    have k: "0 < k" "k < hi - lo" and two: "2 \<le> hi - lo"
      using split_point_bounds [of "hi - lo"] False by (auto simp: k_def)
    note unfolds = incl_path_node [OF two k_def] roll_node [OF two k_def]
    have node: "mth b lines lo hi = node_hash b (mth b lines lo (lo + k)) (mth b lines (lo + k) hi)"
      using two by (subst mth.simps) (auto simp: k_def Let_def)
    have len: "length (mth b lines l h) = 32" if "l \<le> h" "h \<le> length lines" for l h
      using mth_mroot [OF that] "1.prems" by simp
    show ?thesis
    proof (cases "m < k")
      case True
      have "roll b m k (leaf_hash b (lines ! (lo + m))) (incl_path b lines m lo (lo + k)) = Inr (mth b lines lo (lo + k))"
        using "1.IH"(1) [OF False k_def True] True k "1.prems" by simp
      then show ?thesis using True k node len [of "lo + k" hi] "1.prems" by (simp add: unfolds)
    next
      case False
      have "roll b (m - k) (hi - lo - k) (leaf_hash b (lines ! (lo + m))) (incl_path b lines (m - k) (lo + k) hi)
          = Inr (mth b lines (lo + k) hi)"
        using "1.IH"(2) [OF \<open>\<not> hi - lo \<le> 1\<close> k_def False] False k "1.prems" by (simp add: add.commute diff_diff_left)
      then show ?thesis using False k node len [of lo "lo + k"] "1.prems" by (simp add: unfolds)
    qed
  qed
qed

section \<open>The strings a tree and a verifier hash\<close>

function mroot_inputs :: "blake3 \<Rightarrow> bytes list \<Rightarrow> bytes list" where
  "mroot_inputs b [] = [[]]"
| "mroot_inputs b [x] = [CHR 0x00 # x]"
| "mroot_inputs b (x # y # zs) =
     (let xs = x # y # zs; k = split_point (length xs)
      in (CHR 0x01 # mroot b (take k xs) @ mroot b (drop k xs)) #
           mroot_inputs b (take k xs) @ mroot_inputs b (drop k xs))"
  by pat_completeness auto
termination
  by (relation "measure (\<lambda>(b, xs). length xs)")
    (use split_point_bounds [OF le_add2] in \<open>auto simp: min_def not_le\<close>)

declare mroot_inputs.simps(3) [simp del]

lemma mroot_inputs_node:
  assumes "2 \<le> length xs" "k = split_point (length xs)"
  shows "mroot_inputs b xs = (CHR 0x01 # mroot b (take k xs) @ mroot b (drop k xs)) #
    mroot_inputs b (take k xs) @ mroot_inputs b (drop k xs)"
  using assms by (cases "(b, xs)" rule: mroot_inputs.cases) (auto simp: mroot_inputs.simps(3) Let_def)

text \<open>The hash has no collision among the given strings.\<close>

definition no_collision :: "blake3 \<Rightarrow> bytes list \<Rightarrow> bool" where
  "no_collision b ss \<longleftrightarrow> (\<forall>x\<in>set ss. \<forall>y\<in>set ss. b3_hash b x = b3_hash b y \<longrightarrow> x = y)"

lemma no_collisionD: "no_collision b ss \<Longrightarrow> b3_hash b x = b3_hash b y \<Longrightarrow> x \<in> set ss \<Longrightarrow> y \<in> set ss \<Longrightarrow> x = y"
  by (simp add: no_collision_def)

lemma no_collision_mono: "no_collision b ss \<Longrightarrow> set ts \<subseteq> set ss \<Longrightarrow> no_collision b ts"
  by (auto simp: no_collision_def)

lemma node_hash_eqD:
  assumes "no_collision b ss" "node_hash b l r = node_hash b l' r'" "length l = length l'"
    "CHR 0x01 # l @ r \<in> set ss" "CHR 0x01 # l' @ r' \<in> set ss"
  shows "l = l' \<and> r = r'"
  using no_collisionD [OF assms(1) _ assms(4,5)] assms(2,3) by (simp add: node_hash_def)

lemma mroot_inj:
  assumes "b3_ok b" "length xs = length ys" "mroot b xs = mroot b ys"
    "no_collision b ss" "set (mroot_inputs b xs) \<subseteq> set ss" "set (mroot_inputs b ys) \<subseteq> set ss"
  shows "xs = ys"
  using assms(2-)
proof (induction xs arbitrary: ys rule: split_induct)
  case (leaf xs)
  then show ?case using no_collisionD [OF leaf(4)]
    by (cases xs; cases ys) (auto simp: leaf_hash_def)
next
  case (node xs k)
  have len: "2 \<le> length ys" "k = split_point (length ys)" using node by auto
  note inputs = mroot_inputs_node [OF node(1,2)] mroot_inputs_node [OF len]
  have "mroot b (take k xs) = mroot b (take k ys) \<and> mroot b (drop k xs) = mroot b (drop k ys)"
    using node.prems mroot_node [OF node(1,2)] mroot_node [OF len] assms(1)
    by (intro node_hash_eqD [OF node.prems(3)]) (auto simp: inputs)
  then have "take k xs = take k ys" "drop k xs = drop k ys"
    using node.prems node(3-) by (auto simp: inputs intro!: node.IH)
  then show ?case by (metis append_take_drop_id)
qed

function roll_inputs :: "blake3 \<Rightarrow> nat \<Rightarrow> nat \<Rightarrow> bytes \<Rightarrow> bytes list \<Rightarrow> bytes list" where
  "roll_inputs b m n line proof =
     (if n \<le> 1 then [CHR 0x00 # line]
      else case unhex (last proof) of
             Inl e \<Rightarrow> []
           | Inr sib \<Rightarrow>
               let k = split_point n
               in if m < k then
                    (case roll b m k (leaf_hash b line) (butlast proof) of
                       Inl e \<Rightarrow> [] | Inr h \<Rightarrow> (CHR 0x01 # h @ sib) # roll_inputs b m k line (butlast proof))
                  else
                    (case roll b (m - k) (n - k) (leaf_hash b line) (butlast proof) of
                       Inl e \<Rightarrow> [] | Inr h \<Rightarrow> (CHR 0x01 # sib @ h) # roll_inputs b (m - k) (n - k) line (butlast proof)))"
  by pat_completeness auto
termination
  using split_point_bounds by (relation "measure (\<lambda>(b, m, n, line, proof). n)") (auto simp: not_le)

declare roll_inputs.simps [simp del]

lemma roll_length:
  assumes "b3_ok b" "roll b m n (leaf_hash b line) ps = Inr h"
  shows "length h = 32"
  using assms(2) assms(1) by (subst (asm) roll.simps) (auto split: if_splits sum.splits simp: Let_def)

lemma roll_sound:
  assumes b: "b3_ok b" and nc: "no_collision b ss"
  shows "roll b m n (leaf_hash b line) ps = Inr (mroot b xs) \<Longrightarrow> n = length xs \<Longrightarrow> m < n \<Longrightarrow>
    set (roll_inputs b m n line ps) \<subseteq> set ss \<Longrightarrow> set (mroot_inputs b xs) \<subseteq> set ss \<Longrightarrow> xs ! m = line"
proof (induction xs arbitrary: m n ps rule: split_induct)
  case (leaf xs)
  then obtain x where "xs = [x]" by (cases xs) auto
  then show ?case using leaf no_collisionD [OF nc, of "CHR 0x00 # line" "CHR 0x00 # x"]
    by (simp add: roll.simps roll_inputs.simps leaf_hash_def split: if_splits)
next
  case (node xs k)
  obtain p sib where p: "ps = butlast ps @ [p]" "unhex p = Inr sib"
    using roll_node_Inr node by metis
  have [simp]: "last ps = p" using p(1) by (metis last_snoc)
  have sib: "length sib = 32" using unhex_length [OF p(2)] .
  have n: "2 \<le> n" "k = split_point n" using node by auto
  note root = mroot_node [OF node(1,2), of b] and inputs = mroot_inputs_node [OF node(1,2)]
  note rn = roll_node [OF n, of b m _ "butlast ps" p, folded p(1), unfolded p(2) sum.case]
  show ?case
  proof (cases "m < k")
    case True
    obtain h where h: "roll b m k (leaf_hash b line) (butlast ps) = Inr h"
      "node_hash b h sib = mroot b xs"
      using node.prems(1) True by (auto simp: rn split: sum.splits)
    have "roll_inputs b m n line ps = (CHR 0x01 # h @ sib) # roll_inputs b m k line (butlast ps)"
      using n True h p(2) by (subst roll_inputs.simps) (simp add: Let_def)
    then have ri: "CHR 0x01 # h @ sib \<in> set ss" "set (roll_inputs b m k line (butlast ps)) \<subseteq> set ss"
      using node.prems(4) by simp_all
    have "h = mroot b (take k xs) \<and> sib = mroot b (drop k xs)"
      using node.prems h(2) roll_length [OF b h(1)] b by (intro node_hash_eqD [OF nc]) (auto simp: ri inputs root)
    then have "take k xs ! m = line"
      using node h(1) True ri inputs by (intro node.IH(1) [of m k "butlast ps"]) auto
    then show ?thesis using True by simp
  next
    case False
    obtain h where h: "roll b (m - k) (n - k) (leaf_hash b line) (butlast ps) = Inr h"
      "node_hash b sib h = mroot b xs"
      using node.prems(1) False by (auto simp: rn split: sum.splits)
    have "roll_inputs b m n line ps = (CHR 0x01 # sib @ h) # roll_inputs b (m - k) (n - k) line (butlast ps)"
      using n False h p(2) by (subst roll_inputs.simps) (simp add: Let_def)
    then have ri: "CHR 0x01 # sib @ h \<in> set ss" "set (roll_inputs b (m - k) (n - k) line (butlast ps)) \<subseteq> set ss"
      using node.prems(4) by simp_all
    have "sib = mroot b (take k xs) \<and> h = mroot b (drop k xs)"
      using node.prems h(2) sib b by (intro node_hash_eqD [OF nc]) (auto simp: ri inputs root)
    then have "drop k xs ! (m - k) = line"
      using node h(1) False ri inputs by (intro node.IH(2) [of "m - k" "n - k" "butlast ps"]) auto
    then show ?thesis using False node by simp
  qed
qed

section \<open>Consistency proofs\<close>

lemma cons_sub_node:
  assumes "m < hi - lo" "2 \<le> hi - lo" "k = split_point (hi - lo)"
  shows "cons_sub b lines m lo hi whole =
    (if m \<le> k then cons_sub b lines m lo (lo + k) whole @ [hex (mth b lines (lo + k) hi)]
     else cons_sub b lines (m - k) (lo + k) hi False @ [hex (mth b lines lo (lo + k))])"
  using assms by (subst cons_sub.simps) (simp add: Let_def)

lemma cons_walk_node:
  assumes "m < n" "2 \<le> n" "k = split_point n"
  shows "cons_walk b m n (ps @ [p]) whole old =
    (case unhex p of
       Inl e \<Rightarrow> Inl e
     | Inr sib \<Rightarrow>
         if m \<le> k then
           (case cons_walk b m k ps whole old of
              Inl e \<Rightarrow> Inl e | Inr (ro, rn) \<Rightarrow> Inr (ro, node_hash b rn sib))
         else
           (case cons_walk b (m - k) (n - k) ps False old of
              Inl e \<Rightarrow> Inl e | Inr (ro, rn) \<Rightarrow> Inr (node_hash b sib ro, node_hash b sib rn)))"
  using assms by (subst cons_walk.simps) (simp add: Let_def split: sum.split)

lemma cons_walk_node_Inr:
  assumes "cons_walk b m n ps whole old = Inr r" "m < n" "2 \<le> n"
  obtains p sib where "ps = butlast ps @ [p]" "unhex p = Inr sib"
  using assms by (subst (asm) cons_walk.simps)
    (auto split: if_splits sum.splits simp: Let_def intro!: that [of "last ps"])

text \<open>Roots of a prefix, left and right of the split of the longer list.\<close>

lemma mroot_take_right:
  assumes "2 \<le> length xs" "k = split_point (length xs)" "k < m" "m \<le> length xs"
  shows "mroot b (take m xs) = node_hash b (mroot b (take k xs)) (mroot b (take (m - k) (drop k xs)))"
proof -
  have m: "split_point m = k" "0 < k"
    using split_point_shared [of "length xs" m] split_point_bounds [of "length xs"] assms by metis+
  have "mroot b (take m xs) = node_hash b (mroot b (take k (take m xs))) (mroot b (drop k (take m xs)))"
    using m assms(3,4) by (intro mroot_node) auto
  then show ?thesis using assms(3) by (simp add: min_def drop_take)
qed

lemma cons_walk_sub:
  "b3_ok b \<Longrightarrow> 0 < m \<Longrightarrow> m \<le> hi - lo \<Longrightarrow> hi \<le> length lines \<Longrightarrow>
   (whole \<Longrightarrow> old = mroot b (take m (slice lo hi lines))) \<Longrightarrow>
   cons_walk b m (hi - lo) (cons_sub b lines m lo hi whole) whole old =
     Inr (mroot b (take m (slice lo hi lines)), mroot b (slice lo hi lines))"
proof (induction b lines m lo hi whole rule: cons_sub.induct)
  case (1 b lines m lo hi whole)
  show ?case
  proof (cases "m = hi - lo")
    case True
    have "mth b lines lo hi = mroot b (slice lo hi lines)" using "1.prems" by (intro mth_mroot) auto
    then show ?thesis using True "1.prems" mroot_length [OF "1.prems"(1)]
      by (simp add: cons_sub.simps [of b] cons_walk.simps [of b] slice_length)
  next
    case False
    define k where "k = split_point (hi - lo)"
    have two: "2 \<le> hi - lo" "m < hi - lo" and nend: "\<not> (m = hi - lo \<or> hi - lo \<le> 1)"
      using False "1.prems" by auto
    have k: "0 < k" "k < hi - lo" using split_point_bounds [OF two(1)] by (auto simp: k_def)
    note unfolds = cons_sub_node [OF two(2,1) k_def] cons_walk_node [OF two(2,1) k_def]
    have right: "mth b lines (lo + k) hi = mroot b (drop k (slice lo hi lines))"
      and left: "mth b lines lo (lo + k) = mroot b (take k (slice lo hi lines))"
      using mth_mroot k "1.prems" by (simp_all add: slice_left slice_right)
    have len: "2 \<le> length (slice lo hi lines)" "k = split_point (length (slice lo hi lines))"
      using two "1.prems" by (simp_all add: slice_length k_def)
    note root = mroot_node [OF len]
    show ?thesis
    proof (cases "m \<le> k")
      case True
      have tk: "slice lo (lo + k) lines = take k (slice lo hi lines)"
        "take m (take k (slice lo hi lines)) = take m (slice lo hi lines)"
        using True k by (simp_all add: slice_left min_def)
      have "cons_walk b m k (cons_sub b lines m lo (lo + k) whole) whole old =
          Inr (mroot b (take m (slice lo hi lines)), mroot b (take k (slice lo hi lines)))"
        using "1.IH"(1) [OF nend k_def True] True k "1.prems" tk by simp
      then show ?thesis using True root right mroot_length [OF "1.prems"(1)] by (simp add: unfolds)
    next
      case False
      have old: "mroot b (take m (slice lo hi lines)) = node_hash b (mroot b (take k (slice lo hi lines)))
          (mroot b (take (m - k) (drop k (slice lo hi lines))))"
        using False two "1.prems" by (intro mroot_take_right len) (simp_all add: slice_length)
      have "cons_walk b (m - k) (hi - lo - k) (cons_sub b lines (m - k) (lo + k) hi False) False old =
          Inr (mroot b (take (m - k) (drop k (slice lo hi lines))), mroot b (drop k (slice lo hi lines)))"
        using "1.IH"(2) [OF nend k_def False] False k "1.prems" by (simp add: slice_right)
      then show ?thesis
        using False root left mroot_length [OF "1.prems"(1)] old by (simp add: unfolds)
    qed
  qed
qed

function walk_inputs :: "blake3 \<Rightarrow> nat \<Rightarrow> nat \<Rightarrow> bytes list \<Rightarrow> bool \<Rightarrow> bytes \<Rightarrow> bytes list" where
  "walk_inputs b m n ps whole old =
     (if m = n \<or> n \<le> 1 \<or> ps = [] then []
      else case unhex (last ps) of
             Inl e \<Rightarrow> []
           | Inr sib \<Rightarrow>
               let k = split_point n
               in if m \<le> k then
                    (case cons_walk b m k (butlast ps) whole old of
                       Inl e \<Rightarrow> []
                     | Inr (ro, rn) \<Rightarrow> (CHR 0x01 # rn @ sib) # walk_inputs b m k (butlast ps) whole old)
                  else
                    (case cons_walk b (m - k) (n - k) (butlast ps) False old of
                       Inl e \<Rightarrow> []
                     | Inr (ro, rn) \<Rightarrow>
                         (CHR 0x01 # sib @ ro) # (CHR 0x01 # sib @ rn) #
                           walk_inputs b (m - k) (n - k) (butlast ps) False old))"
  by pat_completeness auto
termination
  using split_point_bounds by (relation "measure (\<lambda>(b, m, n, ps, w, old). n)") (auto simp: not_le)

declare walk_inputs.simps [simp del]

lemma cons_walk_length:
  "b3_ok b \<Longrightarrow> cons_walk b m n ps whole old = Inr r \<Longrightarrow> length old = 32 \<Longrightarrow>
   length (fst r) = 32 \<and> length (snd r) = 32"
proof (induction b m n ps whole old arbitrary: r rule: cons_walk.induct)
  case (1 b m n ps whole old)
  note w = "1.prems"(2)
  show ?case
  proof (cases "m = n \<or> n \<le> 1")
    case True
    then show ?thesis using w "1.prems" unhex_length
      by (subst (asm) cons_walk.simps) (auto split: if_splits sum.splits list.splits)
  next
    case False
    define k where "k = split_point n"
    obtain sib where p: "ps \<noteq> []" "unhex (last ps) = Inr sib"
      using w False by (subst (asm) cons_walk.simps) (auto split: if_splits sum.splits)
    show ?thesis
    proof (cases "m \<le> k")
      case True
      then obtain r' where "cons_walk b m k (butlast ps) whole old = Inr r'" "r = (fst r', node_hash b (snd r') sib)"
        using w False p by (subst (asm) cons_walk.simps) (auto simp: k_def Let_def split: sum.splits)
      then show ?thesis
        using "1.IH"(1) [OF False p k_def True "1.prems"(1) _ "1.prems"(3)] "1.prems"(1) by simp
    next
      case nle: False
      then obtain r' where "cons_walk b (m - k) (n - k) (butlast ps) False old = Inr r'"
        "r = (node_hash b sib (fst r'), node_hash b sib (snd r'))"
        using w False p by (subst (asm) cons_walk.simps) (auto simp: k_def Let_def split: sum.splits)
      then show ?thesis using "1.prems"(1) by simp
    qed
  qed
qed

lemma cons_walk_sound:
  assumes b: "b3_ok b" and nc: "no_collision b ss"
  shows "cons_walk b m n ps whole old = Inr (mroot b ys, mroot b xs) \<Longrightarrow> length old = 32 \<Longrightarrow>
    n = length xs \<Longrightarrow> m = length ys \<Longrightarrow> 0 < m \<Longrightarrow> m \<le> n \<Longrightarrow>
    set (walk_inputs b m n ps whole old) \<subseteq> set ss \<Longrightarrow> set (mroot_inputs b xs) \<subseteq> set ss \<Longrightarrow>
    set (mroot_inputs b ys) \<subseteq> set ss \<Longrightarrow> ys = take m xs"
proof (induction xs arbitrary: m n ps ys whole rule: split_induct)
  case (leaf xs)
  then have "m = n" by linarith
  then have "mroot b ys = mroot b xs" using leaf.prems(1)
    by (subst (asm) cons_walk.simps) (auto split: if_splits list.splits sum.splits)
  then show ?case using mroot_inj [OF b _ _ nc] leaf \<open>m = n\<close> by simp
next
  case (node xs k)
  show ?case
  proof (cases "m = n")
    case True
    then have "mroot b ys = mroot b xs" using node.prems(1)
      by (subst (asm) cons_walk.simps) (auto split: if_splits list.splits sum.splits)
    then show ?thesis using mroot_inj [OF b _ _ nc] node.prems True by simp
  next
    case False
    then have m: "m < n" "2 \<le> n" "k = split_point n" using node by auto
    obtain p sib where p: "ps = butlast ps @ [p]" "unhex p = Inr sib"
      using cons_walk_node_Inr [OF node.prems(1) m(1,2)] by metis
    have [simp]: "last ps = p" "ps \<noteq> []" using p(1) by (metis last_snoc, metis snoc_eq_iff_butlast)
    have sib: "length sib = 32" using unhex_length [OF p(2)] .
    have rootn: "mroot b xs = node_hash b (mroot b (take k xs)) (mroot b (drop k xs))"
      by (rule mroot_node [OF node(1,2)])
    have inx: "CHR 0x01 # mroot b (take k xs) @ mroot b (drop k xs) \<in> set ss"
      "set (mroot_inputs b (take k xs)) \<subseteq> set ss" "set (mroot_inputs b (drop k xs)) \<subseteq> set ss"
      using node.prems(8) unfolding mroot_inputs_node [OF node(1,2)] by simp_all
    note wn = cons_walk_node [OF m, of b "butlast ps" p, folded p(1), unfolded p(2) sum.case]
    show ?thesis
    proof (cases "m \<le> k")
      case True
      obtain rn where w: "cons_walk b m k (butlast ps) whole old = Inr (mroot b ys, rn)"
        "node_hash b rn sib = mroot b xs"
        using node.prems(1) True by (auto simp: wn split: sum.splits)
      have "walk_inputs b m n ps whole old = (CHR 0x01 # rn @ sib) # walk_inputs b m k (butlast ps) whole old"
        using m True w p(2) by (subst walk_inputs.simps) (simp add: Let_def)
      then have ri: "CHR 0x01 # rn @ sib \<in> set ss" "set (walk_inputs b m k (butlast ps) whole old) \<subseteq> set ss"
        using node.prems(7) by simp_all
      have "rn = mroot b (take k xs) \<and> sib = mroot b (drop k xs)"
        using w(2) cons_walk_length [OF b w(1) node.prems(2)] b rootn ri inx
        by (intro node_hash_eqD [OF nc]) auto
      then have "ys = take m (take k xs)"
        using node.prems node(3,4) w(1) True ri inx
        by (intro node.IH(1) [of m k "butlast ps" whole]) auto
      then show ?thesis using True by (simp add: min_def)
    next
      case nle: False
      obtain ro rn where w: "cons_walk b (m - k) (n - k) (butlast ps) False old = Inr (ro, rn)"
        "node_hash b sib ro = mroot b ys" "node_hash b sib rn = mroot b xs"
        using node.prems(1) nle by (auto simp: wn split: sum.splits)
      have "walk_inputs b m n ps whole old = (CHR 0x01 # sib @ ro) # (CHR 0x01 # sib @ rn) #
          walk_inputs b (m - k) (n - k) (butlast ps) False old"
        using m nle w p(2) by (subst walk_inputs.simps) (simp add: Let_def)
      then have ri: "CHR 0x01 # sib @ ro \<in> set ss" "CHR 0x01 # sib @ rn \<in> set ss"
        "set (walk_inputs b (m - k) (n - k) (butlast ps) False old) \<subseteq> set ss"
        using node.prems(7) by simp_all
      have "split_point m = k" using split_point_shared [of n m] m nle by simp
      then have ylen: "2 \<le> length ys" "k = split_point (length ys)" using nle node(3) node.prems(4) by auto
      have iny: "CHR 0x01 # mroot b (take k ys) @ mroot b (drop k ys) \<in> set ss"
        "set (mroot_inputs b (take k ys)) \<subseteq> set ss" "set (mroot_inputs b (drop k ys)) \<subseteq> set ss"
        using node.prems(9) unfolding mroot_inputs_node [OF ylen] by simp_all
      have x: "sib = mroot b (take k xs) \<and> rn = mroot b (drop k xs)"
        using w(3) sib b rootn ri inx by (intro node_hash_eqD [OF nc]) auto
      have y: "sib = mroot b (take k ys) \<and> ro = mroot b (drop k ys)"
        using w(2) sib b mroot_node [OF ylen] ri iny by (intro node_hash_eqD [OF nc]) auto
      have "take k ys = take k xs"
        using x y inx iny nle node(4) node.prems(4) by (intro mroot_inj [OF b _ _ nc]) auto
      moreover have "drop k ys = take (m - k) (drop k xs)"
        using node.prems nle w(1) x y ri inx iny
        by (intro node.IH(2) [of "m - k" "n - k" "butlast ps" False]) auto
      ultimately have "ys = take k xs @ take (m - k) (drop k xs)" by (metis append_take_drop_id)
      then show ?thesis using nle by (simp add: take_add [symmetric])
    qed
  qed
qed

section \<open>The two checks on the log's own proofs\<close>

lemma verify_inclusion_Inr:
  "verify_inclusion b line i n ps root = Inr () \<longleftrightarrow>
    i < n \<and> (\<exists>h. roll b i n (leaf_hash b line) ps = Inr h \<and> hex h = root)"
  by (auto simp: verify_inclusion_def split: sum.splits)

lemma verify_consistency_Inr:
  "verify_consistency b m n old_root new_root ps = Inr () \<longleftrightarrow>
    0 < m \<and> m \<le> n \<and>
    (if m = n then ps = [] \<and> old_root = new_root
     else \<exists>old ro rn. unhex old_root = Inr old \<and> cons_walk b m n ps True old = Inr (ro, rn) \<and>
       hex ro = old_root \<and> hex rn = new_root)"
  by (auto simp: verify_consistency_def split: sum.splits if_splits)

text \<open>The log's own proof against any root: it compares the root of the lines with that root.\<close>

lemma verify_own_inclusion:
  assumes "b3_ok b" "i < length lines" "inclusion_proof b lines i = Inr ps"
  shows "verify_inclusion b (lines ! i) i (length lines) ps root =
    (if tree_root b lines = root then Inr ()
     else Inl (Log_err ''inclusion proof does not reach the signed root'' [tree_root b lines, root]))"
proof -
  have "ps = incl_path b lines i 0 (length lines)" using assms(2,3) by (simp add: inclusion_proof_def)
  then have "roll b i (length lines) (leaf_hash b (lines ! i)) ps = Inr (mth b lines 0 (length lines))"
    using roll_incl_path [OF assms(1), of i "length lines" 0 lines] assms(2) by simp
  then show ?thesis using assms(2) by (simp add: verify_inclusion_def tree_root_def)
qed

lemma consistency_accepted:
  assumes "b3_ok b" "0 < m" "m \<le> length lines"
  shows "verify_consistency b m (length lines) (tree_root b (take m lines)) (tree_root b lines)
    (cons_sub b lines m 0 (length lines) True) = Inr ()"
  using cons_walk_sub [OF assms(1), of m "length lines" 0 lines True "mroot b (take m lines)"] assms
  by (auto simp: verify_consistency_Inr tree_root_mroot cons_sub.simps [of b _ "length lines"])

end
