(* ===== verification/Pkg_Head.thy ===== *)
theory Pkg_Head
  imports Pkg_Merkle
begin

text \<open>
  The signed tree head and the client's check of a project, \<^verbatim>\<open>crates/wolf_pkg/src/log.rs\<close>:
  \<open>TreeHead\<close> with its one-line text and keyed signature, and \<open>verify_project_against_log\<close> over the two
  files of a log directory.
\<close>

section \<open>Tree heads\<close>

record tree_head =
  th_size :: nat
  th_root :: bytes
  th_sig :: bytes

definition usize_max :: nat where
  "usize_max = 18446744073709551615"

definition head_payload :: "nat \<Rightarrow> bytes \<Rightarrow> bytes" where
  "head_payload n root = ''wolf-log-head'' @ CHR 0x0A # nat_str n @ CHR 0x0A # root"

definition sign_head :: "blake3 \<Rightarrow> nat \<Rightarrow> bytes \<Rightarrow> bytes \<Rightarrow> bytes" where
  "sign_head b n root key = ''b3k:'' @ hex (b3_keyed b key (head_payload n root))"

definition TreeHead_over :: "blake3 \<Rightarrow> bytes list \<Rightarrow> bytes \<Rightarrow> tree_head" where
  "TreeHead_over b lines key =
     (let root = tree_root b lines
      in \<lparr>th_size = length lines, th_root = root, th_sig = sign_head b (length lines) root key\<rparr>)"

definition TreeHead_render :: "tree_head \<Rightarrow> bytes" where
  "TreeHead_render h =
     ''head size='' @ nat_str (th_size h) @ '' root='' @ th_root h @ '' sig='' @ th_sig h @ [CHR 0x0A]"

fun head_fields :: "bytes list \<Rightarrow> nat option \<times> bytes option \<times> bytes option \<Rightarrow>
    log_error + nat option \<times> bytes option \<times> bytes option" where
  "head_fields [] acc = Inr acc"
| "head_fields (p # ps) (n, root, sig) =
     (case strip_prefix ''size='' p of
        Some v \<Rightarrow>
          (case parse_uint usize_max v of
             None \<Rightarrow> Inl (Log_err ''bad size'' [v])
           | Some k \<Rightarrow> head_fields ps (Some k, root, sig))
      | None \<Rightarrow>
          (case strip_prefix ''root='' p of
             Some v \<Rightarrow> head_fields ps (n, Some v, sig)
           | None \<Rightarrow>
               (case strip_prefix ''sig='' p of
                  Some v \<Rightarrow> head_fields ps (n, root, Some v)
                | None \<Rightarrow> Inl (Log_err ''unknown head field'' [p]))))"

definition TreeHead_parse :: "bytes \<Rightarrow> log_error + tree_head" where
  "TreeHead_parse text =
     (case split_ws (trim text) of
        [] \<Rightarrow> Inl (Log_err ''head file must start with head'' [])
      | p # parts \<Rightarrow>
          if p \<noteq> ''head'' then Inl (Log_err ''head file must start with head'' [])
          else (case head_fields parts (None, None, None) of
                  Inl e \<Rightarrow> Inl e
                | Inr (None, _, _) \<Rightarrow> Inl (Log_err ''head missing size='' [])
                | Inr (Some _, None, _) \<Rightarrow> Inl (Log_err ''head missing root='' [])
                | Inr (Some _, Some _, None) \<Rightarrow> Inl (Log_err ''head missing sig='' [])
                | Inr (Some n, Some r, Some s) \<Rightarrow> Inr \<lparr>th_size = n, th_root = r, th_sig = s\<rparr>))"

definition TreeHead_verify_sig :: "blake3 \<Rightarrow> tree_head \<Rightarrow> bytes \<Rightarrow> log_error + unit" where
  "TreeHead_verify_sig b h key =
     (case strip_prefix ''b3k:'' (th_sig h) of
        None \<Rightarrow> Inl (Log_err ''unknown head algorithm'' [hd (split_on (CHR '':'') (th_sig h))])
      | Some _ \<Rightarrow>
          if sign_head b (th_size h) (th_root h) key = th_sig h then Inr ()
          else Inl (Log_err ''head signature does not verify under the log key'' []))"

section \<open>Checking a project\<close>

text \<open>The fields of \<open>project::ResolvedPkg\<close> that are read; the log directory is its two files as read.\<close>

record resolved_pkg =
  pk_name :: bytes
  pk_version :: bytes
  pk_hash :: "bytes option"
  pk_is_std :: bool

datatype verify_msg = Whole log_error | For_pkg bytes log_error

fun find_line :: "bytes \<Rightarrow> nat \<Rightarrow> bytes list \<Rightarrow> (nat \<times> bytes) option" where
  "find_line p i [] = None"
| "find_line p i (l # ls) = (if strip_prefix p l \<noteq> None then Some (i, l) else find_line p (Suc i) ls)"

definition pkg_key :: "resolved_pkg \<Rightarrow> bytes" where
  "pkg_key p = pk_name p @ CHR ''@'' # pk_version p"

definition skipped_pkg :: "resolved_pkg \<Rightarrow> bool" where
  "skipped_pkg p \<longleftrightarrow> pk_hash p = None \<or> pk_is_std p"

text \<open>One turn of the loop over packages: the error it pushes, if any.\<close>

definition check_pkg :: "blake3 \<Rightarrow> bytes list \<Rightarrow> tree_head \<Rightarrow> resolved_pkg \<Rightarrow> log_error option" where
  "check_pkg b lines head p =
     (if skipped_pkg p then None
      else case find_line (pkg_key p @ [CHR 0x20]) 0 (take (th_size head) lines) of
             None \<Rightarrow> None
           | Some (idx, line) \<Rightarrow>
               (case LogRecord_parse line of
                  Inl e \<Rightarrow> Some e
                | Inr rec \<Rightarrow>
                    if Some (lr_tree rec) \<noteq> pk_hash p then
                      Some (Log_err ''the bits are not the published bits'' [pkg_key p, lr_tree rec])
                    else case inclusion_proof b (take (th_size head) lines) idx of
                           Inl e \<Rightarrow> Some e
                         | Inr proof \<Rightarrow>
                             (case verify_inclusion b line idx (th_size head) proof (th_root head) of
                                Inl e \<Rightarrow> Some e
                              | Inr _ \<Rightarrow> None)))"

text \<open>\<open>Inl\<close> is a panic on the way.\<close>

fun check_pkgs :: "blake3 \<Rightarrow> bytes list \<Rightarrow> tree_head \<Rightarrow> resolved_pkg list \<Rightarrow> log_error + verify_msg list" where
  "check_pkgs b lines head [] = Inr []"
| "check_pkgs b lines head (p # ps) =
     (case check_pkg b lines head p of
        None \<Rightarrow> check_pkgs b lines head ps
      | Some Log_panic \<Rightarrow> Inl Log_panic
      | Some e \<Rightarrow>
          (case check_pkgs b lines head ps of Inl e' \<Rightarrow> Inl e' | Inr es \<Rightarrow> Inr (For_pkg (pkg_key p) e # es)))"

definition verify_project_against_log ::
    "blake3 \<Rightarrow> resolved_pkg list \<Rightarrow> file_read \<Rightarrow> file_read \<Rightarrow> bytes option \<Rightarrow> log_error + verify_msg list" where
  "verify_project_against_log b pkgs log_file head_file key =
     (case read_records log_file of
        Inl e \<Rightarrow> Inr [Whole e]
      | Inr lines \<Rightarrow>
          if lines = [] then Inr []
          else case head_file of
                 File_missing \<Rightarrow> Inr [Whole (Log_err ''the log has records but no head'' [])]
               | File_error e \<Rightarrow> Inr [Whole (Log_err ''the log has records but no head'' [e])]
               | File_text t \<Rightarrow>
                   (case TreeHead_parse t of
                      Inl e \<Rightarrow> Inr [Whole e]
                    | Inr head \<Rightarrow>
                        (case (case key of None \<Rightarrow> Inr () | Some k \<Rightarrow> TreeHead_verify_sig b head k) of
                           Inl e \<Rightarrow> Inr [Whole e]
                         | Inr _ \<Rightarrow>
                             if length lines < th_size head then
                               Inr [Whole (Log_err ''a truncated mirror'' [])]
                             else check_pkgs b lines head (drop 1 pkgs))))"

section \<open>Lemmas\<close>

lemma strip_prefix_Some: "strip_prefix p s = Some r \<longleftrightarrow> s = p @ r"
  by (auto simp: strip_prefix_def) (metis append_take_drop_id)

lemma hex_line [simp]: "list_all plain_byte (hex d)"
  by (rule hex_plain)

lemma head_line:
  assumes "word_ok root" "word_ok sig"
  shows "line_ok (''head size='' @ nat_str n @ '' root='' @ root @ '' sig='' @ sig)"
  using assms nat_str_word [of n]
  by (auto simp: line_ok_def word_ok_def list_all_iff last_append plain_byte_def)

lemma split_head:
  assumes "word_ok root" "word_ok sig"
  shows "split_ws (''head size='' @ nat_str n @ '' root='' @ root @ '' sig='' @ sig) =
    [''head'', ''size='' @ nat_str n, ''root='' @ root, ''sig='' @ sig]"
proof -
  have w: "word_ok ''head''" "word_ok (''size='' @ nat_str n)" "word_ok (''root='' @ root)" "word_ok (''sig='' @ sig)"
    using assms nat_str_word [of n] by (auto simp: word_ok_def plain_byte_def)
  show ?thesis
    using split_ws_word [OF w(1), of "''size='' @ nat_str n @ '' root='' @ root @ '' sig='' @ sig"]
      split_ws_word [OF w(2), of "''root='' @ root @ '' sig='' @ sig"]
      split_ws_word [OF w(3), of "''sig='' @ sig"] split_ws_last [OF w(4)]
    by simp
qed

lemma head_parse_render:
  assumes "word_ok (th_root h)" "word_ok (th_sig h)" "th_size h \<le> usize_max"
  shows "TreeHead_parse (TreeHead_render h) = Inr h"
  using trim_line_newline [OF head_line [OF assms(1,2), of "th_size h"]] split_head [OF assms(1,2), of "th_size h"]
    parse_uint_nat_str [OF assms(3)]
  by (simp add: TreeHead_parse_def TreeHead_render_def strip_prefix_def)

end
