(* ===== verification/Pkg_Log_Theorems.thy ===== *)
theory Pkg_Log_Theorems
  imports Pkg_Merkle "HOL-Library.Code_Target_Nat"
begin

text \<open>
  What the transparency log promises its client: completeness and soundness of inclusion and consistency
  proofs, on the definitions of \<^verbatim>\<open>crates/wolf_pkg/src/log.rs\<close>, with witnesses over a toy hash.
\<close>

section \<open>What the client may rely on\<close>

definition toy_blake3 :: blake3 where
  "toy_blake3 = \<lparr>b3_hash = \<lambda>x. take 32 (x @ replicate 32 CHR 0x00),
    b3_keyed = \<lambda>k x. take 32 (k @ x @ replicate 32 CHR 0x00)\<rparr>"

lemma toy_blake3_ok: "b3_ok toy_blake3"
  by (auto simp: b3_ok_def toy_blake3_def min_def)

text \<open>
  C27. Completeness of inclusion: for every record of a log the proof the log makes is accepted by the client
  against the log's root, at the record's index and the log's size; no proof is made past the end.
\<close>

theorem inclusion_complete:
  assumes "b3_ok b"
  shows "case inclusion_proof b lines i of
      Inl _ \<Rightarrow> length lines \<le> i
    | Inr ps \<Rightarrow> i < length lines \<and> verify_inclusion b (lines ! i) i (length lines) ps (tree_root b lines) = Inr ()"
  using roll_incl_path [OF assms, of i "length lines" 0 lines]
  by (simp add: inclusion_proof_def verify_inclusion_Inr tree_root_def)

theorem inclusion_complete_witness:
  "case inclusion_proof toy_blake3 [''a'', ''b'', ''c''] 1 of
      Inl _ \<Rightarrow> False
    | Inr ps \<Rightarrow> verify_inclusion toy_blake3 ''b'' 1 3 ps (tree_root toy_blake3 [''a'', ''b'', ''c'']) = Inr ()"
  using inclusion_complete [OF toy_blake3_ok, of "[''a'', ''b'', ''c'']" 1]
  by (simp add: numeral_3_eq_3 split: sum.splits)

text \<open>
  C14. Soundness of inclusion: a proof the client accepts under the root of a log of the same size pins the
  record at that index byte for byte, unless the hash collides on two of the finitely many strings hashed to
  build the root and to check the proof. The proof itself is arbitrary: any list of strings.
\<close>

theorem inclusion_sound:
  assumes "b3_ok b"
    and "verify_inclusion b line i (length lines) ps (tree_root b lines) = Inr ()"
    and "no_collision b (mroot_inputs b lines @ roll_inputs b i (length lines) line ps)"
  shows "i < length lines \<and> lines ! i = line"
  using assms(2) roll_sound [OF assms(1,3), of i "length lines" line ps lines]
  by (auto simp: verify_inclusion_Inr tree_root_mroot)

theorem inclusion_sound_witness:
  "[''a'', ''b'', ''c''] ! 1 = ''b''"
proof -
  let ?ls = "[''a'', ''b'', ''c'']"
  let ?ps = "[hex (leaf_hash toy_blake3 ''a''), hex (leaf_hash toy_blake3 ''c'')]"
  have "verify_inclusion toy_blake3 ''b'' 1 (length ?ls) ?ps (tree_root toy_blake3 ?ls) = Inr ()"
    by code_simp
  moreover have "no_collision toy_blake3 (mroot_inputs toy_blake3 ?ls @ roll_inputs toy_blake3 1 (length ?ls) ''b'' ?ps)"
    by code_simp
  ultimately show ?thesis using inclusion_sound [OF toy_blake3_ok] by blast
qed

text \<open>
  C28. Completeness of consistency: from every earlier size of a log the proof the log makes is accepted by
  the client between the two roots; none is made from size zero or from a size the log has not reached.
\<close>

theorem consistency_complete:
  assumes "b3_ok b"
  shows "case consistency_proof b lines m of
      Inl _ \<Rightarrow> m = 0 \<or> length lines < m
    | Inr ps \<Rightarrow> 0 < m \<and> m \<le> length lines \<and>
        verify_consistency b m (length lines) (tree_root b (take m lines)) (tree_root b lines) ps = Inr ()"
  using consistency_accepted [OF assms, of m lines] by (auto simp: consistency_proof_def)

text \<open>
  C2. Soundness of consistency: if the client accepts a proof between the roots of an older and a newer log,
  the older log is a prefix of the newer one: nothing signed before was altered, dropped or reordered, unless
  the hash collides on two of the strings hashed to build the two roots and to check the proof.
\<close>

theorem consistency_sound:
  assumes "b3_ok b"
    and "verify_consistency b (length old) (length new) (tree_root b old) (tree_root b new) ps = Inr ()"
    and "no_collision b (mroot_inputs b old @ mroot_inputs b new @
      walk_inputs b (length old) (length new) ps True (mroot b old))"
  shows "\<exists>added. new = old @ added"
proof -
  have le: "0 < length old" "length old \<le> length new" using assms(2) by (auto simp: verify_consistency_Inr)
  have "old = take (length old) new"
  proof (cases "length old = length new")
    case True
    then show ?thesis using mroot_inj [OF assms(1) True _ assms(3)] assms(2)
      by (auto simp: verify_consistency_Inr tree_root_mroot)
  next
    case False
    then have w: "cons_walk b (length old) (length new) ps True (mroot b old) = Inr (mroot b old, mroot b new)"
      using assms(1,2) by (auto simp: verify_consistency_Inr tree_root_mroot)
    show ?thesis using cons_walk_sound [OF assms(1,3) w _ refl refl le] assms(1) by auto
  qed
  then show ?thesis by (metis append_take_drop_id)
qed

theorem consistency_complete_witness:
  "case consistency_proof toy_blake3 [''a'', ''b'', ''c''] 2 of
      Inl _ \<Rightarrow> False
    | Inr ps \<Rightarrow> verify_consistency toy_blake3 2 3 (tree_root toy_blake3 [''a'', ''b''])
        (tree_root toy_blake3 [''a'', ''b'', ''c'']) ps = Inr ()"
  using consistency_complete [OF toy_blake3_ok, where lines = "[''a'', ''b'', ''c'']" and m = 2]
  by (simp add: numeral_3_eq_3 numeral_2_eq_2 split: sum.splits)

theorem consistency_sound_witness:
  "\<exists>added. [''a'', ''b'', ''c''] = [''a'', ''b''] @ added"
proof -
  let ?old = "[''a'', ''b'']" and ?new = "[''a'', ''b'', ''c'']"
  let ?ps = "[hex (leaf_hash toy_blake3 ''c'')]"
  have "verify_consistency toy_blake3 (length ?old) (length ?new) (tree_root toy_blake3 ?old)
      (tree_root toy_blake3 ?new) ?ps = Inr ()"
    by code_simp
  moreover have "no_collision toy_blake3 (mroot_inputs toy_blake3 ?old @ mroot_inputs toy_blake3 ?new @
      walk_inputs toy_blake3 (length ?old) (length ?new) ?ps True (mroot toy_blake3 ?old))"
    by code_simp
  ultimately show ?thesis by (rule consistency_sound [OF toy_blake3_ok])
qed

text \<open>Malformed proof entries: a character across a slice panics, and a plus sign passes for a digit.\<close>

lemma unhex_panics:
  "unhex (CHR ''a'' # CHR 0xC3 # CHR 0xA9 # replicate 61 CHR ''0'') = Inl Log_panic"
  "map_sum id hd (unhex (CHR ''+'' # CHR ''f'' # replicate 62 CHR ''0'')) = Inr (CHR 0x0F)"
  by code_simp+

end
