(* ===== verification/Pkg_Publish.thy ===== *)
theory Pkg_Publish
  imports Pkg_Head Pkg_Log_Theorems
begin

text \<open>
  The log as a file that grows and as a mirror that is checked: what \<open>append\<close> does to \<open>lookup\<close> and to the
  leaves of the tree, that the heads before and after are consistent, and what the check of a project
  accepts (\<^verbatim>\<open>crates/wolf_pkg/src/log.rs\<close>).
\<close>

section \<open>Record lines\<close>

definition record_ok :: "log_record \<Rightarrow> bool" where
  "record_ok r \<longleftrightarrow> word_ok (lr_key r) \<and> hd (lr_key r) \<noteq> CHR ''#'' \<and>
     list_all plain_byte (lr_tree r) \<and> list_all plain_byte (lr_manifest r) \<and> list_all plain_byte (lr_interface r)"

lemma record_line_ok: "record_ok r \<Longrightarrow> line_ok (LogRecord_line r)"
  by (auto simp: record_ok_def LogRecord_line_def line_ok_def word_ok_def list_all_iff last_append plain_byte_def)

lemma split_record:
  assumes "record_ok r"
  shows "split_ws (LogRecord_line r) =
    [lr_key r, ''tree='' @ lr_tree r, ''manifest='' @ lr_manifest r, ''interface='' @ lr_interface r]"
proof -
  have w: "word_ok (lr_key r)" "word_ok (''tree='' @ lr_tree r)" "word_ok (''manifest='' @ lr_manifest r)"
    "word_ok (''interface='' @ lr_interface r)"
    using assms by (auto simp: record_ok_def word_ok_def plain_byte_def)
  show ?thesis
    using split_ws_word [OF w(1)] split_ws_word [OF w(2)] split_ws_word [OF w(3)] split_ws_last [OF w(4)]
    by (simp add: LogRecord_line_def)
qed

lemma parse_line: "record_ok r \<Longrightarrow> LogRecord_parse (LogRecord_line r) = Inr r"
  by (simp add: LogRecord_parse_def split_record strip_prefix_def)

lemma split_ws_word_newline: "word_ok w \<Longrightarrow> split_ws (w @ [CHR 0x0A]) = [w]"
proof (induction w)
  case (Cons a w)
  then show ?case by (cases w) (auto simp: word_ok_def split_ws.simps [of "a # _"])
qed (simp add: word_ok_def)

lemma parse_render:
  assumes "record_ok r"
  shows "LogRecord_parse (LogRecord_render r) = Inr r"
proof -
  have w: "word_ok (lr_key r)" "word_ok (''tree='' @ lr_tree r)" "word_ok (''manifest='' @ lr_manifest r)"
    "word_ok (''interface='' @ lr_interface r)"
    using assms by (auto simp: record_ok_def word_ok_def plain_byte_def)
  have "split_ws (LogRecord_render r) = split_ws (LogRecord_line r)"
    using split_ws_word [OF w(1)] split_ws_word [OF w(2)] split_ws_word [OF w(3)]
      split_ws_word_newline [OF w(4)] split_record [OF assms]
    by (simp add: LogRecord_render_def LogRecord_line_def)
  then show ?thesis using parse_line [OF assms] by (simp add: LogRecord_parse_def)
qed

lemma record_line_is_record: "record_ok r \<Longrightarrow> is_record_line (LogRecord_line r)"
  by (cases "lr_key r")
    (auto simp: record_ok_def is_record_line_def LogRecord_line_def word_ok_def starts_with_at_def)

section \<open>Appending\<close>

lemma find_record_append:
  "find_record k (xs @ ys) = (case find_record k xs of Inr None \<Rightarrow> find_record k ys | r \<Rightarrow> r)"
  by (induction xs) (auto simp: Let_def split: sum.splits option.splits)

lemma find_record_one:
  "record_ok r \<Longrightarrow> find_record k [LogRecord_line r] = Inr (if lr_key r = k then Some r else None)"
  by (simp add: trim_line record_line_ok record_line_is_record parse_line)

text \<open>The text of a log file as \<open>append\<close> leaves it: a missing file counts as empty.\<close>

definition log_text :: "file_read \<Rightarrow> bytes" where
  "log_text f = (case f of File_text t \<Rightarrow> t | _ \<Rightarrow> [])"

lemma log_append_Inr:
  assumes "log_append f rec = Inr t"
  shows "log_lookup f (lr_key rec) = Inr None" "t = log_text f @ LogRecord_line rec @ [CHR 0x0A]"
    "log_lookup f k = find_record k (str_lines (log_text f))"
    "read_records f = Inr (filter is_record_line (map trim (str_lines (log_text f))))"
  using assms
  by (auto simp: log_append_def log_lookup_def log_text_def LogRecord_render_def read_records_def str_lines_def
      split: sum.splits option.splits file_read.splits)

lemma lines_after_append:
  assumes "whole_lines (log_text f)" "record_ok rec" "log_append f rec = Inr t"
  shows "str_lines t = str_lines (log_text f) @ [LogRecord_line rec]"
  using assms(1,2) log_append_Inr(2) [OF assms(3)]
  by (simp add: str_lines_append str_lines_one record_line_ok)

lemma lookup_after_append:
  assumes "whole_lines (log_text f)" "record_ok rec" "log_append f rec = Inr t"
  shows "log_lookup (File_text t) k = (if k = lr_key rec then Inr (Some rec) else log_lookup f k)"
  using log_append_Inr(1,3) [OF assms(3)] find_record_one [OF assms(2)]
  by (auto simp: log_lookup_def [of "File_text t"] lines_after_append [OF assms] find_record_append
      split: sum.splits option.splits)

lemma records_after_append:
  assumes "whole_lines (log_text f)" "record_ok rec" "log_append f rec = Inr t" "read_records f = Inr ls"
  shows "read_records (File_text t) = Inr (ls @ [LogRecord_line rec])"
  using assms(4) log_append_Inr(4) [OF assms(3)] assms(2)
  by (simp add: read_records_def [of "File_text t"] lines_after_append [OF assms(1-3)] trim_line record_line_ok
      record_line_is_record)

section \<open>Checking a project\<close>

lemma find_line_Some:
  "find_line p i ls = Some (j, l) \<Longrightarrow> i \<le> j \<and> j < i + length ls \<and> ls ! (j - i) = l"
  by (induction p i ls rule: find_line.induct) (fastforce split: if_splits simp: nth_Cons')+

lemma parse_no_panic: "LogRecord_parse line \<noteq> Inl Log_panic"
proof -
  have "record_fields ps acc \<noteq> Inl Log_panic" for ps acc
    by (induction ps acc rule: record_fields.induct) (auto split: option.splits)
  then show ?thesis by (auto simp: LogRecord_parse_def split: list.splits sum.splits option.splits prod.splits)
qed

text \<open>The verdict on one package, without proofs.\<close>

definition pkg_verdict :: "blake3 \<Rightarrow> bytes list \<Rightarrow> bytes \<Rightarrow> resolved_pkg \<Rightarrow> log_error option" where
  "pkg_verdict b lines root p =
     (if skipped_pkg p then None
      else case find_line (pkg_key p @ [CHR 0x20]) 0 lines of
             None \<Rightarrow> None
           | Some (_, line) \<Rightarrow>
               (case LogRecord_parse line of
                  Inl e \<Rightarrow> Some e
                | Inr rec \<Rightarrow>
                    if Some (lr_tree rec) \<noteq> pk_hash p then
                      Some (Log_err ''the bits are not the published bits'' [pkg_key p, lr_tree rec])
                    else if tree_root b lines \<noteq> root then
                      Some (Log_err ''inclusion proof does not reach the signed root'' [tree_root b lines, root])
                    else None))"

lemma check_pkg_verdict:
  assumes "b3_ok b" "th_size head \<le> length lines"
  shows "check_pkg b lines head p = pkg_verdict b (take (th_size head) lines) (th_root head) p"
proof (cases "find_line (pkg_key p @ [CHR 0x20]) 0 (take (th_size head) lines)")
  case (Some il)
  obtain i l where il: "il = (i, l)" by (cases il)
  let ?ls = "take (th_size head) lines"
  have i: "i < length ?ls" "?ls ! i = l" and n: "length ?ls = th_size head"
    using find_line_Some [OF Some [unfolded il]] assms(2) by auto
  then have ps: "inclusion_proof b ?ls i = Inr (incl_path b ?ls i 0 (length ?ls))"
    by (simp add: inclusion_proof_def)
  show ?thesis
    using verify_own_inclusion [OF assms(1) i(1) ps, of "th_root head"] i n Some il ps
    by (auto simp: check_pkg_def pkg_verdict_def split: sum.splits)
qed (simp add: check_pkg_def pkg_verdict_def)

lemma verdict_no_panic: "pkg_verdict b lines root p \<noteq> Some Log_panic"
  using parse_no_panic by (auto simp: pkg_verdict_def split: option.splits sum.splits)

definition verdict_msgs :: "blake3 \<Rightarrow> bytes list \<Rightarrow> bytes \<Rightarrow> resolved_pkg list \<Rightarrow> verify_msg list" where
  "verdict_msgs b lines root ps =
     concat (map (\<lambda>p. case pkg_verdict b lines root p of None \<Rightarrow> [] | Some e \<Rightarrow> [For_pkg (pkg_key p) e]) ps)"

lemma check_pkgs_verdict:
  assumes "b3_ok b" "th_size head \<le> length lines"
  shows "check_pkgs b lines head ps = Inr (verdict_msgs b (take (th_size head) lines) (th_root head) ps)"
proof (induction ps)
  case (Cons p ps)
  then show ?case using verdict_no_panic
    by (auto simp: check_pkg_verdict [OF assms] verdict_msgs_def split: option.splits log_error.splits)
qed (simp add: verdict_msgs_def)

section \<open>Properties\<close>

definition sample_record :: log_record where
  "sample_record = \<lparr>lr_key = ''a/p@1.0.0'', lr_tree = ''b3:aa'', lr_manifest = ''b3:bb'', lr_interface = ''b3:cc''\<rparr>"

lemma sample_record_ok: "record_ok sample_record"
  by (simp add: record_ok_def sample_record_def word_ok_def plain_byte_def)

definition sample_log :: bytes where
  "sample_log = ''# packages'' @ [CHR 0x0A] @ ''a/q@2.0.0 tree=b3:dd manifest=b3:ee interface=b3:ff'' @ [CHR 0x0A]"

lemma sample_append: "log_append (File_text sample_log) sample_record = Inr (sample_log @ LogRecord_render sample_record)"
  by code_simp

lemma sample_log_whole: "whole_lines (log_text (File_text sample_log))"
  by (simp add: whole_lines_def log_text_def sample_log_def)

text \<open>
  Append-only: once a record is appended to a log of whole lines its key looks up to it, every other key
  looks up to what it did before, and a second record under the same key is refused.
\<close>

theorem log_append_only:
  assumes "whole_lines (log_text f)" "record_ok rec" "log_append f rec = Inr t"
  shows "log_lookup (File_text t) k = (if k = lr_key rec then Inr (Some rec) else log_lookup f k) \<and>
    log_append (File_text t) (rec\<lparr>lr_tree := other\<rparr>) = Inl (Log_err ''already in the log'' [lr_key rec])"
  using lookup_after_append [OF assms] by (simp add: log_append_def)

theorem log_append_only_witness:
  "log_lookup (File_text (sample_log @ LogRecord_render sample_record)) ''a/p@1.0.0'' = Inr (Some sample_record)"
  using log_append_only [OF sample_log_whole sample_record_ok sample_append, of "''a/p@1.0.0''" undefined]
  by (simp add: sample_record_def)

text \<open>
  C26. Publishing keeps the signed history. When the log file ends in a newline and already has a record, and the
  new record's key is one word not starting with \<open>#\<close> and its digests are plain text, the leaves of the log after an
  accepted append are the leaves before and the new line, and the client accepts the log's consistency proof
  from the head over the old leaves to the head over the new ones. The digest has 32 bytes. (A file without a
  final newline is not covered: the append would continue its last line.)
\<close>

theorem append_keeps_history:
  assumes "b3_ok b" "whole_lines (log_text f)" "record_ok rec" "log_append f rec = Inr t"
    and "read_records f = Inr ls" "ls \<noteq> []"
  shows "read_records (File_text t) = Inr (ls @ [LogRecord_line rec]) \<and>
    (case consistency_proof b (ls @ [LogRecord_line rec]) (length ls) of
       Inl _ \<Rightarrow> False
     | Inr ps \<Rightarrow>
         (let old = TreeHead_over b ls key; new = TreeHead_over b (ls @ [LogRecord_line rec]) key
          in verify_consistency b (th_size old) (th_size new) (th_root old) (th_root new) ps = Inr ()))"
  using records_after_append [OF assms(2-5)] assms(6)
    consistency_accepted [OF assms(1), of "length ls" "ls @ [LogRecord_line rec]"]
  by (simp add: consistency_proof_def TreeHead_over_def Let_def)

theorem append_keeps_history_witness:
  "read_records (File_text (sample_log @ LogRecord_render sample_record)) =
    Inr [''a/q@2.0.0 tree=b3:dd manifest=b3:ee interface=b3:ff'', LogRecord_line sample_record]"
proof -
  have "read_records (File_text sample_log) = Inr [''a/q@2.0.0 tree=b3:dd manifest=b3:ee interface=b3:ff'']"
    by code_simp
  from append_keeps_history [OF toy_blake3_ok sample_log_whole sample_record_ok sample_append this]
  show ?thesis by simp
qed

text \<open>
  A head over fewer than \<open>2 ^ 64\<close> records survives being written and read, and verifies under the key it was
  signed with; a head whose signature names another algorithm never verifies.
\<close>

theorem head_roundtrip:
  assumes "b3_ok b" "length lines \<le> usize_max"
  shows "TreeHead_parse (TreeHead_render (TreeHead_over b lines key)) = Inr (TreeHead_over b lines key) \<and>
    TreeHead_verify_sig b (TreeHead_over b lines key) key = Inr () \<and>
    TreeHead_verify_sig b (TreeHead_over b lines key\<lparr>th_sig := ''ed25519:'' @ s\<rparr>) key =
      Inl (Log_err ''unknown head algorithm'' [''ed25519''])"
proof -
  have "tree_root b lines \<noteq> []" using assms(1) by (auto simp: tree_root_mroot dest!: arg_cong [where f = length])
  then show ?thesis
    using head_parse_render [of "TreeHead_over b lines key"] assms(2) split_on_sep [of "CHR '':''" "''ed25519''" s]
    by (simp add: TreeHead_over_def Let_def word_ok_def tree_root_mroot sign_head_def plain_byte_def
        TreeHead_verify_sig_def strip_prefix_def)
qed

theorem head_roundtrip_witness:
  "TreeHead_verify_sig toy_blake3 (TreeHead_over toy_blake3 [''x''] ''k'') ''k'' = Inr ()"
  using head_roundtrip [OF toy_blake3_ok, of "[''x'']" "''k''"] by (simp add: usize_max_def)

text \<open>
  What the check of a project decides, for any log and head text whose signature verifies: nothing panics, a
  truncated mirror is refused, and otherwise each package with a content address gets its verdict: no error
  when no line of the signed part starts with its key; else its record must parse, carry the package's
  tree address, and the root of the mirror's own lines must be the signed root.
\<close>

theorem project_check_exact:
  assumes "b3_ok b" "read_records log_file = Inr lines" "lines \<noteq> []" "TreeHead_parse t = Inr head"
    and "TreeHead_verify_sig b head k = Inr ()"
  shows "verify_project_against_log b pkgs log_file (File_text t) (Some k) =
    Inr (if length lines < th_size head then [Whole (Log_err ''a truncated mirror'' [])]
         else verdict_msgs b (take (th_size head) lines) (th_root head) (drop 1 pkgs))"
  using assms check_pkgs_verdict [OF assms(1), of head lines] by (simp add: verify_project_against_log_def)

definition sample_pkgs :: "resolved_pkg list" where
  "sample_pkgs =
     [\<lparr>pk_name = ''a/root'', pk_version = ''0.1.0'', pk_hash = None, pk_is_std = False\<rparr>,
      \<lparr>pk_name = ''a/p'', pk_version = ''1.0.0'', pk_hash = Some ''b3:aa'', pk_is_std = False\<rparr>]"

definition sample_head :: bytes where
  "sample_head = TreeHead_render (TreeHead_over toy_blake3 [LogRecord_line sample_record] ''k'')"

lemma sample_head_parse:
  "TreeHead_parse sample_head = Inr (TreeHead_over toy_blake3 [LogRecord_line sample_record] ''k'')"
  by code_simp

lemma sample_mirror: "read_records (File_text (LogRecord_render sample_record)) = Inr [LogRecord_line sample_record]"
  by code_simp

theorem project_check_exact_witness:
  "verify_project_against_log toy_blake3 sample_pkgs (File_text (LogRecord_render sample_record))
     (File_text sample_head) (Some ''k'') = Inr []"
proof -
  have "TreeHead_verify_sig toy_blake3 (TreeHead_over toy_blake3 [LogRecord_line sample_record] ''k'') ''k'' = Inr ()"
    by code_simp
  moreover have "verdict_msgs toy_blake3 [LogRecord_line sample_record]
      (tree_root toy_blake3 [LogRecord_line sample_record]) (drop 1 sample_pkgs) = []"
    by code_simp
  ultimately show ?thesis
    using project_check_exact [OF toy_blake3_ok sample_mirror _ sample_head_parse, of "''k''" sample_pkgs]
    by (simp add: TreeHead_over_def Let_def)
qed

text \<open>
  C25. A mirror that is believed is honest: if the check reports nothing and one package was found in the mirror,
  then the signed part of the mirror is the log the head was made from, line for line, and the package has the
  tree address of its published record, unless the hash collides among the strings of the two trees.
\<close>

theorem project_check_pins_log:
  assumes "b3_ok b" "read_records log_file = Inr lines" "TreeHead_parse t = Inr head"
    and "verify_project_against_log b (root_pkg # pkgs) log_file (File_text t) key = Inr []"
    and "th_size head = length signed" "th_root head = tree_root b signed"
    and "no_collision b (mroot_inputs b signed @ mroot_inputs b (take (length signed) lines))"
    and "p \<in> set pkgs" "\<not> skipped_pkg p" "find_line (pkg_key p @ [CHR 0x20]) 0 (take (length signed) lines) = Some (i, line)"
  shows "take (length signed) lines = signed \<and>
    map_sum id (Some \<circ> lr_tree) (LogRecord_parse (signed ! i)) = Inr (pk_hash p)"
proof -
  have ne: "lines \<noteq> []" using assms(10) by auto
  have le: "length signed \<le> length lines"
    and none: "verdict_msgs b (take (length signed) lines) (th_root head) pkgs = []"
    using assms(2-5) ne check_pkgs_verdict [OF assms(1), of head lines pkgs]
    by (auto simp: verify_project_against_log_def split: sum.splits option.splits if_splits)
  have verdict: "pkg_verdict b (take (length signed) lines) (th_root head) p = None"
    using none assms(8) by (fastforce simp: verdict_msgs_def split: option.splits)
  then have root: "tree_root b (take (length signed) lines) = tree_root b signed"
    and rec: "map_sum id (Some \<circ> lr_tree) (LogRecord_parse line) = Inr (pk_hash p)"
    using assms(6,9,10) by (auto simp: pkg_verdict_def split: sum.splits if_splits)
  have "take (length signed) lines = signed"
    using root le assms(7) by (intro mroot_inj [OF assms(1) _ _ assms(7)]) (auto simp: tree_root_mroot)
  then show ?thesis using rec find_line_Some [OF assms(10)] by auto
qed

theorem project_check_pins_log_witness:
  "map_sum id (Some \<circ> lr_tree) (LogRecord_parse ([LogRecord_line sample_record] ! 0)) = Inr (Some ''b3:aa'')"
proof -
  let ?ls = "[LogRecord_line sample_record]"
  let ?p = "sample_pkgs ! 1"
  have "verify_project_against_log toy_blake3 (sample_pkgs ! 0 # drop 1 sample_pkgs)
      (File_text (LogRecord_render sample_record)) (File_text sample_head) (Some ''k'') = Inr []"
    by code_simp
  moreover have "th_size (TreeHead_over toy_blake3 ?ls ''k'') = length ?ls"
    "th_root (TreeHead_over toy_blake3 ?ls ''k'') = tree_root toy_blake3 ?ls"
    by (simp_all add: TreeHead_over_def Let_def)
  moreover have "no_collision toy_blake3 (mroot_inputs toy_blake3 ?ls @ mroot_inputs toy_blake3 (take (length ?ls) ?ls))"
    by code_simp
  moreover have "?p \<in> set (drop 1 sample_pkgs)" "\<not> skipped_pkg ?p" "pk_hash ?p = Some ''b3:aa''"
    by (simp_all add: sample_pkgs_def skipped_pkg_def)
  moreover have "find_line (pkg_key ?p @ [CHR 0x20]) 0 (take (length ?ls) ?ls) = Some (0, LogRecord_line sample_record)"
    by code_simp
  ultimately show ?thesis
    using project_check_pins_log [OF toy_blake3_ok sample_mirror sample_head_parse] by metis
qed

text \<open>
  A mirror may hide a record. The root is only compared for a package whose key is found, so a mirror of the
  signed length in which the record's line was replaced is accepted, whatever its root and whatever was
  fetched for that package.
\<close>

theorem hidden_record_accepted:
  assumes "b3_ok b" "read_records log_file = Inr lines" "lines \<noteq> []" "TreeHead_parse t = Inr head"
    and "TreeHead_verify_sig b head k = Inr ()" "th_size head \<le> length lines"
    and "list_all (\<lambda>p. find_line (pkg_key p @ [CHR 0x20]) 0 (take (th_size head) lines) = None) (drop 1 pkgs)"
  shows "verify_project_against_log b pkgs log_file (File_text t) (Some k) = Inr []"
proof -
  have "verdict_msgs b (take (th_size head) lines) (th_root head) (drop 1 pkgs) = []"
    using assms(7) by (auto simp: verdict_msgs_def pkg_verdict_def list_all_iff)
  then show ?thesis using assms check_pkgs_verdict [OF assms(1,6)] by (simp add: verify_project_against_log_def)
qed

theorem hidden_record_accepted_witness:
  "verify_project_against_log toy_blake3 sample_pkgs (File_text (''x/y@9.9.9 -'' @ [CHR 0x0A]))
     (File_text sample_head) (Some ''k'') = Inr []"
proof -
  have "read_records (File_text (''x/y@9.9.9 -'' @ [CHR 0x0A])) = Inr [''x/y@9.9.9 -'']"
    "TreeHead_verify_sig toy_blake3 (TreeHead_over toy_blake3 [LogRecord_line sample_record] ''k'') ''k'' = Inr ()"
    "th_size (TreeHead_over toy_blake3 [LogRecord_line sample_record] ''k'') \<le> length [''x/y@9.9.9 -'']"
    "list_all (\<lambda>p. find_line (pkg_key p @ [CHR 0x20]) 0 (take
      (th_size (TreeHead_over toy_blake3 [LogRecord_line sample_record] ''k'')) [''x/y@9.9.9 -'']) = None) (drop 1 sample_pkgs)"
    by code_simp+
  then show ?thesis using hidden_record_accepted [OF toy_blake3_ok _ _ sample_head_parse] by simp
qed

end
