(* ===== verification/Rt_Table.thy ===== *)
theory Rt_Table
  imports Wolf_Prelude
begin

unbundle bit_operations_syntax

text \<open>
  The open-addressed table behind the runtime's handles, \<^verbatim>\<open>crates/wolf_rt/src/handles.rs\<close>: \<open>SeqTable\<close> with
  linear probing, at most half full, and removal that shifts the run behind the hole back. Keys are \<open>u64\<close>
  numbers; a slot is \<open>Some (key, value)\<close> or \<open>None\<close>. The probe loops are partial functions: their \<open>None\<close> is
  a loop that never ends, and the invariant of the table excludes it.
\<close>

section \<open>The operations\<close>

type_synonym 'v slots = "(nat \<times> 'v) option list"

record 'v seq_table =
  st_slots :: "'v slots"
  st_live :: nat

definition MIN_SLOTS :: nat where
  "MIN_SLOTS = 16"

definition SeqTable_new :: "'v seq_table" where
  "SeqTable_new = \<lparr>st_slots = [], st_live = 0\<rparr>"

definition slot :: "'v slots \<Rightarrow> nat \<Rightarrow> (nat \<times> 'v) option" where
  "slot s i = s ! (i AND (length s - 1))"

partial_function (option) find_loop :: "'v slots \<Rightarrow> nat \<Rightarrow> nat \<Rightarrow> nat option option" where
  "find_loop s key i =
     (case slot s i of
        None \<Rightarrow> Some None
      | Some (k, _) \<Rightarrow>
          if k = key then Some (Some i) else find_loop s key ((i + 1) AND (length s - 1)))"

definition SeqTable_find :: "'v seq_table \<Rightarrow> nat \<Rightarrow> nat option option" where
  "SeqTable_find t key =
     (if st_slots t = [] then Some None
      else find_loop (st_slots t) key (key AND (length (st_slots t) - 1)))"

definition SeqTable_get :: "'v seq_table \<Rightarrow> nat \<Rightarrow> 'v option option" where
  "SeqTable_get t key =
     (case SeqTable_find t key of
        None \<Rightarrow> None
      | Some None \<Rightarrow> Some None
      | Some (Some i) \<Rightarrow> Some (map_option snd (st_slots t ! i)))"

text \<open>\<open>get_mut\<close>, with what the caller does to the value behind the reference.\<close>

definition SeqTable_get_mut :: "'v seq_table \<Rightarrow> nat \<Rightarrow> ('v \<Rightarrow> 'v) \<Rightarrow> ('v option \<times> 'v seq_table) option" where
  "SeqTable_get_mut t key f =
     (case SeqTable_find t key of
        None \<Rightarrow> None
      | Some None \<Rightarrow> Some (None, t)
      | Some (Some i) \<Rightarrow>
          Some (map_option snd (st_slots t ! i),
            t\<lparr>st_slots := (st_slots t)[i := map_option (\<lambda>(k, v). (k, f v)) (st_slots t ! i)]\<rparr>))"

partial_function (option) place_loop :: "'v slots \<Rightarrow> nat \<Rightarrow> nat option" where
  "place_loop s i =
     (case slot s i of None \<Rightarrow> Some i | Some _ \<Rightarrow> place_loop s ((i + 1) AND (length s - 1)))"

definition place :: "'v slots \<Rightarrow> nat \<Rightarrow> 'v \<Rightarrow> 'v slots option" where
  "place s key v =
     (case place_loop s (key AND (length s - 1)) of
        None \<Rightarrow> None
      | Some i \<Rightarrow> Some (s[i := Some (key, v)]))"

text \<open>\<open>into_iter().flatten()\<close>\<close>

definition entries :: "'v slots \<Rightarrow> (nat \<times> 'v) list" where
  "entries s = concat (map (\<lambda>x. case x of None \<Rightarrow> [] | Some e \<Rightarrow> [e]) s)"

fun place_all :: "(nat \<times> 'v) list \<Rightarrow> 'v slots \<Rightarrow> 'v slots option" where
  "place_all [] s = Some s"
| "place_all ((k, v) # es) s = (case place s k v of None \<Rightarrow> None | Some s' \<Rightarrow> place_all es s')"

definition rebuild :: "'v seq_table \<Rightarrow> nat \<Rightarrow> 'v seq_table option" where
  "rebuild t len =
     map_option (\<lambda>s. t\<lparr>st_slots := s\<rparr>) (place_all (entries (st_slots t)) (replicate len None))"

definition SeqTable_insert :: "'v seq_table \<Rightarrow> nat \<Rightarrow> 'v \<Rightarrow> 'v seq_table option" where
  "SeqTable_insert t key v =
     (case (if (st_live t + 1) * 2 > length (st_slots t)
            then rebuild t (max (length (st_slots t) * 2) MIN_SLOTS) else Some t) of
        None \<Rightarrow> None
      | Some t' \<Rightarrow>
          (case place (st_slots t') key v of
             None \<Rightarrow> None
           | Some s \<Rightarrow> Some (t'\<lparr>st_slots := s, st_live := st_live t' + 1\<rparr>)))"

text \<open>\<open>usize::wrapping_sub\<close> and \<open>usize::next_power_of_two\<close>\<close>

definition wrapping_sub :: "nat \<Rightarrow> nat \<Rightarrow> nat" where
  "wrapping_sub a b = (a + 2 ^ 64 - b) mod 2 ^ 64"

function next_pow2_from :: "nat \<Rightarrow> nat \<Rightarrow> nat" where
  "next_pow2_from p n = (if 0 < p \<and> p < n then next_pow2_from (2 * p) n else p)"
  by pat_completeness auto
termination by (relation "measure (\<lambda>(p, n). n - p)") auto

declare next_pow2_from.simps [simp del]

definition next_power_of_two :: "nat \<Rightarrow> nat" where
  "next_power_of_two n = next_pow2_from 1 n"

text \<open>The loop that closes the hole.\<close>

partial_function (option) shift_loop :: "'v slots \<Rightarrow> nat \<Rightarrow> nat \<Rightarrow> 'v slots option" where
  "shift_loop s hole j =
     (let mask = length s - 1; j = (j + 1) AND mask
      in case slot s j of
           None \<Rightarrow> Some s
         | Some (k, v) \<Rightarrow>
             let home = k AND mask
             in if (wrapping_sub j home AND mask) \<ge> (wrapping_sub j hole AND mask)
                then shift_loop (s[hole := s ! j, j := None]) j j
                else shift_loop s hole j)"

definition SeqTable_remove :: "'v seq_table \<Rightarrow> nat \<Rightarrow> ('v option \<times> 'v seq_table) option" where
  "SeqTable_remove t key =
     (case SeqTable_find t key of
        None \<Rightarrow> None
      | Some None \<Rightarrow> Some (None, t)
      | Some (Some hole) \<Rightarrow>
          let gone = map_option snd (st_slots t ! hole); live = st_live t - 1
          in case shift_loop ((st_slots t)[hole := None]) hole hole of
               None \<Rightarrow> None
             | Some s \<Rightarrow>
                 let t' = \<lparr>st_slots = s, st_live = live\<rparr>
                 in if length s > MIN_SLOTS * 4 \<and> live * 8 < length s
                    then (case rebuild t' (max (next_power_of_two (live * 4)) MIN_SLOTS) of
                            None \<Rightarrow> None
                          | Some t'' \<Rightarrow> Some (gone, t''))
                    else Some (gone, t'))"

definition SeqTable_values :: "'v seq_table \<Rightarrow> 'v list" where
  "SeqTable_values t = map snd (entries (st_slots t))"

definition SeqTable_len :: "'v seq_table \<Rightarrow> nat" where
  "SeqTable_len t = st_live t"

definition SeqTable_capacity :: "'v seq_table \<Rightarrow> nat" where
  "SeqTable_capacity t = length (st_slots t)"

declare find_loop.simps [code] place_loop.simps [code] shift_loop.simps [code]

end
