(* ===== verification/Rt_Probe.thy ===== *)
theory Rt_Probe
  imports Rt_Table
begin

text \<open>
  Why the probing table of \<^verbatim>\<open>crates/wolf_rt/src/handles.rs\<close> is a finite map: the invariant of the slots (every
  slot between an entry and its home is in use), the loop invariant of the backward shift that closes a hole,
  and the effect of \<open>get\<close>, \<open>get_mut\<close>, \<open>insert\<close> and \<open>remove\<close> on the map, growth and shrinking included.
\<close>

section \<open>Masks and cyclic distance\<close>

text \<open>The slots are a power of two, at most \<open>2 ^ 62\<close> of them (no larger vector exists).\<close>

definition pow2 :: "nat \<Rightarrow> bool" where
  "pow2 n \<longleftrightarrow> (\<exists>e\<le>62. n = 2 ^ e)"

lemma mask_mod: "pow2 n \<Longrightarrow> i AND (n - 1) = i mod n"
  by (auto simp: pow2_def take_bit_eq_mod [symmetric] take_bit_eq_mask mask_eq_exp_minus_1)

lemma pow2_pos: "pow2 n \<Longrightarrow> 0 < n"
  by (auto simp: pow2_def)

definition dist :: "nat \<Rightarrow> nat \<Rightarrow> nat \<Rightarrow> nat" where
  "dist n a b = (if a \<le> b then b - a else b + n - a)"

lemma wrapping_sub_dist:
  assumes "pow2 n" "a < n" "b < n"
  shows "wrapping_sub b a AND (n - 1) = dist n a b"
proof -
  obtain e where e: "n = 2 ^ e" "e \<le> 62" using assms(1) by (auto simp: pow2_def)
  have "n dvd 2 ^ 64" unfolding e(1) by (rule le_imp_power_dvd) (use e in simp)
  then have "(b + 2 ^ 64 - a) mod 2 ^ 64 mod n = (b + 2 ^ 64 - a) mod n" by (rule mod_mod_cancel)
  also obtain q where q: "2 ^ 64 = n * q" using \<open>n dvd 2 ^ 64\<close> by (rule dvdE)
  then have "b + 2 ^ 64 - a = (b + n - a) + n * (q - 1)"
    using assms(2) by (cases q) (simp_all add: algebra_simps)
  then have "(b + 2 ^ 64 - a) mod n = (b + n - a) mod n" by simp
  also have "\<dots> = dist n a b"
    using assms(2,3) by (auto simp: dist_def mod_if)
  finally show ?thesis unfolding wrapping_sub_def mask_mod [OF assms(1)] .
qed

definition next_slot :: "nat \<Rightarrow> nat \<Rightarrow> nat" where
  "next_slot n i = (if Suc i = n then 0 else Suc i)"

lemma next_slot_mask: "pow2 n \<Longrightarrow> i < n \<Longrightarrow> (i + 1) AND (n - 1) = next_slot n i"
  by (subst mask_mod) (auto simp: next_slot_def)

lemma next_slot_less: "0 < n \<Longrightarrow> i < n \<Longrightarrow> next_slot n i < n"
  by (auto simp: next_slot_def)

lemma dist_less: "a < n \<Longrightarrow> b < n \<Longrightarrow> dist n a b < n"
  by (auto simp: dist_def)

lemma dist_eq: "a < n \<Longrightarrow> b < n \<Longrightarrow> c < n \<Longrightarrow> dist n a b = dist n a c \<longleftrightarrow> b = c"
  by (auto simp: dist_def split: if_splits)

lemma dist_self [simp]: "dist n a a = 0"
  by (simp add: dist_def)

text \<open>One step nearer an empty slot, one further from home.\<close>

lemma dist_next_to: "i < n \<Longrightarrow> q < n \<Longrightarrow> i \<noteq> q \<Longrightarrow> dist n (next_slot n i) q < dist n i q"
  by (auto simp: dist_def next_slot_def split: if_splits)

lemma dist_next_from:
  "h < n \<Longrightarrow> i < n \<Longrightarrow> p < n \<Longrightarrow> dist n h p < dist n h (next_slot n i) \<Longrightarrow> dist n h p < dist n h i \<or> p = i"
  by (auto simp: dist_def next_slot_def split: if_splits)

text \<open>Passing the hole on the way from home.\<close>

lemma dist_passes:
  "h < n \<Longrightarrow> x < n \<Longrightarrow> j < n \<Longrightarrow> x \<noteq> j \<Longrightarrow> dist n x j \<le> dist n h j \<longleftrightarrow> dist n h x < dist n h j"
  by (auto simp: dist_def split: if_splits)

section \<open>The invariant of the slots\<close>

text \<open>
  Every slot between an entry's home and the entry is in use, keys do not repeat, and some slot is empty.
\<close>

definition holds :: "'v slots \<Rightarrow> nat \<Rightarrow> nat \<Rightarrow> 'v \<Rightarrow> bool" where
  "holds s i k v \<longleftrightarrow> i < length s \<and> s ! i = Some (k, v)"

definition home :: "'v slots \<Rightarrow> nat \<Rightarrow> nat" where
  "home s k = k mod length s"

definition probe_ok :: "'v slots \<Rightarrow> bool" where
  "probe_ok s \<longleftrightarrow> (\<forall>i k v. holds s i k v \<longrightarrow>
     (\<forall>p<length s. dist (length s) (home s k) p < dist (length s) (home s k) i \<longrightarrow> s ! p \<noteq> None))"

definition keys_ok :: "'v slots \<Rightarrow> bool" where
  "keys_ok s \<longleftrightarrow> (\<forall>i j k v w. holds s i k v \<longrightarrow> holds s j k w \<longrightarrow> i = j)"

definition has_room :: "'v slots \<Rightarrow> bool" where
  "has_room s \<longleftrightarrow> (\<exists>q<length s. s ! q = None)"

definition slots_ok :: "'v slots \<Rightarrow> bool" where
  "slots_ok s \<longleftrightarrow> pow2 (length s) \<and> probe_ok s \<and> keys_ok s \<and> has_room s"

lemma slot_nth: "pow2 (length s) \<Longrightarrow> i < length s \<Longrightarrow> slot s i = s ! i"
  unfolding slot_def by (subst mask_mod) auto

lemma home_mask: "pow2 (length s) \<Longrightarrow> k AND (length s - 1) = home s k"
  unfolding home_def by (rule mask_mod)

lemma home_less: "pow2 (length s) \<Longrightarrow> home s k < length s"
  unfolding home_def by (rule mod_less_divisor) (rule pow2_pos)

text \<open>A probe from the home of a key ends, at the entry or at an empty slot with no entry for the key.\<close>

definition found :: "'v slots \<Rightarrow> nat \<Rightarrow> nat option \<Rightarrow> bool" where
  "found s key r \<longleftrightarrow>
     (case r of Some x \<Rightarrow> \<exists>v. holds s x key v | None \<Rightarrow> \<forall>x v. \<not> holds s x key v)"

lemma find_loop_found:
  assumes ok: "slots_ok s" and q: "q < length s" "s ! q = None"
  shows "i < length s \<Longrightarrow>
    (\<And>p. p < length s \<Longrightarrow> dist (length s) (home s key) p < dist (length s) (home s key) i \<Longrightarrow>
      s ! p \<noteq> None \<and> fst (the (s ! p)) \<noteq> key) \<Longrightarrow>
    \<exists>r. find_loop s key i = Some r \<and> found s key r"
proof (induction "dist (length s) i q" arbitrary: i rule: less_induct)
  case less
  let ?n = "length s"
  have n: "pow2 ?n" "probe_ok s" using ok by (auto simp: slots_ok_def)
  note h = home_less [OF n(1), of key]
  show ?case
  proof (cases "s ! i")
    case None
    have "\<not> holds s x key v" for x v
    proof
      assume x: "holds s x key v"
      then have "x < ?n" "s ! x = Some (key, v)" by (auto simp: holds_def)
      moreover have "\<not> dist ?n (home s key) i < dist ?n (home s key) x"
        using n(2) x less.prems(1) None by (fastforce simp: probe_ok_def)
      moreover have "x \<noteq> i" using None \<open>s ! x = _\<close> by auto
      ultimately have "dist ?n (home s key) x < dist ?n (home s key) i"
        using dist_eq [OF h \<open>x < ?n\<close> less.prems(1)] by linarith
      then show False using less.prems(2) [OF \<open>x < ?n\<close>] \<open>s ! x = _\<close> by simp
    qed
    then show ?thesis
      using None less.prems(1) n(1) by (subst find_loop.simps) (simp add: slot_nth found_def)
  next
    case (Some kv)
    obtain k v where kv: "kv = (k, v)" by (cases kv)
    show ?thesis
    proof (cases "k = key")
      case True
      then show ?thesis using Some kv less.prems(1) n(1)
        by (subst find_loop.simps) (auto simp: slot_nth found_def holds_def)
    next
      case False
      let ?j = "next_slot ?n i"
      have "i \<noteq> q" using Some q by auto
      then have d: "dist ?n ?j q < dist ?n i q" by (rule dist_next_to [OF less.prems(1) q(1)])
      have j: "?j < ?n" using less.prems(1) by (intro next_slot_less) auto
      have "find_loop s key i = find_loop s key ?j"
        using Some kv False less.prems(1) n(1)
        by (subst find_loop.simps) (simp add: slot_nth next_slot_mask [simplified])
      moreover have "\<exists>r. find_loop s key ?j = Some r \<and> found s key r"
      proof (rule less.hyps [OF d j])
        fix p
        assume p: "p < ?n" "dist ?n (home s key) p < dist ?n (home s key) ?j"
        show "s ! p \<noteq> None \<and> fst (the (s ! p)) \<noteq> key"
          using dist_next_from [OF h less.prems(1) p] less.prems(2) [OF p(1)] Some kv False by auto
      qed
      ultimately show ?thesis by simp
    qed
  qed
qed

lemma find_found:
  assumes "slots_ok s"
  shows "\<exists>r. find_loop s key (key AND (length s - 1)) = Some r \<and> found s key r"
proof -
  obtain q where "q < length s" "s ! q = None" using assms by (auto simp: slots_ok_def has_room_def)
  then show ?thesis
    using find_loop_found [OF assms, of q "home s key" key] assms home_mask [of s key] home_less [of s key]
    by (auto simp: slots_ok_def)
qed

section \<open>Placing an entry\<close>

lemma place_loop_ok:
  assumes n: "pow2 (length s)" and q: "q < length s" "s ! q = None" and h: "h < length s"
  shows "i < length s \<Longrightarrow>
    (\<And>p. p < length s \<Longrightarrow> dist (length s) h p < dist (length s) h i \<Longrightarrow> s ! p \<noteq> None) \<Longrightarrow>
    \<exists>r. place_loop s i = Some r \<and> r < length s \<and> s ! r = None \<and>
      (\<forall>p<length s. dist (length s) h p < dist (length s) h r \<longrightarrow> s ! p \<noteq> None)"
proof (induction "dist (length s) i q" arbitrary: i rule: less_induct)
  case less
  show ?case
  proof (cases "s ! i")
    case None
    then show ?thesis using less.prems n by (subst place_loop.simps) (auto simp: slot_nth)
  next
    case (Some kv)
    let ?j = "next_slot (length s) i"
    have "i \<noteq> q" using Some q by auto
    then have d: "dist (length s) ?j q < dist (length s) i q" by (rule dist_next_to [OF less.prems(1) q(1)])
    have j: "?j < length s" using less.prems(1) by (intro next_slot_less) auto
    have "place_loop s i = place_loop s ?j"
      using Some less.prems(1) n by (subst place_loop.simps) (simp add: slot_nth next_slot_mask [simplified])
    moreover have "\<exists>r. place_loop s ?j = Some r \<and> r < length s \<and> s ! r = None \<and>
        (\<forall>p<length s. dist (length s) h p < dist (length s) h r \<longrightarrow> s ! p \<noteq> None)"
    proof (rule less.hyps [OF d j])
      fix p
      assume p: "p < length s" "dist (length s) h p < dist (length s) h ?j"
      show "s ! p \<noteq> None"
        using dist_next_from [OF h less.prems(1) p] less.prems(2) [OF p(1)] Some by auto
    qed
    ultimately show ?thesis by simp
  qed
qed

text \<open>How many slots are in use, and what the slots hold as a map.\<close>

lemma entries_simps [simp]: "entries [] = []" "entries (x # s) = (case x of None \<Rightarrow> [] | Some e \<Rightarrow> [e]) @ entries s"
  by (simp_all add: entries_def)

lemma entries_append [simp]: "entries (s @ s') = entries s @ entries s'"
  by (simp add: entries_def)

lemma entries_mem: "(k, v) \<in> set (entries s) \<longleftrightarrow> (\<exists>i. holds s i k v)"
proof -
  have "e \<in> set (entries s) \<longleftrightarrow> Some e \<in> set s" for e
    by (cases e, induction s) (auto split: option.splits)
  then show ?thesis by (simp add: holds_def in_set_conv_nth)
qed

lemma entries_put:
  assumes "i < length s" "s ! i = None"
  shows "length (entries (s[i := Some e])) = Suc (length (entries s))"
    "set (entries (s[i := Some e])) = insert e (set (entries s))"
proof -
  have s: "s = take i s @ None # drop (Suc i) s" using assms by (metis id_take_nth_drop)
  have "entries s = entries (take i s) @ entries (drop (Suc i) s)"
    by (subst s) simp
  then show "length (entries (s[i := Some e])) = Suc (length (entries s))"
    "set (entries (s[i := Some e])) = insert e (set (entries s))"
    using assms by (auto simp: upd_conv_take_nth_drop)
qed

lemma entries_take:
  assumes "i < length s" "s ! i = Some e"
  shows "length (entries s) = Suc (length (entries (s[i := None])))"
    "set (entries s) = insert e (set (entries (s[i := None])))"
proof -
  have "entries s = entries (take i s) @ e # entries (drop (Suc i) s)"
    using assms by (subst id_take_nth_drop [OF assms(1)]) simp
  then show "length (entries s) = Suc (length (entries (s[i := None])))"
    "set (entries s) = insert e (set (entries (s[i := None])))"
    using assms by (simp_all add: upd_conv_take_nth_drop)
qed

lemma entries_bound: "length (entries s) \<le> length s"
  by (induction s) (auto split: option.splits)

lemma entries_room: "length (entries s) < length s \<Longrightarrow> has_room s"
proof -
  have "length (entries s) < length s \<Longrightarrow> None \<in> set s"
    by (induction s) (auto split: option.splits)
  then show "length (entries s) < length s \<Longrightarrow> has_room s"
    by (auto simp: has_room_def in_set_conv_nth)
qed

lemma entries_replicate [simp]: "entries (replicate n None) = []"
  by (induction n) auto

definition slot_map :: "'v slots \<Rightarrow> nat \<Rightarrow> 'v option" where
  "slot_map s = map_of (entries s)"

lemma keys_distinct: "keys_ok s \<Longrightarrow> distinct (map fst (entries s))"
proof (induction s)
  case (Cons x s)
  have tl: "keys_ok s" unfolding keys_ok_def
  proof (intro allI impI)
    fix i j k v w
    assume "holds s i k v" "holds s j k w"
    then have "holds (x # s) (Suc i) k v" "holds (x # s) (Suc j) k w" by (auto simp: holds_def)
    then show "i = j" using Cons.prems unfolding keys_ok_def by blast
  qed
  show ?case
  proof (cases x)
    case (Some e)
    obtain k v where e: "e = (k, v)" by (cases e)
    have "(k, w) \<notin> set (entries s)" for w
    proof
      assume "(k, w) \<in> set (entries s)"
      then obtain i where "holds s i k w" by (auto simp: entries_mem)
      then have "holds (x # s) (Suc i) k w" "holds (x # s) 0 k v" using Some e by (auto simp: holds_def)
      then show False using Cons.prems unfolding keys_ok_def by blast
    qed
    then show ?thesis using Some e Cons.IH [OF tl] by force
  qed (use Cons.IH [OF tl] in simp)
qed simp

lemma slot_map_Some: "keys_ok s \<Longrightarrow> slot_map s k = Some v \<longleftrightarrow> (\<exists>i. holds s i k v)"
  by (simp add: slot_map_def entries_mem [symmetric] keys_distinct)

lemma slot_map_None: "slot_map s k = None \<longleftrightarrow> (\<forall>i v. \<not> holds s i k v)"
proof -
  have "slot_map s k = None \<longleftrightarrow> (\<forall>v. (k, v) \<notin> set (entries s))"
    by (auto simp: slot_map_def map_of_eq_None_iff image_iff)
  then show ?thesis by (auto simp: entries_mem)
qed

text \<open>A table with fewer entries than slots takes another key.\<close>

lemma place_ok:
  assumes ok: "slots_ok s" and new: "slot_map s key = None"
  shows "\<exists>s'. place s key v = Some s' \<and> length s' = length s \<and> pow2 (length s') \<and> probe_ok s' \<and> keys_ok s' \<and>
    slot_map s' = (slot_map s)(key \<mapsto> v) \<and> length (entries s') = Suc (length (entries s))"
proof -
  let ?n = "length s"
  have n: "pow2 ?n" "probe_ok s" "keys_ok s" using ok by (auto simp: slots_ok_def)
  obtain q where q: "q < ?n" "s ! q = None" using ok by (auto simp: slots_ok_def has_room_def)
  note h = home_less [OF n(1), of key]
  obtain r where r: "place_loop s (home s key) = Some r" "r < ?n" "s ! r = None"
    "\<And>p. p < ?n \<Longrightarrow> dist ?n (home s key) p < dist ?n (home s key) r \<Longrightarrow> s ! p \<noteq> None"
    using place_loop_ok [OF n(1) q h h] by auto
  define s' where "s' = s[r := Some (key, v)]"
  have pl: "place s key v = Some s'" using r(1) home_mask [OF n(1)] by (simp add: place_def s'_def)
  have held: "holds s' i k w \<longleftrightarrow> (i = r \<and> k = key \<and> w = v) \<or> holds s i k w" for i k w
    using r(2,3) by (auto simp: holds_def s'_def nth_list_update)
  have used: "s' ! p \<noteq> None" if "s ! p \<noteq> None" "p < ?n" for p
    using that by (cases "p = r") (auto simp: s'_def)
  have "probe_ok s'" unfolding probe_ok_def
  proof (intro allI impI)
    fix i k w p
    assume a: "holds s' i k w" "p < length s'" "dist (length s') (home s' k) p < dist (length s') (home s' k) i"
    then have a': "p < ?n" "dist ?n (home s k) p < dist ?n (home s k) i" by (auto simp: s'_def home_def)
    from a(1) have "s ! p \<noteq> None"
      using n(2) r(4) a' unfolding held probe_ok_def by blast
    then show "s' ! p \<noteq> None" using used a'(1) by blast
  qed
  moreover have k': "keys_ok s'"
    using n(3) new unfolding keys_ok_def held slot_map_None by blast
  moreover have "slot_map s' = (slot_map s)(key \<mapsto> v)"
  proof
    fix k
    show "slot_map s' k = ((slot_map s)(key \<mapsto> v)) k"
    proof (cases "\<exists>w. slot_map s' k = Some w")
      case True
      then obtain w where w: "slot_map s' k = Some w" by blast
      then have "(k = key \<and> w = v) \<or> slot_map s k = Some w"
        using slot_map_Some [OF k'] slot_map_Some [OF n(3)] unfolding held by blast
      then show ?thesis using w new by auto
    next
      case False
      then show ?thesis using slot_map_None [of s' k] slot_map_None [of s k] by (auto simp: held)
    qed
  qed
  ultimately show ?thesis
    using pl n(1) entries_put(1) [OF r(2,3)] by (simp add: s'_def)
qed

lemma place_all_ok:
  assumes "distinct (map fst es)" "\<forall>k\<in>set (map fst es). slot_map s k = None"
    and "pow2 (length s)" "probe_ok s" "keys_ok s" "length (entries s) + length es < length s"
  shows "\<exists>s'. place_all es s = Some s' \<and> length s' = length s \<and> probe_ok s' \<and> keys_ok s' \<and>
    slot_map s' = slot_map s ++ map_of es \<and> length (entries s') = length (entries s) + length es"
  using assms
proof (induction es arbitrary: s)
  case (Cons e es)
  obtain k v where e: "e = (k, v)" by (cases e)
  have "slots_ok s" using Cons.prems entries_room [of s] by (auto simp: slots_ok_def)
  moreover have "slot_map s k = None" using Cons.prems(2) e by simp
  ultimately obtain s1 where s1: "place s k v = Some s1" "length s1 = length s" "pow2 (length s1)" "probe_ok s1"
    "keys_ok s1" "slot_map s1 = (slot_map s)(k \<mapsto> v)" "length (entries s1) = Suc (length (entries s))"
    using place_ok [of s k v] by auto
  have "\<exists>s'. place_all es s1 = Some s' \<and> length s' = length s1 \<and> probe_ok s' \<and> keys_ok s' \<and>
      slot_map s' = slot_map s1 ++ map_of es \<and> length (entries s') = length (entries s1) + length es"
    using Cons.prems e s1 by (intro Cons.IH) auto
  moreover have "(slot_map s)(k \<mapsto> v) ++ map_of es = slot_map s ++ (map_of es)(k \<mapsto> v)"
  proof -
    have "map_of es k = None" using Cons.prems(1) e by (simp add: map_of_eq_None_iff)
    then show ?thesis by (auto simp: map_add_def fun_eq_iff split: option.splits)
  qed
  moreover have "map_of (e # es) = (map_of es)(k \<mapsto> v)" using e by (auto simp: fun_eq_iff)
  moreover have "place_all (e # es) s = place_all es s1" using e s1(1) by simp
  ultimately show ?case using s1 by (metis add_Suc_shift length_Cons)
qed simp

section \<open>Closing the hole\<close>

text \<open>
  The loop's invariant: the hole is empty, the slots after it up to \<open>j\<close> are in use, every entry's way home
  is in use but for the hole, and no entry between the hole and \<open>j\<close> has the hole on its way.
\<close>

definition hole_inv :: "'v slots \<Rightarrow> nat \<Rightarrow> nat \<Rightarrow> bool" where
  "hole_inv s hole j \<longleftrightarrow>
     hole < length s \<and> j < length s \<and> s ! hole = None \<and>
     (\<forall>p<length s. 0 < dist (length s) hole p \<and> dist (length s) hole p \<le> dist (length s) hole j \<longrightarrow> s ! p \<noteq> None) \<and>
     (\<forall>i k v. holds s i k v \<longrightarrow>
        (\<forall>p<length s. dist (length s) (home s k) p < dist (length s) (home s k) i \<longrightarrow> s ! p \<noteq> None \<or> p = hole)) \<and>
     (\<forall>i k v. holds s i k v \<longrightarrow> dist (length s) hole i \<le> dist (length s) hole j \<longrightarrow>
        \<not> dist (length s) (home s k) hole < dist (length s) (home s k) i)"

lemma dist_next_same:
  "x < n \<Longrightarrow> j < n \<Longrightarrow> next_slot n j \<noteq> x \<Longrightarrow> dist n x (next_slot n j) = Suc (dist n x j)"
  by (auto simp: dist_def next_slot_def split: if_splits)

lemma dist_add: "a < n \<Longrightarrow> b < n \<Longrightarrow> c < n \<Longrightarrow> dist n a b + dist n b c < n \<Longrightarrow> dist n a c = dist n a b + dist n b c"
  by (auto simp: dist_def split: if_splits)
lemma dist_sub: "a < n \<Longrightarrow> b < n \<Longrightarrow> c < n \<Longrightarrow> dist n a b \<le> dist n a c \<Longrightarrow> dist n a c = dist n a b + dist n b c"
  by (auto simp: dist_def split: if_splits)
lemma dist_round: "x < n \<Longrightarrow> j < n \<Longrightarrow> next_slot n j = x \<Longrightarrow> Suc (dist n x j) = n"
  by (auto simp: dist_def next_slot_def split: if_splits)
lemma dist_beyond:
  assumes "h < n" "x < n" "j < n" "i < n"
    and "dist n h x < dist n h i" "\<not> dist n x i \<le> dist n x j" "next_slot n j \<noteq> i"
  shows "next_slot n j \<noteq> x \<and> dist n h (next_slot n j) < dist n h i"
proof -
  have nj: "next_slot n j < n" using assms(3) by (intro next_slot_less) auto
  have i: "dist n h i = dist n h x + dist n x i" using assms by (intro dist_sub) auto
  have x: "next_slot n j \<noteq> x" using dist_round assms(2,3,6) dist_less [OF assms(2,4)] by fastforce
  have "dist n x (next_slot n j) = Suc (dist n x j)" by (rule dist_next_same [OF assms(2,3) x])
  moreover have "dist n x (next_slot n j) \<noteq> dist n x i"
    using dist_eq [OF assms(2) nj assms(4)] assms(7) by simp
  ultimately have "dist n x (next_slot n j) < dist n x i" using assms(6) by linarith
  then show ?thesis using dist_add [OF assms(1,2) nj] i dist_less [OF assms(1,4)] x by linarith
qed

text \<open>The loop ends at an empty slot: the hole is on nobody's way.\<close>

lemma hole_inv_end:
  assumes n: "pow2 (length s)" and inv: "hole_inv s hole j" and e: "s ! next_slot (length s) j = None"
  shows "probe_ok s"
proof -
  let ?n = "length s"
  have b: "hole < ?n" "j < ?n" "s ! hole = None"
    and way: "\<And>i k v p. holds s i k v \<Longrightarrow> p < ?n \<Longrightarrow> dist ?n (home s k) p < dist ?n (home s k) i \<Longrightarrow>
      s ! p \<noteq> None \<or> p = hole"
    and near: "\<And>i k v. holds s i k v \<Longrightarrow> dist ?n hole i \<le> dist ?n hole j \<Longrightarrow>
      \<not> dist ?n (home s k) hole < dist ?n (home s k) i"
    using inv unfolding hole_inv_def by blast+
  have nj: "next_slot ?n j < ?n" using b(2) by (intro next_slot_less) auto
  have "\<not> dist ?n (home s k) hole < dist ?n (home s k) i" if i: "holds s i k v" for i k v
  proof
    assume d: "dist ?n (home s k) hole < dist ?n (home s k) i"
    have "i < ?n" "s ! i = Some (k, v)" using i by (auto simp: holds_def)
    then have "hole \<noteq> i" "next_slot ?n j \<noteq> i" using b e by auto
    then have "next_slot ?n j \<noteq> hole \<and> dist ?n (home s k) (next_slot ?n j) < dist ?n (home s k) i"
      using dist_beyond [OF home_less [OF n, of k] b(1,2) \<open>i < ?n\<close> d] near [OF i] d by blast
    then show False using way [OF i nj] e by blast
  qed
  then show ?thesis using way unfolding probe_ok_def by blast
qed

text \<open>One turn: the entry at \<open>j\<close> stays, or moves into the hole and leaves the hole behind.\<close>

lemma hole_inv_stay:
  assumes n: "pow2 (length s)" and inv: "hole_inv s hole j" and j': "j' = next_slot (length s) j"
    and e: "s ! j' = Some (k, v)"
    and stay: "\<not> dist (length s) hole j' \<le> dist (length s) (home s k) j'"
  shows "hole_inv s hole j'"
proof -
  let ?n = "length s"
  have b: "hole < ?n" "j < ?n" "s ! hole = None" using inv by (auto simp: hole_inv_def)
  have j: "j' < ?n" "j' \<noteq> hole" using b(2,3) e j' by (auto intro: next_slot_less)
  have d: "dist ?n hole j' = Suc (dist ?n hole j)"
    using dist_next_same [OF b(1,2)] j(2) j' by simp
  have at: "p = j'" if "p < ?n" "dist ?n hole p \<le> dist ?n hole j'" "\<not> dist ?n hole p \<le> dist ?n hole j" for p
    using that d dist_eq [OF b(1) that(1) j(1)] by linarith
  have "\<not> dist ?n (home s k) hole < dist ?n (home s k) j'"
    using stay dist_passes [OF home_less [OF n, of k] b(1) j(1)] j(2) by simp
  then have new: "\<not> dist ?n (home s k') hole < dist ?n (home s k') i"
    if "holds s i k' w" "i = j'" for i k' w
    using that e by (simp add: holds_def)
  show ?thesis unfolding hole_inv_def
  proof (intro conjI allI impI)
    fix p
    assume "p < ?n" "0 < dist ?n hole p \<and> dist ?n hole p \<le> dist ?n hole j'"
    then show "s ! p \<noteq> None" using inv at [of p] e unfolding hole_inv_def by (metis option.distinct(1))
  next
    fix i k' w
    assume i: "holds s i k' w" "dist ?n hole i \<le> dist ?n hole j'"
    then have "i < ?n" by (simp add: holds_def)
    with i show "\<not> dist ?n (home s k') hole < dist ?n (home s k') i"
      using inv at [of i] new [OF i(1)] unfolding hole_inv_def by blast
  next
    fix i k' w p
    assume "holds s i k' w" "p < ?n" "dist ?n (home s k') p < dist ?n (home s k') i"
    then show "s ! p \<noteq> None \<or> p = hole" using inv unfolding hole_inv_def by blast
  qed (use b j in auto)
qed

lemma holds_move:
  assumes "hole < length s" "j < length s" "s ! hole = None" "s ! j = Some e"
  shows "holds (s[hole := s ! j, j := None]) i k v \<longleftrightarrow> (i = hole \<and> e = (k, v)) \<or> (i \<noteq> j \<and> holds s i k v)"
  using assms by (auto simp: holds_def nth_list_update)

lemma dist_toward: "h < n \<Longrightarrow> x < n \<Longrightarrow> j < n \<Longrightarrow> p < n \<Longrightarrow> dist n h x < dist n h j \<Longrightarrow> dist n h p < dist n h x \<Longrightarrow>
    dist n h p < dist n h j \<and> p \<noteq> x \<and> p \<noteq> j"
  by auto

lemma hole_inv_move:
  assumes n: "pow2 (length s)" and inv: "hole_inv s hole j" and j': "j' = next_slot (length s) j"
    and e: "s ! j' = Some (k, v)"
    and moves: "dist (length s) hole j' \<le> dist (length s) (home s k) j'"
  shows "hole_inv (s[hole := s ! j', j' := None]) j' j'"
proof -
  let ?n = "length s" and ?s = "s[hole := s ! j', j' := None]"
  have b: "hole < ?n" "j < ?n" "s ! hole = None"
    and way: "\<And>i k v p. holds s i k v \<Longrightarrow> p < ?n \<Longrightarrow> dist ?n (home s k) p < dist ?n (home s k) i \<Longrightarrow>
      s ! p \<noteq> None \<or> p = hole"
    using inv unfolding hole_inv_def by blast+
  have j: "j' < ?n" "j' \<noteq> hole" using b(2,3) e j' by (auto intro: next_slot_less)
  have pass: "dist ?n (home s k) hole < dist ?n (home s k) j'"
    using moves dist_passes [OF home_less [OF n, of k] b(1) j(1)] j(2) by simp
  have at_j: "holds s j' k v" using e j by (simp add: holds_def)
  have used: "?s ! p \<noteq> None \<or> p = j'" if "s ! p \<noteq> None \<or> p = hole" "p < ?n" for p
    using that b e j by (auto simp: nth_list_update)
  have [simp]: "home ?s k' = home s k'" for k' by (simp add: home_def)
  show ?thesis unfolding hole_inv_def
  proof (intro conjI allI impI)
    fix i k' w p
    assume i: "holds ?s i k' w" and p: "p < length ?s" "dist (length ?s) (home ?s k') p < dist (length ?s) (home ?s k') i"
    from i consider "i = hole" "k' = k" | "holds s i k' w" using holds_move [OF b(1) j(1) b(3) e] by auto
    then have "s ! p \<noteq> None \<or> p = hole"
    proof cases
      case 1
      then show ?thesis using way [OF at_j] p pass by simp
    next
      case 2
      then show ?thesis using way p by simp
    qed
    then show "?s ! p \<noteq> None \<or> p = j'" using used p(1) by simp
  next
    fix p assume "p < length ?s" "0 < dist (length ?s) j' p \<and> dist (length ?s) j' p \<le> dist (length ?s) j' j'"
    then show "?s ! p \<noteq> None" by auto
  next
    fix i k' w assume i: "holds ?s i k' w" "dist (length ?s) j' i \<le> dist (length ?s) j' j'"
    then have "i < ?n" "i \<noteq> j'" using j by (auto simp: holds_def)
    then show "\<not> dist (length ?s) (home ?s k') j' < dist (length ?s) (home ?s k') i"
      using i(2) dist_eq [OF j(1) _ j(1), of i] by simp
  qed (use j in auto)
qed

lemma shift_loop_ok:
  assumes "pow2 (length s)" "hole_inv s hole j" "keys_ok s" "q < length s" "s ! q = None" "q \<noteq> hole"
  shows "\<exists>s'. shift_loop s hole j = Some s' \<and> length s' = length s \<and> probe_ok s' \<and> keys_ok s' \<and>
    set (entries s') = set (entries s) \<and> length (entries s') = length (entries s)"
  using assms
proof (induction "dist (length s) j q" arbitrary: s hole j rule: less_induct)
  case less
  let ?n = "length s"
  define j' where "j' = next_slot ?n j"
  have b: "hole < ?n" "j < ?n" "s ! hole = None" using less.prems(2) by (auto simp: hole_inv_def)
  have j: "j' < ?n" using b(2) unfolding j'_def by (intro next_slot_less) auto
  have step: "shift_loop s hole j =
      (case s ! j' of
         None \<Rightarrow> Some s
       | Some (k, v) \<Rightarrow>
           if dist ?n hole j' \<le> dist ?n (home s k) j' then shift_loop (s[hole := s ! j', j' := None]) j' j'
           else shift_loop s hole j')"
  proof -
    have nxt: "(j + 1) AND (?n - 1) = j'" unfolding j'_def by (rule next_slot_mask [OF less.prems(1) b(2)])
    have hole_d: "wrapping_sub j' hole AND (?n - 1) = dist ?n hole j'"
      and home_d: "\<And>k. wrapping_sub j' (k AND (?n - 1)) AND (?n - 1) = dist ?n (home s k) j'"
      unfolding home_mask [OF less.prems(1)]
      using wrapping_sub_dist [OF less.prems(1), unfolded home_mask [OF less.prems(1)]]
        home_less [OF less.prems(1)] b(1) j by blast+
    show ?thesis
      by (subst shift_loop.simps)
        (simp only: Let_def nxt slot_nth [OF less.prems(1) j] hole_d home_d)
  qed
  show ?case
  proof (cases "s ! j'")
    case None
    then show ?thesis
      using step hole_inv_end [OF less.prems(1,2)] less.prems(3) by (simp add: j'_def)
  next
    case (Some kv)
    obtain k v where kv: "kv = (k, v)" by (cases kv)
    have e: "s ! j' = Some (k, v)" using Some kv by simp
    have near: "dist ?n j' q < dist ?n j q" if "j \<noteq> q"
      using dist_next_to [OF b(2) less.prems(4) that] by (simp add: j'_def)
    have "j \<noteq> q"
    proof
      assume "j = q"
      then have "0 < dist ?n hole q \<and> dist ?n hole q \<le> dist ?n hole j"
        using less.prems(6) dist_eq [OF b(1) less.prems(4) b(1)] by auto
      then show False using less.prems(2,4,5) unfolding hole_inv_def by blast
    qed
    note near = near [OF this]
    show ?thesis
    proof (cases "dist ?n hole j' \<le> dist ?n (home s k) j'")
      case True
      let ?s = "s[hole := s ! j', j' := None]"
      have hj: "hole \<noteq> j'" using b(3) e by auto
      have inv: "hole_inv ?s j' j'" by (rule hole_inv_move [OF less.prems(1,2) j'_def e True])
      have keys: "keys_ok ?s"
        using less.prems(3) hj e j b holds_move [OF b(1) j b(3) e]
        unfolding keys_ok_def by (simp add: holds_def) blast
      have "q \<noteq> j'" using less.prems(5) e by auto
      then have q: "?s ! q = None" "q \<noteq> j'" using less.prems(5,6) by simp_all
      have swap: "?s = (s[j' := None])[hole := Some (k, v)]" using hj e by (simp add: list_update_swap)
      have h: "hole < length (s[j' := None])" "s[j' := None] ! hole = None" using b hj by simp_all
      have "length (entries ?s) = length (entries s) \<and> set (entries ?s) = set (entries s)"
        using entries_take [OF j e] entries_put [OF h, where e = "(k, v)"] unfolding swap by simp_all
      moreover have "\<exists>s'. shift_loop ?s j' j' = Some s' \<and> length s' = length ?s \<and> probe_ok s' \<and> keys_ok s' \<and>
          set (entries s') = set (entries ?s) \<and> length (entries s') = length (entries ?s)"
        by (rule less.hyps) (use near inv keys q less.prems(1,4) in simp_all)
      ultimately show ?thesis using step e True by simp
    next
      case False
      have "hole_inv s hole j'" by (rule hole_inv_stay [OF less.prems(1,2) j'_def e False])
      then have "\<exists>s'. shift_loop s hole j' = Some s' \<and> length s' = length s \<and> probe_ok s' \<and> keys_ok s' \<and>
          set (entries s') = set (entries s) \<and> length (entries s') = length (entries s)"
        by (intro less.hyps) (use near less.prems in simp_all)
      then show ?thesis using step e False by simp
    qed
  qed
qed

section \<open>The table as a finite map\<close>

text \<open>
  The invariant of a table: empty, or a well-formed slot vector at most half full, with the count of its
  entries and storage bounded by them.
\<close>

definition table_ok :: "'v seq_table \<Rightarrow> bool" where
  "table_ok t \<longleftrightarrow>
     st_live t = length (entries (st_slots t)) \<and>
     length (st_slots t) \<le> max 64 (8 * st_live t) \<and>
     (st_slots t = [] \<or>
      pow2 (length (st_slots t)) \<and> MIN_SLOTS \<le> length (st_slots t) \<and> 2 * st_live t \<le> length (st_slots t) \<and>
      probe_ok (st_slots t) \<and> keys_ok (st_slots t))"

definition table_map :: "'v seq_table \<Rightarrow> nat \<Rightarrow> 'v option" where
  "table_map t = slot_map (st_slots t)"

text \<open>No vector of slots is longer than \<open>2 ^ 62\<close>: a table this full never has to grow past it.\<close>

definition table_room :: "'v seq_table \<Rightarrow> bool" where
  "table_room t \<longleftrightarrow> st_live t < 2 ^ 60"

lemma table_new_ok [simp]: "table_ok SeqTable_new" "table_map SeqTable_new = Map.empty" "st_live SeqTable_new = 0"
  by (simp_all add: table_ok_def SeqTable_new_def table_map_def slot_map_def)

lemma table_slots_ok: "table_ok t \<Longrightarrow> st_slots t \<noteq> [] \<Longrightarrow> slots_ok (st_slots t)"
  using entries_room [of "st_slots t"] by (auto simp: table_ok_def slots_ok_def MIN_SLOTS_def)

lemma table_find:
  assumes "table_ok t"
  shows "\<exists>r. SeqTable_find t key = Some r \<and> found (st_slots t) key r"
  using find_found [OF table_slots_ok [OF assms], of key]
  by (cases "st_slots t = []") (auto simp: SeqTable_find_def found_def holds_def)

lemma found_map: "keys_ok s \<Longrightarrow> found s key r \<Longrightarrow>
    slot_map s key = (case r of None \<Rightarrow> None | Some i \<Rightarrow> map_option snd (s ! i))"
  by (auto simp: found_def holds_def slot_map_Some slot_map_None split: option.splits)

lemma table_keys: "table_ok t \<Longrightarrow> keys_ok (st_slots t)"
  by (auto simp: table_ok_def keys_ok_def holds_def)

lemma table_get: "table_ok t \<Longrightarrow> SeqTable_get t key = Some (table_map t key)"
  using table_find [of t key] found_map [OF table_keys, of t key]
  by (auto simp: SeqTable_get_def table_map_def split: option.splits)

subsection \<open>Growing and shrinking\<close>

lemma next_pow2_from_ok:
  "p = 2 ^ i \<Longrightarrow> i \<le> e \<Longrightarrow> n \<le> 2 ^ e \<Longrightarrow>
   \<exists>j\<le>e. next_pow2_from p n = 2 ^ j \<and> n \<le> 2 ^ j \<and> (2 ^ j < 2 * n \<or> next_pow2_from p n = p)"
proof (induction p n arbitrary: i rule: next_pow2_from.induct)
  case (1 p n)
  show ?case
  proof (cases "p < n")
    case True
    then have "Suc i \<le> e" using "1.prems" by (metis le_neq_implies_less linorder_not_less Suc_leI)
    have eq: "next_pow2_from p n = next_pow2_from (2 * p) n"
      using True "1.prems"(1) by (subst next_pow2_from.simps) simp
    then show ?thesis
      using "1.IH" [of "Suc i"] True "1.prems" \<open>Suc i \<le> e\<close> by (fastforce simp: eq)
  next
    case False
    then have "next_pow2_from p n = p" by (subst next_pow2_from.simps) simp
    then show ?thesis using False "1.prems" by (intro exI [of _ i]) simp
  qed
qed

lemma rebuild_ok:
  assumes "keys_ok (st_slots t)" "st_live t = length (entries (st_slots t))" "pow2 len" "st_live t < len"
  shows "\<exists>t'. rebuild t len = Some t' \<and> length (st_slots t') = len \<and> st_live t' = st_live t \<and>
    length (entries (st_slots t')) = st_live t \<and> probe_ok (st_slots t') \<and> keys_ok (st_slots t') \<and>
    table_map t' = table_map t"
proof -
  define s :: "'a slots" where "s = replicate len None"
  have none: "\<not> holds s i k v" for i k v by (auto simp: holds_def s_def)
  have "\<exists>s'. place_all (entries (st_slots t)) s = Some s' \<and> length s' = length s \<and> probe_ok s' \<and> keys_ok s' \<and>
      slot_map s' = slot_map s ++ map_of (entries (st_slots t)) \<and>
      length (entries s') = length (entries s) + length (entries (st_slots t))"
    using assms none keys_distinct [OF assms(1)]
    by (intro place_all_ok) (auto simp: probe_ok_def keys_ok_def slot_map_None s_def)
  moreover have "slot_map s ++ m = m" for m by (simp add: slot_map_def s_def)
  ultimately show ?thesis
    using assms(2) by (auto simp: rebuild_def table_map_def slot_map_def s_def)
qed

lemma table_okI:
  assumes "st_live t = length (entries (st_slots t))" "length (st_slots t) \<le> max 64 (8 * st_live t)"
    "pow2 (length (st_slots t))" "MIN_SLOTS \<le> length (st_slots t)" "2 * st_live t \<le> length (st_slots t)"
    "probe_ok (st_slots t)" "keys_ok (st_slots t)"
  shows "table_ok t"
  using assms by (simp add: table_ok_def)

lemma place_table:
  assumes "st_live t = length (entries (st_slots t))" "pow2 (length (st_slots t))" "probe_ok (st_slots t)"
    "keys_ok (st_slots t)" "st_live t < length (st_slots t)" "table_map t key = None"
  shows "\<exists>s. place (st_slots t) key v = Some s \<and> length s = length (st_slots t) \<and> probe_ok s \<and> keys_ok s \<and>
    slot_map s = (table_map t)(key \<mapsto> v) \<and> length (entries s) = Suc (st_live t)"
  using place_ok [of "st_slots t" key v] assms entries_room [of "st_slots t"]
  by (auto simp: slots_ok_def table_map_def)

lemma pow2_grow:
  assumes "table_ok t" "table_room t" "length (st_slots t) < (st_live t + 1) * 2"
  shows "pow2 (max (length (st_slots t) * 2) MIN_SLOTS)"
proof (cases "st_slots t = []")
  case True
  have "pow2 16" unfolding pow2_def by (rule exI [of _ 4]) simp
  then show ?thesis using True by (simp add: MIN_SLOTS_def)
next
  case False
  then obtain e where e: "length (st_slots t) = 2 ^ e" "16 \<le> length (st_slots t)"
    using assms(1) by (auto simp: table_ok_def pow2_def MIN_SLOTS_def)
  then have "(2 :: nat) ^ e < 2 ^ 62" using assms(2,3) by (simp add: table_room_def)
  then have "Suc e \<le> 62" by (metis Suc_leI nat_power_less_imp_less zero_less_numeral)
  then have "pow2 (2 ^ Suc e)" unfolding pow2_def by blast
  then show ?thesis using e by (simp add: MIN_SLOTS_def max_def mult.commute)
qed

lemma table_insert:
  assumes ok: "table_ok t" and room: "table_room t" and new: "table_map t key = None"
  shows "\<exists>t'. SeqTable_insert t key v = Some t' \<and> table_ok t' \<and> table_map t' = (table_map t)(key \<mapsto> v) \<and>
    st_live t' = Suc (st_live t)"
proof -
  let ?n = "length (st_slots t)"
  have live: "st_live t = length (entries (st_slots t))" "?n \<le> max 64 (8 * st_live t)"
    and dis: "?n = 0 \<or> 16 \<le> ?n \<and> 2 * st_live t \<le> ?n"
    using ok by (auto simp: table_ok_def MIN_SLOTS_def)
  obtain t1 where t1: "(if (st_live t + 1) * 2 > ?n then rebuild t (max (?n * 2) MIN_SLOTS) else Some t) = Some t1"
    "st_live t1 = st_live t" "st_live t1 = length (entries (st_slots t1))" "pow2 (length (st_slots t1))"
    "MIN_SLOTS \<le> length (st_slots t1)" "2 * Suc (st_live t) \<le> length (st_slots t1)"
    "length (st_slots t1) \<le> max 64 (8 * Suc (st_live t))"
    "probe_ok (st_slots t1)" "keys_ok (st_slots t1)" "table_map t1 = table_map t"
  proof (cases "(st_live t + 1) * 2 > ?n")
    case True
    define m where "m = max (?n * 2) MIN_SLOTS"
    have z: "?n = 0 \<Longrightarrow> st_live t = 0" using live(1) by simp
    have m: "MIN_SLOTS \<le> m" "2 * Suc (st_live t) \<le> m" "m \<le> max 64 (8 * Suc (st_live t))" "st_live t < m"
      using True dis z by (auto simp: m_def MIN_SLOTS_def)
    have "pow2 m" using pow2_grow [OF ok room] True by (simp add: m_def)
    then obtain t' where "rebuild t m = Some t'" "length (st_slots t') = m" "st_live t' = st_live t"
      "length (entries (st_slots t')) = st_live t" "probe_ok (st_slots t')" "keys_ok (st_slots t')"
      "table_map t' = table_map t"
      using rebuild_ok [OF table_keys [OF ok] live(1), of m] m(4) by blast
    then show ?thesis using that [of t'] True m \<open>pow2 m\<close> by (simp add: m_def [symmetric])
  next
    case False
    then have "st_slots t \<noteq> []" by auto
    then show ?thesis using that [of t] False ok live by (auto simp: table_ok_def)
  qed
  obtain s where s: "place (st_slots t1) key v = Some s" "length s = length (st_slots t1)" "probe_ok s" "keys_ok s"
    "slot_map s = (table_map t1)(key \<mapsto> v)" "length (entries s) = Suc (st_live t1)"
    using place_table [OF t1(3,4,8,9), of key v] t1(2,6,10) new by auto
  have "table_ok (t1\<lparr>st_slots := s, st_live := st_live t1 + 1\<rparr>)"
    using s t1(2-7) by (intro table_okI) simp_all
  then show ?thesis
    unfolding SeqTable_insert_def t1(1) using s t1(2,10) by (simp add: table_map_def)
qed

subsection \<open>Removing\<close>

lemma slot_map_cong: "keys_ok s \<Longrightarrow> keys_ok s' \<Longrightarrow> set (entries s) = set (entries s') \<Longrightarrow> slot_map s = slot_map s'"
proof
  fix k
  assume a: "keys_ok s" "keys_ok s'" "set (entries s) = set (entries s')"
  have "slot_map s k = Some v \<longleftrightarrow> slot_map s' k = Some v" for v
    using a by (simp add: slot_map_Some entries_mem [symmetric])
  then show "slot_map s k = slot_map s' k" by (metis option.exhaust)
qed

lemma holds_take: "holds (s[x := None]) i k v \<longleftrightarrow> i \<noteq> x \<and> holds s i k v"
  by (cases "i = x") (auto simp: holds_def)

lemma take_slot:
  assumes ok: "slots_ok s" and x: "holds s x key v"
  shows "hole_inv (s[x := None]) x x" "keys_ok (s[x := None])" "slot_map (s[x := None]) = (slot_map s)(key := None)"
    "\<exists>q<length s. s[x := None] ! q = None \<and> q \<noteq> x"
proof -
  let ?s = "s[x := None]"
  have n: "pow2 (length s)" "probe_ok s" and keys: "keys_ok s" using ok by (auto simp: slots_ok_def)
  have b: "x < length s" "s ! x = Some (key, v)" using x by (auto simp: holds_def)
  show keys': "keys_ok ?s" using keys unfolding keys_ok_def holds_take by blast
  show "slot_map ?s = (slot_map s)(key := None)"
  proof
    fix k
    have only: "holds s i key w \<Longrightarrow> i = x" for i w using keys x unfolding keys_ok_def by blast
    have "slot_map ?s k = Some w \<longleftrightarrow> ((slot_map s)(key := None)) k = Some w" for w
    proof (cases "k = key")
      case True
      then show ?thesis using slot_map_Some [OF keys', of k w] only by (auto simp: holds_take)
    next
      case False
      then have "holds s i k w \<Longrightarrow> i \<noteq> x" for i using b by (auto simp: holds_def)
      then show ?thesis using False slot_map_Some [OF keys', of k w] slot_map_Some [OF keys, of k w]
        by (auto simp: holds_take)
    qed
    then show "slot_map ?s k = ((slot_map s)(key := None)) k" by (metis option.exhaust)
  qed
  show "\<exists>q<length s. ?s ! q = None \<and> q \<noteq> x"
  proof -
    obtain q where "q < length s" "s ! q = None" using ok by (auto simp: slots_ok_def has_room_def)
    moreover from this have "q \<noteq> x" using b by auto
    ultimately show ?thesis by (intro exI [of _ q]) simp
  qed
  have home: "home ?s k = home s k" for k by (simp add: home_def)
  show "hole_inv ?s x x" unfolding hole_inv_def home
  proof (intro conjI allI impI)
    fix i k w p
    assume "holds ?s i k w" "p < length ?s" "dist (length ?s) (home s k) p < dist (length ?s) (home s k) i"
    then have "s ! p \<noteq> None" using n(2) unfolding probe_ok_def holds_take by fastforce
    then show "?s ! p \<noteq> None \<or> p = x" by (cases "p = x") auto
  next
    fix p assume "p < length ?s" "0 < dist (length ?s) x p \<and> dist (length ?s) x p \<le> dist (length ?s) x x"
    then show "?s ! p \<noteq> None" by auto
  next
    fix i k w assume i: "holds ?s i k w" "dist (length ?s) x i \<le> dist (length ?s) x x"
    then have "i < length s" "i \<noteq> x" by (auto simp: holds_take holds_def)
    then show "\<not> dist (length ?s) (home s k) x < dist (length ?s) (home s k) i"
      using i(2) dist_eq [OF b(1) _ b(1), of i] by simp
  qed (use b in auto)
qed

lemma pow2_shrink:
  assumes "8 * live < n" "pow2 n" "m = max (next_power_of_two (live * 4)) MIN_SLOTS"
  shows "pow2 m \<and> live < m \<and> MIN_SLOTS \<le> m \<and> 2 * live \<le> m \<and> m \<le> max 64 (8 * live)"
proof -
  obtain e where e: "n = 2 ^ e" "e \<le> 62" using assms(2) by (auto simp: pow2_def)
  have "live * 4 \<le> 2 ^ e" using assms(1) e(1) by simp
  then obtain j where j: "j \<le> e" "next_power_of_two (live * 4) = 2 ^ j" "live * 4 \<le> 2 ^ j"
    "2 ^ j < 2 * (live * 4) \<or> (2 :: nat) ^ j = 1"
    using next_pow2_from_ok [of 1 0 e "live * 4"] unfolding next_power_of_two_def by (metis le0 power_0)
  have "pow2 (2 ^ j)" "pow2 MIN_SLOTS"
    unfolding pow2_def MIN_SLOTS_def using j(1) e(2) by (auto intro: exI [of _ 4])
  then show ?thesis using j(2-4) assms(3) by (auto simp: max_def MIN_SLOTS_def)
qed

lemma table_remove:
  assumes ok: "table_ok t"
  shows "\<exists>t'. SeqTable_remove t key = Some (table_map t key, t') \<and> table_ok t' \<and>
    table_map t' = (table_map t)(key := None) \<and>
    st_live t' = (if table_map t key = None then st_live t else st_live t - 1)"
proof -
  obtain r where r: "SeqTable_find t key = Some r" "found (st_slots t) key r" using table_find [OF ok] by blast
  have m: "table_map t key = (case r of None \<Rightarrow> None | Some i \<Rightarrow> map_option snd (st_slots t ! i))"
    using found_map [OF table_keys [OF ok] r(2)] by (simp add: table_map_def)
  show ?thesis
  proof (cases r)
    case None
    then show ?thesis using r(1) m ok by (simp add: SeqTable_remove_def fun_upd_idem)
  next
    case (Some x)
    obtain v where v: "holds (st_slots t) x key v" using r(2) Some by (auto simp: found_def)
    then have b: "x < length (st_slots t)" "st_slots t ! x = Some (key, v)" and ne: "st_slots t \<noteq> []"
      by (auto simp: holds_def)
    define s0 where "s0 = (st_slots t)[x := None]"
    note so = table_slots_ok [OF ok ne]
    have n: "pow2 (length s0)" "st_live t - 1 = length (entries s0)" "0 < st_live t"
      using ok ne entries_take [OF b] by (auto simp: table_ok_def s0_def)
    obtain q where q: "q < length s0" "s0 ! q = None" "q \<noteq> x" using take_slot(4) [OF so v] by (auto simp: s0_def)
    obtain s where s: "shift_loop s0 x x = Some s" "length s = length s0" "probe_ok s" "keys_ok s"
      "set (entries s) = set (entries s0)" "length (entries s) = length (entries s0)"
      using shift_loop_ok [OF n(1) _ _ q] take_slot(1,2) [OF so v] by (auto simp: s0_def)
    have map_s: "slot_map s = (table_map t)(key := None)"
      using slot_map_cong [OF s(4) _ s(5)] take_slot(2,3) [OF so v] by (simp add: s0_def table_map_def)
    define t1 where "t1 = \<lparr>st_slots = s, st_live = st_live t - 1\<rparr>"
    have len: "MIN_SLOTS \<le> length s" "2 * (st_live t - 1) \<le> length s"
      using ok ne s(2) by (auto simp: table_ok_def s0_def)
    have gone: "map_option snd (st_slots t ! x) = table_map t key" using m Some by simp
    have "table_map t key = Some v" using gone b by simp
    then have some: "table_map t key \<noteq> None" by simp
    have step: "SeqTable_remove t key =
        (if length s > MIN_SLOTS * 4 \<and> (st_live t - 1) * 8 < length s
         then (case rebuild t1 (max (next_power_of_two ((st_live t - 1) * 4)) MIN_SLOTS) of
                 None \<Rightarrow> None | Some t'' \<Rightarrow> Some (table_map t key, t''))
         else Some (table_map t key, t1))"
      unfolding SeqTable_remove_def r(1) Some
      by (simp add: s0_def [symmetric] s(1) t1_def Let_def gone)
    show ?thesis
    proof (cases "length s > MIN_SLOTS * 4 \<and> (st_live t - 1) * 8 < length s")
      case True
      define l where "l = max (next_power_of_two ((st_live t - 1) * 4)) MIN_SLOTS"
      have l: "pow2 l \<and> st_live t - 1 < l \<and> MIN_SLOTS \<le> l \<and> 2 * (st_live t - 1) \<le> l \<and> l \<le> max 64 (8 * (st_live t - 1))"
        using True n(1) s(2) by (intro pow2_shrink [of _ "length s"]) (auto simp: l_def)
      obtain t' where t': "rebuild t1 l = Some t'" "length (st_slots t') = l" "st_live t' = st_live t1"
        "length (entries (st_slots t')) = st_live t1" "probe_ok (st_slots t')" "keys_ok (st_slots t')"
        "table_map t' = table_map t1"
        using rebuild_ok [of t1 l] s(4,6) n(2) l by (auto simp: t1_def)
      have "table_ok t'" using t' l by (intro table_okI) (simp_all add: t1_def)
      moreover have "SeqTable_remove t key = Some (table_map t key, t')"
        unfolding step l_def [symmetric] using True t'(1) by simp
      moreover have "table_map t' = (table_map t)(key := None)" "st_live t' = st_live t - 1"
        using t'(3,7) map_s by (simp_all add: t1_def table_map_def)
      ultimately show ?thesis using some by auto
    next
      case False
      have "table_ok t1"
        using s n len False by (intro table_okI) (auto simp: t1_def MIN_SLOTS_def)
      then show ?thesis unfolding step using False map_s some by (auto simp: t1_def table_map_def)
    qed
  qed
qed

subsection \<open>Updating in place, and iterating\<close>

lemma holds_set:
  assumes "holds s i key v"
  shows "holds (s[i := Some (key, w)]) j k u \<longleftrightarrow> (if j = i then k = key \<and> u = w else holds s j k u)"
  using assms by (cases "j = i") (auto simp: holds_def)

lemma set_slot:
  assumes n: "probe_ok s" and keys: "keys_ok s" and v: "holds s i key v"
  shows "probe_ok (s[i := Some (key, w)])" "keys_ok (s[i := Some (key, w)])"
    "slot_map (s[i := Some (key, w)]) = (slot_map s)(key \<mapsto> w)"
    "length (entries (s[i := Some (key, w)])) = length (entries s)"
proof -
  let ?s = "s[i := Some (key, w)]"
  have b: "i < length s" "s ! i = Some (key, v)" using v by (auto simp: holds_def)
  have only: "holds s j key u \<Longrightarrow> j = i" for j u using keys v unfolding keys_ok_def by blast
  show "probe_ok ?s" unfolding probe_ok_def
  proof (intro allI impI)
    fix j k u p
    assume a: "holds ?s j k u" "p < length ?s" "dist (length ?s) (home ?s k) p < dist (length ?s) (home ?s k) j"
    then have "\<exists>u'. holds s j k u'" using v by (auto simp: holds_set [OF v] split: if_splits)
    then have "s ! p \<noteq> None" using n a(2,3) unfolding probe_ok_def by (fastforce simp: home_def)
    then show "?s ! p \<noteq> None" using b by (cases "p = i") auto
  qed
  show keys': "keys_ok ?s"
    using keys only unfolding keys_ok_def holds_set [OF v] by metis
  show "slot_map ?s = (slot_map s)(key \<mapsto> w)"
  proof
    fix k
    have "slot_map ?s k = Some u \<longleftrightarrow> ((slot_map s)(key \<mapsto> w)) k = Some u" for u
    proof (cases "k = key")
      case True
      then show ?thesis using only by (auto simp: slot_map_Some [OF keys'] holds_set [OF v] intro: exI [of _ i])
    next
      case False
      then have "holds s j k u \<Longrightarrow> j \<noteq> i" for j using b by (auto simp: holds_def)
      then show ?thesis using False by (auto simp: slot_map_Some [OF keys'] slot_map_Some [OF keys] holds_set [OF v])
    qed
    then show "slot_map ?s k = ((slot_map s)(key \<mapsto> w)) k" by (metis option.exhaust)
  qed
  show "length (entries ?s) = length (entries s)"
    using entries_take(1) [OF b] entries_put(1) [of i "s[i := None]" "(key, w)"] b by simp
qed

lemma table_get_mut:
  assumes ok: "table_ok t"
  shows "\<exists>t'. SeqTable_get_mut t key f = Some (table_map t key, t') \<and> table_ok t' \<and>
    table_map t' = (table_map t)(key := map_option f (table_map t key)) \<and> st_live t' = st_live t"
proof -
  obtain r where r: "SeqTable_find t key = Some r" "found (st_slots t) key r" using table_find [OF ok] by blast
  have m: "table_map t key = (case r of None \<Rightarrow> None | Some i \<Rightarrow> map_option snd (st_slots t ! i))"
    using found_map [OF table_keys [OF ok] r(2)] by (simp add: table_map_def)
  show ?thesis
  proof (cases r)
    case None
    then show ?thesis using r(1) m ok by (simp add: SeqTable_get_mut_def fun_upd_idem)
  next
    case (Some i)
    obtain v where v: "holds (st_slots t) i key v" using r(2) Some by (auto simp: found_def)
    then have b: "i < length (st_slots t)" "st_slots t ! i = Some (key, v)" by (auto simp: holds_def)
    have p: "probe_ok (st_slots t)" using ok b(1) by (auto simp: table_ok_def)
    note put = set_slot [OF p table_keys [OF ok] v, of "f v"]
    have "table_ok (t\<lparr>st_slots := (st_slots t)[i := Some (key, f v)]\<rparr>)"
      using ok b(1) put by (auto simp: table_ok_def)
    then show ?thesis
      using r(1) Some b m put(3) by (simp add: SeqTable_get_mut_def table_map_def)
  qed
qed

lemma table_values:
  assumes "table_ok t"
  shows "set (SeqTable_values t) = ran (table_map t) \<and> length (SeqTable_values t) = SeqTable_len t"
  using assms keys_distinct [OF table_keys [OF assms]]
  by (simp add: SeqTable_values_def table_map_def slot_map_def ran_distinct SeqTable_len_def table_ok_def)

end
