(* ===== verification/Rt_Handles.thy ===== *)
theory Rt_Handles
  imports Rt_Probe
begin

text \<open>
  The handles of the runtime, \<^verbatim>\<open>crates/wolf_rt/src/handles.rs\<close>: \<open>Handles\<close> over a keyed table. The locale
  \<open>key_table\<close> is what \<open>Handles\<close> uses of \<open>SeqTable\<close>; it is interpreted on the probing table, and the promises
  about handle numbers are proved once inside it.
\<close>

section \<open>The table behind handles\<close>

text \<open>
  A table as a finite map behind an invariant: \<open>rep\<close> is the map, \<open>room\<close> says that another entry fits. The
  operations return \<open>None\<close> where the code would loop for ever.
\<close>

locale key_table =
  fixes empty :: 't
    and get :: "'t \<Rightarrow> nat \<Rightarrow> 'v option option"
    and get_mut :: "'t \<Rightarrow> nat \<Rightarrow> ('v \<Rightarrow> 'v) \<Rightarrow> ('v option \<times> 't) option"
    and insert :: "'t \<Rightarrow> nat \<Rightarrow> 'v \<Rightarrow> 't option"
    and remove :: "'t \<Rightarrow> nat \<Rightarrow> ('v option \<times> 't) option"
    and rep :: "'t \<Rightarrow> nat \<Rightarrow> 'v option"
    and ok :: "'t \<Rightarrow> bool"
    and load :: "'t \<Rightarrow> nat"
    and limit :: nat
  assumes empty: "ok empty" "rep empty = Map.empty" "load empty = 0"
    and get: "ok t \<Longrightarrow> get t k = Some (rep t k)"
    and get_mut: "ok t \<Longrightarrow> \<exists>t'. get_mut t k f = Some (rep t k, t') \<and> ok t' \<and>
      rep t' = (rep t)(k := map_option f (rep t k)) \<and> load t' = load t"
    and insert: "ok t \<Longrightarrow> load t < limit \<Longrightarrow> rep t k = None \<Longrightarrow>
      \<exists>t'. insert t k v = Some t' \<and> ok t' \<and> rep t' = (rep t)(k \<mapsto> v) \<and> load t' = Suc (load t)"
    and remove: "ok t \<Longrightarrow> \<exists>t'. remove t k = Some (rep t k, t') \<and> ok t' \<and> rep t' = (rep t)(k := None) \<and> load t' \<le> load t"

interpretation seq: key_table SeqTable_new SeqTable_get SeqTable_get_mut SeqTable_insert SeqTable_remove
  table_map table_ok st_live "2 ^ 60"
proof (unfold_locales, goal_cases)
  case (4 t k)
  then show ?case by (rule table_get)
next
  case (5 t k f)
  then show ?case by (rule table_get_mut)
next
  case (6 t k v)
  then show ?case by (intro table_insert) (simp_all add: table_room_def)
next
  case (7 t k)
  then show ?case using table_remove [of t k] by (auto split: if_splits)
qed simp_all

section \<open>Handles\<close>

text \<open>\<open>next\<close> is an \<open>i64\<close>; \<open>Inl\<close> is the panic of \<open>expect\<close>. The table's operations are an argument.\<close>

record 't handles =
  h_live :: 't
  h_next :: int

datatype handle_error = Handle_numbers_exhausted

definition i64_max :: int where
  "i64_max = 9223372036854775807"

text \<open>\<open>h as u64\<close>\<close>

definition as_u64 :: "int \<Rightarrow> nat" where
  "as_u64 h = nat (h mod 2 ^ 64)"

definition handles_starting_at :: "'t \<Rightarrow> int \<Rightarrow> 't handles" where
  "handles_starting_at new first = \<lparr>h_live = new, h_next = first\<rparr>"

definition handles_insert :: "('t \<Rightarrow> nat \<Rightarrow> 'v \<Rightarrow> 't option) \<Rightarrow> 't handles \<Rightarrow> 'v \<Rightarrow>
    (handle_error + int \<times> 't handles) option" where
  "handles_insert ins hs v =
     (let h = h_next hs
      in if h + 1 > i64_max then Some (Inl Handle_numbers_exhausted)
         else map_option (\<lambda>t. Inr (h, \<lparr>h_live = t, h_next = h + 1\<rparr>)) (ins (h_live hs) (as_u64 h) v))"

definition handles_get :: "('t \<Rightarrow> nat \<Rightarrow> 'v option option) \<Rightarrow> 't handles \<Rightarrow> int \<Rightarrow> 'v option option" where
  "handles_get get hs h = get (h_live hs) (as_u64 h)"

definition handles_get_mut :: "('t \<Rightarrow> nat \<Rightarrow> ('v \<Rightarrow> 'v) \<Rightarrow> ('v option \<times> 't) option) \<Rightarrow> 't handles \<Rightarrow> int \<Rightarrow>
    ('v \<Rightarrow> 'v) \<Rightarrow> ('v option \<times> 't handles) option" where
  "handles_get_mut getm hs h f =
     map_option (\<lambda>(r, t). (r, hs\<lparr>h_live := t\<rparr>)) (getm (h_live hs) (as_u64 h) f)"

definition handles_remove :: "('t \<Rightarrow> nat \<Rightarrow> ('v option \<times> 't) option) \<Rightarrow> 't handles \<Rightarrow> int \<Rightarrow>
    ('v option \<times> 't handles) option" where
  "handles_remove rem hs h = map_option (\<lambda>(r, t). (r, hs\<lparr>h_live := t\<rparr>)) (rem (h_live hs) (as_u64 h))"

text \<open>\<open>Handles\<close> itself, over \<open>SeqTable\<close>.\<close>

definition Handles_starting_at :: "int \<Rightarrow> 'v seq_table handles" where
  "Handles_starting_at = handles_starting_at SeqTable_new"

definition Handles_insert :: "'v seq_table handles \<Rightarrow> 'v \<Rightarrow> (handle_error + int \<times> 'v seq_table handles) option" where
  "Handles_insert = handles_insert SeqTable_insert"

definition Handles_get :: "'v seq_table handles \<Rightarrow> int \<Rightarrow> 'v option option" where
  "Handles_get = handles_get SeqTable_get"

definition Handles_get_mut :: "'v seq_table handles \<Rightarrow> int \<Rightarrow> ('v \<Rightarrow> 'v) \<Rightarrow> ('v option \<times> 'v seq_table handles) option" where
  "Handles_get_mut = handles_get_mut SeqTable_get_mut"

definition Handles_remove :: "'v seq_table handles \<Rightarrow> int \<Rightarrow> ('v option \<times> 'v seq_table handles) option" where
  "Handles_remove = handles_remove SeqTable_remove"

definition Handles_len :: "'v seq_table handles \<Rightarrow> nat" where
  "Handles_len hs = SeqTable_len (h_live hs)"

definition Handles_capacity :: "'v seq_table handles \<Rightarrow> nat" where
  "Handles_capacity hs = SeqTable_capacity (h_live hs)"

section \<open>A program's calls\<close>

datatype 'v handle_op = is_Open: Open 'v | Read int | Write int 'v | Close int

datatype 'v handle_out = Opened int | Answer "'v option"

definition handles_step where
  "handles_step get getm ins rem op hs =
     (case op of
        Open v \<Rightarrow> map_option (map_sum id (\<lambda>(h, hs). (Opened h, hs))) (handles_insert ins hs v)
      | Read h \<Rightarrow> map_option (\<lambda>r. Inr (Answer r, hs)) (handles_get get hs h)
      | Write h v \<Rightarrow> map_option (\<lambda>(r, hs). Inr (Answer r, hs)) (handles_get_mut getm hs h (\<lambda>_. v))
      | Close h \<Rightarrow> map_option (\<lambda>(r, hs). Inr (Answer r, hs)) (handles_remove rem hs h))"

fun handles_run where
  "handles_run get getm ins rem [] hs = Some (Inr ([], hs))"
| "handles_run get getm ins rem (op # ops) hs =
     (case handles_step get getm ins rem op hs of
        None \<Rightarrow> None
      | Some (Inl e) \<Rightarrow> Some (Inl e)
      | Some (Inr (out, hs')) \<Rightarrow>
          (case handles_run get getm ins rem ops hs' of
             None \<Rightarrow> None
           | Some (Inl e) \<Rightarrow> Some (Inl e)
           | Some (Inr (outs, hs'')) \<Rightarrow> Some (Inr (out # outs, hs''))))"

text \<open>The specification: a map from numbers to values, and a counter.\<close>

type_synonym 'v handle_spec = "(int \<Rightarrow> 'v option) \<times> int"

fun spec_step :: "'v handle_op \<Rightarrow> 'v handle_spec \<Rightarrow> 'v handle_out \<times> 'v handle_spec" where
  "spec_step (Open v) (m, n) = (Opened n, m(n \<mapsto> v), n + 1)"
| "spec_step (Read h) (m, n) = (Answer (m h), m, n)"
| "spec_step (Write h v) (m, n) = (Answer (m h), m(h := map_option (\<lambda>_. v) (m h)), n)"
| "spec_step (Close h) (m, n) = (Answer (m h), m(h := None), n)"

fun spec_run :: "'v handle_op list \<Rightarrow> 'v handle_spec \<Rightarrow> 'v handle_out list \<times> 'v handle_spec" where
  "spec_run [] s = ([], s)"
| "spec_run (op # ops) s = (let (out, s) = spec_step op s; (outs, s) = spec_run ops s in (out # outs, s))"

text \<open>A call on a handle that is an \<open>i64\<close>.\<close>

definition op_ok :: "'v handle_op \<Rightarrow> bool" where
  "op_ok op \<longleftrightarrow> (case op of Open _ \<Rightarrow> True | Read h \<Rightarrow> - i64_max - 1 \<le> h \<and> h \<le> i64_max
     | Write h _ \<Rightarrow> - i64_max - 1 \<le> h \<and> h \<le> i64_max | Close h \<Rightarrow> - i64_max - 1 \<le> h \<and> h \<le> i64_max)"

lemma as_u64_cases:
  assumes "- i64_max - 1 \<le> h" "h \<le> i64_max"
  shows "as_u64 h = (if 0 \<le> h then nat h else nat (h + 2 ^ 64))"
proof (cases "0 \<le> h")
  case True
  then show ?thesis using assms by (simp add: as_u64_def i64_max_def)
next
  case False
  have "h mod 2 ^ 64 = (h + 2 ^ 64) mod 2 ^ 64" by simp
  also have "\<dots> = h + 2 ^ 64" using False assms by (intro mod_pos_pos_trivial) (simp_all add: i64_max_def)
  finally show ?thesis using False by (simp add: as_u64_def)
qed

text \<open>The open handles of a table, and the invariant: every key is a number already answered.\<close>

definition open_handles :: "(nat \<Rightarrow> 'v option) \<Rightarrow> int \<Rightarrow> 'v option" where
  "open_handles m h = (if 0 \<le> h then m (nat h) else None)"

definition numbered :: "(nat \<Rightarrow> 'v option) \<Rightarrow> int \<Rightarrow> bool" where
  "numbered m n \<longleftrightarrow> 0 \<le> n \<and> n \<le> i64_max \<and> (\<forall>k. m k \<noteq> None \<longrightarrow> int k < n)"

lemma open_handles_lookup:
  assumes "numbered m n" "- i64_max - 1 \<le> h" "h \<le> i64_max"
  shows "m (as_u64 h) = open_handles m h"
proof (cases "0 \<le> h")
  case False
  have "\<not> int (as_u64 h) < n"
    using False assms by (simp add: as_u64_cases numbered_def i64_max_def)
  then have "m (as_u64 h) = None" using assms(1) by (auto simp: numbered_def)
  then show ?thesis using False by (simp add: open_handles_def)
qed (use assms in \<open>simp add: as_u64_cases open_handles_def\<close>)

lemma open_handles_update:
  assumes "numbered m n" "- i64_max - 1 \<le> h" "h \<le> i64_max" "m (as_u64 h) = None \<Longrightarrow> x = None"
  shows "open_handles (m(as_u64 h := x)) = (open_handles m)(h := x)" "numbered (m(as_u64 h := x)) n"
proof -
  have keep: "m (as_u64 h) \<noteq> None \<Longrightarrow> 0 \<le> h"
    using open_handles_lookup [OF assms(1-3)] by (auto simp: open_handles_def split: if_splits)
  show "numbered (m(as_u64 h := x)) n" using assms(1,4) by (auto simp: numbered_def)
  show "open_handles (m(as_u64 h := x)) = (open_handles m)(h := x)"
  proof (cases "0 \<le> h")
    case True
    then show ?thesis using assms(2,3) by (auto simp: open_handles_def as_u64_cases fun_eq_iff)
  next
    case False
    then have "m (as_u64 h) = None" using keep by blast
    then have "m (as_u64 h) = None" "x = None" using assms(4) by auto
    then show ?thesis using False by (auto simp: open_handles_def fun_eq_iff)
  qed
qed

context key_table
begin

definition handles_ok :: "'t handles \<Rightarrow> bool" where
  "handles_ok hs \<longleftrightarrow> ok (h_live hs) \<and> numbered (rep (h_live hs)) (h_next hs)"

definition handles_spec :: "'t handles \<Rightarrow> 'v handle_spec" where
  "handles_spec hs = (open_handles (rep (h_live hs)), h_next hs)"

lemma starting_at: "0 \<le> first \<Longrightarrow> first \<le> i64_max \<Longrightarrow>
    handles_ok (handles_starting_at empty first) \<and> handles_spec (handles_starting_at empty first) = (Map.empty, first)"
  by (auto simp: handles_ok_def handles_starting_at_def handles_spec_def numbered_def empty open_handles_def)

lemma handles_open:
  assumes hs: "handles_ok hs" and room: "load (h_live hs) < limit" and nxt: "h_next hs < i64_max"
  shows "\<exists>hs'. handles_insert insert hs v = Some (Inr (h_next hs, hs')) \<and> handles_ok hs' \<and>
    handles_spec hs' = ((fst (handles_spec hs))(h_next hs \<mapsto> v), h_next hs + 1) \<and> load (h_live hs') = Suc (load (h_live hs))"
proof -
  let ?m = "rep (h_live hs)" and ?n = "h_next hs"
  have num: "numbered ?m ?n" and ok: "ok (h_live hs)" using hs by (auto simp: handles_ok_def)
  have u: "as_u64 ?n = nat ?n" using num nxt by (simp add: as_u64_cases numbered_def i64_max_def)
  have "?m (nat ?n) = None"
  proof (rule ccontr)
    assume "?m (nat ?n) \<noteq> None"
    then have "int (nat ?n) < ?n" using num unfolding numbered_def by blast
    moreover have "0 \<le> ?n" using num unfolding numbered_def by blast
    ultimately show False by simp
  qed
  then obtain t where t: "insert (h_live hs) (nat ?n) v = Some t" "ok t" "rep t = ?m(nat ?n \<mapsto> v)"
    "load t = Suc (load (h_live hs))"
    using insert [OF ok room, of "nat ?n" v] by blast
  have "open_handles (?m(nat ?n \<mapsto> v)) = (open_handles ?m)(?n \<mapsto> v)"
    using num by (auto simp: open_handles_def numbered_def fun_eq_iff)
  moreover have "numbered (?m(nat ?n \<mapsto> v)) (?n + 1)"
    using num nxt by (auto simp: numbered_def)
  ultimately show ?thesis
    using t nxt by (intro exI [of _ "\<lparr>h_live = t, h_next = ?n + 1\<rparr>"])
      (simp add: handles_insert_def Let_def u handles_ok_def handles_spec_def)
qed

lemma handles_step_spec:
  assumes hs: "handles_ok hs" and room: "load (h_live hs) < limit" and nxt: "h_next hs < i64_max" and "op_ok op"
  shows "\<exists>out hs'. handles_step get get_mut insert remove op hs = Some (Inr (out, hs')) \<and> handles_ok hs' \<and>
    spec_step op (handles_spec hs) = (out, handles_spec hs') \<and> load (h_live hs') \<le> Suc (load (h_live hs)) \<and>
    h_next hs' \<le> h_next hs + 1"
proof -
  let ?m = "rep (h_live hs)" and ?n = "h_next hs"
  have num: "numbered ?m ?n" and ok: "ok (h_live hs)" using hs by (auto simp: handles_ok_def)
  note look = open_handles_lookup [OF num] and upd = open_handles_update [OF num]
  show ?thesis
  proof (cases op)
    case (Open v)
    then show ?thesis using handles_open [OF hs room nxt, of v]
      by (auto simp: handles_step_def handles_spec_def)
  next
    case (Read h)
    then show ?thesis using hs get [OF ok, of "as_u64 h"] look [of h] assms(4)
      by (simp add: handles_step_def handles_get_def handles_spec_def op_ok_def)
  next
    case (Write h v)
    then have h: "- i64_max - 1 \<le> h" "h \<le> i64_max" using assms(4) by (auto simp: op_ok_def)
    obtain t where t: "get_mut (h_live hs) (as_u64 h) (\<lambda>_. v) = Some (?m (as_u64 h), t)" "ok t"
      "rep t = ?m(as_u64 h := map_option (\<lambda>_. v) (?m (as_u64 h)))" "load t = load (h_live hs)"
      using get_mut [OF ok, of "as_u64 h" "\<lambda>_. v"] by blast
    show ?thesis
      using Write t upd [OF h, of "map_option (\<lambda>_. v) (?m (as_u64 h))"] look [OF h]
      by (simp add: handles_step_def handles_get_mut_def handles_spec_def handles_ok_def)
  next
    case (Close h)
    then have h: "- i64_max - 1 \<le> h" "h \<le> i64_max" using assms(4) by (auto simp: op_ok_def)
    obtain t where t: "remove (h_live hs) (as_u64 h) = Some (?m (as_u64 h), t)" "ok t"
      "rep t = ?m(as_u64 h := None)" "load t \<le> load (h_live hs)"
      using remove [OF ok, of "as_u64 h"] by blast
    show ?thesis
      using Close t upd [OF h, of None] look [OF h]
      by (simp add: handles_step_def handles_remove_def handles_spec_def handles_ok_def)
  qed
qed

lemma handles_run_spec:
  assumes "handles_ok hs" "load (h_live hs) + length ops \<le> limit" "h_next hs + int (length ops) \<le> i64_max"
    "list_all op_ok ops"
  shows "\<exists>outs hs'. handles_run get get_mut insert remove ops hs = Some (Inr (outs, hs')) \<and> handles_ok hs' \<and>
    spec_run ops (handles_spec hs) = (outs, handles_spec hs')"
  using assms
proof (induction ops arbitrary: hs)
  case (Cons op ops)
  obtain out hs1 where s: "handles_step get get_mut insert remove op hs = Some (Inr (out, hs1))" "handles_ok hs1"
    "spec_step op (handles_spec hs) = (out, handles_spec hs1)" "load (h_live hs1) \<le> Suc (load (h_live hs))"
    "h_next hs1 \<le> h_next hs + 1"
    using handles_step_spec [of hs op] Cons.prems by auto
  then obtain outs hs' where "handles_run get get_mut insert remove ops hs1 = Some (Inr (outs, hs'))" "handles_ok hs'"
    "spec_run ops (handles_spec hs1) = (outs, handles_spec hs')"
    using Cons.IH [of hs1] Cons.prems by auto
  then show ?case using s by simp
qed simp

end

section \<open>Properties\<close>

text \<open>Facts about the specification: numbers count up from the first one, and a closed number stays closed.\<close>

definition opened :: "'v handle_out list \<Rightarrow> int list" where
  "opened outs = concat (map (\<lambda>out. case out of Opened h \<Rightarrow> [h] | Answer _ \<Rightarrow> []) outs)"

lemma spec_opened:
  "spec_run ops (m, n) = (outs, m', n') \<Longrightarrow> opened outs = map (\<lambda>i. n + int i) [0..<length (opened outs)] \<and> n' = n + int (length (opened outs))"
proof (induction ops arbitrary: m n outs)
  case (Cons op ops)
  obtain out m1 n1 where s: "spec_step op (m, n) = (out, m1, n1)" by (metis prod_cases3)
  obtain outs1 where r: "spec_run ops (m1, n1) = (outs1, m', n')" "outs = out # outs1"
    using Cons.prems s by (auto split: prod.splits)
  note ih = Cons.IH [OF r(1)]
  show ?case
  proof (cases op)
    case (Open v)
    then have "out = Opened n" "n1 = n + 1" using s by auto
    moreover have "map (\<lambda>i. n + int i) [0..<Suc l] = n # map (\<lambda>i. n + 1 + int i) [0..<l]" for l
      by (simp add: map_upt_Suc algebra_simps del: upt_Suc)
    ultimately show ?thesis using ih r(2) by (simp add: opened_def)
  qed (use s ih r(2) in \<open>auto simp: opened_def\<close>)
qed (simp add: opened_def)

lemma spec_run_append: "spec_run (xs @ ys) s =
    (let (outs, s) = spec_run xs s; (outs', s) = spec_run ys s in (outs @ outs', s))"
  by (induction xs arbitrary: s) (auto split: prod.splits simp: Let_def)

lemma spec_closed:
  "m h = None \<Longrightarrow> h < n \<Longrightarrow> spec_run ops (m, n) = (outs, m', n') \<Longrightarrow> m' h = None \<and> h < n'"
proof (induction ops arbitrary: m n outs)
  case (Cons op ops)
  obtain out m1 n1 where s: "spec_step op (m, n) = (out, m1, n1)" by (metis prod_cases3)
  obtain outs1 where r: "spec_run ops (m1, n1) = (outs1, m', n')"
    using Cons.prems s by (auto split: prod.splits)
  have "m1 h = None \<and> h < n1" using s Cons.prems(1,2) by (cases op) auto
  then show ?case using Cons.IH r by blast
qed simp

definition Handles_run :: "'v handle_op list \<Rightarrow> 'v seq_table handles \<Rightarrow>
    (handle_error + 'v handle_out list \<times> 'v seq_table handles) option" where
  "Handles_run = handles_run SeqTable_get SeqTable_get_mut SeqTable_insert SeqTable_remove"

lemma Handles_refine:
  fixes ops :: "'a handle_op list"
  assumes "0 \<le> first" "first + int (length ops) \<le> i64_max" "length ops \<le> 2 ^ 60" "list_all op_ok ops"
  shows "\<exists>outs hs. Handles_run ops (Handles_starting_at first) = Some (Inr (outs, hs)) \<and> seq.handles_ok hs \<and>
    spec_run ops (Map.empty, first) = (outs, open_handles (table_map (h_live hs)), h_next hs)"
proof -
  define hs :: "'a seq_table handles" where "hs = Handles_starting_at first"
  have "first \<le> i64_max" using assms(2) by linarith
  then have "seq.handles_ok hs" "seq.handles_spec hs = (Map.empty, first)"
    using seq.starting_at [OF assms(1)] by (auto simp: hs_def Handles_starting_at_def)
  moreover have "st_live (h_live hs) = 0" "h_next hs = first"
    by (simp_all add: hs_def Handles_starting_at_def handles_starting_at_def)
  ultimately show ?thesis
    using seq.handles_run_spec [of hs ops] assms(2-4)
    by (auto simp: Handles_run_def seq.handles_spec_def hs_def [symmetric])
qed

lemma table_len_dom:
  assumes "table_ok t"
  shows "SeqTable_len t = card (dom (table_map t))"
  using distinct_card [OF keys_distinct [OF table_keys [OF assms]]] assms
  by (simp add: SeqTable_len_def table_ok_def table_map_def slot_map_def dom_map_of_conv_image_fst)

lemma open_handles_card: "card (dom (open_handles m)) = card (dom m)"
proof (rule bij_betw_same_card [of nat])
  show "bij_betw nat (dom (open_handles m)) (dom m)"
    by (rule bij_betw_byWitness [where f' = int]) (auto simp: open_handles_def split: if_splits)
qed

lemma spec_numbers: "snd (snd (spec_run ops (m, n))) = n + int (length (filter is_Open ops))"
proof (induction ops arbitrary: m n)
  case (Cons op ops)
  obtain out m1 n1 where s: "spec_step op (m, n) = (out, m1, n1)" by (metis prod_cases3)
  then have "n1 = (if is_Open op then n + 1 else n)" by (cases op) auto
  then show ?case using Cons [of m1 n1] s by (simp add: case_prod_unfold Let_def)
qed simp

lemma spec_use_after_close:
  assumes "h < n + int (length (filter is_Open ops))"
  shows "last (fst (spec_run (ops @ Close h # later @ [Read h]) (m, n))) = Answer None"
proof -
  obtain outs m1 n1 where r1: "spec_run ops (m, n) = (outs, m1, n1)" by (metis prod_cases3)
  obtain outs2 m2 n2 where r2: "spec_run later (m1(h := None), n1) = (outs2, m2, n2)" by (metis prod_cases3)
  have "h < n1" using assms spec_numbers [of ops m n] r1 by simp
  then have "m2 h = None" using spec_closed [OF _ _ r2] by simp
  then show ?thesis by (simp add: spec_run_append r1 r2 Let_def)
qed

definition sample_ops :: "nat handle_op list" where
  "sample_ops = [Open 7, Open 8, Close 3, Open 9, Write 4 1]"

lemma sample_ops_ok: "list_all op_ok sample_ops"
  by (simp add: sample_ops_def op_ok_def i64_max_def)

text \<open>
  C8. Handles refine a map and a counter: any sequence of opens, reads, writes and closes of \<open>i64\<close> handles,
  valid, closed, forged or negative, terminates without panicking and answers what a map from numbers to
  values with a counter would answer, and leaves the table representing that map. At most \<open>2 ^ 60\<close> calls.
\<close>

theorem handles_refine_map:
  assumes "0 \<le> first" "first + int (length ops) \<le> i64_max" "length ops \<le> 2 ^ 60" "list_all op_ok ops"
  shows "\<exists>outs hs. Handles_run ops (Handles_starting_at first) = Some (Inr (outs, hs)) \<and>
    spec_run ops (Map.empty, first) = (outs, open_handles (table_map (h_live hs)), h_next hs)"
  using Handles_refine [OF assms] by blast

theorem handles_refine_map_witness:
  "\<exists>outs hs. Handles_run sample_ops (Handles_starting_at 3) = Some (Inr (outs, hs)) \<and>
    outs = [Opened 3, Opened 4, Answer (Some 7), Opened 5, Answer (Some 8)]"
  using handles_refine_map [of 3 sample_ops] sample_ops_ok
  by (auto simp: sample_ops_def i64_max_def split: prod.splits)

text \<open>
  Numbers are never reused: the opens of a run answer the consecutive numbers from the first one, whatever
  is closed between them.
\<close>

theorem handle_numbers_fresh:
  assumes "0 \<le> first" "first + int (length ops) \<le> i64_max" "length ops \<le> 2 ^ 60" "list_all op_ok ops"
  shows "\<exists>outs hs. Handles_run ops (Handles_starting_at first) = Some (Inr (outs, hs)) \<and>
    opened outs = map (\<lambda>i. first + int i) [0..<length (opened outs)] \<and> h_next hs = first + int (length (opened outs))"
  using Handles_refine [OF assms] spec_opened [of ops Map.empty first] by metis

theorem handle_numbers_fresh_witness:
  "\<exists>outs hs. Handles_run sample_ops (Handles_starting_at 3) = Some (Inr (outs, hs)) \<and>
    h_next hs = 3 + int (length (opened outs))"
  using handle_numbers_fresh [of 3 sample_ops] sample_ops_ok by (auto simp: sample_ops_def i64_max_def)

text \<open>
  C29. Use after close misses: once a number that has been answered is closed, every later read of it answers
  nothing, however many handles are opened, written and closed in between.
\<close>

theorem closed_handle_misses:
  assumes "0 \<le> first" "first + int (length (ops @ Close h # later @ [Read h])) \<le> i64_max"
    and "length (ops @ Close h # later @ [Read h]) \<le> 2 ^ 60" "list_all op_ok (ops @ Close h # later @ [Read h])"
    and "h < first + int (length (filter is_Open ops))"
  shows "\<exists>outs hs. Handles_run (ops @ Close h # later @ [Read h]) (Handles_starting_at first) = Some (Inr (outs, hs)) \<and>
    last outs = Answer None"
  using Handles_refine [OF assms(1-4)] spec_use_after_close [OF assms(5), of later Map.empty] by (metis fst_conv)

theorem closed_handle_misses_witness:
  "\<exists>outs hs. Handles_run (sample_ops @ Close 4 # sample_ops @ [Read 4]) (Handles_starting_at 3) = Some (Inr (outs, hs)) \<and>
    last outs = Answer None"
  by (rule closed_handle_misses) (simp_all add: sample_ops_def i64_max_def op_ok_def)

text \<open>
  C31. Memory is proportional to the handles open at once: after any run the table has at most 64 slots or eight
  for each open handle, and its count is the number of open handles.
\<close>

theorem handles_storage_bounded:
  assumes "0 \<le> first" "first + int (length ops) \<le> i64_max" "length ops \<le> 2 ^ 60" "list_all op_ok ops"
  shows "\<exists>outs hs. Handles_run ops (Handles_starting_at first) = Some (Inr (outs, hs)) \<and>
    Handles_capacity hs \<le> max 64 (8 * Handles_len hs) \<and>
    Handles_len hs = card (dom (fst (snd (spec_run ops (Map.empty, first)))))"
proof -
  obtain outs hs where r: "Handles_run ops (Handles_starting_at first) = Some (Inr (outs, hs))" "seq.handles_ok hs"
    "spec_run ops (Map.empty, first) = (outs, open_handles (table_map (h_live hs)), h_next hs)"
    using Handles_refine [OF assms] by blast
  have ok: "table_ok (h_live hs)" using r(2) by (simp add: seq.handles_ok_def)
  have "Handles_capacity hs \<le> max 64 (8 * Handles_len hs)"
    using ok unfolding table_ok_def Handles_capacity_def Handles_len_def SeqTable_capacity_def SeqTable_len_def by blast
  then show ?thesis using r(1,3) table_len_dom [OF ok] by (auto simp: open_handles_card Handles_len_def)
qed

theorem handles_storage_bounded_witness:
  "\<exists>outs hs. Handles_run sample_ops (Handles_starting_at 3) = Some (Inr (outs, hs)) \<and> Handles_capacity hs \<le> max 64 (8 * Handles_len hs)"
  using handles_storage_bounded [of 3 sample_ops] sample_ops_ok by (auto simp: sample_ops_def i64_max_def)

end
