(* ===== verification/Rt_Deque.thy ===== *)
theory Rt_Deque
  imports Wolf_Prelude "HOL-Library.Multiset"
begin

unbundle bit_operations_syntax

text \<open>
  The work-stealing deque of a scheduler worker, \<^verbatim>\<open>crates/wolf_rt/src/task/deque.rs\<close> (Chase and Lev): one owner
  pushes and pops at the bottom, any number of thieves steal at the top. Every shared access of the code is
  \<open>SeqCst\<close>, so an execution is an interleaving of the threads' loads, stores and compare-exchanges; each is
  one step of \<open>dq_step\<close>, and what a thread holds between two of them is its program counter. The \<open>isize\<close>
  counters are integers: they count calls and do not reach \<open>2 ^ 63\<close>.
\<close>

section \<open>The machine\<close>

definition CAP :: int where
  "CAP = 256"

definition MASK :: int where
  "MASK = CAP - 1"

text \<open>A slot holds a pointer, null as \<open>None\<close>.\<close>

datatype 'a owner_pc =
    O_idle
  | Push_1 'a int \<comment> \<open>bottom loaded\<close>
  | Push_2 'a int \<comment> \<open>top loaded, there is room\<close>
  | Push_3 'a int \<comment> \<open>item stored\<close>
  | Pop_1 int \<comment> \<open>bottom loaded\<close>
  | Pop_2 int \<comment> \<open>bottom lowered\<close>
  | Pop_3 int int \<comment> \<open>top loaded\<close>
  | Pop_4 int int "'a option" \<comment> \<open>item loaded\<close>
  | Pop_5 int \<comment> \<open>raced for the last item, bottom to be restored\<close>

datatype 'a thief_pc =
    T_idle
  | Steal_1 int \<comment> \<open>top loaded\<close>
  | Steal_2 int \<comment> \<open>bottom loaded, above top\<close>
  | Steal_3 int "'a option" \<comment> \<open>item loaded\<close>

record 'a deque =
  dq_top :: int
  dq_bottom :: int
  dq_slots :: "'a option list"
  dq_owner :: "'a owner_pc"
  dq_thief :: "nat \<Rightarrow> 'a thief_pc"

definition Deque_new :: "'a deque" where
  "Deque_new = \<lparr>dq_top = 0, dq_bottom = 0, dq_slots = replicate (nat CAP) None, dq_owner = O_idle,
     dq_thief = (\<lambda>_. T_idle)\<rparr>"

definition ix :: "int \<Rightarrow> nat" where
  "ix b = nat (b AND MASK)"

text \<open>
  What a step answers: a push ends in \<open>Pushed\<close> or gives the item back, a pop announces itself when it lowers the
  bottom (\<open>Popping\<close>) and ends in \<open>Popped\<close> or \<open>Pop_none\<close>
  (decided at the compare-exchange when it races), a steal in \<open>Stolen\<close>, \<open>Steal_none\<close> or \<open>Retry\<close>.
\<close>

datatype 'a dq_label =
    Tau
  | Pushed 'a
  | Popping
  | Refused 'a
  | Popped "'a option"
  | Pop_none
  | Stolen nat "'a option"
  | Steal_none nat
  | Retry nat

inductive dq_step :: "'a deque \<Rightarrow> 'a dq_label \<Rightarrow> 'a deque \<Rightarrow> bool" where
  push_bottom: "dq_owner s = O_idle \<Longrightarrow> dq_step s Tau (s\<lparr>dq_owner := Push_1 x (dq_bottom s)\<rparr>)"
| push_full: "dq_owner s = Push_1 x b \<Longrightarrow> b - dq_top s \<ge> CAP \<Longrightarrow> dq_step s (Refused x) (s\<lparr>dq_owner := O_idle\<rparr>)"
| push_room: "dq_owner s = Push_1 x b \<Longrightarrow> \<not> b - dq_top s \<ge> CAP \<Longrightarrow> dq_step s Tau (s\<lparr>dq_owner := Push_2 x b\<rparr>)"
| push_item: "dq_owner s = Push_2 x b \<Longrightarrow>
    dq_step s Tau (s\<lparr>dq_slots := (dq_slots s)[ix b := Some x], dq_owner := Push_3 x b\<rparr>)"
| push_publish: "dq_owner s = Push_3 x b \<Longrightarrow> dq_step s (Pushed x) (s\<lparr>dq_bottom := b + 1, dq_owner := O_idle\<rparr>)"
| pop_bottom: "dq_owner s = O_idle \<Longrightarrow> dq_step s Tau (s\<lparr>dq_owner := Pop_1 (dq_bottom s - 1)\<rparr>)"
| pop_lower: "dq_owner s = Pop_1 b \<Longrightarrow> dq_step s Popping (s\<lparr>dq_bottom := b, dq_owner := Pop_2 b\<rparr>)"
| pop_top: "dq_owner s = Pop_2 b \<Longrightarrow> dq_step s Tau (s\<lparr>dq_owner := Pop_3 b (dq_top s)\<rparr>)"
| pop_empty: "dq_owner s = Pop_3 b t \<Longrightarrow> t > b \<Longrightarrow>
    dq_step s Pop_none (s\<lparr>dq_bottom := b + 1, dq_owner := O_idle\<rparr>)"
| pop_item: "dq_owner s = Pop_3 b t \<Longrightarrow> \<not> t > b \<Longrightarrow>
    dq_step s Tau (s\<lparr>dq_owner := Pop_4 b t (dq_slots s ! ix b)\<rparr>)"
| pop_take: "dq_owner s = Pop_4 b t p \<Longrightarrow> t \<noteq> b \<Longrightarrow> dq_step s (Popped p) (s\<lparr>dq_owner := O_idle\<rparr>)"
| pop_win: "dq_owner s = Pop_4 b t p \<Longrightarrow> t = b \<Longrightarrow> dq_top s = t \<Longrightarrow>
    dq_step s (Popped p) (s\<lparr>dq_top := t + 1, dq_owner := Pop_5 b\<rparr>)"
| pop_lose: "dq_owner s = Pop_4 b t p \<Longrightarrow> t = b \<Longrightarrow> dq_top s \<noteq> t \<Longrightarrow> dq_step s Pop_none (s\<lparr>dq_owner := Pop_5 b\<rparr>)"
| pop_restore: "dq_owner s = Pop_5 b \<Longrightarrow> dq_step s Tau (s\<lparr>dq_bottom := b + 1, dq_owner := O_idle\<rparr>)"
| steal_top: "dq_thief s i = T_idle \<Longrightarrow> dq_step s Tau (s\<lparr>dq_thief := (dq_thief s)(i := Steal_1 (dq_top s))\<rparr>)"
| steal_empty: "dq_thief s i = Steal_1 t \<Longrightarrow> t \<ge> dq_bottom s \<Longrightarrow>
    dq_step s (Steal_none i) (s\<lparr>dq_thief := (dq_thief s)(i := T_idle)\<rparr>)"
| steal_seen: "dq_thief s i = Steal_1 t \<Longrightarrow> \<not> t \<ge> dq_bottom s \<Longrightarrow>
    dq_step s Tau (s\<lparr>dq_thief := (dq_thief s)(i := Steal_2 t)\<rparr>)"
| steal_item: "dq_thief s i = Steal_2 t \<Longrightarrow>
    dq_step s Tau (s\<lparr>dq_thief := (dq_thief s)(i := Steal_3 t (dq_slots s ! ix t))\<rparr>)"
| steal_win: "dq_thief s i = Steal_3 t p \<Longrightarrow> dq_top s = t \<Longrightarrow>
    dq_step s (Stolen i p) (s\<lparr>dq_top := t + 1, dq_thief := (dq_thief s)(i := T_idle)\<rparr>)"
| steal_lose: "dq_thief s i = Steal_3 t p \<Longrightarrow> dq_top s \<noteq> t \<Longrightarrow>
    dq_step s (Retry i) (s\<lparr>dq_thief := (dq_thief s)(i := T_idle)\<rparr>)"

inductive dq_run :: "'a deque \<Rightarrow> 'a dq_label list \<Rightarrow> 'a deque \<Rightarrow> bool" where
  run_none: "dq_run s [] s"
| run_step: "dq_run s ls s' \<Longrightarrow> dq_step s' l s'' \<Longrightarrow> dq_run s (ls @ [l]) s''"

text \<open>\<open>len_hint\<close>, of the two values it loads.\<close>

definition len_hint :: "int \<Rightarrow> int \<Rightarrow> int" where
  "len_hint b t = max (b - t) 0"

section \<open>The deque a state stands for\<close>

text \<open>While the owner pops, the item it lowered the bottom past is still in the deque.\<close>

fun logical_bottom :: "'a owner_pc \<Rightarrow> int \<Rightarrow> int" where
  "logical_bottom (Pop_2 b) _ = b + 1"
| "logical_bottom (Pop_3 b _) _ = b + 1"
| "logical_bottom (Pop_4 b _ _) _ = b + 1"
| "logical_bottom (Pop_5 b) _ = b + 1"
| "logical_bottom _ bottom = bottom"

definition contents :: "'a deque \<Rightarrow> 'a option list" where
  "contents s = map (\<lambda>i. dq_slots s ! ix i) [dq_top s..logical_bottom (dq_owner s) (dq_bottom s) - 1]"

text \<open>
  The item at the top may be taken: it is below the bottom, or the owner popping it has yet to see that it is
  the last one, or will race for it.
\<close>

fun owner_races :: "'a owner_pc \<Rightarrow> int \<Rightarrow> bool" where
  "owner_races (Pop_2 b) t \<longleftrightarrow> b = t"
| "owner_races (Pop_3 b t') t \<longleftrightarrow> b = t \<and> t' = t"
| "owner_races (Pop_4 b t' _) t \<longleftrightarrow> b = t \<and> t' = t"
| "owner_races _ _ \<longleftrightarrow> False"

definition stealable :: "'a deque \<Rightarrow> bool" where
  "stealable s \<longleftrightarrow> dq_top s < dq_bottom s \<or> owner_races (dq_owner s) (dq_top s)"

fun owner_inv :: "'a owner_pc \<Rightarrow> int \<Rightarrow> int \<Rightarrow> 'a option list \<Rightarrow> bool" where
  "owner_inv O_idle t b s \<longleftrightarrow> True"
| "owner_inv (Push_1 x b') t b s \<longleftrightarrow> b' = b"
| "owner_inv (Push_2 x b') t b s \<longleftrightarrow> b' = b \<and> b - t < CAP"
| "owner_inv (Push_3 x b') t b s \<longleftrightarrow> b' = b \<and> b - t < CAP \<and> s ! ix b = Some x"
| "owner_inv (Pop_1 b') t b s \<longleftrightarrow> b' = b - 1"
| "owner_inv (Pop_2 b') t b s \<longleftrightarrow> b' = b"
| "owner_inv (Pop_3 b' t') t b s \<longleftrightarrow> b' = b \<and> t' \<le> t \<and> (t' < b \<longrightarrow> t \<le> b)"
| "owner_inv (Pop_4 b' t' p) t b s \<longleftrightarrow> b' = b \<and> t' \<le> t \<and> (t' < b \<longrightarrow> t \<le> b) \<and> t' \<le> b \<and> p = s ! ix b"
| "owner_inv (Pop_5 b') t b s \<longleftrightarrow> b' = b \<and> t = b + 1"

fun thief_inv :: "'a deque \<Rightarrow> 'a thief_pc \<Rightarrow> bool" where
  "thief_inv s T_idle \<longleftrightarrow> True"
| "thief_inv s (Steal_1 t) \<longleftrightarrow> t \<le> dq_top s"
| "thief_inv s (Steal_2 t) \<longleftrightarrow> t \<le> dq_top s \<and> (t = dq_top s \<longrightarrow> stealable s)"
| "thief_inv s (Steal_3 t p) \<longleftrightarrow> t \<le> dq_top s \<and> (t = dq_top s \<longrightarrow> stealable s \<and> p = dq_slots s ! ix t)"

definition dq_inv :: "'a deque \<Rightarrow> bool" where
  "dq_inv s \<longleftrightarrow>
     0 \<le> dq_top s \<and> dq_top s \<le> logical_bottom (dq_owner s) (dq_bottom s) \<and>
     logical_bottom (dq_owner s) (dq_bottom s) - dq_top s \<le> CAP \<and> length (dq_slots s) = nat CAP \<and>
     owner_inv (dq_owner s) (dq_top s) (dq_bottom s) (dq_slots s) \<and> (\<forall>i. thief_inv s (dq_thief s i))"

section \<open>The invariant holds\<close>

lemma ix_mod: "ix b = nat (b mod 256)"
proof -
  have "b AND 255 = take_bit 8 b" by (simp add: take_bit_eq_mask mask_eq_exp_minus_1)
  then show ?thesis by (simp add: ix_def MASK_def CAP_def take_bit_eq_mod)
qed

lemma ix_less: "ix b < nat CAP"
  by (simp add: ix_mod CAP_def nat_less_iff)

lemma ix_eq: "ix a = ix b \<longleftrightarrow> a mod 256 = b mod 256"
  by (simp add: ix_mod eq_nat_nat_iff)

lemma ix_inj: "a \<le> b \<Longrightarrow> b - a < CAP \<Longrightarrow> ix a = ix b \<Longrightarrow> a = b"
proof -
  assume a: "a \<le> b" "b - a < CAP" "ix a = ix b"
  then have "256 dvd b - a" by (simp add: ix_eq mod_eq_dvd_iff dvd_diff_commute)
  then show "a = b" using a zdvd_imp_le [of 256 "b - a"] by (fastforce simp: CAP_def)
qed

lemma new_inv: "dq_inv Deque_new"
  by (simp add: dq_inv_def Deque_new_def CAP_def)

text \<open>A step of the owner that leaves the top alone keeps every thief's part if it keeps what is stealable.\<close>

lemma thief_inv_owner:
  assumes "thief_inv s p" "dq_top s' = dq_top s" "stealable s \<Longrightarrow> stealable s'"
    and "stealable s \<Longrightarrow> dq_slots s' ! ix (dq_top s) = dq_slots s ! ix (dq_top s)"
  shows "thief_inv s' p"
  using assms by (cases p) auto

lemma thief_inv_top:
  assumes "thief_inv s p" "dq_top s' = dq_top s + 1"
  shows "thief_inv s' p"
  using assms by (cases p) auto

lemma thief_inv_same:
  "dq_top s' = dq_top s \<Longrightarrow> dq_bottom s' = dq_bottom s \<Longrightarrow> dq_slots s' = dq_slots s \<Longrightarrow> dq_owner s' = dq_owner s \<Longrightarrow>
   thief_inv s' p \<longleftrightarrow> thief_inv s p"
  by (cases p) (auto simp: stealable_def)

lemma dq_invD:
  assumes "dq_inv s"
  shows "0 \<le> dq_top s" "dq_top s \<le> logical_bottom (dq_owner s) (dq_bottom s)"
    "logical_bottom (dq_owner s) (dq_bottom s) - dq_top s \<le> CAP" "length (dq_slots s) = nat CAP"
    "owner_inv (dq_owner s) (dq_top s) (dq_bottom s) (dq_slots s)" "thief_inv s (dq_thief s i)"
  using assms by (auto simp: dq_inv_def)

lemma owner_step_inv:
  assumes "dq_inv s" "dq_thief s' = dq_thief s" "dq_top s' = dq_top s" "dq_slots s' = dq_slots s"
    and "stealable s \<Longrightarrow> stealable s'"
    and "dq_top s \<le> logical_bottom (dq_owner s') (dq_bottom s')"
    and "logical_bottom (dq_owner s') (dq_bottom s') - dq_top s \<le> CAP"
    and "owner_inv (dq_owner s') (dq_top s) (dq_bottom s') (dq_slots s)"
  shows "dq_inv s'"
proof -
  have "thief_inv s' (dq_thief s i)" for i
    by (rule thief_inv_owner [OF dq_invD(6) [OF assms(1)] assms(3,5)]) (simp_all add: assms(4))
  then show ?thesis using assms by (simp add: dq_inv_def)
qed

lemma thief_step_inv:
  assumes "dq_inv s" "thief_inv s p"
  shows "dq_inv (s\<lparr>dq_thief := (dq_thief s)(i := p)\<rparr>)"
proof -
  let ?s = "s\<lparr>dq_thief := (dq_thief s)(i := p)\<rparr>"
  have "thief_inv ?s q \<longleftrightarrow> thief_inv s q" for q by (rule thief_inv_same) simp_all
  then show ?thesis using assms by (auto simp: dq_inv_def)
qed

lemma take_top_inv:
  assumes "dq_inv s" "dq_top s' = dq_top s + 1" "dq_slots s' = dq_slots s" "dq_bottom s' = dq_bottom s"
    and "\<And>i. dq_thief s' i = dq_thief s i \<or> dq_thief s' i = T_idle"
    and "dq_top s + 1 \<le> logical_bottom (dq_owner s') (dq_bottom s)"
    and "logical_bottom (dq_owner s') (dq_bottom s) - dq_top s \<le> CAP"
    and "owner_inv (dq_owner s') (dq_top s + 1) (dq_bottom s) (dq_slots s)"
  shows "dq_inv s'"
proof -
  have "thief_inv s' (dq_thief s' i)" for i
    using assms(1) thief_inv_top [OF _ assms(2), of "dq_thief s i"] assms(5) [of i] by (auto simp: dq_inv_def)
  then show ?thesis using assms by (simp add: dq_inv_def)
qed

lemma step_inv: "dq_step s l s' \<Longrightarrow> dq_inv s \<Longrightarrow> dq_inv s'"
proof (induction rule: dq_step.induct)
  case (push_item s x b)
  note inv = dq_invD [OF push_item(2)]
  let ?s = "s\<lparr>dq_slots := (dq_slots s)[ix b := Some x], dq_owner := Push_3 x b\<rparr>"
  have b: "b = dq_bottom s" "b - dq_top s < CAP" "dq_top s \<le> b"
    using inv(2,5) push_item(1) by auto
  have "thief_inv ?s (dq_thief s i)" for i
  proof (rule thief_inv_owner [OF inv(6)])
    assume "stealable s"
    then have "dq_top s < b" using push_item(1) b by (simp add: stealable_def)
    then have "ix (dq_top s) \<noteq> ix b" using ix_inj [of "dq_top s" b] b by auto
    then show "dq_slots ?s ! ix (dq_top s) = dq_slots s ! ix (dq_top s)" by simp
  qed (use push_item(1) in \<open>simp_all add: stealable_def\<close>)
  then show ?case using b inv(1,4) ix_less [of b] by (simp add: dq_inv_def)
next
  case (steal_win s i t p)
  note inv = dq_invD [OF steal_win(3)]
  have st: "stealable s" using inv(6) [of i] steal_win(1,2) by simp
  show ?case
  proof (rule take_top_inv [OF steal_win(3)])
    show "dq_top s + 1 \<le> logical_bottom (dq_owner (s\<lparr>dq_top := t + 1, dq_thief := (dq_thief s)(i := T_idle)\<rparr>)) (dq_bottom s)"
      using inv(5) st by (cases "dq_owner s") (auto simp: stealable_def)
    show "owner_inv (dq_owner (s\<lparr>dq_top := t + 1, dq_thief := (dq_thief s)(i := T_idle)\<rparr>)) (dq_top s + 1)
        (dq_bottom s) (dq_slots s)"
      using inv(5) st by (cases "dq_owner s") (auto simp: stealable_def)
  qed (use steal_win(2) inv(3) in simp_all)
next
  case (pop_win s b t p)
  note inv = dq_invD [OF pop_win(4)]
  show ?case
    by (rule take_top_inv [OF pop_win(4)]) (use pop_win(1-3) inv(5) in \<open>simp_all add: CAP_def\<close>)
next
  case (steal_top s i)
  then show ?case by (intro thief_step_inv) simp_all
next
  case (steal_empty s i t)
  then show ?case by (intro thief_step_inv) simp_all
next
  case (steal_seen s i t)
  then show ?case using dq_invD(6) [OF steal_seen(3), of i] by (intro thief_step_inv) (simp_all add: stealable_def)
next
  case (steal_item s i t)
  then show ?case using dq_invD(6) [OF steal_item(2), of i] by (intro thief_step_inv) simp_all
next
  case (steal_lose s i t p)
  then show ?case by (intro thief_step_inv) simp_all
next
  case (push_bottom s x)
  note inv = dq_invD [OF push_bottom(2)]
  show ?case by (rule owner_step_inv [OF push_bottom(2)]) (use inv(2,3) push_bottom(1) in \<open>simp_all add: stealable_def\<close>)
next
  case (push_full s x b)
  note inv = dq_invD [OF push_full(3)]
  show ?case by (rule owner_step_inv [OF push_full(3)]) (use inv(2,3) push_full(1) in \<open>simp_all add: stealable_def\<close>)
next
  case (push_room s x b)
  note inv = dq_invD [OF push_room(3)]
  show ?case by (rule owner_step_inv [OF push_room(3)]) (use inv(2,3,5) push_room(1,2) in \<open>simp_all add: stealable_def\<close>)
next
  case (push_publish s x b)
  note inv = dq_invD [OF push_publish(2)]
  show ?case by (rule owner_step_inv [OF push_publish(2)]) (use inv(2,3,5) push_publish(1) in \<open>auto simp: stealable_def\<close>)
next
  case (pop_bottom s)
  note inv = dq_invD [OF pop_bottom(2)]
  show ?case by (rule owner_step_inv [OF pop_bottom(2)]) (use inv(2,3) pop_bottom(1) in \<open>simp_all add: stealable_def\<close>)
next
  case (pop_lower s b)
  note inv = dq_invD [OF pop_lower(2)]
  show ?case by (rule owner_step_inv [OF pop_lower(2)]) (use inv(2,3,5) pop_lower(1) in \<open>auto simp: stealable_def\<close>)
next
  case (pop_top s b)
  note inv = dq_invD [OF pop_top(2)]
  show ?case by (rule owner_step_inv [OF pop_top(2)]) (use inv(2,3,5) pop_top(1) in \<open>auto simp: stealable_def\<close>)
next
  case (pop_empty s b t)
  note inv = dq_invD [OF pop_empty(3)]
  show ?case by (rule owner_step_inv [OF pop_empty(3)]) (use inv(2,3,5) pop_empty(1,2) in \<open>auto simp: stealable_def\<close>)
next
  case (pop_item s b t)
  note inv = dq_invD [OF pop_item(3)]
  show ?case by (rule owner_step_inv [OF pop_item(3)]) (use inv(2,3,5) pop_item(1,2) in \<open>auto simp: stealable_def\<close>)
next
  case (pop_take s b t p)
  note inv = dq_invD [OF pop_take(3)]
  show ?case by (rule owner_step_inv [OF pop_take(3)]) (use inv(2,3,5) pop_take(1,2) in \<open>auto simp: stealable_def\<close>)
next
  case (pop_lose s b t p)
  note inv = dq_invD [OF pop_lose(4)]
  show ?case by (rule owner_step_inv [OF pop_lose(4)]) (use inv(2,3,5) pop_lose(1-3) in \<open>auto simp: stealable_def\<close>)
next
  case (pop_restore s b)
  note inv = dq_invD [OF pop_restore(2)]
  show ?case by (rule owner_step_inv [OF pop_restore(2)]) (use inv(2,3,5) pop_restore(1) in \<open>auto simp: stealable_def\<close>)
qed

section \<open>The abstract deque\<close>

text \<open>
  One answer on the list of items, with a flag for a pop that has announced itself and not yet answered: pushes
  at the end, pops from the end, steals from the front, refuses only when full. A pop that finds nothing finds
  the list empty; so does a steal, except that an announced pop hides a single item from it.
\<close>

fun abs_step :: "'a dq_label \<Rightarrow> 'a option list \<times> bool \<Rightarrow> ('a option list \<times> bool) option" where
  "abs_step Tau (q, popping) = Some (q, popping)"
| "abs_step (Pushed x) (q, popping) = (if \<not> popping \<and> length q < nat CAP then Some (q @ [Some x], False) else None)"
| "abs_step (Refused x) (q, popping) = (if \<not> popping \<and> length q = nat CAP then Some (q, False) else None)"
| "abs_step Popping (q, popping) = (if \<not> popping then Some (q, True) else None)"
| "abs_step (Popped p) (q, popping) = (if popping \<and> q \<noteq> [] \<and> last q = p then Some (butlast q, False) else None)"
| "abs_step Pop_none (q, popping) = (if popping \<and> q = [] then Some (q, False) else None)"
| "abs_step (Stolen i p) (q, popping) = (if q \<noteq> [] \<and> hd q = p then Some (tl q, popping) else None)"
| "abs_step (Steal_none i) (q, popping) = (if q = [] \<or> popping \<and> length q = 1 then Some (q, popping) else None)"
| "abs_step (Retry i) (q, popping) = Some (q, popping)"

fun abs_run :: "'a dq_label list \<Rightarrow> 'a option list \<times> bool \<Rightarrow> ('a option list \<times> bool) option" where
  "abs_run [] q = Some q"
| "abs_run (l # ls) q = (case abs_step l q of None \<Rightarrow> None | Some q' \<Rightarrow> abs_run ls q')"

text \<open>A pop has lowered the bottom and not answered.\<close>

fun in_pop :: "'a owner_pc \<Rightarrow> bool" where
  "in_pop (Pop_2 b) \<longleftrightarrow> True"
| "in_pop (Pop_3 b t) \<longleftrightarrow> True"
| "in_pop (Pop_4 b t p) \<longleftrightarrow> True"
| "in_pop _ \<longleftrightarrow> False"

abbreviation abs_of :: "'a deque \<Rightarrow> 'a option list \<times> bool" where
  "abs_of s \<equiv> (contents s, in_pop (dq_owner s))"

lemma abs_run_append: "abs_run (xs @ ys) q = (case abs_run xs q of None \<Rightarrow> None | Some q' \<Rightarrow> abs_run ys q')"
  by (induction xs arbitrary: q) (auto split: option.splits)

lemma contents_length: "length (contents s) = nat (logical_bottom (dq_owner s) (dq_bottom s) - dq_top s)"
  by (simp add: contents_def)

lemma contents_cong:
  "dq_top s' = dq_top s \<Longrightarrow> dq_slots s' = dq_slots s \<Longrightarrow>
   logical_bottom (dq_owner s') (dq_bottom s') = logical_bottom (dq_owner s) (dq_bottom s) \<Longrightarrow> contents s' = contents s"
  by (simp add: contents_def)

lemma contents_front:
  "dq_top s < logical_bottom (dq_owner s) (dq_bottom s) \<Longrightarrow> dq_top s' = dq_top s + 1 \<Longrightarrow> dq_slots s' = dq_slots s \<Longrightarrow>
   logical_bottom (dq_owner s') (dq_bottom s') = logical_bottom (dq_owner s) (dq_bottom s) \<Longrightarrow>
   contents s = dq_slots s ! ix (dq_top s) # contents s'"
  by (simp add: contents_def upto_rec1)

lemma contents_back:
  "dq_top s' \<le> b \<Longrightarrow> logical_bottom (dq_owner s) (dq_bottom s) = b \<Longrightarrow> dq_top s' = dq_top s \<Longrightarrow> dq_slots s' = dq_slots s \<Longrightarrow>
   logical_bottom (dq_owner s') (dq_bottom s') = b + 1 \<Longrightarrow> contents s' = contents s @ [dq_slots s ! ix b]"
  by (simp add: contents_def upto_rec2)

lemma step_sim: "dq_step s l s' \<Longrightarrow> dq_inv s \<Longrightarrow> abs_step l (abs_of s) = Some (abs_of s')"
proof (induction rule: dq_step.induct)
  case (push_item s x b)
  note inv = dq_invD [OF push_item(2)]
  let ?s = "s\<lparr>dq_slots := (dq_slots s)[ix b := Some x], dq_owner := Push_3 x b\<rparr>"
  have "dq_slots ?s ! ix i = dq_slots s ! ix i" if "i \<in> {dq_top s..b - 1}" for i
  proof -
    have "ix i \<noteq> ix b" using ix_inj [of i b] that inv(5) push_item(1) by auto
    then show ?thesis by simp
  qed
  then show ?case using push_item(1) inv(5) by (simp add: contents_def)
next
  case (push_full s x b)
  then show ?case using dq_invD [OF push_full(3)]
    by (simp add: contents_length contents_cong [of "s\<lparr>dq_owner := O_idle\<rparr>" s])
next
  case (push_publish s x b)
  note inv = dq_invD [OF push_publish(2)]
  have "contents (s\<lparr>dq_bottom := b + 1, dq_owner := O_idle\<rparr>) = contents s @ [dq_slots s ! ix b]"
    by (rule contents_back) (use inv(2,5) push_publish(1) in simp_all)
  then show ?case using inv(5) push_publish(1) inv(2) by (auto simp: contents_length CAP_def nat_less_iff)
next
  case (pop_empty s b t)
  note inv = dq_invD [OF pop_empty(3)]
  have "contents (s\<lparr>dq_bottom := b + 1, dq_owner := O_idle\<rparr>) = contents s"
    by (rule contents_cong) (use pop_empty(1) in simp_all)
  moreover have "contents s = []" using inv(5) pop_empty(1,2) by (simp add: contents_def)
  ultimately show ?case using pop_empty(1) by simp
next
  case (pop_take s b t p)
  note inv = dq_invD [OF pop_take(3)]
  have "contents s = contents (s\<lparr>dq_owner := O_idle\<rparr>) @ [dq_slots (s\<lparr>dq_owner := O_idle\<rparr>) ! ix b]"
    by (rule contents_back) (use inv(5) pop_take(1,2) in simp_all)
  then show ?case using inv(5) pop_take(1) by simp
next
  case (pop_win s b t p)
  note inv = dq_invD [OF pop_win(4)]
  let ?s = "s\<lparr>dq_top := t + 1, dq_owner := Pop_5 b\<rparr>"
  have "contents s = dq_slots s ! ix (dq_top s) # contents ?s"
    by (rule contents_front) (use pop_win(1-3) in simp_all)
  moreover have "contents ?s = []" using pop_win(2) by (simp add: contents_def)
  ultimately show ?case using inv(5) pop_win(1-3) by simp
next
  case (pop_lose s b t p)
  note inv = dq_invD [OF pop_lose(4)]
  have "contents s = []" using inv(2,5) pop_lose(1-3) by (simp add: contents_def)
  moreover have "contents (s\<lparr>dq_owner := Pop_5 b\<rparr>) = contents s"
    by (rule contents_cong) (use pop_lose(1) in simp_all)
  ultimately show ?case using pop_lose(1) by simp
next
  case (steal_win s i t p)
  note inv = dq_invD [OF steal_win(3)]
  let ?s = "s\<lparr>dq_top := t + 1, dq_thief := (dq_thief s)(i := T_idle)\<rparr>"
  have st: "stealable s" "p = dq_slots s ! ix t" using inv(6) [of i] steal_win(1,2) by auto
  have "contents s = dq_slots s ! ix (dq_top s) # contents ?s"
  proof (rule contents_front)
    show "dq_top s < logical_bottom (dq_owner s) (dq_bottom s)"
      using inv(5) st by (cases "dq_owner s") (auto simp: stealable_def)
  qed (use steal_win(2) in simp_all)
  then show ?case using st(2) steal_win(2) by simp
next
  case (steal_empty s i t)
  note inv = dq_invD [OF steal_empty(3)]
  have "logical_bottom (dq_owner s) (dq_bottom s) \<le> dq_bottom s + 1"
    "logical_bottom (dq_owner s) (dq_bottom s) \<noteq> dq_bottom s \<Longrightarrow> in_pop (dq_owner s) \<or> dq_top s = dq_bottom s + 1"
    using inv(5) by (cases "dq_owner s"; simp)+
  moreover have "t \<le> dq_top s" using inv(6) [of i] steal_empty(1) by simp
  ultimately have "contents s = [] \<or> in_pop (dq_owner s) \<and> length (contents s) = 1"
    using steal_empty(2) unfolding length_0_conv [symmetric] contents_length by linarith
  then show ?case by (simp add: contents_cong [of "s\<lparr>dq_thief := (dq_thief s)(i := T_idle)\<rparr>" s])
next
  case (push_bottom s x)
  then show ?case by (auto intro!: contents_cong [symmetric])
next
  case (push_room s x b)
  then show ?case by (auto intro!: contents_cong [symmetric])
next
  case (pop_bottom s)
  then show ?case by (auto intro!: contents_cong [symmetric])
next
  case (pop_lower s b)
  then show ?case using dq_invD(5) [OF pop_lower(2)] by (auto intro!: contents_cong [symmetric])
next
  case (pop_top s b)
  then show ?case by (auto intro!: contents_cong [symmetric])
next
  case (pop_item s b t)
  then show ?case by (auto intro!: contents_cong [symmetric])
next
  case (pop_restore s b)
  then show ?case by (auto intro!: contents_cong [symmetric])
qed (simp_all add: contents_def)

lemma dq_run_inv: "dq_run s ls s' \<Longrightarrow> dq_inv s \<Longrightarrow> dq_inv s' \<and> abs_run ls (abs_of s) = Some (abs_of s')"
proof (induction rule: dq_run.induct)
  case (run_step s ls s' l s'')
  then show ?case using step_inv [OF run_step(2)] step_sim [OF run_step(2)] by (auto simp: abs_run_append)
qed simp

lemma reachable_inv:
  assumes "dq_run Deque_new ls s"
  shows "dq_inv s" "abs_run ls ([], False) = Some (abs_of s)"
  using dq_run_inv [OF assms new_inv] by (simp_all add: contents_def Deque_new_def)

section \<open>Properties\<close>

fun pushed_items :: "'a dq_label list \<Rightarrow> 'a option list" where
  "pushed_items [] = []"
| "pushed_items (l # ls) = (case l of Pushed x \<Rightarrow> [Some x] | _ \<Rightarrow> []) @ pushed_items ls"

fun taken_items :: "'a dq_label list \<Rightarrow> 'a option list" where
  "taken_items [] = []"
| "taken_items (l # ls) = (case l of Popped p \<Rightarrow> [p] | Stolen _ p \<Rightarrow> [p] | _ \<Rightarrow> []) @ taken_items ls"

lemma abs_balance:
  "abs_run ls q = Some q' \<Longrightarrow> mset (fst q) + mset (pushed_items ls) = mset (taken_items ls) + mset (fst q')"
proof (induction ls arbitrary: q)
  case (Cons l ls)
  then obtain q1 where q1: "abs_step l q = Some q1" "abs_run ls q1 = Some q'" by (auto split: option.splits)
  note ih = Cons.IH [OF q1(2)]
  obtain xs w where q: "q = (xs, w)" by (cases q)
  show ?case
  proof (cases l)
    case (Popped p)
    then obtain r where "xs = r @ [p]" "fst q1 = r" using q1(1) q by (cases xs rule: rev_cases) (auto split: if_splits)
    then show ?thesis using ih Popped q by simp
  next
    case (Stolen i p)
    then obtain r where "xs = p # r" "fst q1 = r" using q1(1) q by (cases xs) (auto split: if_splits)
    then show ?thesis using ih Stolen q by simp
  qed (use ih q1(1) q in \<open>auto split: if_splits\<close>)
qed simp

text \<open>A worker pushes one item and a thief steals it.\<close>

lemma sample_run:
  "\<exists>s. dq_run (Deque_new :: nat deque) [Tau, Tau, Tau, Pushed 5, Tau, Tau, Tau, Stolen 3 (Some 5)] s"
proof -
  define sl where "sl = (replicate 256 None)[0 := Some (5 :: nat)]"
  define st where "st t b s w h = \<lparr>dq_top = t, dq_bottom = b, dq_slots = s, dq_owner = w, dq_thief = (\<lambda>_. T_idle)(3 := h)\<rparr>"
    for t b s w and h :: "nat thief_pc"
  let ?e = "replicate 256 None"
  have ix0: "ix 0 = 0" by (simp add: ix_mod)
  have "Deque_new = st 0 0 ?e O_idle T_idle" by (auto simp: st_def Deque_new_def CAP_def)
  then have r0: "dq_run Deque_new [] (st 0 0 ?e O_idle T_idle)" using run_none by metis
  have s1: "dq_step (st 0 0 ?e O_idle T_idle) Tau (st 0 0 ?e (Push_1 5 0) T_idle)"
    using push_bottom [of "st 0 0 ?e O_idle T_idle" 5] by (simp add: st_def)
  have s2: "dq_step (st 0 0 ?e (Push_1 5 0) T_idle) Tau (st 0 0 ?e (Push_2 5 0) T_idle)"
    using push_room [of "st 0 0 ?e (Push_1 5 0) T_idle"] by (simp add: st_def CAP_def)
  have s3: "dq_step (st 0 0 ?e (Push_2 5 0) T_idle) Tau (st 0 0 sl (Push_3 5 0) T_idle)"
    using push_item [of "st 0 0 ?e (Push_2 5 0) T_idle"] by (simp add: st_def sl_def ix0)
  have s4: "dq_step (st 0 0 sl (Push_3 5 0) T_idle) (Pushed 5) (st 0 1 sl O_idle T_idle)"
    using push_publish [of "st 0 0 sl (Push_3 5 0) T_idle"] by (simp add: st_def)
  have s5: "dq_step (st 0 1 sl O_idle T_idle) Tau (st 0 1 sl O_idle (Steal_1 0))"
    using steal_top [of "st 0 1 sl O_idle T_idle" 3] by (simp add: st_def)
  have s6: "dq_step (st 0 1 sl O_idle (Steal_1 0)) Tau (st 0 1 sl O_idle (Steal_2 0))"
    using steal_seen [of "st 0 1 sl O_idle (Steal_1 0)" 3] by (simp add: st_def)
  have s7: "dq_step (st 0 1 sl O_idle (Steal_2 0)) Tau (st 0 1 sl O_idle (Steal_3 0 (Some 5)))"
    using steal_item [of "st 0 1 sl O_idle (Steal_2 0)" 3] by (simp add: st_def sl_def ix0)
  have s8: "dq_step (st 0 1 sl O_idle (Steal_3 0 (Some 5))) (Stolen 3 (Some 5)) (st 1 1 sl O_idle T_idle)"
    using steal_win [of "st 0 1 sl O_idle (Steal_3 0 (Some 5))" 3] by (simp add: st_def)
  note run_step [OF run_step [OF run_step [OF run_step [OF run_step [OF run_step [OF run_step [OF
    run_step [OF r0 s1] s2] s3] s4] s5] s6] s7] s8]
  then show ?thesis unfolding append_Nil append_Cons by blast
qed

text \<open>
  C6. Every answer of the deque takes effect at once on a list, whatever the interleaving of one owner and any
  number of thieves, with one exception. A push adds at the end and is refused only when the list has 256 items,
  a pop takes the last item or finds the list empty, a steal takes the first item. A steal that answers \<open>Empty\<close>
  finds the list empty, or holding a single item while a pop that has lowered the bottom has not answered yet;
  never with the owner idle. At every point the list is what the slots between top and bottom hold, the item
  under such a pop included.
\<close>

theorem deque_refines_list:
  assumes "dq_run Deque_new ls s"
  shows "abs_run ls ([], False) = Some (contents s, in_pop (dq_owner s))"
  by (rule reachable_inv(2) [OF assms])

theorem deque_refines_list_witness:
  "fst (the (abs_run [Tau, Tau, Tau, Pushed 5, Tau, Tau, Tau, Stolen 3 (Some 5)] ([], False))) = ([] :: nat option list)"
proof -
  obtain s where s: "dq_run (Deque_new :: nat deque) [Tau, Tau, Tau, Pushed 5, Tau, Tau, Tau, Stolen 3 (Some 5)] s"
    using sample_run by blast
  have "contents s = []" using deque_refines_list [OF s] by (simp add: CAP_def)
  then show ?thesis using deque_refines_list [OF s] by simp
qed

text \<open>
  C18. No item is lost and none is taken twice: in every run the items pushed are, with multiplicity, the items
  popped or stolen and the items still in the deque, and no pop or steal ever returns a null pointer.
\<close>

theorem deque_exactly_once:
  assumes "dq_run Deque_new ls s"
  shows "mset (pushed_items ls) = mset (taken_items ls) + mset (contents s) \<and> None \<notin> set (taken_items ls)"
proof -
  have "None \<notin> set (pushed_items ls)" by (induction ls) (auto split: dq_label.splits)
  moreover have b: "mset (pushed_items ls) = mset (taken_items ls) + mset (contents s)"
    using abs_balance [OF reachable_inv(2) [OF assms]] by simp
  moreover have "set (taken_items ls) \<subseteq> set (pushed_items ls)" using arg_cong [OF b, of set_mset] by simp
  ultimately show ?thesis by blast
qed

theorem deque_exactly_once_witness:
  "\<exists>s :: nat deque. mset (contents s) = {#} \<and> dq_run Deque_new [Tau, Tau, Tau, Pushed 5, Tau, Tau, Tau, Stolen 3 (Some 5)] s"
  using sample_run deque_exactly_once by fastforce

text \<open>
  The counters stay in range in every reachable state: the top never passes the bottom by more than the one
  a pop in progress has lowered it, at most 256 items are held, and every slot a thread is about to touch exists.
\<close>

theorem deque_bounds:
  assumes "dq_run Deque_new ls s"
  shows "0 \<le> dq_top s \<and> dq_top s \<le> dq_bottom s + 1 \<and> dq_bottom s - dq_top s \<le> CAP \<and>
    length (contents s) \<le> nat CAP \<and> ix i < length (dq_slots s)"
proof -
  note inv = dq_invD [OF reachable_inv(1) [OF assms]]
  have "dq_bottom s \<le> logical_bottom (dq_owner s) (dq_bottom s)"
    "logical_bottom (dq_owner s) (dq_bottom s) \<le> dq_bottom s + 1"
    using inv(5) by (cases "dq_owner s"; simp)+
  then show ?thesis using inv(1-4) ix_less by (auto simp: contents_length)
qed

theorem deque_bounds_witness: "\<exists>s :: nat deque. dq_top s \<le> dq_bottom s + 1 \<and> length (contents s) \<le> 256"
  using sample_run deque_bounds [of _ _ 0] by (force simp: CAP_def)

end
