(* ===== verification/Fmt_Doc.thy ===== *)
theory Fmt_Doc
  imports Wolf_Prelude
begin

unbundle bit_operations_syntax

text \<open>
  The formatter's document algebra, \<^verbatim>\<open>crates/wolf_fmt/src/doc.rs\<close>: the \<open>Doc\<close> tree, the questions asked of it
  (\<open>forced\<close>, \<open>own_forced\<close>, \<open>wont_render_inline\<close>, \<open>fits\<close>, \<open>break_would_help\<close>) and the stack machine \<open>render\<close>.
  Widths are \<open>isize\<close> counts of bytes held in memory, so integers. A stack is a list whose head is its top.
\<close>

definition WIDTH :: nat where
  "WIDTH = 100"

definition INDENT :: nat where
  "INDENT = 4"

datatype doc =
    Text bytes
  | Raw bytes
  | Line
  | Softline
  | Hardline
  | FreshLine
  | Blankline
  | Concat "doc list"
  | Group "doc list"
  | LastResort "doc list"
  | Indent "doc list"
  | IndentIfBroken "doc list"
  | IfBreak bytes bytes
  | LineSuffix bytes
  | BreakParent
  | Shield "doc list"

datatype mode = Flat | FlatOpen | Broken

abbreviation nl :: byte where
  "nl \<equiv> CHR 0x0A"

abbreviation sp :: byte where
  "sp \<equiv> CHR 0x20"

section \<open>Forced breaks\<close>

fun forced :: "doc \<Rightarrow> bool" where
  "forced Hardline = True"
| "forced FreshLine = True"
| "forced Blankline = True"
| "forced BreakParent = True"
| "forced (Raw b) = (nl \<in> set b)"
| "forced (Concat ds) = list_ex forced ds"
| "forced (Group ds) = list_ex forced ds"
| "forced (LastResort ds) = list_ex forced ds"
| "forced (Indent ds) = list_ex forced ds"
| "forced (IndentIfBroken ds) = list_ex forced ds"
| "forced _ = False"

fun own_forced_doc :: "doc \<Rightarrow> bool" where
  "own_forced_doc Hardline = True"
| "own_forced_doc FreshLine = True"
| "own_forced_doc Blankline = True"
| "own_forced_doc BreakParent = True"
| "own_forced_doc (Raw b) = (nl \<in> set b)"
| "own_forced_doc (Concat cs) = list_ex own_forced_doc cs"
| "own_forced_doc (Indent cs) = list_ex own_forced_doc cs"
| "own_forced_doc (IndentIfBroken cs) = list_ex own_forced_doc cs"
| "own_forced_doc _ = False"

definition own_forced :: "doc list \<Rightarrow> bool" where
  "own_forced ds = list_ex own_forced_doc ds"

text \<open>Character count: every byte that is not a UTF-8 continuation byte.\<close>

definition chars :: "bytes \<Rightarrow> nat" where
  "chars bs = length (filter (\<lambda>b. byte_val b AND 0xC0 \<noteq> 0x80) bs)"

fun pierced :: "doc \<Rightarrow> bool" where
  "pierced Hardline = True"
| "pierced FreshLine = True"
| "pierced Blankline = True"
| "pierced BreakParent = True"
| "pierced (Raw b) = (nl \<in> set b)"
| "pierced (Concat ds) = list_ex pierced ds"
| "pierced (Group ds) = list_ex pierced ds"
| "pierced (LastResort ds) = list_ex pierced ds"
| "pierced (Indent ds) = list_ex pierced ds"
| "pierced (IndentIfBroken ds) = list_ex pierced ds"
| "pierced (Shield ds) = list_ex pierced ds"
| "pierced _ = False"

text \<open>\<open>overflows\<close> threads its budget through a short-circuit \<open>any\<close>.\<close>

fun overflows :: "doc \<Rightarrow> int \<Rightarrow> bool \<times> int"
  and overflows_any :: "doc list \<Rightarrow> int \<Rightarrow> bool \<times> int" where
  "overflows (Text t) n = (if nl \<in> set t then (False, n) else (let n = n - int (chars t) in (n < 0, n)))"
| "overflows (Raw t) n = (if nl \<in> set t then (False, n) else (let n = n - int (chars t) in (n < 0, n)))"
| "overflows Line n = (n - 1 < 0, n - 1)"
| "overflows (IfBreak broken flat) n = (let n = n - int (chars flat) in (n < 0, n))"
| "overflows (Concat ds) n = overflows_any ds n"
| "overflows (Group ds) n = overflows_any ds n"
| "overflows (LastResort ds) n = overflows_any ds n"
| "overflows (Indent ds) n = overflows_any ds n"
| "overflows (IndentIfBroken ds) n = overflows_any ds n"
| "overflows (Shield ds) n = overflows_any ds n"
| "overflows _ n = (False, n)"
| "overflows_any [] n = (False, n)"
| "overflows_any (d # ds) n = (case overflows d n of (True, n) \<Rightarrow> (True, n) | (False, n) \<Rightarrow> overflows_any ds n)"

definition wont_render_inline :: "doc \<Rightarrow> bool" where
  "wont_render_inline d = (pierced d \<or> fst (overflows d (int WIDTH)))"

section \<open>Fitting\<close>

type_synonym item = "nat \<times> mode \<times> doc"

definition position :: "('a \<Rightarrow> bool) \<Rightarrow> 'a list \<Rightarrow> nat option" where
  "position P xs = (let i = length (takeWhile (\<lambda>x. \<not> P x) xs) in if i < length xs then Some i else None)"

definition rposition :: "('a \<Rightarrow> bool) \<Rightarrow> 'a list \<Rightarrow> nat option" where
  "rposition P xs = map_option (\<lambda>i. length xs - Suc i) (position P (rev xs))"

lemma size_children: "sum_list (map (\<lambda>c. Suc (size c)) ds) = size_list size ds"
  by (induction ds) auto

text \<open>The measuring loop.\<close>

function fits_loop :: "bool \<Rightarrow> int \<Rightarrow> (mode \<times> doc) list \<Rightarrow> bool" where
  "fits_loop probe budget [] = (budget \<ge> 0)"
| "fits_loop probe budget ((m, d) # stack) =
     (if budget < 0 then False
      else case d of
        Text t \<Rightarrow> fits_loop probe (budget - int (chars t)) stack
      | Raw r \<Rightarrow>
          (case position (\<lambda>b. b = nl) r of
             Some i \<Rightarrow> budget - int (chars (take i r)) \<ge> 0
           | None \<Rightarrow> fits_loop probe (budget - int (chars r)) stack)
      | Line \<Rightarrow> if m = Broken then budget \<ge> 0 else fits_loop probe (budget - 1) stack
      | Softline \<Rightarrow> if m = Broken then budget \<ge> 0 else fits_loop probe budget stack
      | Hardline \<Rightarrow> budget \<ge> 0
      | FreshLine \<Rightarrow> budget \<ge> 0
      | Blankline \<Rightarrow> budget \<ge> 0
      | Concat ds \<Rightarrow> fits_loop probe budget (map (\<lambda>c. (m, c)) ds @ stack)
      | Indent ds \<Rightarrow> fits_loop probe budget (map (\<lambda>c. (m, c)) ds @ stack)
      | IndentIfBroken ds \<Rightarrow> fits_loop probe budget (map (\<lambda>c. (m, c)) ds @ stack)
      | Group ds \<Rightarrow>
          (let m' = (if list_ex forced ds \<or> (probe \<and> m = Flat) then Broken else m)
           in fits_loop probe budget (map (\<lambda>c. (m', c)) ds @ stack))
      | LastResort ds \<Rightarrow>
          (let m' = (if own_forced ds \<or> (probe \<and> m = Flat) then Broken
                     else if list_ex forced ds then FlatOpen else m)
           in fits_loop probe budget (map (\<lambda>c. (m', c)) ds @ stack))
      | Shield ds \<Rightarrow> budget \<ge> 0
      | IfBreak broken flat \<Rightarrow> fits_loop probe (budget - int (chars (if m = Broken then broken else flat))) stack
      | LineSuffix b \<Rightarrow> fits_loop probe budget stack
      | BreakParent \<Rightarrow> fits_loop probe budget stack)"
  by pat_completeness auto
termination
  by (relation "measure (\<lambda>(probe, budget, stack). sum_list (map (\<lambda>(m, d). Suc (size d)) stack))")
    (auto simp: comp_def size_children)

declare fits_loop.simps [simp del]

definition fits :: "doc list \<Rightarrow> item list \<Rightarrow> nat \<Rightarrow> bool \<Rightarrow> bool" where
  "fits docs rest col probe =
     fits_loop probe (int WIDTH - int col) (map (\<lambda>d. (Flat, d)) docs @ map (\<lambda>(_, m, d). (m, d)) rest)"

fun own :: "doc list \<Rightarrow> doc list"
  and own_doc :: "doc \<Rightarrow> doc list" where
  "own [] = []"
| "own (d # ds) = own_doc d @ own ds"
| "own_doc (Concat cs) = own cs"
| "own_doc (Indent cs) = own cs"
| "own_doc (IndentIfBroken cs) = own cs"
| "own_doc d = [d]"

definition break_would_help :: "doc list \<Rightarrow> item list \<Rightarrow> nat \<Rightarrow> bool" where
  "break_would_help ds rest ind =
     (let flat = own ds
      in case rposition (\<lambda>d. d = Line \<or> d = Softline) flat of
           None \<Rightarrow> False
         | Some i \<Rightarrow> fits (drop (i + 1) flat) rest (ind + INDENT) True)"

section \<open>Rendering\<close>

record renderer =
  rs_out :: bytes
  rs_col :: nat
  rs_pending :: "nat option"
  rs_suffixes :: bytes
  rs_stack :: "item list"

definition pop_while :: "('a \<Rightarrow> bool) \<Rightarrow> 'a list \<Rightarrow> 'a list" where
  "pop_while P xs = rev (dropWhile P (rev xs))"

definition newline :: "renderer \<Rightarrow> renderer" where
  "newline s =
     (let out = (if rs_suffixes s \<noteq> [] then
                   (let line_ws = length (takeWhile (\<lambda>b. b = sp) (rev (rs_out s)));
                        suffix_ws = length (takeWhile (\<lambda>b. b = sp) (rs_suffixes s));
                        dropped = min line_ws suffix_ws
                    in rs_out s @ drop dropped (rs_suffixes s))
                 else rs_out s)
      in s\<lparr>rs_out := pop_while (\<lambda>b. b = sp) out @ [nl], rs_suffixes := [], rs_col := 0\<rparr>)"

definition put_indent :: "renderer \<Rightarrow> renderer" where
  "put_indent s =
     (case rs_pending s of
        Some n \<Rightarrow> s\<lparr>rs_pending := None, rs_out := rs_out s @ replicate n sp, rs_col := n\<rparr>
      | None \<Rightarrow> s)"

definition put :: "bytes \<Rightarrow> renderer \<Rightarrow> renderer" where
  "put t s = (let s = put_indent s in s\<lparr>rs_out := rs_out s @ t, rs_col := rs_col s + chars t\<rparr>)"

definition put_raw :: "bytes \<Rightarrow> renderer \<Rightarrow> renderer" where
  "put_raw r s =
     (let s = put_indent s
      in s\<lparr>rs_out := rs_out s @ r,
           rs_col := (case rposition (\<lambda>b. b = nl) r of Some i \<Rightarrow> chars (drop (i + 1) r) | None \<Rightarrow> rs_col s + chars r)\<rparr>)"

definition break_line :: "nat \<Rightarrow> renderer \<Rightarrow> renderer" where
  "break_line ind s = (newline s)\<lparr>rs_pending := Some ind\<rparr>"

definition fresh_line :: "nat \<Rightarrow> renderer \<Rightarrow> renderer" where
  "fresh_line ind s =
     (if rs_pending s \<noteq> None then s\<lparr>rs_pending := Some ind\<rparr>
      else if rs_col s > 0 then
        (let start = (case rposition (\<lambda>b. b = nl) (rs_out s) of Some i \<Rightarrow> i + 1 | None \<Rightarrow> 0)
         in if list_all (\<lambda>b. b = sp) (drop start (rs_out s))
            then s\<lparr>rs_out := take start (rs_out s), rs_col := 0, rs_pending := Some ind\<rparr>
            else (newline s)\<lparr>rs_pending := Some ind\<rparr>)
      else s)"

definition push_docs :: "nat \<Rightarrow> mode \<Rightarrow> doc list \<Rightarrow> renderer \<Rightarrow> renderer" where
  "push_docs ind m ds s = s\<lparr>rs_stack := map (\<lambda>c. (ind, m, c)) ds @ rs_stack s\<rparr>"

definition measure_col :: "renderer \<Rightarrow> nat" where
  "measure_col s = max (case rs_pending s of Some n \<Rightarrow> n | None \<Rightarrow> rs_col s) (rs_col s)"

definition last_resort_mode :: "renderer \<Rightarrow> nat \<Rightarrow> mode \<Rightarrow> doc list \<Rightarrow> mode" where
  "last_resort_mode s ind m ds =
     (if m = Flat then Flat
      else if own_forced ds then Broken
      else if fits ds (rs_stack s) (measure_col s) True \<or> \<not> break_would_help ds (rs_stack s) ind then FlatOpen
      else Broken)"

definition group_mode :: "renderer \<Rightarrow> mode \<Rightarrow> doc list \<Rightarrow> mode" where
  "group_mode s m ds =
     (if \<not> list_ex forced ds \<and> (m = Flat \<or> fits ds (rs_stack s) (measure_col s) False) then Flat else Broken)"

text \<open>The match on the popped document; \<open>s\<close> is the state after the pop.\<close>

definition render_doc :: "nat \<Rightarrow> mode \<Rightarrow> doc \<Rightarrow> renderer \<Rightarrow> renderer" where
  "render_doc ind m d s =
     (case d of
        Text t \<Rightarrow> put t s
      | Raw r \<Rightarrow> put_raw r s
      | Line \<Rightarrow>
          if m = Broken then break_line ind s
          else if rs_pending s = None then s\<lparr>rs_out := rs_out s @ [sp], rs_col := rs_col s + 1\<rparr>
          else s
      | Softline \<Rightarrow> if m = Broken then break_line ind s else s
      | Hardline \<Rightarrow> break_line ind s
      | FreshLine \<Rightarrow> fresh_line ind s
      | Blankline \<Rightarrow> (let s = newline s in s\<lparr>rs_out := rs_out s @ [nl], rs_pending := Some ind\<rparr>)
      | Concat ds \<Rightarrow> push_docs ind m ds s
      | Shield ds \<Rightarrow> push_docs ind m ds s
      | Indent ds \<Rightarrow> push_docs (ind + INDENT) m ds s
      | IndentIfBroken ds \<Rightarrow> push_docs (if m = Broken then ind + INDENT else ind) m ds s
      | LastResort ds \<Rightarrow> push_docs ind (last_resort_mode s ind m ds) ds s
      | Group ds \<Rightarrow> push_docs ind (group_mode s m ds) ds s
      | IfBreak broken flat \<Rightarrow> (let t = (if m = Broken then broken else flat) in if t \<noteq> [] then put t s else s)
      | LineSuffix t \<Rightarrow> s\<lparr>rs_suffixes := rs_suffixes s @ t\<rparr>
      | BreakParent \<Rightarrow> s)"

definition render_step :: "renderer \<Rightarrow> renderer" where
  "render_step s =
     (case rs_stack s of [] \<Rightarrow> s | (ind, m, d) # stack \<Rightarrow> render_doc ind m d (s\<lparr>rs_stack := stack\<rparr>))"

definition stack_size :: "renderer \<Rightarrow> nat" where
  "stack_size s = sum_list (map (\<lambda>(_, _, d). Suc (size d)) (rs_stack s))"

lemma put_stack [simp]: "rs_stack (put t s) = rs_stack s" "rs_stack (put_raw t s) = rs_stack s"
  "rs_stack (newline s) = rs_stack s" "rs_stack (break_line i s) = rs_stack s" "rs_stack (fresh_line i s) = rs_stack s"
  by (auto simp: put_def put_raw_def put_indent_def newline_def break_line_def fresh_line_def Let_def split: option.splits)

lemma push_size: "stack_size (push_docs i m ds s) = size_list size ds + stack_size s"
  by (simp add: stack_size_def push_docs_def comp_def size_children)

lemma stack_size_cong: "rs_stack s = rs_stack t \<Longrightarrow> stack_size s = stack_size t"
  by (simp add: stack_size_def)

lemma render_step_less: "rs_stack s \<noteq> [] \<Longrightarrow> stack_size (render_step s) < stack_size s"
proof -
  assume "rs_stack s \<noteq> []"
  then obtain i m d r where s: "rs_stack s = (i, m, d) # r" by (metis list.exhaust prod_cases3)
  then have "stack_size s = Suc (size d) + stack_size (s\<lparr>rs_stack := r\<rparr>)" by (simp add: stack_size_def)
  moreover have "stack_size (render_doc i m d (s\<lparr>rs_stack := r\<rparr>)) \<le> size d + stack_size (s\<lparr>rs_stack := r\<rparr>)"
    by (cases d) (auto simp: render_doc_def push_size Let_def intro!: eq_imp_le stack_size_cong)
  ultimately show ?thesis using s by (simp add: render_step_def)
qed

function render_loop :: "renderer \<Rightarrow> renderer" where
  "render_loop s = (if rs_stack s \<noteq> [] then render_loop (render_step s) else s)"
  by pat_completeness auto
termination by (relation "measure stack_size") (simp_all add: render_step_less)

declare render_loop.simps [simp del]

definition render_init :: "doc \<Rightarrow> renderer" where
  "render_init d =
     \<lparr>rs_out = [], rs_col = 0, rs_pending = None, rs_suffixes = [], rs_stack = [(0, Broken, d)]\<rparr>"

definition is_trim :: "byte \<Rightarrow> bool" where
  "is_trim b \<longleftrightarrow> b = nl \<or> b = sp \<or> b = CHR 0x09"

definition render :: "doc \<Rightarrow> bytes" where
  "render d =
     (let s = render_loop (render_init d);
          out = pop_while is_trim (rs_out s @ rs_suffixes s)
      in if out \<noteq> [] then out @ [nl] else out)"

end
