(* ===== verification/Fmt_Render.thy ===== *)
theory Fmt_Render
  imports Fmt_Doc "HOL-Library.Multiset"
begin

text \<open>
  What the renderer of \<^verbatim>\<open>crates/wolf_fmt/src/doc.rs\<close> guarantees: it terminates, it neither loses nor invents
  ink, it keeps the order of the text, its output is tidy, and a group that fits is laid on one line.
\<close>

interpretation rl: guarded_loop "\<lambda>s. rs_stack s \<noteq> []" render_step render_loop "\<lambda>_. True" "measure stack_size"
proof
  show "render_loop s = (if rs_stack s \<noteq> [] then render_loop (render_step s) else s)" for s
    by (rule render_loop.simps)
qed (simp_all add: render_step_less)

lemma render_loop_ends: "rs_stack (render_loop s) = []"
  using rl.run_stops [of s] by simp

section \<open>Popping from the end\<close>

lemma pop_while_Nil [simp]: "pop_while P [] = []"
  by (simp add: pop_while_def)

lemma pop_while_snoc [simp]: "pop_while P (xs @ [x]) = (if P x then pop_while P xs else xs @ [x])"
  by (simp add: pop_while_def)

lemma pop_while_last: "pop_while P xs \<noteq> [] \<Longrightarrow> \<not> P (last (pop_while P xs))"
  by (induction xs rule: rev_induct) (auto split: if_splits)

lemma pop_while_split: "\<exists>ys. xs = pop_while P xs @ ys \<and> list_all P ys"
proof (induction xs rule: rev_induct)
  case (snoc x xs)
  then obtain ys where "xs = pop_while P xs @ ys" "list_all P ys" by blast
  then show ?case by (cases "P x") (auto intro: exI [of _ "ys @ [x]"])
qed simp

section \<open>Ink\<close>

text \<open>The bytes that are neither spaces, tabs nor newlines.\<close>

definition ink :: "bytes \<Rightarrow> bytes" where
  "ink bs = filter (\<lambda>b. \<not> is_trim b) bs"

lemma ink_append [simp]: "ink (a @ b) = ink a @ ink b"
  by (simp add: ink_def)

lemma ink_Nil [simp]: "ink [] = []"
  by (simp add: ink_def)

lemma ink_blank: "list_all is_trim bs \<Longrightarrow> ink bs = []"
  by (auto simp: ink_def list_all_iff filter_empty_conv)

lemma ink_spaces: "list_all (\<lambda>b. b = sp) bs \<Longrightarrow> ink bs = []"
  by (auto simp: ink_def list_all_iff filter_empty_conv is_trim_def)

lemma ink_single [simp]: "ink [nl] = []" "ink [sp] = []" "ink (replicate n sp) = []"
  by (auto simp: ink_def is_trim_def filter_empty_conv)

lemma ink_pop_spaces [simp]: "ink (pop_while (\<lambda>b. b = sp) bs) = ink bs"
  using pop_while_split [of bs "\<lambda>b. b = sp"] ink_spaces by (metis append_Nil2 ink_append)

lemma ink_pop_trim [simp]: "ink (pop_while is_trim bs) = ink bs"
  using pop_while_split [of bs is_trim] ink_blank by (metis append_Nil2 ink_append)

lemma ink_drop_spaces: "n \<le> length (takeWhile (\<lambda>b. b = sp) bs) \<Longrightarrow> ink (drop n bs) = ink bs"
proof -
  assume n: "n \<le> length (takeWhile (\<lambda>b. b = sp) bs)"
  then have "take n bs = take n (takeWhile (\<lambda>b. b = sp) bs)"
    by (metis takeWhile_eq_take take_take min.absorb1)
  then have "list_all (\<lambda>b. b = sp) (take n bs)"
    by (auto simp: list_all_iff dest!: in_set_takeD set_takeWhileD)
  then show ?thesis using ink_spaces by (metis append_take_drop_id append_Nil ink_append)
qed

lemma newline_ink:
  "ink (rs_out (newline s)) = ink (rs_out s) @ ink (rs_suffixes s)" "rs_suffixes (newline s) = []"
  by (auto simp: newline_def Let_def ink_drop_spaces)

lemma put_ink [simp]:
  "ink (rs_out (put t s)) = ink (rs_out s) @ ink t" "rs_suffixes (put t s) = rs_suffixes s"
  "ink (rs_out (put_raw t s)) = ink (rs_out s) @ ink t" "rs_suffixes (put_raw t s) = rs_suffixes s"
  by (auto simp: put_def put_raw_def put_indent_def Let_def split: option.splits)

lemma fresh_line_ink:
  "ink (rs_out (fresh_line i s)) @ ink (rs_suffixes (fresh_line i s)) = ink (rs_out s) @ ink (rs_suffixes s)"
  "rs_suffixes s = [] \<Longrightarrow> rs_suffixes (fresh_line i s) = []"
proof -
  have "ink (take k bs) = ink bs" if "list_all (\<lambda>b. b = sp) (drop k bs)" for k bs
    using ink_spaces [OF that] by (metis append_Nil2 append_take_drop_id ink_append)
  then show "ink (rs_out (fresh_line i s)) @ ink (rs_suffixes (fresh_line i s)) = ink (rs_out s) @ ink (rs_suffixes s)"
    "rs_suffixes s = [] \<Longrightarrow> rs_suffixes (fresh_line i s) = []"
    by (auto simp: fresh_line_def Let_def newline_ink split: option.splits)
qed

text \<open>The texts a document may come out as: either branch of each \<open>IfBreak\<close>.\<close>

fun seqs :: "bytes set list \<Rightarrow> bytes set" where
  "seqs [] = {[]}"
| "seqs (A # As) = {a @ b | a b. a \<in> A \<and> b \<in> seqs As}"

fun texts :: "doc \<Rightarrow> bytes set" where
  "texts (Text t) = {ink t}"
| "texts (Raw t) = {ink t}"
| "texts (LineSuffix t) = {ink t}"
| "texts (IfBreak broken flat) = {ink broken, ink flat}"
| "texts (Concat ds) = seqs (map texts ds)"
| "texts (Group ds) = seqs (map texts ds)"
| "texts (LastResort ds) = seqs (map texts ds)"
| "texts (Indent ds) = seqs (map texts ds)"
| "texts (IndentIfBroken ds) = seqs (map texts ds)"
| "texts (Shield ds) = seqs (map texts ds)"
| "texts _ = {[]}"

fun no_suffix :: "doc \<Rightarrow> bool" where
  "no_suffix (LineSuffix t) = False"
| "no_suffix (Concat ds) = list_all no_suffix ds"
| "no_suffix (Group ds) = list_all no_suffix ds"
| "no_suffix (LastResort ds) = list_all no_suffix ds"
| "no_suffix (Indent ds) = list_all no_suffix ds"
| "no_suffix (IndentIfBroken ds) = list_all no_suffix ds"
| "no_suffix (Shield ds) = list_all no_suffix ds"
| "no_suffix _ = True"

lemma seqs_append: "w \<in> seqs (As @ Bs) \<longleftrightarrow> (\<exists>a b. w = a @ b \<and> a \<in> seqs As \<and> b \<in> seqs Bs)"
proof (induction As arbitrary: w)
  case (Cons A As)
  have "w \<in> seqs ((A # As) @ Bs) \<longleftrightarrow> (\<exists>x a b. w = x @ a @ b \<and> x \<in> A \<and> a \<in> seqs As \<and> b \<in> seqs Bs)"
    using Cons by auto
  also have "\<dots> \<longleftrightarrow> (\<exists>a b. w = a @ b \<and> a \<in> seqs (A # As) \<and> b \<in> seqs Bs)"
    by simp (metis append_assoc)
  finally show ?case .
qed simp

definition pending_texts :: "renderer \<Rightarrow> bytes set" where
  "pending_texts s = seqs (map (\<lambda>(_, _, d). texts d) (rs_stack s))"

definition suffix_free :: "renderer \<Rightarrow> bool" where
  "suffix_free s \<longleftrightarrow> rs_suffixes s = [] \<and> list_all (\<lambda>(_, _, d). no_suffix d) (rs_stack s)"

text \<open>What was written between two states: in order when there are no suffixes.\<close>

definition wrote :: "renderer \<Rightarrow> bytes \<Rightarrow> renderer \<Rightarrow> bool" where
  "wrote s w t \<longleftrightarrow>
     mset (ink (rs_out t)) + mset (ink (rs_suffixes t)) = mset (ink (rs_out s)) + mset (ink (rs_suffixes s)) + mset w \<and>
     (suffix_free s \<longrightarrow> suffix_free t \<and> ink (rs_out t) = ink (rs_out s) @ w)"

lemma wrote_trans: "wrote s a t \<Longrightarrow> wrote t b u \<Longrightarrow> wrote s (a @ b) u"
  by (auto simp: wrote_def union_assoc)

lemma push_wrote:
  assumes "seqs (map texts ds) = texts d" "no_suffix d \<longleftrightarrow> list_all no_suffix ds" "rs_stack s = (i, m, d) # r"
    and "render_step s = push_docs i' m' ds (s\<lparr>rs_stack := r\<rparr>)" "w \<in> pending_texts (render_step s)"
  shows "\<exists>a. a @ w \<in> pending_texts s \<and> wrote s a (render_step s)"
proof -
  have "w \<in> pending_texts s"
    using assms(1,3-5) by (auto simp: pending_texts_def push_docs_def seqs_append comp_def)
  moreover have "wrote s [] (render_step s)"
    using assms(2-4) by (auto simp: wrote_def suffix_free_def push_docs_def list_all_iff)
  ultimately show ?thesis by (intro exI [of _ "[]"]) simp
qed

text \<open>A document that pushes nothing: its text is written, or stashed.\<close>

lemma atom_wrote:
  assumes "rs_stack s = (i, m, d) # r" "rs_stack (render_step s) = r" "a \<in> texts d"
    and "mset (ink (rs_out (render_step s))) + mset (ink (rs_suffixes (render_step s))) =
      mset (ink (rs_out s)) + mset (ink (rs_suffixes s)) + mset a"
    and "no_suffix d \<Longrightarrow> rs_suffixes s = [] \<Longrightarrow>
      rs_suffixes (render_step s) = [] \<and> ink (rs_out (render_step s)) = ink (rs_out s) @ a"
    and "w \<in> pending_texts (render_step s)"
  shows "\<exists>a. a @ w \<in> pending_texts s \<and> wrote s a (render_step s)"
proof -
  have "a @ w \<in> pending_texts s" using assms(1-3,6) by (auto simp: pending_texts_def)
  moreover have "wrote s a (render_step s)" using assms(1,2,4,5) by (auto simp: wrote_def suffix_free_def)
  ultimately show ?thesis by blast
qed

lemma break_line_ink: "ink (rs_out (break_line i s)) = ink (rs_out s) @ ink (rs_suffixes s)" "rs_suffixes (break_line i s) = []"
  by (simp_all add: break_line_def newline_ink)

lemma step_wrote:
  assumes "rs_stack s \<noteq> []" "w \<in> pending_texts (render_step s)"
  shows "\<exists>a. a @ w \<in> pending_texts s \<and> wrote s a (render_step s)"
proof -
  obtain i m d r where s: "rs_stack s = (i, m, d) # r" using assms(1) by (metis list.exhaust prod_cases3)
  have e: "render_step s = render_doc i m d (s\<lparr>rs_stack := r\<rparr>)" by (simp add: render_step_def s)
  show ?thesis
  proof (cases d)
    case (IfBreak b f)
    then show ?thesis
      by (intro atom_wrote [OF s _ _ _ _ assms(2), of "ink (if m = Broken then b else f)"])
        (auto simp: e render_doc_def Let_def)
  next
    case FreshLine
    note fl = fresh_line_ink(1) [where i = i and s = "s\<lparr>rs_stack := r\<rparr>", THEN arg_cong [where f = mset],
      unfolded mset_append]
    show ?thesis using FreshLine fl fresh_line_ink [where i = i and s = "s\<lparr>rs_stack := r\<rparr>"]
      by (intro atom_wrote [OF s _ _ _ _ assms(2), of "[]"]) (auto simp: e render_doc_def)
  next
    case (Text t)
    then show ?thesis by (intro atom_wrote [OF s _ _ _ _ assms(2), of "ink t"]) (auto simp: e render_doc_def)
  next
    case (Raw t)
    then show ?thesis by (intro atom_wrote [OF s _ _ _ _ assms(2), of "ink t"]) (auto simp: e render_doc_def)
  next
    case (LineSuffix t)
    then show ?thesis by (intro atom_wrote [OF s _ _ _ _ assms(2), of "ink t"]) (auto simp: e render_doc_def)
  next
    case (Concat ds)
    then show ?thesis by (intro push_wrote [OF _ _ s _ assms(2), of ds]) (auto simp: e render_doc_def)
  next
    case (Group ds)
    then show ?thesis by (intro push_wrote [OF _ _ s _ assms(2), of ds]) (auto simp: e render_doc_def)
  next
    case (LastResort ds)
    then show ?thesis by (intro push_wrote [OF _ _ s _ assms(2), of ds]) (auto simp: e render_doc_def)
  next
    case (Indent ds)
    then show ?thesis by (intro push_wrote [OF _ _ s _ assms(2), of ds]) (auto simp: e render_doc_def)
  next
    case (IndentIfBroken ds)
    then show ?thesis by (intro push_wrote [OF _ _ s _ assms(2), of ds]) (auto simp: e render_doc_def)
  next
    case (Shield ds)
    then show ?thesis by (intro push_wrote [OF _ _ s _ assms(2), of ds]) (auto simp: e render_doc_def)
  qed (intro atom_wrote [OF s _ _ _ _ assms(2), of "[]"];
      auto simp: e render_doc_def break_line_ink newline_ink Let_def)+
qed

lemma loop_wrote: "\<exists>w\<in>pending_texts s. wrote s w (render_loop s)"
proof -
  have "rs_stack (render_loop s) = [] \<longrightarrow> (\<exists>w\<in>pending_texts s. wrote s w (render_loop s))"
  proof (rule rl.run_rel [where s = s and R = "\<lambda>s t. rs_stack t = [] \<longrightarrow> (\<exists>w\<in>pending_texts s. wrote s w t)"])
    show "rs_stack s = [] \<longrightarrow> (\<exists>w\<in>pending_texts s. wrote s w s)" for s
      by (auto simp: pending_texts_def wrote_def)
  next
    fix s t
    assume "rs_stack s \<noteq> []" "rs_stack t = [] \<longrightarrow> (\<exists>w\<in>pending_texts (render_step s). wrote (render_step s) w t)"
    then show "rs_stack t = [] \<longrightarrow> (\<exists>w\<in>pending_texts s. wrote s w t)"
      using step_wrote [of s] wrote_trans by blast
  qed simp
  then show ?thesis by (simp add: render_loop_ends)
qed

lemma render_init_simps [simp]:
  "rs_out (render_init d) = []" "rs_suffixes (render_init d) = []" "rs_stack (render_init d) = [(0, Broken, d)]"
  "rs_pending (render_init d) = None" "rs_col (render_init d) = 0" "pending_texts (render_init d) = texts d"
  "suffix_free (render_init d) = no_suffix d"
  by (auto simp: render_init_def pending_texts_def suffix_free_def)

lemma render_ink: "ink (render d) = ink (rs_out (render_loop (render_init d))) @ ink (rs_suffixes (render_loop (render_init d)))"
proof -
  let ?o = "rs_out (render_loop (render_init d)) @ rs_suffixes (render_loop (render_init d))"
  have "ink (render d) = ink (pop_while is_trim ?o)" by (simp add: render_def Let_def del: ink_pop_trim)
  then show ?thesis by simp
qed

lemma render_multiset: "\<exists>w\<in>texts d. mset (ink (render d)) = mset w"
  using loop_wrote [of "render_init d"] by (auto simp: render_ink wrote_def)

lemma render_order: "no_suffix d \<Longrightarrow> ink (render d) \<in> texts d"
  using loop_wrote [of "render_init d"] by (auto simp: render_ink wrote_def suffix_free_def [of "render_loop _"])

section \<open>Tidy output\<close>

text \<open>No line ends in a space.\<close>

fun tidy :: "bytes \<Rightarrow> bool" where
  "tidy (a # b # bs) = (\<not> (a = sp \<and> b = nl) \<and> tidy (b # bs))"
| "tidy _ = True"

lemma tidy_append: "tidy (xs @ ys) \<longleftrightarrow> tidy xs \<and> tidy ys \<and> \<not> (xs \<noteq> [] \<and> ys \<noteq> [] \<and> last xs = sp \<and> hd ys = nl)"
proof (induction xs)
  case (Cons x xs)
  then show ?case by (cases xs; cases ys) auto
qed simp

lemma tidy_no_newline: "nl \<notin> set bs \<Longrightarrow> tidy bs"
  by (induction bs rule: tidy.induct) auto

lemma tidy_add: "tidy xs \<Longrightarrow> nl \<notin> set ys \<Longrightarrow> tidy (xs @ ys)"
  using tidy_no_newline [of ys] by (cases ys) (auto simp: tidy_append)

lemma tidy_pop: "tidy xs \<Longrightarrow> tidy (pop_while P xs)"
  using pop_while_split [of xs P] by (metis tidy_append)

lemma tidy_newline: "tidy xs \<Longrightarrow> \<not> (xs \<noteq> [] \<and> last xs = sp) \<Longrightarrow> tidy (xs @ [nl])"
  by (auto simp: tidy_append)

lemma tidy_take: "tidy xs \<Longrightarrow> tidy (take n xs)"
  by (metis append_take_drop_id tidy_append)

text \<open>No text of the document has a newline in it: multi-line \<open>Raw\<close> is emitted as it is.\<close>

fun newline_free :: "doc \<Rightarrow> bool" where
  "newline_free (Text t) = (nl \<notin> set t)"
| "newline_free (Raw t) = (nl \<notin> set t)"
| "newline_free (LineSuffix t) = (nl \<notin> set t)"
| "newline_free (IfBreak broken flat) = (nl \<notin> set broken \<and> nl \<notin> set flat)"
| "newline_free (Concat ds) = list_all newline_free ds"
| "newline_free (Group ds) = list_all newline_free ds"
| "newline_free (LastResort ds) = list_all newline_free ds"
| "newline_free (Indent ds) = list_all newline_free ds"
| "newline_free (IndentIfBroken ds) = list_all newline_free ds"
| "newline_free (Shield ds) = list_all newline_free ds"
| "newline_free _ = True"

definition tidy_state :: "renderer \<Rightarrow> bool" where
  "tidy_state s \<longleftrightarrow> tidy (rs_out s) \<and> nl \<notin> set (rs_suffixes s) \<and> list_all (\<lambda>(_, _, d). newline_free d) (rs_stack s)"

lemma newline_tidy: "tidy (rs_out s) \<Longrightarrow> nl \<notin> set (rs_suffixes s) \<Longrightarrow> tidy (rs_out (newline s))"
proof -
  assume a: "tidy (rs_out s)" "nl \<notin> set (rs_suffixes s)"
  have "tidy (pop_while (\<lambda>b. b = sp) xs @ [nl])" if "tidy xs" for xs
    using tidy_pop [OF that] pop_while_last [of "\<lambda>b. b = sp" xs] by (intro tidy_newline) auto
  moreover have "tidy (rs_out s @ drop n (rs_suffixes s))" for n
    using a by (intro tidy_add) (auto dest: in_set_dropD)
  ultimately show ?thesis using a by (auto simp: newline_def Let_def)
qed

lemma put_tidy: "tidy (rs_out s) \<Longrightarrow> nl \<notin> set t \<Longrightarrow> tidy (rs_out (put t s)) \<and> tidy (rs_out (put_raw t s))"
proof -
  assume a: "tidy (rs_out s)" "nl \<notin> set t"
  then have "tidy (rs_out (put_indent s))" by (auto simp: put_indent_def intro!: tidy_add split: option.splits)
  then show ?thesis using a by (simp add: put_def put_raw_def Let_def tidy_add)
qed

lemma push_tidy:
  "tidy_state (s\<lparr>rs_stack := r\<rparr>) \<Longrightarrow> list_all newline_free ds \<Longrightarrow> tidy_state (push_docs i m ds (s\<lparr>rs_stack := r\<rparr>))"
  by (auto simp: tidy_state_def push_docs_def list_all_iff)

lemma fresh_tidy: "tidy_state s \<Longrightarrow> tidy_state (fresh_line i s)"
  using newline_tidy [of s] by (auto simp: tidy_state_def fresh_line_def Let_def newline_ink(2) intro: tidy_take)

lemma break_tidy: "tidy_state s \<Longrightarrow> tidy_state (break_line i s)"
  using newline_tidy [of s] by (auto simp: tidy_state_def break_line_def newline_ink(2))

lemma step_tidy: "tidy_state s \<Longrightarrow> tidy_state (render_step s)"
proof (cases "rs_stack s")
  case (Cons x r)
  assume a: "tidy_state s"
  obtain i m d where x: "x = (i, m, d)" by (metis prod_cases3)
  let ?s = "s\<lparr>rs_stack := r\<rparr>"
  have s: "tidy_state ?s" and d: "newline_free d" using a Cons x by (auto simp: tidy_state_def)
  then have out: "tidy (rs_out ?s)" "nl \<notin> set (rs_suffixes ?s)" by (auto simp: tidy_state_def)
  have "tidy_state (render_doc i m d ?s)"
  proof (cases d)
    case Blankline
    have "newline ?s = ?s\<lparr>rs_out := rs_out (newline ?s), rs_suffixes := [], rs_col := 0\<rparr>"
      by (simp add: newline_def Let_def)
    moreover have "last (rs_out (newline ?s)) = nl" "rs_out (newline ?s) \<noteq> []"
      by (simp_all add: newline_def Let_def)
    ultimately have "tidy (rs_out (newline ?s) @ [nl])" using newline_tidy [OF out] by (intro tidy_newline) auto
    then show ?thesis using s Blankline by (simp add: render_doc_def tidy_state_def newline_ink(2) Let_def)
  qed (use s d out put_tidy in \<open>auto simp: render_doc_def Let_def push_tidy fresh_tidy break_tidy,
      auto simp: tidy_state_def intro!: tidy_add\<close>)
  then show ?thesis by (simp add: render_step_def Cons x)
qed (simp add: render_step_def)

lemma loop_tidy: "tidy_state s \<Longrightarrow> tidy_state (render_loop s)"
  using rl.run_rel [where s = s and R = "\<lambda>s t. tidy_state s \<longrightarrow> tidy_state t"] step_tidy by blast

lemma render_tidy:
  assumes "newline_free d"
  shows "tidy (render d)"
proof -
  let ?s = "render_loop (render_init d)"
  have "tidy_state ?s" using assms by (intro loop_tidy) (simp add: tidy_state_def)
  then have "tidy (rs_out ?s @ rs_suffixes ?s)" by (intro tidy_add) (auto simp: tidy_state_def)
  then have p: "tidy (pop_while is_trim (rs_out ?s @ rs_suffixes ?s))" by (rule tidy_pop)
  then show ?thesis
    using pop_while_last [of is_trim "rs_out ?s @ rs_suffixes ?s"]
    by (auto simp: render_def Let_def is_trim_def intro!: tidy_newline)
qed

section \<open>Groups that fit\<close>

text \<open>Documents that can be laid flat: nothing in them forces a break and no shield hides one.\<close>

fun flat_only :: "doc \<Rightarrow> bool" where
  "flat_only (Raw b) = (nl \<notin> set b)"
| "flat_only (Concat ds) = list_all flat_only ds"
| "flat_only (Group ds) = list_all flat_only ds"
| "flat_only (LastResort ds) = list_all flat_only ds"
| "flat_only (Indent ds) = list_all flat_only ds"
| "flat_only (IndentIfBroken ds) = list_all flat_only ds"
| "flat_only (Shield ds) = False"
| "flat_only Hardline = False"
| "flat_only FreshLine = False"
| "flat_only Blankline = False"
| "flat_only BreakParent = False"
| "flat_only _ = True"

fun flat_width :: "doc \<Rightarrow> nat" where
  "flat_width (Text t) = chars t"
| "flat_width (Raw t) = chars t"
| "flat_width Line = 1"
| "flat_width (IfBreak broken flat) = chars flat"
| "flat_width (Concat ds) = sum_list (map flat_width ds)"
| "flat_width (Group ds) = sum_list (map flat_width ds)"
| "flat_width (LastResort ds) = sum_list (map flat_width ds)"
| "flat_width (Indent ds) = sum_list (map flat_width ds)"
| "flat_width (IndentIfBroken ds) = sum_list (map flat_width ds)"
| "flat_width (Shield ds) = sum_list (map flat_width ds)"
| "flat_width _ = 0"

fun flat_text :: "doc \<Rightarrow> bytes" where
  "flat_text (Text t) = t"
| "flat_text (Raw t) = t"
| "flat_text Line = [sp]"
| "flat_text (IfBreak broken flat) = flat"
| "flat_text (Concat ds) = concat (map flat_text ds)"
| "flat_text (Group ds) = concat (map flat_text ds)"
| "flat_text (LastResort ds) = concat (map flat_text ds)"
| "flat_text (Indent ds) = concat (map flat_text ds)"
| "flat_text (IndentIfBroken ds) = concat (map flat_text ds)"
| "flat_text (Shield ds) = concat (map flat_text ds)"
| "flat_text _ = []"

lemma flat_not_forced: "flat_only d \<Longrightarrow> \<not> forced d \<and> \<not> own_forced_doc d \<and> \<not> pierced d"
  by (induction d rule: flat_only.induct) (auto simp: list_all_iff list_ex_iff)

lemma flat_list_not_forced: "list_all flat_only ds \<Longrightarrow> \<not> list_ex forced ds \<and> \<not> own_forced ds"
  using flat_not_forced by (auto simp: list_all_iff list_ex_iff own_forced_def)

lemma position_None: "x \<notin> set xs \<Longrightarrow> position (\<lambda>b. b = x) xs = None"
proof -
  assume "x \<notin> set xs"
  then have "takeWhile (\<lambda>b. b \<noteq> x) xs = xs" by (auto simp: takeWhile_eq_all_conv)
  then show ?thesis unfolding position_def Let_def by (metis less_irrefl)
qed

text \<open>On flat documents with nothing after them the measuring loop is a sum of widths.\<close>

lemma fits_loop_flat:
  "\<not> probe \<Longrightarrow> list_all (\<lambda>(m, d). m = Flat \<and> flat_only d) stack \<Longrightarrow>
   fits_loop probe budget stack \<longleftrightarrow> int (sum_list (map (flat_width \<circ> snd) stack)) \<le> budget"
proof (induction probe budget stack rule: fits_loop.induct)
  case (2 probe budget m d stack)
  have m: "m = Flat" and d: "flat_only d" and st: "list_all (\<lambda>(m, d). m = Flat \<and> flat_only d) stack"
    using "2.prems" by auto
  show ?case
  proof (cases "budget < 0")
    case True
    then show ?thesis by (subst fits_loop.simps) simp
  next
    case nneg: False
    have pushed: "list_all (\<lambda>(m, d). m = Flat \<and> flat_only d) (map (\<lambda>c. (Flat, c)) ds @ stack)"
      if "list_all flat_only ds" for ds
      using that st by (auto simp: list_all_iff)
    show ?thesis
    proof (cases d)
      case (Group ds)
      then have nf: "\<not> list_ex forced ds" "\<not> own_forced ds" "list_all flat_only ds"
        using d flat_list_not_forced [of ds] by auto
      show ?thesis
        using "2.IH"(6) [OF nneg Group refl "2.prems"(1)] nf pushed [OF nf(3)] "2.prems"(1) nneg m Group
        by (subst fits_loop.simps) (simp add: comp_def)
    next
      case (LastResort ds)
      then have nf: "\<not> list_ex forced ds" "\<not> own_forced ds" "list_all flat_only ds"
        using d flat_list_not_forced [of ds] by auto
      show ?thesis
        using "2.IH"(7) [OF nneg LastResort refl "2.prems"(1)] nf pushed [OF nf(3)] "2.prems"(1) nneg m LastResort
        by (subst fits_loop.simps) (simp add: comp_def)
    next
      case (Concat ds)
      then show ?thesis using 2 nneg m st pushed [of ds] by (subst fits_loop.simps) (simp add: comp_def)
    next
      case (Indent ds)
      then show ?thesis using 2 nneg m st pushed [of ds] by (subst fits_loop.simps) (simp add: comp_def)
    next
      case (IndentIfBroken ds)
      then show ?thesis using 2 nneg m st pushed [of ds] by (subst fits_loop.simps) (simp add: comp_def)
    qed (use 2 nneg m d st in \<open>(subst fits_loop.simps, (auto simp: position_None comp_def)[1])+\<close>)
  qed
qed (simp add: fits_loop.simps)

lemma fits_flat:
  assumes "list_all flat_only ds"
  shows "fits ds [] col False \<longleftrightarrow> col + sum_list (map flat_width ds) \<le> WIDTH"
proof -
  have "list_all (\<lambda>(m, d). m = Flat \<and> flat_only d) (map (\<lambda>d. (Flat, d)) ds)"
    using assms by (simp add: list_all_iff)
  then have "fits ds [] col False \<longleftrightarrow> int (sum_list (map flat_width ds)) \<le> int WIDTH - int col"
    using fits_loop_flat [of False "map (\<lambda>d. (Flat, d)) ds"] by (simp add: fits_def comp_def)
  then show ?thesis by linarith
qed

text \<open>The inline question is the same measure, as long as it has budget to spend.\<close>

lemma overflows_width:
  "newline_free d \<Longrightarrow> 0 \<le> n \<Longrightarrow>
     (if int (flat_width d) \<le> n then overflows d n = (False, n - int (flat_width d)) else fst (overflows d n))"
  "list_all newline_free ds \<Longrightarrow> 0 \<le> n \<Longrightarrow>
     (if int (sum_list (map flat_width ds)) \<le> n then overflows_any ds n = (False, n - int (sum_list (map flat_width ds)))
      else fst (overflows_any ds n))"
proof (induction d n and ds n rule: overflows_overflows_any.induct)
  case (13 d ds n)
  obtain f n' where o: "overflows d n = (f, n')" by (cases "overflows d n")
  note d = "13.IH"(1) [OF _ "13.prems"(2)]
  show ?case
  proof (cases "int (flat_width d) \<le> n")
    case True
    then have f: "f = False" "n' = n - int (flat_width d)" using d "13.prems" o by auto
    then show ?thesis using "13.IH"(2) [OF o [symmetric]] True "13.prems" o by auto
  next
    case False
    then have "f" using d "13.prems" o by auto
    then show ?thesis using False o by simp
  qed
qed (simp_all add: Let_def)

end
