(* ===== verification/Fmt_Theorems.thy ===== *)
theory Fmt_Theorems
  imports Fmt_Render "HOL-Library.Code_Target_Nat"
begin

text \<open>
  The guarantees of the formatter's document renderer (\<^verbatim>\<open>crates/wolf_fmt/src/doc.rs\<close>) as properties, with the
  layout of a group that fits and examples evaluated in the kernel.
\<close>

section \<open>Laying a group flat\<close>

definition flat_state :: "renderer \<Rightarrow> bool" where
  "flat_state s \<longleftrightarrow> rs_pending s = None \<and> rs_suffixes s = [] \<and>
     list_all (\<lambda>(_, m, d). m = Flat \<and> flat_only d \<and> no_suffix d) (rs_stack s)"

definition stack_text :: "renderer \<Rightarrow> bytes" where
  "stack_text s = concat (map (\<lambda>(_, _, d). flat_text d) (rs_stack s))"

lemma push_flat:
  assumes "flat_state s" "rs_stack s = (i, m, d) # r" "list_all flat_only ds" "list_all no_suffix ds"
    "flat_text d = concat (map flat_text ds)" "render_step s = push_docs i' Flat ds (s\<lparr>rs_stack := r\<rparr>)"
  shows "flat_state (render_step s) \<and> rs_out (render_step s) @ stack_text (render_step s) = rs_out s @ stack_text s"
  using assms by (auto simp: flat_state_def push_docs_def stack_text_def list_all_iff comp_def)

lemma put_plain:
  "rs_pending s = None \<Longrightarrow> put t s = s\<lparr>rs_out := rs_out s @ t, rs_col := rs_col s + chars t\<rparr>"
  "rs_pending s = None \<Longrightarrow> \<exists>c. put_raw t s = s\<lparr>rs_out := rs_out s @ t, rs_col := c\<rparr>"
  by (auto simp: put_def put_raw_def put_indent_def Let_def)

lemma step_flat:
  assumes "rs_stack s \<noteq> []" "flat_state s"
  shows "flat_state (render_step s) \<and> rs_out (render_step s) @ stack_text (render_step s) = rs_out s @ stack_text s"
proof -
  obtain i m d r where s: "rs_stack s = (i, m, d) # r" using assms(1) by (metis list.exhaust prod_cases3)
  have e: "render_step s = render_doc i m d (s\<lparr>rs_stack := r\<rparr>)" by (simp add: render_step_def s)
  have m: "m = Flat" "flat_only d" "no_suffix d" using assms(2) s by (auto simp: flat_state_def)
  note push = push_flat [OF assms(2) s]
  show ?thesis
  proof (cases d)
    case (Concat ds)
    then show ?thesis using m by (intro push [of ds]) (auto simp: e render_doc_def)
  next
    case (Group ds)
    then show ?thesis using m flat_list_not_forced [of ds]
      by (intro push [of ds]) (auto simp: e render_doc_def group_mode_def)
  next
    case (LastResort ds)
    then show ?thesis using m by (intro push [of ds]) (auto simp: e render_doc_def last_resort_mode_def)
  next
    case (Indent ds)
    then show ?thesis using m by (intro push [of ds]) (auto simp: e render_doc_def)
  next
    case (IndentIfBroken ds)
    then show ?thesis using m by (intro push [of ds]) (auto simp: e render_doc_def)
  next
    case (Raw t)
    then show ?thesis using m assms(2) s put_plain(2) [of "s\<lparr>rs_stack := r\<rparr>" t]
      by (auto simp: e render_doc_def flat_state_def stack_text_def)
  qed (use m assms(2) s in \<open>auto simp: e render_doc_def flat_state_def stack_text_def put_plain(1)\<close>)
qed

lemma loop_flat:
  assumes "flat_state s"
  shows "rs_out (render_loop s) = rs_out s @ stack_text s \<and> rs_suffixes (render_loop s) = []"
proof -
  have "flat_state s \<longrightarrow> rs_stack (render_loop s) = [] \<longrightarrow>
      rs_out (render_loop s) = rs_out s @ stack_text s \<and> rs_suffixes (render_loop s) = []"
  proof (rule rl.run_rel [where s = s and R = "\<lambda>s t. flat_state s \<longrightarrow> rs_stack t = [] \<longrightarrow>
      rs_out t = rs_out s @ stack_text s \<and> rs_suffixes t = []"])
    fix s t
    assume "rs_stack s \<noteq> []" "flat_state (render_step s) \<longrightarrow> rs_stack t = [] \<longrightarrow>
      rs_out t = rs_out (render_step s) @ stack_text (render_step s) \<and> rs_suffixes t = []"
    then show "flat_state s \<longrightarrow> rs_stack t = [] \<longrightarrow> rs_out t = rs_out s @ stack_text s \<and> rs_suffixes t = []"
      using step_flat [of s] by simp
  qed (simp_all add: flat_state_def stack_text_def)
  then show ?thesis using assms by (simp add: render_loop_ends)
qed

lemma group_flat:
  assumes "list_all flat_only ds" "list_all no_suffix ds" "sum_list (map flat_width ds) \<le> WIDTH"
  shows "render_loop (render_init (Group ds)) = render_loop (push_docs 0 Flat ds ((render_init (Group ds))\<lparr>rs_stack := []\<rparr>))"
proof -
  have "group_mode ((render_init (Group ds))\<lparr>rs_stack := []\<rparr>) Broken ds = Flat"
    using fits_flat [OF assms(1), of 0] flat_list_not_forced [OF assms(1)] assms(3)
    by (simp add: group_mode_def measure_col_def)
  then show ?thesis
    by (subst render_loop.simps) (simp add: render_step_def render_doc_def)
qed

definition trimmed_line :: "bytes \<Rightarrow> bytes" where
  "trimmed_line t = (let t = pop_while is_trim t in if t = [] then [] else t @ [nl])"

lemma render_group_flat:
  assumes "list_all flat_only ds" "list_all no_suffix ds" "sum_list (map flat_width ds) \<le> WIDTH"
  shows "render (Group ds) = trimmed_line (concat (map flat_text ds))"
proof -
  let ?s = "push_docs 0 Flat ds ((render_init (Group ds))\<lparr>rs_stack := []\<rparr>)"
  have "flat_state ?s" "rs_out ?s @ stack_text ?s = concat (map flat_text ds)"
    using assms(1,2) by (auto simp: flat_state_def push_docs_def stack_text_def list_all_iff comp_def)
  then show ?thesis
    using loop_flat [of ?s] by (simp add: render_def Let_def group_flat [OF assms] trimmed_line_def)
qed

section \<open>Properties\<close>

text \<open>
  C24. The formatter loses nothing and invents nothing: whatever the layout, the visible bytes of the output are,
  with multiplicity, the visible bytes of the document for some choice of branch at each \<open>IfBreak\<close>.
\<close>

theorem render_keeps_ink: "\<exists>w\<in>texts d. mset (ink (render d)) = mset w"
  by (rule render_multiset)

text \<open>
  C40. Without stashed comments the visible bytes also keep their order: only blanks and line breaks move.
\<close>

theorem render_keeps_order: "no_suffix d \<Longrightarrow> ink (render d) \<in> texts d"
  by (rule render_order)

definition sample_doc :: doc where
  "sample_doc = Group [Text ''f('', Indent [Softline, Text ''x,'', Line, Group [Text ''y'', IfBreak '','' []]], Softline, Text '')'']"

theorem render_keeps_order_witness: "ink (render sample_doc) \<in> texts sample_doc"
  by (rule render_keeps_order) (simp add: sample_doc_def)

text \<open>
  Nonempty output ends in exactly one newline, after a byte that is no blank.
\<close>

theorem render_ends_line:
  "case rev (render d) of
     [] \<Rightarrow> True
   | n # rest \<Rightarrow> n = nl \<and> (case rest of [] \<Rightarrow> False | c # _ \<Rightarrow> \<not> is_trim c)"
proof -
  let ?o = "pop_while is_trim (rs_out (render_loop (render_init d)) @ rs_suffixes (render_loop (render_init d)))"
  show ?thesis using pop_while_last [of is_trim "rs_out (render_loop (render_init d)) @ rs_suffixes (render_loop (render_init d))"]
    by (cases ?o rule: rev_cases) (simp_all add: render_def Let_def)
qed

text \<open>
  No line of the output ends in a space, when no text of the document contains a newline.
\<close>

theorem render_no_trailing_space: "newline_free d \<Longrightarrow> tidy (render d)"
  by (rule render_tidy)

theorem render_no_trailing_space_witness: "tidy (render sample_doc)"
  by (rule render_no_trailing_space) (simp add: sample_doc_def)

text \<open>Multi-line raw bytes are outside that promise: a space before their newline survives.\<close>

lemma raw_trailing_space_kept: "render (Raw [CHR ''a'', sp, nl, CHR ''b'']) = [CHR ''a'', sp, nl, CHR ''b'', nl]"
  by code_simp

text \<open>
  The measure is exact: with nothing after them, breakable documents fit at a column if and only if the column
  and their flat widths together are at most the line width.
\<close>

theorem fits_exact:
  assumes "list_all flat_only ds"
  shows "fits ds [] col False \<longleftrightarrow> col + sum_list (map flat_width ds) \<le> WIDTH"
  by (rule fits_flat [OF assms])

theorem fits_exact_witness: "fits [sample_doc] [] 96 False \<longleftrightarrow> False"
  using fits_exact [of "[sample_doc]" 96] by (simp add: sample_doc_def WIDTH_def chars_def)

text \<open>
  A group that fits is laid on one line: if nothing in it forces a break and its flat width is within the line
  width, it renders as its flat text, trailing blanks trimmed, and a newline.
\<close>

theorem group_fits_one_line:
  assumes "list_all flat_only ds" "list_all no_suffix ds" "sum_list (map flat_width ds) \<le> WIDTH"
  shows "render (Group ds) = trimmed_line (concat (map flat_text ds))"
  by (rule render_group_flat [OF assms])

theorem group_fits_one_line_witness: "render (Group [sample_doc]) = ''f(x, y)'' @ [nl]"
proof -
  have "sum_list (map flat_width [sample_doc]) \<le> WIDTH" by code_simp
  moreover have "trimmed_line (concat (map flat_text [sample_doc])) = ''f(x, y)'' @ [nl]" by code_simp
  ultimately show ?thesis using group_fits_one_line [of "[sample_doc]"] by (simp add: sample_doc_def)
qed

text \<open>
  The two width questions agree: for a document that can be laid flat and has no newline in its text,
  \<open>wont_render_inline\<close> says yes exactly when \<open>fits\<close> says no at column zero.
\<close>

theorem inline_agrees_with_fits:
  assumes "flat_only d" "newline_free d"
  shows "wont_render_inline d \<longleftrightarrow> \<not> fits [d] [] 0 False"
  using overflows_width(1) [OF assms(2), of "int WIDTH"] fits_flat [of "[d]" 0] assms(1) flat_not_forced [OF assms(1)]
  by (auto simp: wont_render_inline_def split: if_splits)

theorem inline_agrees_with_fits_witness: "wont_render_inline sample_doc \<longleftrightarrow> \<not> fits [sample_doc] [] 0 False"
  by (rule inline_agrees_with_fits) (simp_all add: sample_doc_def)

text \<open>A \<open>BreakParent\<close> counts as a certain newline for \<open>wont_render_inline\<close>, and prints none.\<close>

lemma break_parent_inline:
  "wont_render_inline (Group [Text ''a'', BreakParent])" "render (Group [Text ''a'', BreakParent]) = ''a'' @ [nl]"
  by code_simp+

end
