(* ===== verification/Sema_Exhaust.thy ===== *)
theory Sema_Exhaust
  imports Wolf_Prelude
begin

text \<open>
  Match exhaustiveness and reachability, \<^verbatim>\<open>crates/wolf_sema/src/exhaust.rs\<close>, and the loop of
  \<open>check_matches\<close> (\<^verbatim>\<open>crates/wolf_sema/src/check.rs\<close>) that asks it: the operations only.
  \<open>None\<close> is a panic: an index past a row (\<open>row[0]\<close>, \<open>q[0]\<close>, \<open>split_at\<close>, \<open>remove(0)\<close>), or the addition past
  the largest \<open>i128\<close> in \<open>synthetic_missing\<close>, which a build without overflow checks wraps instead. The
  engine's step counter is threaded as in the source; it is a \<open>nat\<close>, and past the budget every pending
  call ticks at most once more.
\<close>

section \<open>Data\<close>

datatype col_ty =
  C_Bool | C_Int | C_Float | C_Str
  | C_Tuple "col_ty list"
  | C_Enum "(bytes \<times> col_ty list) list"
  | C_Row (row_tags: "(bytes \<times> col_ty list) list") bool
  | C_Fallible col_ty "(bytes \<times> col_ty list) list" bool
  | C_Opaque

datatype ctor =
  K_Bool bool | K_Int int | K_IntRange int int | K_Float bytes | K_Str bytes | K_Tuple | K_Named bytes | K_Ok

datatype pat = P_Wild | P_Ctor ctor "pat list" | P_Or "pat list"

type_synonym row = "pat list"

record engine =
  eg_steps :: nat
  eg_exhausted :: bool

definition STEP_BUDGET :: nat where
  "STEP_BUDGET = 100000"

definition engine_new :: engine where
  "engine_new = \<lparr>eg_steps = 0, eg_exhausted = False\<rparr>"

definition tick :: "engine \<Rightarrow> bool \<times> engine" where
  "tick eng =
     (let eng = eng\<lparr>eg_steps := eg_steps eng + 1\<rparr>;
          eng = (if eg_steps eng > STEP_BUDGET then eng\<lparr>eg_exhausted := True\<rparr> else eng)
      in (\<not> eg_exhausted eng, eng))"

section \<open>Constructors\<close>

fun covers :: "ctor \<Rightarrow> ctor \<Rightarrow> bool" where
  "covers (K_IntRange lo hi) (K_Int n) = (lo \<le> n \<and> n \<le> hi)"
| "covers (K_IntRange lo hi) (K_IntRange l2 h2) = (lo \<le> l2 \<and> h2 \<le> hi)"
| "covers (K_Int n) (K_IntRange lo hi) = (lo = hi \<and> n = lo)"
| "covers c d = (c = d)"

text \<open>\<open>find\<close> on the variant's name, \<open>unwrap_or_default\<close>\<close>

definition payload :: "bytes \<Rightarrow> (bytes \<times> col_ty list) list \<Rightarrow> col_ty list" where
  "payload n tags = (case map_of tags n of Some fs \<Rightarrow> fs | None \<Rightarrow> [])"

fun ctor_fields :: "ctor \<Rightarrow> col_ty \<Rightarrow> col_ty list" where
  "ctor_fields K_Tuple (C_Tuple fs) = fs"
| "ctor_fields (K_Named n) (C_Enum vs) = payload n vs"
| "ctor_fields (K_Named n) (C_Row tags _) = payload n tags"
| "ctor_fields (K_Named n) (C_Fallible _ tags _) = payload n tags"
| "ctor_fields K_Ok (C_Fallible ok _ _) = [ok]"
| "ctor_fields _ _ = []"

definition named_ctors :: "(bytes \<times> col_ty list) list \<Rightarrow> ctor list" where
  "named_ctors tags = map (K_Named \<circ> fst) tags"

fun complete_set :: "col_ty \<Rightarrow> ctor list option" where
  "complete_set C_Bool = Some [K_Bool False, K_Bool True]"
| "complete_set (C_Tuple _) = Some [K_Tuple]"
| "complete_set (C_Enum vs) = Some (named_ctors vs)"
| "complete_set (C_Row tags open) = (if \<not> open then Some (named_ctors tags) else None)"
| "complete_set (C_Fallible _ tags open) = (if \<not> open then Some (named_ctors tags @ [K_Ok]) else None)"
| "complete_set _ = None"

section \<open>Matrices\<close>

fun expand_head :: "row \<Rightarrow> row list" where
  "expand_head (P_Or alts # r) = concat (map (\<lambda>a. expand_head (a # r)) alts)"
| "expand_head r = [r]"

text \<open>\<open>Vec::resize\<close>\<close>

definition resize :: "nat \<Rightarrow> pat list \<Rightarrow> pat list" where
  "resize n args = take n args @ replicate (n - length args) P_Wild"

fun specialize_row :: "ctor \<Rightarrow> nat \<Rightarrow> row \<Rightarrow> row list" where
  "specialize_row c arity (P_Wild # r) = [replicate arity P_Wild @ r]"
| "specialize_row c arity (P_Ctor d args # r) = (if covers d c then [resize arity args @ r] else [])"
| "specialize_row c arity _ = []"

definition specialize :: "row list \<Rightarrow> ctor \<Rightarrow> nat \<Rightarrow> row list option" where
  "specialize m c arity =
     (if [] \<in> set m then None else Some (concat (map (specialize_row c arity) (concat (map expand_head m)))))"

fun default_row :: "row \<Rightarrow> row list" where
  "default_row (P_Wild # r) = [r]"
| "default_row _ = []"

definition default_matrix :: "row list \<Rightarrow> row list option" where
  "default_matrix m =
     (if [] \<in> set m then None else Some (concat (map default_row (concat (map expand_head m)))))"

fun add_head :: "row \<Rightarrow> ctor list \<Rightarrow> ctor list" where
  "add_head (P_Ctor c _ # _) out = (if c \<in> set out then out else out @ [c])"
| "add_head _ out = out"

definition head_ctors :: "row list \<Rightarrow> ctor list option" where
  "head_ctors m = (if [] \<in> set m then None else Some (fold add_head (concat (map expand_head m)) []))"

text \<open>The value past every constructor that covers \<open>n\<close>; \<open>max\<close> over the filtered heads.\<close>

fun past :: "int \<Rightarrow> ctor \<Rightarrow> int option" where
  "past n (K_Int m) = (if m = n then Some n else None)"
| "past n (K_IntRange lo hi) = (if lo \<le> n \<and> n \<le> hi then Some hi else None)"
| "past n _ = None"

definition pasts :: "int \<Rightarrow> ctor list \<Rightarrow> int list" where
  "pasts n used = List.map_filter (past n) used"

definition i128_max :: int where
  "i128_max = 2 ^ 127 - 1"

text \<open>The loop of \<open>synthetic_missing\<close>; each round leaves a head behind it for good, or overflows.\<close>

fun reaches :: "int \<Rightarrow> ctor \<Rightarrow> bool" where
  "reaches n (K_Int m) = (n \<le> m)"
| "reaches n (K_IntRange lo hi) = (n \<le> hi)"
| "reaches n _ = False"

lemma past_reaches: "past n c = Some h \<Longrightarrow> n \<le> h \<and> reaches n c \<and> \<not> reaches (h + 1) c"
  by (cases c) (auto split: if_splits)

lemma reaches_mono: "reaches m c \<Longrightarrow> n \<le> m \<Longrightarrow> reaches n c"
  by (cases c) auto

lemma pasts_set: "set (pasts n used) = {h. \<exists>c \<in> set used. past n c = Some h}"
  by (force simp: pasts_def List.map_filter_def image_iff)

function missing_from :: "ctor list \<Rightarrow> int \<Rightarrow> int option" where
  "missing_from used n =
     (let ps = pasts n used
      in if ps = [] then Some n
         else if Max (set ps) \<ge> i128_max then None
         else missing_from used (Max (set ps) + 1))"
  by pat_completeness auto
termination
proof (relation "measure (\<lambda>(used, n). length (filter (reaches n) used))")
  fix used :: "ctor list" and n :: int and ps
  assume "ps = pasts n used" "ps \<noteq> []"
  then have "Max (set ps) \<in> set (pasts n used)" by simp
  then obtain c where c: "c \<in> set used" "past n c = Some (Max (set ps))" by (auto simp: pasts_set)
  have sub: "filter (reaches (Max (set ps) + 1)) used = filter (reaches (Max (set ps) + 1)) (filter (reaches n) used)"
    using past_reaches [OF c(2)] by (auto intro!: filter_cong elim: reaches_mono)
  have "length (filter (reaches (Max (set ps) + 1)) (filter (reaches n) used)) < length (filter (reaches n) used)"
    using past_reaches [OF c(2)] c(1) by (intro length_filter_less [of c]) auto
  then show "((used, Max (set ps) + 1), used, n) \<in> measure (\<lambda>(used, n). length (filter (reaches n) used))"
    by (metis sub in_measure old.prod.case)
qed simp

declare missing_from.simps [simp del]

definition synthetic_missing :: "col_ty \<Rightarrow> ctor list \<Rightarrow> ctor option" where
  "synthetic_missing t used =
     (case t of C_Int \<Rightarrow> map_option K_Int (missing_from used 0) | _ \<Rightarrow> Some (K_Named ''_''))"

section \<open>The engine\<close>

text \<open>\<open>iter().any\<close> with a closure that threads the engine.\<close>

fun any_st :: "('a \<Rightarrow> engine \<Rightarrow> (bool \<times> engine) option) \<Rightarrow> 'a list \<Rightarrow> engine \<Rightarrow> (bool \<times> engine) option" where
  "any_st f [] eng = Some (False, eng)"
| "any_st f (x # xs) eng =
     (case f x eng of
        None \<Rightarrow> None
      | Some (True, eng) \<Rightarrow> Some (True, eng)
      | Some (False, eng) \<Rightarrow> any_st f xs eng)"

lemma any_st_cong [fundef_cong]:
  "xs = ys \<Longrightarrow> eng = eng' \<Longrightarrow> (\<And>x e. x \<in> set ys \<Longrightarrow> f x e = g x e) \<Longrightarrow> any_st f xs eng = any_st g ys eng'"
proof (induction xs arbitrary: ys eng eng')
  case (Cons x xs)
  then show ?case by (cases ys) (auto split: option.splits bool.splits)
qed simp

definition split_fully :: "ctor list option \<Rightarrow> ctor list \<Rightarrow> bool" where
  "split_fully complete used = (case complete of Some all \<Rightarrow> set all \<subseteq> set used | None \<Rightarrow> False)"

lemma payload_size: "size_list size (payload n tags) \<le> size_list (size_prod (\<lambda>_. 0) (size_list size)) tags + k"
proof (cases "map_of tags n")
  case (Some fs)
  then have "(n, fs) \<in> set tags" by (rule map_of_SomeD)
  then have "size_list size fs \<le> size_list (size_prod (\<lambda>_. 0) (size_list size)) tags"
    by (induction tags) auto
  then show ?thesis using Some by (simp add: payload_def)
qed (simp add: payload_def)

lemma fields_size [simp]: "size_list size (ctor_fields c t) < Suc (size t)"
  using payload_size [where k = 0] payload_size
  by (cases "(c, t)" rule: ctor_fields.cases) (auto simp: less_Suc_eq_le intro: le_SucI)

lemma alt_size [simp]: "a \<in> set alts \<Longrightarrow> size (a :: pat) < Suc (size_list size alts)"
  by (induction alts) auto

function useful :: "row list \<Rightarrow> row \<Rightarrow> col_ty list \<Rightarrow> engine \<Rightarrow> (bool \<times> engine) option" where
  "useful m q tys eng =
     (case tick eng of
        (False, eng) \<Rightarrow> Some (True, eng)
      | (True, eng) \<Rightarrow>
          (case tys of
             [] \<Rightarrow> Some (m = [], eng)
           | t # ts \<Rightarrow>
               (case q of
                  [] \<Rightarrow> None
                | P_Or alts # r \<Rightarrow> any_st (\<lambda>a eng. useful m (a # r) (t # ts) eng) alts eng
                | P_Ctor c args # r \<Rightarrow>
                    (let fields = ctor_fields c t; arity = length fields
                     in case specialize m c arity of
                          None \<Rightarrow> None
                        | Some spec \<Rightarrow> useful spec (resize arity args @ r) (fields @ ts) eng)
                | P_Wild # r \<Rightarrow>
                    (case head_ctors m of
                       None \<Rightarrow> None
                     | Some used \<Rightarrow>
                         (if split_fully (complete_set t) used
                          then any_st (\<lambda>c eng.
                                 let fields = ctor_fields c t; arity = length fields
                                 in case specialize m c arity of
                                      None \<Rightarrow> None
                                    | Some spec \<Rightarrow>
                                        useful spec (replicate arity P_Wild @ r) (fields @ ts) eng)
                                 (the (complete_set t)) eng
                          else (case default_matrix m of
                                  None \<Rightarrow> None
                                | Some dm \<Rightarrow> useful dm r ts eng))))))"
  by pat_completeness auto
termination
  by (relation "measures [\<lambda>(m, q, tys, eng). size_list size tys, \<lambda>(m, q, tys, eng). size_list size q]") auto

declare useful.simps [simp del]

definition is_useful :: "row list \<Rightarrow> row \<Rightarrow> col_ty list \<Rightarrow> bool option" where
  "is_useful m q tys = map_option (\<lambda>(r, eng). r \<or> eg_exhausted eng) (useful m q tys engine_new)"

section \<open>Witnesses\<close>

text \<open>The loop over the constructors of a fully split column; \<open>out\<close> is what was pushed so far.\<close>

fun split_loop ::
  "(ctor \<Rightarrow> nat \<Rightarrow> engine \<Rightarrow> (row list \<times> engine) option) \<Rightarrow> ctor list \<Rightarrow> nat \<Rightarrow> row list \<Rightarrow> engine \<Rightarrow>
   (row list \<times> engine) option" where
  "split_loop f [] cap out eng = Some (out, eng)"
| "split_loop f (c # cs) cap out eng =
     (if length out \<ge> cap then Some (out, eng)
      else case f c (cap - length out) eng of
             None \<Rightarrow> None
           | Some (ws, eng) \<Rightarrow> split_loop f cs cap (out @ ws) eng)"

lemma split_loop_cong [fundef_cong]:
  "cs = ds \<Longrightarrow> cap = cap' \<Longrightarrow> out = out' \<Longrightarrow> eng = eng' \<Longrightarrow> (\<And>c n e. c \<in> set ds \<Longrightarrow> f c n e = g c n e) \<Longrightarrow>
   split_loop f cs cap out eng = split_loop g ds cap' out' eng'"
proof (induction cs arbitrary: ds out out' eng eng')
  case (Cons c cs)
  then show ?case by (cases ds) (auto split: option.splits)
qed simp

text \<open>\<open>split_at\<close>: the first columns of a witness become the arguments of its head.\<close>

definition fold_head :: "ctor \<Rightarrow> nat \<Rightarrow> row \<Rightarrow> row option" where
  "fold_head c arity w = (if length w < arity then None else Some (P_Ctor c (take arity w) # drop arity w))"

definition missing_heads :: "col_ty \<Rightarrow> ctor list \<Rightarrow> ctor list option" where
  "missing_heads t used =
     (case complete_set t of
        Some all \<Rightarrow> Some (filter (\<lambda>c. c \<notin> set used) all)
      | None \<Rightarrow> map_option (\<lambda>c. [c]) (synthetic_missing t used))"

definition missing_rows :: "col_ty \<Rightarrow> ctor list \<Rightarrow> row list \<Rightarrow> nat \<Rightarrow> row list" where
  "missing_rows t heads sub cap =
     take cap (concat (map (\<lambda>w. map (\<lambda>c. P_Ctor c (replicate (length (ctor_fields c t)) P_Wild) # w) heads) sub))"

definition default_witnesses :: "col_ty \<Rightarrow> ctor list \<Rightarrow> row list \<Rightarrow> nat \<Rightarrow> row list option" where
  "default_witnesses t used sub cap =
     (if sub = [] then Some [] else map_option (\<lambda>heads. missing_rows t heads sub cap) (missing_heads t used))"

function witness_rows :: "row list \<Rightarrow> col_ty list \<Rightarrow> nat \<Rightarrow> engine \<Rightarrow> (row list \<times> engine) option" where
  "witness_rows m tys cap eng =
     (case tick eng of
        (go, eng) \<Rightarrow>
          (if \<not> go \<or> cap = 0 then Some ([], eng)
           else case tys of
                  [] \<Rightarrow> Some (if m = [] then [[]] else [], eng)
                | t # ts \<Rightarrow>
                    (case head_ctors m of
                       None \<Rightarrow> None
                     | Some used \<Rightarrow>
                         (if split_fully (complete_set t) used
                          then split_loop (\<lambda>c n eng.
                                 let fields = ctor_fields c t; arity = length fields
                                 in case specialize m c arity of
                                      None \<Rightarrow> None
                                    | Some spec \<Rightarrow>
                                        (case witness_rows spec (fields @ ts) n eng of
                                           None \<Rightarrow> None
                                         | Some (ws, eng) \<Rightarrow>
                                             map_option (\<lambda>rs. (rs, eng)) (those (map (fold_head c arity) ws))))
                                 (the (complete_set t)) cap [] eng
                          else case default_matrix m of
                                 None \<Rightarrow> None
                               | Some dm \<Rightarrow>
                                   (case witness_rows dm ts cap eng of
                                      None \<Rightarrow> None
                                    | Some (sub, eng) \<Rightarrow>
                                        map_option (\<lambda>rows. (rows, eng)) (default_witnesses t used sub cap))))))"
  by pat_completeness auto
termination by (relation "measure (\<lambda>(m, tys, cap, eng). size_list size tys)") auto

declare witness_rows.simps [simp del]

definition witnesses :: "row list \<Rightarrow> col_ty list \<Rightarrow> nat \<Rightarrow> pat list option" where
  "witnesses m tys cap =
     (case witness_rows m tys cap engine_new of
        None \<Rightarrow> None
      | Some (ws, eng) \<Rightarrow>
          if eg_exhausted eng then Some []
          else those (map (\<lambda>w. case w of [] \<Rightarrow> None | p # _ \<Rightarrow> Some p) ws))"

section \<open>Printing a witness\<close>

definition int_str :: "int \<Rightarrow> bytes" where
  "int_str n = (if n < 0 then CHR ''-'' # nat_str (nat (- n)) else nat_str (nat n))"

text \<open>\<open>join\<close>\<close>

fun join_with :: "bytes \<Rightarrow> bytes list \<Rightarrow> bytes" where
  "join_with sep [] = []"
| "join_with sep [x] = x"
| "join_with sep (x # xs) = x @ sep @ join_with sep xs"

fun render_pat :: "pat \<Rightarrow> bytes" where
  "render_pat P_Wild = ''_''"
| "render_pat (P_Or alts) = join_with '' | '' (map render_pat alts)"
| "render_pat (P_Ctor c args) =
     (case c of
        K_Bool b \<Rightarrow> if b then ''true'' else ''false''
      | K_Int n \<Rightarrow> int_str n
      | K_IntRange lo hi \<Rightarrow> int_str lo @ ''..='' @ int_str hi
      | K_Float s \<Rightarrow> s
      | K_Str s \<Rightarrow> [CHR 0x22] @ s @ [CHR 0x22]
      | K_Tuple \<Rightarrow> ''('' @ join_with '', '' (map render_pat args) @ '')''
      | K_Named n \<Rightarrow> if args = [] then n else n @ ''('' @ join_with '', '' (map render_pat args) @ '')''
      | K_Ok \<Rightarrow> (case args of [] \<Rightarrow> ''_'' | p # _ \<Rightarrow> render_pat p))"

section \<open>The arms of a match\<close>

text \<open>
  One turn of the loop of \<open>check_matches\<close> per arm: a pattern, whether it is guarded, its span. The result
  pairs the span of each dead arm with the arm it cites; \<open>prior\<close> and \<open>spans\<close> grow together.
\<close>

fun cite_from :: "row list \<Rightarrow> 'sp list \<Rightarrow> pat \<Rightarrow> col_ty \<Rightarrow> nat list \<Rightarrow> 'sp option" where
  "cite_from prior spans p t [] = (if spans = [] then None else Some (last spans))"
| "cite_from prior spans p t (k # ks) =
     (if is_useful (take k prior) [p] [t] = Some False then Some (spans ! (k - 1))
      else cite_from prior spans p t ks)"

fun check_arms ::
  "col_ty \<Rightarrow> (pat \<times> bool \<times> 'sp) list \<Rightarrow> row list \<Rightarrow> 'sp list \<Rightarrow> (('sp \<times> 'sp option) list \<times> row list) option" where
  "check_arms t [] prior spans = Some ([], prior)"
| "check_arms t ((p, guarded, sp) # arms) prior spans =
     (case is_useful prior [p] [t] of
        None \<Rightarrow> None
      | Some reachable \<Rightarrow>
          let dead = (if reachable then [] else [(sp, cite_from prior spans p t [1..<length prior + 1])])
          in map_option (\<lambda>(ds, prior). (dead @ ds, prior))
               (if guarded then check_arms t arms prior spans
                else check_arms t arms (prior @ [[p]]) (spans @ [sp])))"

definition check_match :: "col_ty \<Rightarrow> (pat \<times> bool \<times> 'sp) list \<Rightarrow> (('sp \<times> 'sp option) list \<times> pat list) option" where
  "check_match t arms =
     (case check_arms t arms [] [] of
        None \<Rightarrow> None
      | Some (dead, prior) \<Rightarrow> map_option (\<lambda>ws. (dead, ws)) (witnesses prior [t] 3))"

end
