(* ===== verification/Sema_Match.thy ===== *)
theory Sema_Match
  imports Sema_Exhaust
begin

text \<open>
  What the match checker's answers mean: values, the columns they inhabit, the values a pattern matches,
  and the lemmas that carry these through the matrix operations of \<open>Sema_Exhaust\<close>.

  Float literals are compared as source text by the engine; \<open>lit s f\<close> says that the value \<open>f\<close> equals
  the literal \<open>s\<close>, and is a parameter.
\<close>

section \<open>Values\<close>

datatype 'f val =
  V_Bool bool | V_Int int | V_Float 'f | V_Str bytes
  | V_Tuple "'f val list" | V_Named bytes "'f val list" | V_Ok "'f val" | V_Other nat

inductive has_ty :: "'f val \<Rightarrow> col_ty \<Rightarrow> bool" where
  ty_bool: "has_ty (V_Bool b) C_Bool"
| ty_int: "has_ty (V_Int n) C_Int"
| ty_float: "has_ty (V_Float f) C_Float"
| ty_str: "has_ty (V_Str s) C_Str"
| ty_tuple: "list_all2 has_ty vs ts \<Longrightarrow> has_ty (V_Tuple vs) (C_Tuple ts)"
| ty_enum: "map_of tags n = Some ts \<Longrightarrow> list_all2 has_ty vs ts \<Longrightarrow> has_ty (V_Named n vs) (C_Enum tags)"
| ty_row: "map_of tags n = Some ts \<Longrightarrow> list_all2 has_ty vs ts \<Longrightarrow> has_ty (V_Named n vs) (C_Row tags op)"
| ty_row_open: "map_of tags n = None \<Longrightarrow> has_ty (V_Named n vs) (C_Row tags True)"
| ty_err: "map_of tags n = Some ts \<Longrightarrow> list_all2 has_ty vs ts \<Longrightarrow> has_ty (V_Named n vs) (C_Fallible ok tags op)"
| ty_err_open: "map_of tags n = None \<Longrightarrow> has_ty (V_Named n vs) (C_Fallible ok tags True)"
| ty_ok: "has_ty v ok \<Longrightarrow> has_ty (V_Ok v) (C_Fallible ok tags op)"
| ty_opaque: "has_ty v C_Opaque"
monos list_all2_mono

inductive_simps has_ty_simps [simp]:
  "has_ty v C_Bool" "has_ty v C_Int" "has_ty v C_Float" "has_ty v C_Str" "has_ty v C_Opaque"
  "has_ty v (C_Tuple ts)" "has_ty v (C_Enum tags)" "has_ty v (C_Row tags op)" "has_ty v (C_Fallible ok tags op)"

section \<open>Matching\<close>

primrec heads :: "(bytes \<Rightarrow> 'f \<Rightarrow> bool) \<Rightarrow> ctor \<Rightarrow> 'f val \<Rightarrow> bool" where
  "heads lit (K_Bool b) v = (v = V_Bool b)"
| "heads lit (K_Int n) v = (v = V_Int n)"
| "heads lit (K_IntRange lo hi) v = (case v of V_Int m \<Rightarrow> lo \<le> m \<and> m \<le> hi | _ \<Rightarrow> False)"
| "heads lit (K_Float s) v = (case v of V_Float f \<Rightarrow> lit s f | _ \<Rightarrow> False)"
| "heads lit (K_Str s) v = (v = V_Str s)"
| "heads lit K_Tuple v = (case v of V_Tuple _ \<Rightarrow> True | _ \<Rightarrow> False)"
| "heads lit (K_Named n) v = (case v of V_Named m _ \<Rightarrow> n = m | _ \<Rightarrow> False)"
| "heads lit K_Ok v = (case v of V_Ok _ \<Rightarrow> True | _ \<Rightarrow> False)"

fun parts :: "'f val \<Rightarrow> 'f val list" where
  "parts (V_Tuple vs) = vs"
| "parts (V_Named _ vs) = vs"
| "parts (V_Ok v) = [v]"
| "parts _ = []"

text \<open>A sub-pattern that is left out matches anything.\<close>

fun matches :: "(bytes \<Rightarrow> 'f \<Rightarrow> bool) \<Rightarrow> pat \<Rightarrow> 'f val \<Rightarrow> bool"
  and matches_parts :: "(bytes \<Rightarrow> 'f \<Rightarrow> bool) \<Rightarrow> pat list \<Rightarrow> 'f val list \<Rightarrow> bool" where
  "matches lit P_Wild v = True"
| "matches lit (P_Ctor c args) v = (heads lit c v \<and> matches_parts lit args (parts v))"
| "matches lit (P_Or alts) v = list_ex (\<lambda>a. matches lit a v) alts"
| "matches_parts lit (p # ps) (v # vs) = (matches lit p v \<and> matches_parts lit ps vs)"
| "matches_parts lit _ _ = True"

text \<open>A pattern fits a column when its heads carry one sub-pattern per field, all the way down.\<close>

fun pat_fits :: "col_ty \<Rightarrow> pat \<Rightarrow> bool" and fits_all :: "col_ty list \<Rightarrow> pat list \<Rightarrow> bool" where
  "pat_fits t P_Wild = True"
| "pat_fits t (P_Ctor c args) = fits_all (ctor_fields c t) args"
| "pat_fits t (P_Or alts) = list_all (pat_fits t) alts"
| "fits_all [] [] = True"
| "fits_all (t # ts) (p # ps) = (pat_fits t p \<and> fits_all ts ps)"
| "fits_all _ _ = False"

abbreviation row_matches :: "(bytes \<Rightarrow> 'f \<Rightarrow> bool) \<Rightarrow> row \<Rightarrow> 'f val list \<Rightarrow> bool" where
  "row_matches lit \<equiv> list_all2 (matches lit)"

abbreviation typed :: "'f val list \<Rightarrow> col_ty list \<Rightarrow> bool" where
  "typed \<equiv> list_all2 has_ty"

definition rows_match :: "(bytes \<Rightarrow> 'f \<Rightarrow> bool) \<Rightarrow> row list \<Rightarrow> 'f val list \<Rightarrow> bool" where
  "rows_match lit m vs \<longleftrightarrow> (\<exists>r \<in> set m. row_matches lit r vs)"

definition rows_fit :: "row list \<Rightarrow> col_ty list \<Rightarrow> bool" where
  "rows_fit m tys \<longleftrightarrow> (\<forall>r \<in> set m. fits_all tys r)"

named_theorems match_simps \<open>unfolding the matrix operations\<close>

lemma fits_all_length: "fits_all ts ps \<Longrightarrow> length ps = length ts"
  by (induction ts ps rule: pat_fits_fits_all.induct(2) [where P = "\<lambda>_ _. True"]) auto

lemma fits_all_append: "length ps = length ts \<Longrightarrow> fits_all (ts @ us) (ps @ qs) \<longleftrightarrow> fits_all ts ps \<and> fits_all us qs"
  by (induction ps ts rule: list_induct2) auto

lemma fits_all_wild: "fits_all ts (replicate (length ts) P_Wild)"
  by (induction ts) auto

lemma matches_parts_take: "length vs = length ps \<Longrightarrow> row_matches lit ps vs \<longleftrightarrow> matches_parts lit ps vs"
  by (induction vs ps rule: list_induct2) auto

lemma matches_parts_prefix: "length ps \<le> length vs \<Longrightarrow>
    matches_parts lit ps vs \<longleftrightarrow> row_matches lit ps (take (length ps) vs)"
  by (induction ps arbitrary: vs) (auto simp: Suc_le_length_iff)

lemma row_matches_wild: "row_matches lit (replicate n P_Wild) vs \<longleftrightarrow> length vs = n"
  by (induction n arbitrary: vs) (auto simp: list_all2_Cons1 length_Suc_conv)

lemma matches_parts_wild: "matches_parts lit (replicate n P_Wild) vs"
proof (induction n arbitrary: vs)
  case (Suc n)
  then show ?case by (cases vs) auto
qed simp

lemma row_matches_pad: "length xs = n \<Longrightarrow> row_matches lit (replicate n P_Wild @ r) (xs @ vs) \<longleftrightarrow> row_matches lit r vs"
  by (simp add: list_all2_append row_matches_wild)

section \<open>Heads and fields\<close>

lemma covers_heads: "covers d c \<Longrightarrow> heads lit c v \<Longrightarrow> heads lit d v"
  by (cases "(d, c)" rule: covers.cases; cases v) auto

lemma covers_fields: "covers d c \<Longrightarrow> ctor_fields d t = ctor_fields c t"
  by (cases "(d, c)" rule: covers.cases) auto

lemma typed_take: "typed vs ts \<Longrightarrow> typed (take (length ts) vs) ts"
  using list_all2_lengthD by fastforce

lemma fields_typed:
  assumes "has_ty v t" "heads lit c v"
  shows "typed (take (length (ctor_fields c t)) (parts v)) (ctor_fields c t)"
  using assms by (cases "(c, t)" rule: ctor_fields.cases; cases v) (auto simp: payload_def typed_take)

lemma complete_heads: "complete_set t = Some all \<Longrightarrow> has_ty v t \<Longrightarrow> \<exists>c \<in> set all. heads lit c v"
  by (cases t) (force simp: named_ctors_def dest!: map_of_SomeD split: if_splits)+

lemma complete_exact:
  assumes "complete_set t = Some all" "c \<in> set all" "heads lit c v" "heads lit d v"
  shows "d = c"
proof -
  have "(\<exists>b. c = K_Bool b) \<or> c = K_Tuple \<or> (\<exists>n. c = K_Named n) \<or> c = K_Ok"
    using assms(1,2) by (cases t) (auto simp: named_ctors_def split: if_splits)
  then show ?thesis using assms(3,4) by (cases v; cases d) auto
qed

section \<open>Matrix operations\<close>

lemma expand_nonempty: "r \<noteq> [] \<Longrightarrow> r' \<in> set (expand_head r) \<Longrightarrow> \<exists>p rest. r' = p # rest \<and> (\<forall>as. p \<noteq> P_Or as)"
proof (induction r rule: expand_head.induct)
  case (1 alts r)
  then obtain a where "a \<in> set alts" "r' \<in> set (expand_head (a # r))" by auto
  with 1(1) show ?case by blast
qed simp_all

lemma expand_matches: "(\<exists>r' \<in> set (expand_head r). row_matches lit r' vs) \<longleftrightarrow> row_matches lit r vs"
proof (induction r rule: expand_head.induct)
  case (1 alts r)
  have "(\<exists>r' \<in> set (expand_head (P_Or alts # r)). row_matches lit r' vs) \<longleftrightarrow> (\<exists>a \<in> set alts. row_matches lit (a # r) vs)"
    using 1 by simp
  also have "\<dots> \<longleftrightarrow> row_matches lit (P_Or alts # r) vs" by (cases vs) (auto simp: list_ex_iff)
  finally show ?case .
qed simp_all

lemma expand_fits: "fits_all ts r \<Longrightarrow> r' \<in> set (expand_head r) \<Longrightarrow> fits_all ts r'"
proof (induction r rule: expand_head.induct)
  case (1 alts r)
  then show ?case by (cases ts) (auto simp: list_all_iff)
qed auto

lemma rows_match_expand: "rows_match lit (concat (map expand_head m)) vs \<longleftrightarrow> rows_match lit m vs"
proof -
  have "rows_match lit (concat (map expand_head m)) vs \<longleftrightarrow> (\<exists>r \<in> set m. \<exists>r' \<in> set (expand_head r). row_matches lit r' vs)"
    by (simp add: rows_match_def)
  then show ?thesis by (simp only: expand_matches rows_match_def)
qed

lemma rows_match_plain: "rows_match lit m vs \<Longrightarrow> \<exists>r \<in> set (concat (map expand_head m)). row_matches lit r vs"
  using rows_match_expand [of lit m vs] unfolding rows_match_def [of lit "concat _"] by blast

lemma rows_fit_expand: "rows_fit m ts \<Longrightarrow> rows_fit (concat (map expand_head m)) ts"
  using expand_fits by (simp add: rows_fit_def) blast

text \<open>The expanded rows of a matrix: nonempty, with plain heads.\<close>

definition plain :: "row list \<Rightarrow> bool" where
  "plain m \<longleftrightarrow> (\<forall>r \<in> set m. \<exists>p rest. r = p # rest \<and> (\<forall>as. p \<noteq> P_Or as))"

lemma plain_expand:
  assumes "[] \<notin> set m" shows "plain (concat (map expand_head m))"
  unfolding plain_def
proof
  fix r assume "r \<in> set (concat (map expand_head m))"
  then obtain r0 where "r0 \<in> set m" "r \<in> set (expand_head r0)" by auto
  moreover from this(1) have "r0 \<noteq> []" using assms by auto
  ultimately show "\<exists>p rest. r = p # rest \<and> (\<forall>as. p \<noteq> P_Or as)" by (blast dest: expand_nonempty)
qed

lemma rows_match_Cons [simp]: "rows_match lit (r # m) vs \<longleftrightarrow> row_matches lit r vs \<or> rows_match lit m vs"
  by (simp add: rows_match_def)

lemma rows_match_append [simp]: "rows_match lit (m @ m') vs \<longleftrightarrow> rows_match lit m vs \<or> rows_match lit m' vs"
  by (auto simp: rows_match_def)

lemma rows_match_Nil [simp]: "\<not> rows_match lit [] vs"
  by (simp add: rows_match_def)

lemma rows_fit_simps [simp]: "rows_fit [] ts" "rows_fit (r # m) ts \<longleftrightarrow> fits_all ts r \<and> rows_fit m ts"
  "rows_fit (m @ m') ts \<longleftrightarrow> rows_fit m ts \<and> rows_fit m' ts"
  by (auto simp: rows_fit_def)

lemma resize_id: "length args = n \<Longrightarrow> resize n args = args"
  by (simp add: resize_def)

section \<open>Specialization\<close>

lemma specialize_row_sound:
  assumes "r' \<in> set (specialize_row c (length fs) r)" "fits_all (t # ts) r" "heads lit c v"
    "fs = ctor_fields c t" "typed (take (length fs) (parts v)) fs"
    "row_matches lit r' (take (length fs) (parts v) @ vs)"
  shows "row_matches lit r (v # vs)"
proof (cases "(c, length fs, r)" rule: specialize_row.cases)
  case (2 c1 a d args rest)
  then have d: "covers d c" "r' = resize (length fs) args @ rest" using assms(1) by (auto split: if_splits)
  have len: "length args = length fs" "length (take (length fs) (parts v)) = length fs"
    using assms(2,5) 2 fits_all_length list_all2_lengthD [OF assms(5)] by (auto simp: covers_fields [OF d(1)] assms(4))
  then have "row_matches lit args (take (length fs) (parts v))" "row_matches lit rest vs"
    using assms(6) d(2) by (simp_all add: resize_id list_all2_append)
  then show ?thesis using 2 covers_heads [OF d(1) assms(3)] len by (simp add: matches_parts_prefix)
next
  case (1 c1 a rest)
  then show ?thesis using assms list_all2_lengthD [OF assms(5)] by (simp add: row_matches_pad)
qed (use assms in auto)

lemma specialize_row_fits:
  "r' \<in> set (specialize_row c (length fs) r) \<Longrightarrow> fits_all (t # ts) r \<Longrightarrow> fs = ctor_fields c t \<Longrightarrow> fits_all (fs @ ts) r'"
proof (cases "(c, length fs, r)" rule: specialize_row.cases)
  case (2 c1 a d args rest)
  assume a: "r' \<in> set (specialize_row c (length fs) r)" "fits_all (t # ts) r" "fs = ctor_fields c t"
  then have d: "covers d c" "r' = resize (length fs) args @ rest" using 2 by (auto split: if_splits)
  then have "fits_all fs args" "fits_all ts rest" using a 2 by (simp_all add: covers_fields [OF d(1)])
  then show ?thesis using d(2) fits_all_length [of fs args] by (simp add: resize_id fits_all_append)
qed (auto simp: fits_all_append fits_all_wild)

lemma specialize_row_complete:
  assumes "row_matches lit r (v # vs)" "\<forall>as. hd r \<noteq> P_Or as" "fits_all (t # ts) r" "heads lit c v"
    "\<And>d. heads lit d v \<Longrightarrow> d = c" "fs = ctor_fields c t" "typed (take (length fs) (parts v)) fs"
  shows "\<exists>r' \<in> set (specialize_row c (length fs) r). row_matches lit r' (take (length fs) (parts v) @ vs)"
proof (cases "(c, length fs, r)" rule: specialize_row.cases)
  case (1 c1 a rest)
  then show ?thesis using assms(1) list_all2_lengthD [OF assms(7)] by (simp add: row_matches_pad)
next
  case (2 c1 a d args rest)
  have len: "length args = length fs" "length (take (length fs) (parts v)) = length fs"
    using assms(3) 2 fits_all_length list_all2_lengthD [OF assms(7)] assms(1,5,6) by auto
  have "d = c" using assms(1,5) 2 by simp
  moreover have "row_matches lit args (take (length fs) (parts v))"
    using assms(1) 2 len by (simp add: matches_parts_prefix)
  moreover have "covers c c" by (cases c) auto
  ultimately show ?thesis using assms(1) 2 len by (simp add: resize_id list_all2_append)
qed (use assms(1,2) in auto)

text \<open>The three operations on a matrix whose rows are nonempty.\<close>

lemma specialize_Some [match_simps]: "specialize m c k = Some spec \<longleftrightarrow>
    [] \<notin> set m \<and> spec = concat (map (specialize_row c k) (concat (map expand_head m)))"
  by (auto simp: specialize_def)

lemma default_Some [match_simps]: "default_matrix m = Some dm \<longleftrightarrow>
    [] \<notin> set m \<and> dm = concat (map default_row (concat (map expand_head m)))"
  by (auto simp: default_matrix_def)

lemma rows_match_concat: "rows_match lit (concat (map f m)) vs \<longleftrightarrow> (\<exists>r \<in> set m. rows_match lit (f r) vs)"
  by (simp add: rows_match_def)

lemma rows_fit_concat: "rows_fit (concat (map f m)) ts \<longleftrightarrow> (\<forall>r \<in> set m. rows_fit (f r) ts)"
  by (auto simp: rows_fit_def)

lemma specialize_fits:
  "specialize m c (length (ctor_fields c t)) = Some spec \<Longrightarrow> rows_fit m (t # ts) \<Longrightarrow> rows_fit spec (ctor_fields c t @ ts)"
  using rows_fit_expand [of m "t # ts"] specialize_row_fits [of _ c "ctor_fields c t" _ t ts]
  unfolding specialize_Some by (auto simp: rows_fit_def)

lemma specialize_sound:
  assumes "specialize m c (length (ctor_fields c t)) = Some spec" "rows_fit m (t # ts)" "heads lit c v" "has_ty v t"
    "rows_match lit spec (take (length (ctor_fields c t)) (parts v) @ vs)"
  shows "rows_match lit m (v # vs)"
proof -
  let ?m = "concat (map expand_head m)"
  obtain r r' where r: "r \<in> set ?m" "r' \<in> set (specialize_row c (length (ctor_fields c t)) r)"
      "row_matches lit r' (take (length (ctor_fields c t)) (parts v) @ vs)"
    using assms(1,5) unfolding specialize_Some rows_match_def by auto
  have "fits_all (t # ts) r" using rows_fit_expand [OF assms(2)] r(1) unfolding rows_fit_def by blast
  then have "row_matches lit r (v # vs)"
    using r(2,3) specialize_row_sound fields_typed [OF assms(4,3)] assms(3) by blast
  then have "rows_match lit ?m (v # vs)" using r(1) unfolding rows_match_def by blast
  then show ?thesis by (simp only: rows_match_expand)
qed

lemma specialize_complete:
  assumes "specialize m c (length (ctor_fields c t)) = Some spec" "rows_fit m (t # ts)" "heads lit c v" "has_ty v t"
    "\<And>d. heads lit d v \<Longrightarrow> d = c" "rows_match lit m (v # vs)"
  shows "rows_match lit spec (take (length (ctor_fields c t)) (parts v) @ vs)"
proof -
  let ?m = "concat (map expand_head m)"
  obtain r where r: "r \<in> set ?m" "row_matches lit r (v # vs)"
    using rows_match_plain [OF assms(6)] by blast
  have "fits_all (t # ts) r" using rows_fit_expand [OF assms(2)] r(1) unfolding rows_fit_def by blast
  moreover have "\<forall>as. hd r \<noteq> P_Or as"
    using plain_expand [of m] r(1) assms(1) unfolding specialize_Some plain_def by fastforce
  ultimately have "rows_match lit (specialize_row c (length (ctor_fields c t)) r)
      (take (length (ctor_fields c t)) (parts v) @ vs)"
    using specialize_row_complete [OF r(2) _ _ assms(3,5) refl fields_typed [OF assms(4,3)]]
    unfolding rows_match_def by blast
  then show ?thesis using r(1) assms(1) unfolding specialize_Some by (auto simp: rows_match_def)
qed

lemma default_fits: "default_matrix m = Some dm \<Longrightarrow> rows_fit m (t # ts) \<Longrightarrow> rows_fit dm ts"
proof -
  assume a: "default_matrix m = Some dm" "rows_fit m (t # ts)"
  have "fits_all (t # ts) r \<Longrightarrow> rows_fit (default_row r) ts" for r
    by (cases r rule: default_row.cases) auto
  then show ?thesis using a rows_fit_expand [OF a(2)] unfolding default_Some by (auto simp: rows_fit_def)
qed

lemma default_sound: "default_matrix m = Some dm \<Longrightarrow> rows_match lit dm vs \<Longrightarrow> rows_match lit m (v # vs)"
proof -
  assume a: "default_matrix m = Some dm" "rows_match lit dm vs"
  have "rows_match lit (default_row r) vs \<Longrightarrow> row_matches lit r (v # vs)" for r
    by (cases r rule: default_row.cases) auto
  then have "rows_match lit (concat (map expand_head m)) (v # vs)"
    using a unfolding default_Some rows_match_concat rows_match_def [of lit "concat _"] by (auto simp: rows_match_def)
  then show ?thesis by (simp only: rows_match_expand)
qed

lemma add_head_set: "set (fold add_head m out) = set out \<union> {c. \<exists>args r. P_Ctor c args # r \<in> set m}"
proof (induction m arbitrary: out)
  case (Cons r m)
  then show ?case by (cases "(r, out)" rule: add_head.cases) auto
qed simp

lemma head_ctors_set: "head_ctors m = Some used \<Longrightarrow>
    c \<in> set used \<longleftrightarrow> (\<exists>args r. P_Ctor c args # r \<in> set (concat (map expand_head m)))"
proof -
  assume "head_ctors m = Some used"
  then have "used = fold add_head (concat (map expand_head m)) []" by (auto simp: head_ctors_def split: if_splits)
  then show ?thesis by (simp only: add_head_set) simp
qed

lemma default_complete:
  assumes "default_matrix m = Some dm" "head_ctors m = Some used" "\<And>c. c \<in> set used \<Longrightarrow> \<not> heads lit c v"
    "rows_match lit m (v # vs)"
  shows "rows_match lit dm vs"
proof -
  let ?m = "concat (map expand_head m)"
  obtain r where r: "r \<in> set ?m" "row_matches lit r (v # vs)"
    using rows_match_plain [OF assms(4)] by blast
  then obtain p rest where p: "r = p # rest" "\<forall>as. p \<noteq> P_Or as" "row_matches lit rest vs" "matches lit p v"
    using plain_expand [of m] assms(1) unfolding default_Some plain_def by fastforce
  have "p = P_Wild" using p assms(3) r(1) by (cases p) (auto simp: head_ctors_set [OF assms(2)])
  then have "rest \<in> set dm" using r(1) p(1) assms(1) unfolding default_Some by force
  then show ?thesis using p(3) unfolding rows_match_def by blast
qed

end
