(* ===== verification/Sema_Useful.thy ===== *)
theory Sema_Useful
  imports Sema_Match
begin

text \<open>
  The engine is right: it never panics on rows of one width, an arm it calls useless matches nothing the
  rows above miss, an empty list of witnesses means that every value is matched, and every witness is the
  shape of a value that is not.
\<close>

section \<open>No panic\<close>

definition width :: "nat \<Rightarrow> row list \<Rightarrow> bool" where
  "width n m \<longleftrightarrow> (\<forall>r \<in> set m. length r = n)"

lemma width_simps [simp]: "width n []" "width n (r # m) \<longleftrightarrow> length r = n \<and> width n m"
  "width n (m @ m') \<longleftrightarrow> width n m \<and> width n m'"
  by (auto simp: width_def)

lemma width_nonempty: "width (Suc n) m \<Longrightarrow> [] \<notin> set m"
  by (auto simp: width_def)

lemma width_concat: "width n (concat (map f m)) \<longleftrightarrow> (\<forall>r \<in> set m. width n (f r))"
  by (auto simp: width_def)

lemma expand_width: "width (length r) (expand_head r)"
  by (induction r rule: expand_head.induct) (auto simp: width_concat)

lemma resize_length [simp]: "length (resize n args) = n"
  by (simp add: resize_def)

lemma specialize_row_width: "length r = Suc n \<Longrightarrow> width (k + n) (specialize_row c k r)"
  by (cases "(c, k, r)" rule: specialize_row.cases) auto

lemma default_row_width: "length r = Suc n \<Longrightarrow> width n (default_row r)"
  by (cases r rule: default_row.cases) auto

lemma expanded_width: "width n m \<Longrightarrow> r \<in> set (concat (map expand_head m)) \<Longrightarrow> length r = n"
  using expand_width by (auto simp: width_def)

lemma width_expand_concat:
  assumes "width n m" "\<And>r. length r = n \<Longrightarrow> width k (f r)"
  shows "width k (concat (map f (concat (map expand_head m))))"
  unfolding width_concat [of k f] using expanded_width [OF assms(1)] assms(2) by blast

lemma specialize_width:
  assumes "width (Suc n) m"
  obtains spec where "specialize m c k = Some spec" "width (k + n) spec"
  using width_expand_concat [OF assms specialize_row_width] width_nonempty [OF assms] by (simp add: specialize_def)

lemma default_width:
  assumes "width (Suc n) m"
  obtains dm where "default_matrix m = Some dm" "width n dm"
  using width_expand_concat [OF assms default_row_width] width_nonempty [OF assms] by (simp add: default_matrix_def)

lemma head_ctors_width:
  assumes "width (Suc n) m" obtains used where "head_ctors m = Some used"
  using width_nonempty [OF assms] by (simp add: head_ctors_def)

section \<open>The calls of one step\<close>

text \<open>\<open>useful\<close> by cases, once the budget allows it to look.\<close>

definition useful_under :: "ctor \<Rightarrow> pat list \<Rightarrow> row list \<Rightarrow> row \<Rightarrow> col_ty \<Rightarrow> col_ty list \<Rightarrow> engine \<Rightarrow> (bool \<times> engine) option" where
  "useful_under c args m r t ts eng =
     (case specialize m c (length (ctor_fields c t)) of
        None \<Rightarrow> None
      | Some spec \<Rightarrow> useful spec (resize (length (ctor_fields c t)) args @ r) (ctor_fields c t @ ts) eng)"

lemma resize_Nil: "resize n [] = replicate n P_Wild"
  by (simp add: resize_def)

lemma useful_stop: "tick eng = (False, e) \<Longrightarrow> useful m q tys eng = Some (True, e)"
  by (subst useful.simps) simp

lemma useful_Nil: "tick eng = (True, e) \<Longrightarrow> useful m q [] eng = Some (m = [], e)"
  by (subst useful.simps) simp

lemma useful_Or: "tick eng = (True, e) \<Longrightarrow>
    useful m (P_Or alts # r) (t # ts) eng = any_st (\<lambda>a. useful m (a # r) (t # ts)) alts e"
  by (subst useful.simps) simp

lemma useful_Ctor: "tick eng = (True, e) \<Longrightarrow>
    useful m (P_Ctor c args # r) (t # ts) eng = useful_under c args m r t ts e"
  by (subst useful.simps) (simp add: useful_under_def Let_def)

lemma useful_Wild: "tick eng = (True, e) \<Longrightarrow>
    useful m (P_Wild # r) (t # ts) eng =
      (case head_ctors m of
         None \<Rightarrow> None
       | Some used \<Rightarrow>
           if split_fully (complete_set t) used
           then any_st (\<lambda>c. useful_under c [] m r t ts) (the (complete_set t)) e
           else case default_matrix m of None \<Rightarrow> None | Some dm \<Rightarrow> useful dm r ts e)"
  by (subst useful.simps)
    (auto simp: useful_under_def Let_def resize_Nil intro!: any_st_cong option.case_cong split: option.splits)

lemmas useful_calls = useful_Nil useful_Or useful_Ctor useful_Wild

text \<open>What the calls get smaller in: the columns, or the first pattern under the same columns.\<close>

definition smaller :: "row \<Rightarrow> col_ty list \<Rightarrow> row \<Rightarrow> col_ty list \<Rightarrow> bool" where
  "smaller q' tys' q tys \<longleftrightarrow>
     ((q', tys'), (q, tys)) \<in> measures [\<lambda>(q, tys). size_list size tys, \<lambda>(q, tys). size_list size q]"

lemma smaller_calls [simp]:
  "a \<in> set alts \<Longrightarrow> smaller (a # r) tys (P_Or alts # r) tys"
  "smaller q' (ctor_fields c t @ ts) q (t # ts)"
  "smaller q' ts q (t # ts)"
  by (auto simp: smaller_def)

lemma smaller_induct:
  assumes "\<And>q tys. (\<And>q' tys'. smaller q' tys' q tys \<Longrightarrow> P q' tys') \<Longrightarrow> P q tys"
  shows "P q tys"
proof -
  have "case x of (q, tys) \<Rightarrow> P q tys" for x
  proof (induction x rule: wf_induct_rule
      [OF wf_measures [of "[\<lambda>(q :: row, tys :: col_ty list). size_list size tys, \<lambda>(q, tys). size_list size q]"]])
    case (1 x)
    obtain q tys where x: "x = (q, tys)" by fastforce
    have "P q tys"
    proof (rule assms)
      fix q' tys' assume "smaller q' tys' q tys"
      then show "P q' tys'" using 1 [of "(q', tys')"] by (simp add: smaller_def x)
    qed
    then show ?case by (simp add: x)
  qed
  from this [of "(q, tys)"] show ?thesis by simp
qed

lemma any_st_total: "(\<And>x e. x \<in> set xs \<Longrightarrow> f x e \<noteq> None) \<Longrightarrow> any_st f xs eng \<noteq> None"
  by (induction xs arbitrary: eng) (auto split: option.splits bool.splits)

lemma useful_total: "width (length tys) m \<Longrightarrow> length q = length tys \<Longrightarrow> useful m q tys eng \<noteq> None"
proof (induction q tys arbitrary: m eng rule: smaller_induct)
  case (1 q tys)
  note ih = "1.IH" and w = "1.prems"
  obtain go e where tk: "tick eng = (go, e)" by fastforce
  show ?case
  proof (cases "go \<and> tys \<noteq> []")
    case False
    then show ?thesis using tk by (cases go) (auto simp: useful_stop useful_Nil)
  next
    case True
    then obtain t ts p r where eq: "tys = t # ts" "q = p # r" using w by (cases tys; cases q) auto
    have tk: "tick eng = (True, e)" using tk True by simp
    have m: "width (Suc (length ts)) m" "length r = length ts" using w eq by simp_all
    have under: "useful_under c args m r t ts e' \<noteq> None" for c args e'
    proof -
      obtain spec where "specialize m c (length (ctor_fields c t)) = Some spec"
          "width (length (ctor_fields c t) + length ts) spec"
        using specialize_width [OF m(1)] .
      then show ?thesis using ih m(2) by (simp add: useful_under_def eq)
    qed
    show ?thesis
    proof (cases p)
      case P_Wild
      obtain used where "head_ctors m = Some used" using head_ctors_width [OF m(1)] .
      moreover obtain dm where "default_matrix m = Some dm" "width (length ts) dm"
        using default_width [OF m(1)] .
      ultimately show ?thesis
        using ih m(2) any_st_total [of _ "\<lambda>c. useful_under c [] m r t ts"] under by (simp add: eq P_Wild useful_Wild [OF tk])
    next
      case (P_Ctor c args)
      then show ?thesis using under by (simp add: eq useful_Ctor [OF tk])
    next
      case (P_Or alts)
      have "useful m (a # r) (t # ts) e' \<noteq> None" if "a \<in> set alts" for a e'
        using ih [of "a # r" "t # ts"] that m by (simp add: eq P_Or)
      then show ?thesis using any_st_total [of alts "\<lambda>a. useful m (a # r) (t # ts)"]
        by (simp add: eq P_Or useful_Or [OF tk])
    qed
  qed
qed

lemma useful_under_pad:
  "useful_under c (replicate (length (ctor_fields c t)) P_Wild) m r t ts eng = useful_under c [] m r t ts eng"
  by (simp add: useful_under_def resize_def split: option.split)

section \<open>What useless means\<close>

lemma any_st_False: "any_st f xs eng = Some (False, eng') \<Longrightarrow> x \<in> set xs \<Longrightarrow> \<exists>e e'. f x e = Some (False, e')"
proof (induction xs arbitrary: eng)
  case (Cons y ys)
  then obtain e where "f y eng = Some (False, e)" "any_st f ys e = Some (False, eng')"
    by (auto split: option.splits bool.splits)
  then show ?case using Cons by auto
qed simp

lemma under_False:
  assumes ih: "\<And>m q' eng eng' vs. useful m q' (ctor_fields c t @ ts) eng = Some (False, eng') \<Longrightarrow> rows_fit m (ctor_fields c t @ ts) \<Longrightarrow>
      fits_all (ctor_fields c t @ ts) q' \<Longrightarrow> typed vs (ctor_fields c t @ ts) \<Longrightarrow> row_matches lit q' vs \<Longrightarrow>
      rows_match lit m vs"
    and call: "useful_under c args m r t ts e = Some (False, e')"
    and fit: "rows_fit m (t # ts)" "fits_all (ctor_fields c t) args" "fits_all ts r"
    and val: "has_ty v t" "heads lit c v" "matches_parts lit args (parts v)" "typed vs ts" "row_matches lit r vs"
  shows "rows_match lit m (v # vs)"
proof -
  let ?n = "length (ctor_fields c t)"
  obtain spec where s: "specialize m c ?n = Some spec"
      "useful spec (resize ?n args @ r) (ctor_fields c t @ ts) e = Some (False, e')"
    using call by (auto simp: useful_under_def split: option.splits)
  have len: "length args = ?n" using fits_all_length [OF fit(2)] .
  have ty: "typed (take ?n (parts v)) (ctor_fields c t)" using fields_typed [OF val(1,2)] .
  have "row_matches lit args (take ?n (parts v))"
    using val(3) len list_all2_lengthD [OF ty] by (simp add: matches_parts_prefix)
  then have "rows_match lit spec (take ?n (parts v) @ vs)"
    using ih [OF s(2) specialize_fits [OF s(1) fit(1)]] fit ty val len
    by (simp add: resize_id fits_all_append list_all2_appendI)
  then show ?thesis using specialize_sound [OF s(1) fit(1) val(2,1)] by simp
qed

lemma useful_False:
  "useful m q tys eng = Some (False, eng') \<Longrightarrow> rows_fit m tys \<Longrightarrow> fits_all tys q \<Longrightarrow> typed vs tys \<Longrightarrow>
   row_matches lit q vs \<Longrightarrow> rows_match lit m vs"
proof (induction q tys arbitrary: m eng eng' vs rule: smaller_induct)
  case (1 q tys)
  note ih = "1.IH" and prems = "1.prems"
  obtain e where tk: "tick eng = (True, e)"
    using prems(1) useful_stop [of eng _ m q tys] by (cases "tick eng"; cases "fst (tick eng)") auto
  show ?case
  proof (cases tys)
    case Nil
    then show ?thesis using prems tk by (cases m) (auto simp: useful_Nil dest: fits_all_length)
  next
    case (Cons t ts)
    obtain p r where q: "q = p # r" using prems(3) Cons by (cases q) auto
    obtain v ws where vs: "vs = v # ws" "has_ty v t" "typed ws ts" using prems(4) Cons by (cases vs) auto
    have mt: "matches lit p v" "row_matches lit r ws" using prems(5) q vs by auto
    have ft: "pat_fits t p" "fits_all ts r" "rows_fit m (t # ts)" using prems(2,3) q Cons by auto
    note call = prems(1) [unfolded q Cons]
    have under: "rows_match lit m vs"
      if "useful_under c args m r t ts e1 = Some (False, e2)" "fits_all (ctor_fields c t) args"
        "heads lit c v" "matches_parts lit args (parts v)" for c args e1 e2
      unfolding vs(1)
      by (rule under_False [OF ih that(1) ft(3) that(2) ft(2) vs(2) that(3,4) vs(3) mt(2)])
        (simp_all add: q Cons)
    show ?thesis
    proof (cases p)
      case P_Wild
      obtain used where used: "head_ctors m = Some used"
        using call by (auto simp: P_Wild useful_Wild [OF tk] split: option.splits)
      show ?thesis
      proof (cases "split_fully (complete_set t) used")
        case True
        then obtain all where all: "complete_set t = Some all" by (auto simp: split_fully_def split: option.splits)
        obtain c where c: "c \<in> set all" "heads lit c v" using complete_heads [OF all vs(2)] by blast
        have "any_st (\<lambda>c. useful_under c [] m r t ts) all e = Some (False, eng')"
          using call True used all by (simp add: P_Wild useful_Wild [OF tk])
        from any_st_False [OF this c(1)] obtain e1 e2 where
          "useful_under c (replicate (length (ctor_fields c t)) P_Wild) m r t ts e1 = Some (False, e2)"
          by (metis useful_under_pad)
        then show ?thesis by (rule under) (simp_all add: fits_all_wild c(2) matches_parts_wild)
      next
        case False
        then obtain dm where "default_matrix m = Some dm" "useful dm r ts e = Some (False, eng')"
          using call used by (auto simp: P_Wild useful_Wild [OF tk] split: option.splits)
        then have "rows_match lit dm ws"
          using ih [of r ts] default_fits ft mt vs(3) by (auto simp: q Cons)
        then show ?thesis using default_sound \<open>default_matrix m = Some dm\<close> vs(1) by blast
      qed
    next
      case (P_Ctor c args)
      then show ?thesis using under [of c args e eng'] call ft mt by (simp add: useful_Ctor [OF tk])
    next
      case (P_Or alts)
      then obtain a where a: "a \<in> set alts" "matches lit a v" using mt by (auto simp: list_ex_iff)
      have "any_st (\<lambda>a. useful m (a # r) (t # ts)) alts e = Some (False, eng')"
        using call by (simp add: P_Or useful_Or [OF tk])
      from any_st_False [OF this a(1)] obtain e1 e2 where "useful m (a # r) (t # ts) e1 = Some (False, e2)" by blast
      then show ?thesis
        using ih [of "a # r" "t # ts"] a ft mt vs P_Or by (auto simp: q Cons list_all_iff)
    qed
  qed
qed

end
