(* ===== verification/Sema_Witness.thy ===== *)
theory Sema_Witness
  imports Sema_Useful
begin

text \<open>The witnesses of \<open>Sema_Exhaust\<close>: none means that every value is matched, and each is the shape of one that is not.\<close>

section \<open>The calls of one step\<close>

definition witness_under :: "row list \<Rightarrow> col_ty \<Rightarrow> col_ty list \<Rightarrow> ctor \<Rightarrow> nat \<Rightarrow> engine \<Rightarrow> (row list \<times> engine) option" where
  "witness_under m t ts c n eng =
     (case specialize m c (length (ctor_fields c t)) of
        None \<Rightarrow> None
      | Some spec \<Rightarrow>
          (case witness_rows spec (ctor_fields c t @ ts) n eng of
             None \<Rightarrow> None
           | Some (ws, eng) \<Rightarrow>
               map_option (\<lambda>rs. (rs, eng)) (those (map (fold_head c (length (ctor_fields c t))) ws))))"

lemma witness_stop: "tick eng = (go, e) \<Longrightarrow> \<not> go \<or> cap = 0 \<Longrightarrow> witness_rows m tys cap eng = Some ([], e)"
  by (subst witness_rows.simps) simp

lemma witness_Nil: "tick eng = (True, e) \<Longrightarrow> 0 < cap \<Longrightarrow>
    witness_rows m [] cap eng = Some (if m = [] then [[]] else [], e)"
  by (subst witness_rows.simps) simp

lemma witness_Cons: "tick eng = (True, e) \<Longrightarrow> 0 < cap \<Longrightarrow>
    witness_rows m (t # ts) cap eng =
      (case head_ctors m of
         None \<Rightarrow> None
       | Some used \<Rightarrow>
           if split_fully (complete_set t) used
           then split_loop (witness_under m t ts) (the (complete_set t)) cap [] e
           else case default_matrix m of
                  None \<Rightarrow> None
                | Some dm \<Rightarrow>
                    (case witness_rows dm ts cap e of
                       None \<Rightarrow> None
                     | Some (sub, eng) \<Rightarrow> map_option (\<lambda>rows. (rows, eng)) (default_witnesses t used sub cap)))"
  by (subst witness_rows.simps)
    (auto simp: witness_under_def Let_def intro!: split_loop_cong split: option.splits)

lemma columns_induct:
  assumes "\<And>tys. (\<And>tys' :: col_ty list. size_list size tys' < size_list size tys \<Longrightarrow> P tys') \<Longrightarrow> P tys"
  shows "P tys"
  using assms by (rule measure_induct_rule)

lemma those_Some: "those xs = Some ys \<longleftrightarrow> xs = map Some ys"
  by (induction xs arbitrary: ys) (auto split: option.splits)

lemma those_map_Some: "those (map f xs) = Some ys \<Longrightarrow> y \<in> set ys \<Longrightarrow> \<exists>x \<in> set xs. f x = Some y"
proof -
  assume a: "those (map f xs) = Some ys" "y \<in> set ys"
  then have "Some y \<in> set (map f xs)" by (simp add: those_Some)
  then show ?thesis by auto
qed

lemma those_length: "those (map f xs) = Some ys \<Longrightarrow> length ys = length xs"
  by (metis length_map those_Some)

lemma split_loop_mem:
  "split_loop f cs cap out eng = Some (ws, eng') \<Longrightarrow> w \<in> set ws \<Longrightarrow>
   w \<in> set out \<or> (\<exists>c \<in> set cs. \<exists>n e rs e'. f c n e = Some (rs, e') \<and> w \<in> set rs)"
proof (induction cs arbitrary: out eng)
  case (Cons c cs)
  then show ?case
  proof (cases "cap \<le> length out")
    case False
    then obtain rs e where f: "f c (cap - length out) eng = Some (rs, e)" "split_loop f cs cap (out @ rs) e = Some (ws, eng')"
      using Cons.prems(1) by (auto split: option.splits)
    from Cons.IH [OF f(2) Cons.prems(2)] show ?thesis using f(1) by auto
  qed auto
qed auto

lemma split_loop_length:
  assumes "\<And>c n e rs e'. f c n e = Some (rs, e') \<Longrightarrow> length rs \<le> n"
  shows "split_loop f cs cap out eng = Some (ws, eng') \<Longrightarrow> length out \<le> cap \<Longrightarrow> length ws \<le> cap"
proof (induction cs arbitrary: out eng)
  case (Cons c cs)
  show ?case
  proof (cases "cap \<le> length out")
    case False
    then obtain rs e where "f c (cap - length out) eng = Some (rs, e)" "split_loop f cs cap (out @ rs) e = Some (ws, eng')"
      using Cons.prems(1) by (auto split: option.splits)
    then show ?thesis using Cons.IH assms Cons.prems(2) False by fastforce
  qed (use Cons.prems in auto)
qed auto

lemma witness_length: "witness_rows m tys cap eng = Some (ws, eng') \<Longrightarrow> length ws \<le> cap"
proof (induction tys arbitrary: m cap eng ws eng' rule: columns_induct)
  case (1 tys)
  obtain go e where tk: "tick eng = (go, e)" by fastforce
  show ?case
  proof (cases "go \<and> 0 < cap")
    case False
    then show ?thesis using 1(2) witness_stop [OF tk, of cap m tys] by auto
  next
    case True
    then have tk: "tick eng = (True, e)" "0 < cap" using tk by auto
    show ?thesis
    proof (cases tys)
      case Nil
      then show ?thesis using 1(2) tk by (auto simp: witness_Nil split: if_splits)
    next
      case (Cons t ts)
      have under: "length rs \<le> n" if "witness_under m t ts c n e1 = Some (rs, e2)" for c n e1 rs e2
        using that 1(1) [of "ctor_fields c t @ ts"] Cons
        by (fastforce simp: witness_under_def dest!: those_length split: option.splits)
      show ?thesis using 1(2) split_loop_length [of "witness_under m t ts", OF under]
        by (auto simp: Cons witness_Cons [OF tk] default_witnesses_def missing_rows_def split: option.splits if_splits)
    qed
  qed
qed

section \<open>No panic\<close>

lemma those_fold_head: "width (k + n) ws \<Longrightarrow> \<exists>rs. those (map (fold_head c k) ws) = Some rs \<and> width (Suc n) rs"
  by (induction ws) (auto simp: fold_head_def)

lemma split_loop_width:
  assumes "\<And>c n e. c \<in> set cs \<Longrightarrow> \<exists>rs e'. f c n e = Some (rs, e') \<and> width k rs"
  shows "width k out \<Longrightarrow> \<exists>ws e'. split_loop f cs cap out eng = Some (ws, e') \<and> width k ws"
  using assms
proof (induction cs arbitrary: out eng)
  case (Cons c cs)
  obtain rs e where "f c (cap - length out) eng = Some (rs, e)" "width k rs"
    using Cons.prems(2) [of c] by fastforce
  then show ?case using Cons.IH [of "out @ rs" e] Cons.prems by auto
qed auto

lemma missing_rows_width: "width n sub \<Longrightarrow> width (Suc n) (missing_rows t hs sub cap)"
  unfolding missing_rows_def width_def by (auto dest!: in_set_takeD)

lemma default_witnesses_width:
  "width n sub \<Longrightarrow> default_witnesses t used sub cap = Some ws \<Longrightarrow> width (Suc n) ws"
  using missing_rows_width by (auto simp: default_witnesses_def split: if_splits)

text \<open>No integer of a pattern is the largest \<open>i128\<close> or above it.\<close>

fun ctor_small :: "ctor \<Rightarrow> bool" where
  "ctor_small (K_Int n) \<longleftrightarrow> n < i128_max"
| "ctor_small (K_IntRange lo hi) \<longleftrightarrow> hi < i128_max"
| "ctor_small _ \<longleftrightarrow> True"

fun pat_small :: "pat \<Rightarrow> bool" where
  "pat_small P_Wild \<longleftrightarrow> True"
| "pat_small (P_Ctor c args) \<longleftrightarrow> ctor_small c \<and> list_all pat_small args"
| "pat_small (P_Or alts) \<longleftrightarrow> list_all pat_small alts"

definition rows_small :: "row list \<Rightarrow> bool" where
  "rows_small m \<longleftrightarrow> (\<forall>r\<in>set m. list_all pat_small r)"

lemma rows_small_concat: "rows_small (concat (map f m)) \<longleftrightarrow> (\<forall>r\<in>set m. rows_small (f r))"
  by (auto simp: rows_small_def)

lemma expand_small: "list_all pat_small r \<Longrightarrow> rows_small (expand_head r)"
proof (induction r rule: expand_head.induct)
  case (1 alts r)
  have "rows_small (expand_head (a # r))" if "a \<in> set alts" for a
    using 1(1) [OF that] 1(2) that by (simp add: list_all_iff)
  then show ?case by (simp add: rows_small_concat)
qed (simp_all add: rows_small_def)

lemma expanded_small: "rows_small m \<Longrightarrow> r \<in> set (concat (map expand_head m)) \<Longrightarrow> list_all pat_small r"
proof -
  assume m: "rows_small m" "r \<in> set (concat (map expand_head m))"
  then obtain q where q: "q \<in> set m" "r \<in> set (expand_head q)" by auto
  then have "list_all pat_small q" using m(1) by (simp add: rows_small_def)
  then show "list_all pat_small r" using expand_small q(2) unfolding rows_small_def by blast
qed

lemma resize_small: "list_all pat_small args \<Longrightarrow> list_all pat_small (resize n args)"
  by (auto simp: resize_def list_all_iff dest: in_set_takeD)

lemma specialize_row_small: "list_all pat_small r \<Longrightarrow> rows_small (specialize_row c k r)"
  using resize_small by (cases "(c, k, r)" rule: specialize_row.cases) (auto simp: rows_small_def list_all_iff)

lemma specialize_small: "rows_small m \<Longrightarrow> specialize m c k = Some spec \<Longrightarrow> rows_small spec"
  using specialize_row_small expanded_small by (auto simp: specialize_def rows_small_concat simp del: set_concat split: if_splits)

lemma default_small: "rows_small m \<Longrightarrow> default_matrix m = Some dm \<Longrightarrow> rows_small dm"
proof -
  have "rows_small (default_row r)" if "list_all pat_small r" for r
    using that by (cases r rule: default_row.cases) (auto simp: rows_small_def)
  then show "rows_small m \<Longrightarrow> default_matrix m = Some dm \<Longrightarrow> rows_small dm"
    using expanded_small by (auto simp: default_matrix_def rows_small_concat simp del: set_concat split: if_splits)
qed

lemma add_heads_small:
  "\<forall>r\<in>set rs. list_all pat_small r \<Longrightarrow> list_all ctor_small out \<Longrightarrow> list_all ctor_small (fold add_head rs out)"
proof (induction rs arbitrary: out)
  case (Cons r rs)
  then have "list_all ctor_small (add_head r out)" by (cases "(r, out)" rule: add_head.cases) auto
  then show ?case using Cons by simp
qed simp

lemma head_ctors_small: "rows_small m \<Longrightarrow> head_ctors m = Some used \<Longrightarrow> list_all ctor_small used"
  using expanded_small add_heads_small [of "concat (map expand_head m)" "[]"]
  by (auto simp: head_ctors_def simp del: set_concat split: if_splits)

lemma past_small: "past n c = Some h \<Longrightarrow> ctor_small c \<Longrightarrow> h < i128_max"
  by (cases c) (auto split: if_splits)

lemma missing_from_total: "list_all ctor_small used \<Longrightarrow> missing_from used n \<noteq> None"
proof (induction used n rule: missing_from.induct)
  case (1 used n)
  show ?case
  proof (cases "pasts n used = []")
    case False
    then have "Max (set (pasts n used)) \<in> set (pasts n used)" by simp
    then obtain c where "c \<in> set used" "past n c = Some (Max (set (pasts n used)))" by (auto simp: pasts_set)
    moreover from this have "ctor_small c" using 1(2) by (simp add: list_all_iff)
    ultimately have "Max (set (pasts n used)) < i128_max" using past_small by blast
    then have "\<not> i128_max \<le> Max (set (pasts n used))" by linarith
    then show ?thesis using 1(1) [OF refl False _ 1(2)] False by (subst missing_from.simps) (simp add: Let_def del: not_None_eq)
  qed (subst missing_from.simps, simp)
qed

lemma default_witnesses_total: "list_all ctor_small used \<Longrightarrow> default_witnesses t used sub cap \<noteq> None"
  using missing_from_total
  by (auto simp: default_witnesses_def missing_heads_def synthetic_missing_def split: option.split col_ty.split)

lemma witness_total_width:
  assumes "width (length tys) m"
  shows "(\<forall>ws e. witness_rows m tys cap eng = Some (ws, e) \<longrightarrow> width (length tys) ws) \<and>
    (rows_small m \<longrightarrow> witness_rows m tys cap eng \<noteq> None)"
  using assms
proof (induction tys arbitrary: m cap eng rule: columns_induct)
  case (1 tys)
  obtain go e where tk: "tick eng = (go, e)" by fastforce
  show ?case
  proof (cases "go \<and> 0 < cap")
    case False
    then show ?thesis using witness_stop [OF tk, of cap m tys] by auto
  next
    case True
    then have tk: "tick eng = (True, e)" "0 < cap" using tk by auto
    show ?thesis
    proof (cases tys)
      case Nil
      then show ?thesis using witness_Nil [OF tk] by auto
    next
      case (Cons t ts)
      have w: "width (Suc (length ts)) m" using 1(2) Cons by simp
      obtain used where used: "head_ctors m = Some used" using head_ctors_width [OF w] .
      obtain dm where dm: "default_matrix m = Some dm" "width (length ts) dm" using default_width [OF w] .
      have under: "(\<forall>rs e'. witness_under m t ts c n e1 = Some (rs, e') \<longrightarrow> width (Suc (length ts)) rs) \<and>
          (rows_small m \<longrightarrow> witness_under m t ts c n e1 \<noteq> None)" for c n e1
      proof -
        let ?k = "length (ctor_fields c t)"
        obtain spec where s: "specialize m c ?k = Some spec" "width (?k + length ts) spec"
          using specialize_width [OF w] .
        note ih = 1(1) [of "ctor_fields c t @ ts" spec n e1]
        show ?thesis
        proof (cases "witness_rows spec (ctor_fields c t @ ts) n e1")
          case None
          then show ?thesis using ih s specialize_small [OF _ s(1)] Cons by (auto simp: witness_under_def)
        next
          case (Some r)
          obtain ws e2 where r: "r = (ws, e2)" by (cases r)
          then have "width (?k + length ts) ws" using ih Some s(2) Cons by simp
          then show ?thesis using s(1) Some r those_fold_head [of ?k "length ts" ws c] by (auto simp: witness_under_def)
        qed
      qed
      show ?thesis
      proof (cases "split_fully (complete_set t) used")
        case True
        have "split_loop (witness_under m t ts) cs cap out e1 = Some (ws, e') \<Longrightarrow> width (Suc (length ts)) out \<Longrightarrow> width (Suc (length ts)) ws"
          for cs out e1 ws e'
          using under by (induction cs arbitrary: out e1) (fastforce split: option.splits if_splits)+
        moreover have "rows_small m \<Longrightarrow> split_loop (witness_under m t ts) cs cap out e1 \<noteq> None" for cs out e1
        proof (induction cs arbitrary: out e1)
          case (Cons c cs)
          then obtain rs e' where "witness_under m t ts c (cap - length out) e1 = Some (rs, e')" using under by fastforce
          then show ?case using Cons by simp
        qed simp
        ultimately show ?thesis using True used by (simp add: Cons witness_Cons [OF tk])
      next
        case False
        have dw: "width (length ts) sub" if "witness_rows dm ts cap e = Some (sub, e2)" for sub e2
          using 1(1) [of ts dm cap e] that dm(2) Cons by simp
        have tot: "rows_small m \<Longrightarrow> witness_rows dm ts cap e \<noteq> None"
          using 1(1) [of ts dm cap e] dm default_small [OF _ dm(1)] Cons by simp
        show ?thesis
        proof (cases "witness_rows dm ts cap e")
          case None
          then have "\<not> rows_small m" using tot by blast
          then show ?thesis using None False used dm by (simp add: Cons witness_Cons [OF tk])
        next
          case (Some r)
          obtain sub e2 where r: "r = (sub, e2)" by (cases r)
          have "width (Suc (length ts)) ws" if "default_witnesses t used sub cap = Some ws" for ws
            using default_witnesses_width [OF dw that] Some r by simp
          moreover have "rows_small m \<Longrightarrow> default_witnesses t used sub cap \<noteq> None"
            using default_witnesses_total head_ctors_small [OF _ used] by blast
          ultimately show ?thesis using Some r False used dm by (auto simp: Cons witness_Cons [OF tk])
        qed
      qed
    qed
  qed
qed

section \<open>The budget\<close>

lemma tick_go: "tick eng = (go, e) \<Longrightarrow> go = (\<not> eg_exhausted e) \<and> (eg_exhausted eng \<longrightarrow> eg_exhausted e)"
  by (auto simp: tick_def Let_def split: if_splits)

lemma split_loop_budget:
  assumes "\<And>c n e rs e'. c \<in> set cs \<Longrightarrow> f c n e = Some (rs, e') \<Longrightarrow> \<not> eg_exhausted e' \<Longrightarrow> \<not> eg_exhausted e"
  shows "split_loop f cs cap out eng = Some (ws, eng') \<Longrightarrow> \<not> eg_exhausted eng' \<Longrightarrow> \<not> eg_exhausted eng"
  using assms
proof (induction cs arbitrary: out eng)
  case (Cons c cs)
  show ?case
  proof (cases "cap \<le> length out")
    case False
    then obtain rs e where f: "f c (cap - length out) eng = Some (rs, e)" "split_loop f cs cap (out @ rs) e = Some (ws, eng')"
      using Cons.prems(1) by (auto split: option.splits)
    have "\<not> eg_exhausted e" using Cons.IH [OF f(2) Cons.prems(2)] Cons.prems(3) by (meson list.set_intros(2))
    then show ?thesis using Cons.prems(3) [OF _ f(1)] by simp
  qed (use Cons.prems in auto)
qed auto

lemma witness_budget: "witness_rows m tys cap eng = Some (ws, eng') \<Longrightarrow> \<not> eg_exhausted eng' \<Longrightarrow> \<not> eg_exhausted eng"
proof (induction tys arbitrary: m cap eng ws eng' rule: columns_induct)
  case (1 tys)
  obtain go e where tk: "tick eng = (go, e)" by fastforce
  have "\<not> eg_exhausted e"
  proof (cases "go \<and> 0 < cap \<and> tys \<noteq> []")
    case False
    then have "eng' = e"
      using 1(2) tk witness_stop [OF tk, of cap m tys] by (cases "go \<and> 0 < cap") (auto simp: witness_Nil split: if_splits)
    then show ?thesis using 1(3) by simp
  next
    case True
    then obtain t ts where eq: "tys = t # ts" and tk: "tick eng = (True, e)" "0 < cap" using tk by (cases tys) auto
    have under: "\<not> eg_exhausted e1" if "witness_under m t ts c n e1 = Some (rs, e2)" "\<not> eg_exhausted e2" for c n e1 rs e2
      using that 1(1) [of "ctor_fields c t @ ts"] eq by (fastforce simp: witness_under_def split: option.splits)
    show ?thesis
      using 1(1) [of ts] 1(2,3) split_loop_budget [of _ "witness_under m t ts"] under
      by (fastforce simp: eq witness_Cons [OF tk] split: option.splits if_splits)
  qed
  then show ?case using tick_go [OF tk] by blast
qed

section \<open>No witness: every value is matched\<close>

lemma split_loop_extends: "split_loop f cs cap out eng = Some (ws, eng') \<Longrightarrow> \<exists>more. ws = out @ more"
proof (induction cs arbitrary: out eng)
  case (Cons c cs)
  then show ?case by (fastforce split: if_splits option.splits)
qed auto

lemma split_loop_none:
  assumes mono: "\<And>c n e rs e'. f c n e = Some (rs, e') \<Longrightarrow> \<not> eg_exhausted e' \<Longrightarrow> \<not> eg_exhausted e"
  shows "split_loop f cs cap [] eng = Some ([], eng') \<Longrightarrow> \<not> eg_exhausted eng' \<Longrightarrow> 0 < cap \<Longrightarrow> c \<in> set cs \<Longrightarrow>
    \<exists>e e'. f c cap e = Some ([], e') \<and> \<not> eg_exhausted e'"
proof (induction cs arbitrary: eng)
  case (Cons d cs)
  then obtain rs e where f: "f d cap eng = Some (rs, e)" "split_loop f cs cap rs e = Some ([], eng')"
    by (auto split: option.splits)
  have "rs = []" using split_loop_extends [OF f(2)] by simp
  moreover have "\<not> eg_exhausted e" using split_loop_budget [OF _ f(2) Cons.prems(2)] mono by blast
  ultimately show ?case using Cons f by auto
qed simp

lemma missing_heads_nonempty: "\<not> split_fully (complete_set t) used \<Longrightarrow> missing_heads t used \<noteq> Some []"
  by (auto simp: missing_heads_def split_fully_def filter_empty_conv split: option.splits)

lemma missing_rows_Nil: "missing_rows t hs sub cap = [] \<Longrightarrow> 0 < cap \<Longrightarrow> hs \<noteq> [] \<Longrightarrow> sub = []"
  by (cases sub; cases hs) (auto simp: missing_rows_def)

lemma default_witnesses_Nil:
  "default_witnesses t used sub cap = Some [] \<Longrightarrow> 0 < cap \<Longrightarrow> \<not> split_fully (complete_set t) used \<Longrightarrow> sub = []"
  using missing_rows_Nil missing_heads_nonempty by (fastforce simp: default_witnesses_def split: if_splits)

lemma witness_none:
  "witness_rows m tys cap eng = Some ([], eng') \<Longrightarrow> \<not> eg_exhausted eng' \<Longrightarrow> 0 < cap \<Longrightarrow> rows_fit m tys \<Longrightarrow>
   typed vs tys \<Longrightarrow> rows_match lit m vs"
proof (induction tys arbitrary: m cap eng eng' vs rule: columns_induct)
  case (1 tys)
  note ih = "1.IH" and prems = "1.prems"
  obtain go e where tk: "tick eng = (go, e)" by fastforce
  have go: go
    using prems(1,2) tick_go [OF tk] witness_stop [OF tk, of cap m tys] by auto
  note tk = tk [unfolded eqTrueI [OF go]]
  show ?case
  proof (cases tys)
    case Nil
    then show ?thesis using prems tk by (cases m) (auto simp: witness_Nil dest: fits_all_length)
  next
    case (Cons t ts)
    obtain v ws where vs: "vs = v # ws" "has_ty v t" "typed ws ts" using prems(5) Cons by (cases vs) auto
    have ft: "rows_fit m (t # ts)" using prems(4) Cons by simp
    obtain used where used: "head_ctors m = Some used"
      using prems(1) by (auto simp: Cons witness_Cons [OF tk prems(3)] split: option.splits)
    show ?thesis
    proof (cases "split_fully (complete_set t) used")
      case True
      then obtain all where all: "complete_set t = Some all" by (auto simp: split_fully_def split: option.splits)
      obtain c where c: "c \<in> set all" "heads lit c v" using complete_heads [OF all vs(2)] by blast
      let ?n = "length (ctor_fields c t)"
      have "split_loop (witness_under m t ts) all cap [] e = Some ([], eng')"
        using prems(1) True used all by (simp add: Cons witness_Cons [OF tk prems(3)])
      moreover have "\<not> eg_exhausted e1" if "witness_under m t ts d n e1 = Some (rs, e2)" "\<not> eg_exhausted e2" for d n e1 rs e2
        using that by (auto simp: witness_under_def dest: witness_budget split: option.splits)
      ultimately obtain e1 e2 where "witness_under m t ts c cap e1 = Some ([], e2)" "\<not> eg_exhausted e2"
        using split_loop_none prems(2,3) c(1) by blast
      then obtain spec where s: "specialize m c ?n = Some spec"
          "witness_rows spec (ctor_fields c t @ ts) cap e1 = Some ([], e2)" "\<not> eg_exhausted e2"
        by (auto simp: witness_under_def those_Some split: option.splits)
      have "rows_match lit spec (take ?n (parts v) @ ws)"
        using ih [OF _ s(2,3) prems(3) specialize_fits [OF s(1) ft]] fields_typed [OF vs(2) c(2)] vs(3)
        by (simp add: Cons list_all2_appendI)
      then show ?thesis using specialize_sound [OF s(1) ft c(2) vs(2)] vs(1) by simp
    next
      case False
      then obtain dm sub where d: "default_matrix m = Some dm" "witness_rows dm ts cap e = Some (sub, eng')"
          "default_witnesses t used sub cap = Some []"
        using prems(1) used by (auto simp: Cons witness_Cons [OF tk prems(3)] split: option.splits)
      have "sub = []" using default_witnesses_Nil [OF d(3) prems(3) False] .
      then have "rows_match lit dm ws"
        using ih [of ts dm cap e eng' ws] d prems(2,3) default_fits [OF d(1) ft] vs(3) by (simp add: Cons)
      then show ?thesis using default_sound [OF d(1)] vs(1) by blast
    qed
  qed
qed

section \<open>A witness: a value that is not matched\<close>

text \<open>Columns that have values, all the way down.\<close>

fun inhabited :: "col_ty \<Rightarrow> bool" where
  "inhabited (C_Tuple ts) = list_all inhabited ts"
| "inhabited (C_Enum tags) = (tags \<noteq> [] \<and> (\<forall>(n, ts) \<in> set tags. list_all inhabited ts))"
| "inhabited (C_Row tags open) = ((open \<or> tags \<noteq> []) \<and> (\<forall>(n, ts) \<in> set tags. list_all inhabited ts))"
| "inhabited (C_Fallible ok tags open) = (inhabited ok \<and> (\<forall>(n, ts) \<in> set tags. list_all inhabited ts))"
| "inhabited _ = True"

text \<open>A head printed \<open>_\<close> stands for any value.\<close>

fun blank :: "pat \<Rightarrow> pat" where
  "blank (P_Ctor c args) = (if c = K_Named ''_'' then P_Wild else P_Ctor c (map blank args))"
| "blank P_Wild = P_Wild"
| "blank (P_Or alts) = P_Or (map blank alts)"

lemma payload_inhabited: "\<forall>(n, ts) \<in> set tags. list_all inhabited ts \<Longrightarrow> list_all inhabited (payload n tags)"
  by (auto simp: payload_def dest!: map_of_SomeD split: option.splits)

lemma fields_inhabited: "inhabited t \<Longrightarrow> list_all inhabited (ctor_fields c t)"
  using payload_inhabited by (cases "(c, t)" rule: ctor_fields.cases) auto

lemma list_typed: "(\<And>t. t \<in> set ts \<Longrightarrow> \<exists>v :: 'f val. has_ty v t) \<Longrightarrow> \<exists>vs :: 'f val list. typed vs ts"
proof (induction ts)
  case (Cons t ts)
  obtain v :: "'f val" where "has_ty v t" using Cons.prems [of t] by auto
  moreover obtain vs :: "'f val list" where "typed vs ts" using Cons by auto
  ultimately show ?case by (intro exI [of _ "v # vs"]) simp
qed simp

lemma tags_typed:
  assumes "tags \<noteq> []" "\<And>n ts. (n, ts) \<in> set tags \<Longrightarrow> \<exists>vs :: 'f val list. typed vs ts"
  shows "\<exists>n ts. \<exists>vs :: 'f val list. map_of tags n = Some ts \<and> typed vs ts"
proof -
  have "map_of tags (fst (hd tags)) = Some (snd (hd tags))" using assms(1) by (cases tags) auto
  then obtain n ts where "map_of tags n = Some ts" by blast
  then show ?thesis using assms(2) map_of_SomeD by metis
qed

lemma has_value: "inhabited t \<Longrightarrow> \<exists>v :: 'f val. has_ty v t"
proof (induction t rule: inhabited.induct)
  case (1 ts)
  then show ?case using list_typed [of ts] by (fastforce simp: list_all_iff)
next
  case (2 tags)
  have "\<exists>vs :: 'f val list. typed vs ts" if "(n, ts) \<in> set tags" for n ts
    using 2 that list_typed [of ts] by (fastforce simp: list_all_iff)
  then show ?case using tags_typed [of tags] 2(2) by fastforce
next
  case (3 tags op)
  show ?case
  proof (cases "tags = []")
    case True
    then show ?thesis using 3(2) by (intro exI [of _ "V_Named [] []"]) auto
  next
    case False
    have "\<exists>vs :: 'f val list. typed vs ts" if "(n, ts) \<in> set tags" for n ts
      using 3 that list_typed [of ts] by (fastforce simp: list_all_iff)
    then show ?thesis using tags_typed [OF False] by fastforce
  qed
next
  case (4 ok tags op)
  then show ?case by fastforce
qed auto

lemma fresh_string: "finite S \<Longrightarrow> \<exists>s :: bytes. s \<notin> S"
  using ex_new_if_finite [OF infinite_UNIV_listI] by blast

lemma past_None: "past n c = None \<Longrightarrow> \<not> heads lit c (V_Int n)"
  by (cases c) (auto split: if_splits)

lemma missing_from_uncovered: "missing_from used n = Some k \<Longrightarrow> c \<in> set used \<Longrightarrow> past k c = None"
proof (induction used n rule: missing_from.induct)
  case (1 used n)
  show ?case
  proof (cases "pasts n used = []")
    case True
    then show ?thesis
      using 1(2,3) by (subst (asm) missing_from.simps) (auto simp: pasts_def List.map_filter_def filter_empty_conv)
  next
    case False
    then have "\<not> Max (set (pasts n used)) \<ge> i128_max" "missing_from used (Max (set (pasts n used)) + 1) = Some k"
      using 1(2) by (subst (asm) missing_from.simps, auto simp: Let_def split: if_splits)+
    then show ?thesis using 1(1) [OF refl False] 1(3) by simp
  qed
qed

text \<open>A column that no constructors complete has a value that no head in use matches.\<close>

lemma synthetic_value:
  fixes nan :: 'f
  assumes "complete_set t = None" "\<And>s. \<not> lit s nan" "synthetic_missing t used = Some c"
  shows "\<exists>v. has_ty v t \<and> (\<forall>c \<in> set used. \<not> heads lit c v) \<and>
    matches lit (blank (P_Ctor c (replicate k P_Wild))) v"
proof -
  have names: "finite {s. K_Named s \<in> set used}" and strs: "finite {s. K_Str s \<in> set used}"
    using finite_vimageI [of "set used" K_Named] finite_vimageI [of "set used" K_Str] by (auto simp: vimage_def inj_def)
  have name: "\<exists>n. n \<notin> {s. K_Named s \<in> set used} \<union> fst ` set tags" for tags :: "(bytes \<times> col_ty list) list"
    using names by (intro fresh_string) simp
  have open_tag: "\<exists>n. map_of tags n = None \<and> (\<forall>c \<in> set used. \<not> heads lit c (V_Named n []))"
    for tags :: "(bytes \<times> col_ty list) list"
  proof -
    obtain n where "n \<notin> {s. K_Named s \<in> set used} \<union> fst ` set tags" using name by blast
    moreover from this have "\<not> heads lit c (V_Named n [])" if "c \<in> set used" for c
      using that by (cases c) auto
    ultimately show ?thesis by (auto simp: map_of_eq_None_iff)
  qed
  show ?thesis
  proof (cases t)
    case C_Int
    then obtain i where i: "missing_from used 0 = Some i" "c = K_Int i" using assms(3) by (auto simp: synthetic_missing_def)
    have "has_ty (V_Int i :: 'f val) t" by (simp add: C_Int)
    moreover have "\<forall>c \<in> set used. \<not> heads lit c (V_Int i)" using past_None missing_from_uncovered [OF i(1)] by blast
    moreover have "matches lit (blank (P_Ctor c (replicate k P_Wild))) (V_Int i)" by (simp add: i(2))
    ultimately show ?thesis by blast
  next
    case C_Float
    have "\<not> heads lit c (V_Float nan)" for c using assms(2) by (cases c) auto
    then show ?thesis using assms(3) by (auto simp: C_Float synthetic_missing_def)
  next
    case C_Str
    obtain s where "K_Str s \<notin> set used" using fresh_string [OF strs] by blast
    then have "\<not> heads lit c (V_Str s)" if "c \<in> set used" for c using that by (cases c) auto
    then show ?thesis using assms(3) by (auto simp: C_Str synthetic_missing_def)
  next
    case (C_Row tags op)
    then have op: op using assms(1) by (auto split: if_splits)
    obtain n where "map_of tags n = None" "\<forall>c \<in> set used. \<not> heads lit c (V_Named n [])" using open_tag by blast
    then show ?thesis using op assms(3) by (intro exI [of _ "V_Named n []"]) (auto simp: C_Row synthetic_missing_def)
  next
    case (C_Fallible ok tags op)
    then have op: op using assms(1) by (auto split: if_splits)
    obtain n where "map_of tags n = None" "\<forall>c \<in> set used. \<not> heads lit c (V_Named n [])" using open_tag by blast
    then show ?thesis using op assms(3) by (intro exI [of _ "V_Named n []"]) (auto simp: C_Fallible synthetic_missing_def)
  next
    case C_Opaque
    have "\<not> heads lit c (V_Other 0)" for c by (cases c) auto
    then show ?thesis using assms(3) by (auto simp: C_Opaque synthetic_missing_def)
  qed (use assms in auto)
qed

text \<open>A constructor of a complete set builds a value from any arguments of its fields.\<close>

fun build :: "ctor \<Rightarrow> 'f val list \<Rightarrow> 'f val" where
  "build (K_Bool b) ws = V_Bool b"
| "build K_Tuple ws = V_Tuple ws"
| "build (K_Named n) ws = V_Named n ws"
| "build K_Ok ws = V_Ok (hd ws)"
| "build _ ws = V_Other 0"

lemma named_ctors_map_of: "K_Named n \<in> set (named_ctors tags) \<Longrightarrow> \<exists>ts. map_of tags n = Some ts"
  by (cases "map_of tags n") (auto simp: named_ctors_def map_of_eq_None_iff image_iff)

lemma complete_value:
  assumes "complete_set t = Some all" "c \<in> set all" "typed ws (ctor_fields c t)"
  shows "has_ty (build c ws) t \<and> heads lit c (build c ws) \<and> take (length (ctor_fields c t)) (parts (build c ws)) = ws"
proof -
  have len: "length ws = length (ctor_fields c t)" using list_all2_lengthD [OF assms(3)] .
  have "c \<in> {K_Bool False, K_Bool True} \<and> t = C_Bool \<or> c = K_Tuple \<and> (\<exists>ts. t = C_Tuple ts) \<or>
      (\<exists>n tags op ok. c = K_Named n \<and> K_Named n \<in> set (named_ctors tags) \<and>
        t \<in> {C_Enum tags, C_Row tags op, C_Fallible ok tags op}) \<or>
      c = K_Ok \<and> (\<exists>ok tags op. t = C_Fallible ok tags op)"
    using assms(1,2) by (cases t) (force simp: named_ctors_def image_iff split: if_splits)+
  then show ?thesis
  proof (elim disjE exE conjE)
    fix n tags op ok
    assume "c = K_Named n" "K_Named n \<in> set (named_ctors tags)" "t \<in> {C_Enum tags, C_Row tags op, C_Fallible ok tags op}"
    then show ?thesis using assms(3) len named_ctors_map_of [of n tags] by (auto simp: payload_def)
  qed (use assms(3) len in \<open>auto simp: list_all2_Cons2\<close>)
qed

lemma missing_row_mem: "w \<in> set (missing_rows t hs sub cap) \<Longrightarrow>
    \<exists>c \<in> set hs. \<exists>w' \<in> set sub. w = P_Ctor c (replicate (length (ctor_fields c t)) P_Wild) # w'"
  unfolding missing_rows_def by (auto dest!: in_set_takeD)

lemma matches_named_wild: "heads lit c v \<Longrightarrow> matches lit (blank (P_Ctor c (replicate n P_Wild))) v"
  by (simp add: matches_parts_wild)

text \<open>The head of a column not fully split: some value of the column has it and no row's head matches it.\<close>

lemma missing_value:
  fixes nan :: 'f
  assumes "missing_heads t used = Some hs" "c \<in> set hs" "inhabited t" "\<And>s. \<not> lit s nan"
  shows "\<exists>v. has_ty v t \<and> (\<forall>d \<in> set used. \<not> heads lit d v) \<and>
    matches lit (blank (P_Ctor c (replicate (length (ctor_fields c t)) P_Wild))) v"
proof (cases "complete_set t")
  case None
  then have "synthetic_missing t used = Some c" using assms(1,2) by (auto simp: missing_heads_def)
  then show ?thesis using synthetic_value [OF None, of lit nan] assms(4) by blast
next
  case (Some all)
  then have c: "c \<in> set all" "c \<notin> set used" using assms(1,2) by (auto simp: missing_heads_def)
  have "\<exists>ws :: 'f val list. typed ws (ctor_fields c t)"
    using list_typed has_value fields_inhabited [OF assms(3)] by (metis list_all_iff)
  then obtain ws :: "'f val list" where ws: "typed ws (ctor_fields c t)" by blast
  note v = complete_value [OF Some c(1) ws, of lit]
  have "\<not> heads lit d (build c ws)" if "d \<in> set used" for d
    using complete_exact [OF Some c(1), of lit "build c ws" d] v that c(2) by blast
  then show ?thesis using v matches_named_wild by blast
qed

lemma fold_head_matches:
  assumes "fold_head c n w0 = Some w" "heads lit c v" "length xs = n" "take n (parts v) = xs"
    "row_matches lit (map blank w0) (xs @ vs)"
  shows "row_matches lit (map blank w) (v # vs)"
proof -
  have w: "n \<le> length w0" "w = P_Ctor c (take n w0) # drop n w0" using assms(1) by (auto simp: fold_head_def split: if_splits)
  have "map blank w0 = map blank (take n w0) @ map blank (drop n w0)" by (simp flip: map_append)
  then have "row_matches lit (map blank (take n w0)) xs" "row_matches lit (map blank (drop n w0)) vs"
    using assms(3,5) w(1) by (simp_all add: list_all2_append)
  moreover from this(1) have "matches_parts lit (map blank (take n w0)) (parts v)"
    using assms(3,4) w(1) by (subst matches_parts_prefix) (auto simp: min_def split: if_splits dest: arg_cong [of _ _ length])
  ultimately show ?thesis using assms(2) by (simp add: w(2))
qed

lemma witness_real:
  fixes nan :: 'f
  assumes nan: "\<And>s. \<not> lit s nan"
  shows "witness_rows m tys cap eng = Some (ws, eng') \<Longrightarrow> w \<in> set ws \<Longrightarrow> rows_fit m tys \<Longrightarrow> list_all inhabited tys \<Longrightarrow>
    \<exists>vs :: 'f val list. typed vs tys \<and> row_matches lit (map blank w) vs \<and> \<not> rows_match lit m vs"
proof (induction tys arbitrary: m cap eng ws eng' w rule: columns_induct)
  case (1 tys)
  note ih = "1.IH" and prems = "1.prems"
  obtain go e where tk: "tick eng = (go, e)" by fastforce
  have "go \<and> 0 < cap"
  proof (rule ccontr)
    assume "\<not> (go \<and> 0 < cap)"
    then have "ws = []" using prems(1) witness_stop [OF tk, of cap m tys] by auto
    then show False using prems(2) by simp
  qed
  then have "go" "0 < cap" by simp_all
  note tk = tk [unfolded eqTrueI [OF this(1)]] this(2)
  show ?case
  proof (cases tys)
    case Nil
    then show ?thesis using prems tk by (auto simp: witness_Nil split: if_splits)
  next
    case (Cons t ts)
    have ft: "rows_fit m (t # ts)" and inh: "inhabited t" "list_all inhabited ts" using prems Cons by auto
    obtain used where used: "head_ctors m = Some used"
      using prems(1) by (auto simp: Cons witness_Cons [OF tk] split: option.splits)
    show ?thesis
    proof (cases "split_fully (complete_set t) used")
      case True
      then obtain all where all: "complete_set t = Some all" by (auto simp: split_fully_def split: option.splits)
      have "split_loop (witness_under m t ts) all cap [] e = Some (ws, eng')"
        using prems(1) True used all by (simp add: Cons witness_Cons [OF tk])
      from split_loop_mem [OF this prems(2)] obtain c n e1 rs e2 where
        c: "c \<in> set all" "witness_under m t ts c n e1 = Some (rs, e2)" "w \<in> set rs" by auto
      let ?n = "length (ctor_fields c t)"
      obtain spec ws0 where s: "specialize m c ?n = Some spec"
          "witness_rows spec (ctor_fields c t @ ts) n e1 = Some (ws0, e2)" "those (map (fold_head c ?n) ws0) = Some rs"
        using c(2) by (auto simp: witness_under_def split: option.splits)
      obtain w0 where w0: "w0 \<in> set ws0" "fold_head c ?n w0 = Some w" using those_map_Some [OF s(3) c(3)] by blast
      obtain us :: "'f val list" where us: "typed us (ctor_fields c t @ ts)" "row_matches lit (map blank w0) us"
          "\<not> rows_match lit spec us"
        using ih [OF _ s(2) w0(1) specialize_fits [OF s(1) ft]] inh fields_inhabited [OF inh(1)] by (auto simp: Cons)
      then obtain xs vs where xs: "us = xs @ vs" "typed xs (ctor_fields c t)" "typed vs ts"
        by (auto simp: list_all2_append2)
      note v = complete_value [OF all c(1) xs(2), of lit]
      have "\<not> rows_match lit m (build c xs # vs)"
        using specialize_complete [OF s(1) ft, of lit "build c xs" vs] complete_exact [OF all c(1), of lit "build c xs"] v us(3) xs(1)
        by auto
      moreover have "row_matches lit (map blank w) (build c xs # vs)"
        using fold_head_matches [OF w0(2), of lit "build c xs" xs vs] v us(2) xs(1,2) list_all2_lengthD by blast
      ultimately show ?thesis using v xs(3) by (intro exI [of _ "build c xs # vs"]) (simp add: Cons)
    next
      case False
      then obtain dm sub where d: "default_matrix m = Some dm" "witness_rows dm ts cap e = Some (sub, eng')"
          "default_witnesses t used sub cap = Some ws"
        using prems(1) used by (auto simp: Cons witness_Cons [OF tk] split: option.splits)
      obtain hs where hs: "missing_heads t used = Some hs" "ws = missing_rows t hs sub cap"
        using d(3) prems(2) by (auto simp: default_witnesses_def split: if_splits)
      obtain c w' where c: "c \<in> set hs" "w' \<in> set sub"
          "w = P_Ctor c (replicate (length (ctor_fields c t)) P_Wild) # w'"
        using missing_row_mem prems(2) hs(2) by blast
      obtain vs :: "'f val list" where vs: "typed vs ts" "row_matches lit (map blank w') vs" "\<not> rows_match lit dm vs"
        using ih [OF _ d(2) c(2) default_fits [OF d(1) ft] inh(2)] by (auto simp: Cons)
      obtain v :: "'f val" where v: "has_ty v t" "\<forall>d \<in> set used. \<not> heads lit d v"
          "matches lit (blank (P_Ctor c (replicate (length (ctor_fields c t)) P_Wild))) v"
        using missing_value [OF hs(1) c(1) inh(1), of lit nan] nan by blast
      have "\<not> rows_match lit m (v # vs)" using default_complete [OF d(1) used] v(2) vs(3) by blast
      then show ?thesis using v vs c(3) by (intro exI [of _ "v # vs"]) (simp add: Cons)
    qed
  qed
qed

end
