(* ===== verification/Sema_Match_Theorems.thy ===== *)
theory Sema_Match_Theorems
  imports Sema_Witness "HOL-Library.Code_Target_Nat"
begin

text \<open>What the verdicts of the match pass say about running the match.\<close>

section \<open>Running a match\<close>

text \<open>
  The arms are tried in order; \<open>g\<close> tells what each guard answers. The result is the span of the arm that
  is taken.
\<close>

fun select :: "(bytes \<Rightarrow> 'f \<Rightarrow> bool) \<Rightarrow> ('sp \<Rightarrow> bool) \<Rightarrow> 'f val \<Rightarrow> (pat \<times> bool \<times> 'sp) list \<Rightarrow> 'sp option" where
  "select lit g v [] = None"
| "select lit g v ((p, guarded, sp) # arms) =
     (if matches lit p v \<and> (guarded \<longrightarrow> g sp) then Some sp else select lit g v arms)"

definition arms_fit :: "col_ty \<Rightarrow> (pat \<times> bool \<times> 'sp) list \<Rightarrow> bool" where
  "arms_fit t arms \<longleftrightarrow> list_all (\<lambda>(p, guarded, sp). pat_fits t p) arms"

definition unguarded :: "(pat \<times> bool \<times> 'sp) list \<Rightarrow> row list" where
  "unguarded arms = map (\<lambda>(p, guarded, sp). [p]) (filter (\<lambda>(p, guarded, sp). \<not> guarded) arms)"

text \<open>The search for witnesses ended before the step budget did.\<close>

definition in_budget :: "col_ty \<Rightarrow> (pat \<times> bool \<times> 'sp) list \<Rightarrow> bool" where
  "in_budget t arms =
     (case witness_rows (unguarded arms) [t] 3 engine_new of
        None \<Rightarrow> False
      | Some (ws, eng) \<Rightarrow> \<not> eg_exhausted eng)"

text \<open>The arms up to and including the one with span \<open>sp\<close>.\<close>

fun arms_to :: "'sp \<Rightarrow> (pat \<times> bool \<times> 'sp) list \<Rightarrow> (pat \<times> bool \<times> 'sp) list" where
  "arms_to sp [] = []"
| "arms_to sp ((p, guarded, sp') # arms) =
     (if sp' = sp then [(p, guarded, sp')] else (p, guarded, sp') # arms_to sp arms)"

lemma unguarded_simps [simp]:
  "unguarded [] = []" "unguarded (arms @ arms') = unguarded arms @ unguarded arms'"
  "unguarded ((p, guarded, sp) # arms) = (if guarded then [] else [[p]]) @ unguarded arms"
  by (simp_all add: unguarded_def)

lemma unguarded_width: "width (Suc 0) (unguarded arms)"
  by (auto simp: unguarded_def width_def)

lemma unguarded_fit: "arms_fit t arms \<Longrightarrow> rows_fit (unguarded arms) [t]"
  by (auto simp: arms_fit_def unguarded_def rows_fit_def list_all_iff)

lemma select_unguarded: "rows_match lit (unguarded arms) [v] \<Longrightarrow> select lit g v arms \<noteq> None"
  by (induction lit g v arms rule: select.induct) (auto split: if_splits)

lemma select_no_guard: "select lit (\<lambda>_. False) v arms = None \<longleftrightarrow> \<not> rows_match lit (unguarded arms) [v]"
proof (induction arms)
  case (Cons a arms)
  then show ?case by (cases a) simp
qed simp

lemma select_append: "select lit g v (arms @ arms') =
    (case select lit g v arms of None \<Rightarrow> select lit g v arms' | Some sp \<Rightarrow> Some sp)"
  by (induction lit g v arms rule: select.induct) (auto split: option.split)

lemma select_mem: "select lit g v arms = Some sp \<Longrightarrow> \<exists>p guarded. (p, guarded, sp) \<in> set arms \<and> matches lit p v"
  by (induction lit g v arms rule: select.induct) (auto split: if_splits)

section \<open>The loop over the arms\<close>

lemma is_useful_total: "is_useful (unguarded arms) [p] [t] \<noteq> None"
  using useful_total [of "[t]" "unguarded arms" "[p]" engine_new] unguarded_width [of arms] by (simp add: is_useful_def)

lemma is_useful_False:
  "is_useful m [p] [t] = Some False \<Longrightarrow> rows_fit m [t] \<Longrightarrow> pat_fits t p \<Longrightarrow> has_ty v t \<Longrightarrow> matches lit p v \<Longrightarrow>
   rows_match lit m [v]"
  using useful_False [of m "[p]" "[t]" engine_new _ "[v]" lit] by (auto simp: is_useful_def)

lemma check_arms_prior: "check_arms t arms prior spans = Some (dead, rows) \<Longrightarrow> rows = prior @ unguarded arms"
  by (induction t arms prior spans arbitrary: dead rows rule: check_arms.induct)
    (fastforce simp: Let_def split: option.splits if_splits)+

lemma check_arms_total:
  fixes arms pre :: "(pat \<times> bool \<times> 'sp) list"
  shows "check_arms t arms (unguarded pre) spans \<noteq> None"
proof (induction arms arbitrary: pre spans)
  case (Cons a arms)
  obtain p guarded sp where a: "a = (p, guarded, sp)" by (metis prod_cases3)
  obtain b where b: "is_useful (unguarded pre) [p] [t] = Some b" using is_useful_total by fastforce
  show ?case
    using Cons [of pre spans] Cons [of "pre @ [a]" "spans @ [sp]"] by (auto simp: a b Let_def)
qed simp

definition arm_spans :: "(pat \<times> bool \<times> 'sp) list \<Rightarrow> 'sp list" where
  "arm_spans arms = map (snd \<circ> snd) (filter (\<lambda>(p, guarded, sp). \<not> guarded) arms)"

lemma arm_spans_Nil: "arm_spans [] = []"
  by (simp add: arm_spans_def)

lemma arm_spans_append: "arm_spans (arms @ arms') = arm_spans arms @ arm_spans arms'"
  by (simp add: arm_spans_def)

lemma check_arms_dead:
  "check_arms t arms (unguarded pre) (arm_spans pre) = Some (dead, rows) \<Longrightarrow> (sp, cite) \<in> set dead \<Longrightarrow>
   \<exists>before p guarded after. arms = before @ (p, guarded, sp) # after \<and>
     is_useful (unguarded (pre @ before)) [p] [t] = Some False \<and>
     cite = cite_from (unguarded (pre @ before)) (arm_spans (pre @ before)) p t [1..<length (unguarded (pre @ before)) + 1]"
proof (induction arms arbitrary: pre dead)
  case (Cons a arms)
  obtain p guarded sp' where a: "a = (p, guarded, sp')" by (metis prod_cases3)
  obtain b where b: "is_useful (unguarded pre) [p] [t] = Some b" using is_useful_total by fastforce
  let ?here = "if b then [] else [(sp', cite_from (unguarded pre) (arm_spans pre) p t [1..<length (unguarded pre) + 1])]"
  have spans: "arm_spans (pre @ [a]) = arm_spans pre @ (if guarded then [] else [sp'])"
    by (simp add: arm_spans_def a)
  obtain ds where ds: "check_arms t arms (unguarded (pre @ [a])) (arm_spans (pre @ [a])) = Some (ds, rows)"
      "dead = ?here @ ds"
    using Cons.prems(1) by (auto simp: a b Let_def spans [unfolded a] split: if_splits)
  show ?case
  proof (cases "(sp, cite) \<in> set ds")
    case True
    from Cons.IH [OF ds(1) True] show ?thesis by (metis append.assoc append_Cons append_Nil)
  next
    case False
    then have "(sp, cite) \<in> set ?here" using Cons.prems(2) ds(2) by auto
    then show ?thesis using a b by (intro exI [of _ "[]"]) (auto split: if_splits)
  qed
qed simp

lemma cite_from_Some:
  "cite_from prior spans p t ks = Some sp \<Longrightarrow>
   (\<exists>k \<in> set ks. is_useful (take k prior) [p] [t] = Some False \<and> sp = spans ! (k - 1)) \<or> (spans \<noteq> [] \<and> sp = last spans)"
  by (induction prior spans p t ks rule: cite_from.induct) (auto split: if_splits)

lemma arm_spans_length: "length (arm_spans arms) = length (unguarded arms)"
  by (simp add: arm_spans_def unguarded_def)

lemma arm_spans_sub: "k < length (arm_spans arms) \<Longrightarrow> arm_spans arms ! k \<in> (snd \<circ> snd) ` set arms"
  using nth_mem [of k "arm_spans arms"] by (auto simp: arm_spans_def)

lemma arms_to_take:
  "distinct (map (snd \<circ> snd) arms) \<Longrightarrow> k < length (arm_spans arms) \<Longrightarrow>
   unguarded (arms_to (arm_spans arms ! k) arms) = take (Suc k) (unguarded arms)"
proof (induction arms arbitrary: k)
  case (Cons a arms)
  obtain p guarded sp where a: "a = (p, guarded, sp)" by (metis prod_cases3)
  have spans: "arm_spans (a # arms) = (if guarded then [] else [sp]) @ arm_spans arms" by (simp add: arm_spans_def a)
  have other: "arm_spans arms ! j \<noteq> sp" if "j < length (arm_spans arms)" for j
    using arm_spans_sub [OF that] Cons.prems(1) by (auto simp: a)
  show ?case
  proof (cases "guarded \<or> k \<noteq> 0")
    case False
    then show ?thesis using spans by (simp add: a)
  next
    case True
    define j where "j = (if guarded then k else k - 1)"
    have j: "j < length (arm_spans arms)" "arm_spans (a # arms) ! k = arm_spans arms ! j"
      using Cons.prems(2) True by (auto simp: spans j_def nth_append split: if_splits)
    then show ?thesis using Cons.IH [of j] Cons.prems(1) other [OF j(1)] True
      by (cases k) (auto simp: a j_def split: if_splits)
  qed
qed (simp add: arm_spans_def)

text \<open>The cited arm and those before it already take whatever the dead arm would match.\<close>

lemma cited_arms:
  assumes "is_useful (unguarded before) [p] [t] = Some False" "distinct (map (snd \<circ> snd) before)"
    "cite_from (unguarded before) (arm_spans before) p t [1..<length (unguarded before) + 1] = Some sp"
  shows "is_useful (unguarded (arms_to sp before)) [p] [t] = Some False"
proof -
  have "\<exists>k < length (arm_spans before). sp = arm_spans before ! k \<and>
      is_useful (take (Suc k) (unguarded before)) [p] [t] = Some False"
    using cite_from_Some [OF assms(3)]
  proof (elim disjE bexE conjE)
    fix k assume "k \<in> set [1..<length (unguarded before) + 1]" "is_useful (take k (unguarded before)) [p] [t] = Some False"
      "sp = arm_spans before ! (k - 1)"
    then show ?thesis by (intro exI [of _ "k - 1"]) (auto simp: arm_spans_length)
  next
    assume "arm_spans before \<noteq> []" "sp = last (arm_spans before)"
    moreover from this have "unguarded before \<noteq> []" using arm_spans_length [of before] by auto
    ultimately show ?thesis using assms(1)
      by (intro exI [of _ "length (arm_spans before) - 1"]) (auto simp: arm_spans_length last_conv_nth)
  qed
  then show ?thesis using arms_to_take [OF assms(2)] by auto
qed

section \<open>Verdicts\<close>

lemma those_heads: "width (Suc 0) ws \<Longrightarrow> those (map (\<lambda>w. case w of [] \<Rightarrow> None | p # _ \<Rightarrow> Some p) ws) = Some (map hd ws)"
  by (induction ws) (auto simp: length_Suc_conv)

text \<open>What a run of the pass is made of.\<close>

lemma check_arms_run:
  obtains dead where "check_arms t arms [] [] = Some (dead, unguarded arms)"
proof -
  obtain dead rows where a: "check_arms t arms [] [] = Some (dead, rows)"
    using check_arms_total [of t arms "[]" "[]"] by fastforce
  have "rows = unguarded arms" using check_arms_prior [OF a] by simp
  then show thesis using that a by simp
qed

lemma witness_rows_width:
  "witness_rows (unguarded arms) [t] cap eng = Some (ws, eng') \<Longrightarrow> width (Suc 0) ws"
  using witness_total_width [of "[t]" "unguarded arms" cap eng] unguarded_width [of arms] by simp

lemma check_match_run:
  assumes "check_match t arms = Some (dead, ws)"
  obtains ws' eng where
    "check_arms t arms [] [] = Some (dead, unguarded arms)"
    "witness_rows (unguarded arms) [t] 3 engine_new = Some (ws', eng)" "width (Suc 0) ws'"
    "ws = (if eg_exhausted eng then [] else map hd ws')"
proof -
  obtain dead' where a: "check_arms t arms [] [] = Some (dead', unguarded arms)" by (rule check_arms_run)
  then have w: "witnesses (unguarded arms) [t] 3 = Some ws" "dead' = dead" using assms by (auto simp: check_match_def)
  then obtain ws' eng where r: "witness_rows (unguarded arms) [t] 3 engine_new = Some (ws', eng)"
    by (auto simp: witnesses_def split: option.splits)
  note width = witness_rows_width [OF r]
  have "ws = (if eg_exhausted eng then [] else map hd ws')" using w(1) r width by (auto simp: witnesses_def those_heads)
  then show thesis using that a w(2) r width by simp
qed

lemma arms_fit_append: "arms_fit t (xs @ ys) \<longleftrightarrow> arms_fit t xs \<and> arms_fit t ys"
  by (simp add: arms_fit_def)

lemma useless_selected:
  assumes "is_useful (unguarded before) [p] [t] = Some False" "arms_fit t before" "pat_fits t p" "has_ty v t" "matches lit p v"
  shows "select lit g v before \<noteq> None"
  using is_useful_False [OF assms(1) unguarded_fit [OF assms(2)] assms(3-5)] by (rule select_unguarded)

lemma arms_to_append: "sp \<in> (snd \<circ> snd) ` set arms \<Longrightarrow> arms_to sp (arms @ arms') = arms_to sp arms"
  by (induction sp arms rule: arms_to.induct) auto

lemma arms_to_sub: "set (arms_to sp arms) \<subseteq> set arms"
  by (induction sp arms rule: arms_to.induct) auto

lemma cite_span: "cite_from (unguarded arms) (arm_spans arms) p t [1..<length (unguarded arms) + 1] = Some sp \<Longrightarrow>
    sp \<in> (snd \<circ> snd) ` set arms"
proof -
  assume "cite_from (unguarded arms) (arm_spans arms) p t [1..<length (unguarded arms) + 1] = Some sp"
  from cite_from_Some [OF this] have "\<exists>k < length (arm_spans arms). sp = arm_spans arms ! k"
  proof (elim disjE bexE conjE)
    fix k assume "k \<in> set [1..<length (unguarded arms) + 1]" "sp = arm_spans arms ! (k - 1)"
    then show ?thesis by (intro exI [of _ "k - 1"]) (auto simp: arm_spans_length)
  qed (auto simp: last_conv_nth intro!: exI [of _ "length (arm_spans arms) - 1"])
  then show ?thesis using arm_spans_sub by blast
qed

text \<open>
C33. The match pass returns for every column and every list of arms whose integers and range ends all lie below the largest \<open>i128\<close>
(\<open>pat_small\<close>), whether the arms fit the column or not: it does not index past a row, the sum \<open>hi + 1\<close> does not overflow, and it
reports at most three witnesses. \<open>witness_overflows\<close> shows that the bound is needed.
\<close>

theorem match_check_total:
  assumes "list_all (\<lambda>(p, guarded, sp). pat_small p) arms"
  shows "\<exists>dead ws. check_match t arms = Some (dead, ws) \<and> length ws \<le> 3"
proof -
  obtain dead where a: "check_arms t arms [] [] = Some (dead, unguarded arms)" by (rule check_arms_run)
  have "rows_small (unguarded arms)" using assms by (auto simp: rows_small_def unguarded_def list_all_iff)
  then obtain ws eng where w: "witness_rows (unguarded arms) [t] 3 engine_new = Some (ws, eng)"
    using witness_total_width [of "[t]" "unguarded arms" 3 engine_new] unguarded_width [of arms] by auto
  have "witnesses (unguarded arms) [t] 3 = Some (if eg_exhausted eng then [] else map hd ws)"
    using w those_heads [OF witness_rows_width [OF w]] by (simp add: witnesses_def)
  then show ?thesis using a witness_length [OF w] by (simp add: check_match_def)
qed

text \<open>A range up to the largest \<open>i128\<close> with no arm behind it: the search for a witness overflows.\<close>

lemma witness_overflows:
  "check_match C_Int [(P_Ctor (K_IntRange 0 i128_max) [], False, 0 :: nat)] = None"
proof -
  have "missing_from [K_IntRange 0 i128_max] 0 = None"
    by (subst missing_from.simps) (simp add: pasts_def List.map_filter_def i128_max_def)
  then show ?thesis
    by (simp add: check_match_def is_useful_def witnesses_def engine_new_def tick_def STEP_BUDGET_def Let_def
      useful.simps witness_rows.simps specialize_def default_matrix_def head_ctors_def split_fully_def
      default_witnesses_def missing_heads_def synthetic_missing_def)
qed

text \<open>
  C4. A match found exhaustive never falls through: when the pass reports no witness, within its step
  budget, and the patterns fit the column (\<open>arms_fit\<close>: each head carries one sub-pattern per field the column gives it), every
  value of the scrutinee's column takes some arm, whatever the guards answer.
\<close>

theorem exhaustive_match_takes_an_arm:
  assumes "check_match t arms = Some (dead, [])" "in_budget t arms" "arms_fit t arms" "has_ty v t"
  shows "select lit g v arms \<noteq> None"
proof -
  obtain ws eng where r: "witness_rows (unguarded arms) [t] 3 engine_new = Some (ws, eng)"
      "[] = (if eg_exhausted eng then [] else map hd ws)"
    by (rule check_match_run [OF assms(1)])
  have "\<not> eg_exhausted eng" using assms(2) r(1) by (simp add: in_budget_def)
  then have "rows_match lit (unguarded arms) [v]"
    using witness_none [of "unguarded arms" "[t]" 3 engine_new eng "[v]" lit] r assms(1) unguarded_fit [OF assms(3)] assms(4)
    by simp
  then show ?thesis by (rule select_unguarded)
qed

text \<open>
  When the pass says that a pattern is not covered, for arms that fit the column, some value of the column
  has that shape and no arm takes it when the guards fail. The column does not know the width of an integer type,
  and here an integer column has every integer as value, so a witness may lie outside a narrow type. Float columns
  need a value equal to no literal, such as a NaN, and the column's types must have values.
\<close>

theorem witness_is_uncovered:
  assumes "check_match t arms = Some (dead, ws)" "w \<in> set ws" "arms_fit t arms" "inhabited t" "\<And>s. \<not> lit s nan"
  shows "\<exists>v. has_ty v t \<and> matches lit (blank w) v \<and> select lit (\<lambda>_. False) v arms = None"
proof -
  obtain ws' eng where r: "witness_rows (unguarded arms) [t] 3 engine_new = Some (ws', eng)" "width (Suc 0) ws'"
      "ws = (if eg_exhausted eng then [] else map hd ws')"
    by (rule check_match_run [OF assms(1)])
  then obtain r where w: "r \<in> set ws'" "w = hd r" using assms(2) by (auto split: if_splits)
  then have row: "r = [w]" using r(2) by (auto simp: width_def length_Suc_conv)
  obtain vs where "typed vs [t]" "row_matches lit (map blank r) vs" "\<not> rows_match lit (unguarded arms) vs"
    using witness_real [of lit nan, OF assms(5) r(1) w(1) unguarded_fit [OF assms(3)]] assms(4) by auto
  then show ?thesis by (auto simp: row list_all2_Cons2 select_no_guard)
qed

text \<open>
  C10. For arms that fit the column and have distinct spans, an arm reported dead is never taken, whatever the
  value of the column and the guards; and the arm cited for it explains why: the arms up to the cited one already
  take every value the dead arm would match, even with all their guards failing. \<open>live_arm_reported_dead\<close>
  shows that the fit is needed.
\<close>

theorem dead_arm_never_taken:
  assumes "check_match t arms = Some (dead, ws)" "(sp, cite) \<in> set dead" "arms_fit t arms"
    "distinct (map (snd \<circ> snd) arms)" "has_ty v t"
  shows "select lit g v arms \<noteq> Some sp \<and>
    (case cite of
       None \<Rightarrow> True
     | Some sp' \<Rightarrow>
         list_all (\<lambda>(p, guarded, s). s \<noteq> sp \<or> \<not> matches lit p v \<or> select lit (\<lambda>_. False) v (arms_to sp' arms) \<noteq> None) arms)"
proof -
  have "check_arms t arms [] [] = Some (dead, unguarded arms)" by (rule check_match_run [OF assms(1)])
  from check_arms_dead [of t arms "[]", unfolded unguarded_simps arm_spans_Nil append_Nil, OF this assms(2)] obtain before p guarded after where d:
    "arms = before @ (p, guarded, sp) # after" "is_useful (unguarded before) [p] [t] = Some False"
    "cite = cite_from (unguarded before) (arm_spans before) p t [1..<length (unguarded before) + 1]" by auto
  have fit: "arms_fit t before" "pat_fits t p" using assms(3) d(1) by (auto simp: arms_fit_def)
  have dist: "distinct (map (snd \<circ> snd) before)" "sp \<notin> (snd \<circ> snd) ` set before" "sp \<notin> (snd \<circ> snd) ` set after"
    using assms(4) d(1) by auto
  have "select lit g v arms \<noteq> Some sp"
  proof
    assume s: "select lit g v arms = Some sp"
    have "select lit g v before \<noteq> Some sp" "select lit g v after \<noteq> Some sp"
      using select_mem [of lit g v before sp] select_mem [of lit g v after sp] dist(2,3) by (force simp: image_iff)+
    with s have "select lit g v before = None" "matches lit p v"
      by (auto simp: d(1) select_append split: option.splits if_splits)
    then show False using useless_selected [OF d(2) fit assms(5), of lit g] by blast
  qed
  moreover have "select lit (\<lambda>_. False) v (arms_to sp' arms) \<noteq> None" if "cite = Some sp'" "matches lit p v" for sp'
  proof -
    have c: "cite_from (unguarded before) (arm_spans before) p t [1..<length (unguarded before) + 1] = Some sp'"
      using that(1) d(3) by simp
    have "arms_fit t (arms_to sp' before)"
      using fit(1) arms_to_sub [of sp' before] by (auto simp: arms_fit_def list_all_iff)
    then have "select lit (\<lambda>_. False) v (arms_to sp' before) \<noteq> None"
      using useless_selected [OF cited_arms [OF d(2) dist(1) c] _ fit(2) assms(5) that(2)] by blast
    then show ?thesis using arms_to_append [OF cite_span [OF c]] by (simp add: d(1))
  qed
  moreover have "q = p" if "(q, b, sp) \<in> set arms" for q b
    using that dist(2,3) by (force simp: d(1))
  ultimately show ?thesis by (auto simp: list_all_iff split: option.split)
qed

section \<open>Where a dead arm is not dead\<close>

text \<open>
  \<open>pat_fits\<close> is needed. Where the column gives a head no fields (a column cut off at depth 8 or of a type
  the engine cannot split, and a tag an open row does not list) the patterns under the head are dropped, so
  two arms that differ only below it look the same.
\<close>

definition deep_arms :: "ctor \<Rightarrow> (pat \<times> bool \<times> nat) list" where
  "deep_arms c =
     [(P_Ctor c [P_Ctor (K_Int 1) []], False, 0), (P_Ctor c [P_Ctor (K_Int 2) []], False, 1), (P_Wild, False, 2)]"

text \<open>
  An arm that can be taken may be reported dead: with a head whose fields the column does not know, the
  second of two arms that test the integers 1 and 2 below it is reported as covered by the first, and it is the
  arm that runs. The two columns are one cut off as opaque and an open row that does not list the tag.
\<close>

theorem live_arm_reported_dead:
  "check_match C_Opaque (deep_arms K_Tuple) = Some ([(1, Some 0)], []) \<and>
   check_match (C_Row [] True) (deep_arms (K_Named tag)) = Some ([(1, Some 0)], []) \<and>
   has_ty (V_Tuple [V_Int 2]) C_Opaque \<and> has_ty (V_Named tag [V_Int 2]) (C_Row [] True) \<and>
   select lit g (V_Tuple [V_Int 2]) (deep_arms K_Tuple) = Some 1 \<and>
   select lit g (V_Named tag [V_Int 2]) (deep_arms (K_Named tag)) = Some 1"
proof -
  note ev = check_match_def deep_arms_def is_useful_def witnesses_def engine_new_def tick_def STEP_BUDGET_def
    specialize_def default_matrix_def head_ctors_def split_fully_def resize_def missing_rows_def missing_heads_def
    default_witnesses_def synthetic_missing_def payload_def upt_rec
  have "check_match C_Opaque (deep_arms K_Tuple) = Some ([(1, Some 0)], [])"
    by (simp add: ev useful.simps witness_rows.simps Let_def)
  moreover have "check_match (C_Row [] True) (deep_arms (K_Named tag)) = Some ([(1, Some 0)], [])"
    by (simp add: ev useful.simps witness_rows.simps Let_def)
  ultimately show ?thesis by (simp add: deep_arms_def)
qed

section \<open>Concrete runs\<close>

definition sample_col :: col_ty where
  "sample_col = C_Tuple [C_Enum [(''Red'', []), (''Rgb'', [C_Int])], C_Bool]"

definition sample_arms :: "(pat \<times> bool \<times> nat) list" where
  "sample_arms =
     [(P_Ctor K_Tuple [P_Ctor (K_Named ''Red'') [], P_Wild], False, 0),
      (P_Ctor K_Tuple [P_Ctor (K_Named ''Rgb'') [P_Ctor (K_IntRange 0 9) []], P_Ctor (K_Bool True) []], True, 1),
      (P_Ctor K_Tuple [P_Wild, P_Ctor (K_Bool False) []], False, 2)]"

lemma sample_partial: "check_match sample_col sample_arms =
    Some ([], [P_Ctor K_Tuple [P_Ctor (K_Named ''Rgb'') [P_Wild], P_Ctor (K_Bool True) []]])"
  by code_simp

lemma sample_full: "check_match sample_col (sample_arms @ [(P_Wild, False, 3), (P_Ctor K_Tuple [P_Wild, P_Ctor (K_Bool True) []], False, 4)])
    = Some ([(4, Some 3)], [])"
  by code_simp

definition sample_all :: "(pat \<times> bool \<times> nat) list" where
  "sample_all = sample_arms @ [(P_Wild, False, 3), (P_Ctor K_Tuple [P_Wild, P_Ctor (K_Bool True) []], False, 4)]"

definition sample_val :: "nat val" where
  "sample_val = V_Tuple [V_Named ''Rgb'' [V_Int 5], V_Bool True]"

lemma sample_fit: "arms_fit sample_col sample_arms" "arms_fit sample_col sample_all"
  by (simp_all add: arms_fit_def sample_arms_def sample_all_def sample_col_def payload_def)

lemma sample_typed: "has_ty sample_val sample_col"
  by (auto simp: sample_val_def sample_col_def)

lemma sample_budget: "in_budget sample_col sample_all"
  by code_simp

theorem exhaustive_match_takes_an_arm_witness:
  "select (\<lambda>_ _. False) (\<lambda>_. False) sample_val sample_all \<noteq> None"
  by (rule exhaustive_match_takes_an_arm [OF sample_full [folded sample_all_def] sample_budget sample_fit(2) sample_typed])

theorem witness_is_uncovered_witness:
  "\<exists>v :: nat val. has_ty v sample_col \<and>
     matches (\<lambda>_ _. False) (blank (P_Ctor K_Tuple [P_Ctor (K_Named ''Rgb'') [P_Wild], P_Ctor (K_Bool True) []])) v \<and>
     select (\<lambda>_ _. False) (\<lambda>_. False) v sample_arms = None"
  by (rule witness_is_uncovered [OF sample_partial _ sample_fit(1)]) (simp_all add: sample_col_def)

theorem match_check_total_witness: "\<exists>dead ws. check_match sample_col sample_arms = Some (dead, ws) \<and> length ws \<le> 3"
  by (rule match_check_total) (simp add: sample_arms_def i128_max_def)

theorem dead_arm_never_taken_witness:
  "select (\<lambda>_ _. False) (\<lambda>_. True) sample_val sample_all \<noteq> Some 4"
  by (rule conjunct1 [OF dead_arm_never_taken [OF sample_full [folded sample_all_def] _ sample_fit(2) _ sample_typed]])
    (simp_all add: sample_all_def sample_arms_def)

end
