(* ===== verification/Mem_Place.thy ===== *)
theory Mem_Place
  imports Wolf_Prelude
begin

text \<open>
  Places, \<^verbatim>\<open>crates/wolf_mem/src/place.rs\<close>: a base binding and a projection path, the table that interns
  them, and the relations by which the ownership checker decides that two places share storage. The second
  half gives places their meaning, concrete locations under an assignment of index values to locals, and
  shows the relations right about it.
\<close>

section \<open>Data\<close>

datatype base = Local nat | Global nat bytes

datatype index_key = Key_Int nat | Key_Str bytes | Key_Bool bool | Key_Char bytes

datatype proj = Field bytes | Lit index_key | Sym nat | Off nat nat | Opaque

definition proj_is_index :: "proj \<Rightarrow> bool" where
  "proj_is_index p = (case p of Field _ \<Rightarrow> False | _ \<Rightarrow> True)"

record mplace =
  pl_base :: base
  pl_proj :: "proj list"

type_synonym place_id = nat

record mplace_table =
  pt_places :: "mplace list"
  pt_copy :: "bool list"
  pt_index :: "mplace \<Rightarrow> place_id option"

definition PlaceTable_new :: mplace_table where
  "PlaceTable_new = \<lparr>pt_places = [], pt_copy = [], pt_index = \<lambda>_. None\<rparr>"

definition pt_intern :: "mplace \<Rightarrow> bool \<Rightarrow> mplace_table \<Rightarrow> place_id \<times> mplace_table" where
  "pt_intern p is_copy t =
     (case pt_index t p of
        Some i \<Rightarrow> (i, t)
      | None \<Rightarrow>
          let i = as_u32 (length (pt_places t))
          in (i, \<lparr>pt_places = pt_places t @ [p], pt_copy = pt_copy t @ [is_copy], pt_index = (pt_index t)(p \<mapsto> i)\<rparr>))"

text \<open>\<open>get\<close> and \<open>is_copy\<close> panic past the end of the table.\<close>

definition pt_get :: "mplace_table \<Rightarrow> place_id \<Rightarrow> mplace option" where
  "pt_get t i = byte_at (pt_places t) i"

definition pt_is_copy :: "mplace_table \<Rightarrow> place_id \<Rightarrow> bool option" where
  "pt_is_copy t i = byte_at (pt_copy t) i"

definition pt_len :: "mplace_table \<Rightarrow> nat" where
  "pt_len t = length (pt_places t)"

definition pt_iter :: "mplace_table \<Rightarrow> (place_id \<times> mplace) list" where
  "pt_iter t = map (\<lambda>(i, p). (as_u32 i, p)) (enumerate 0 (pt_places t))"

section \<open>The relations\<close>

fun may_elem :: "proj \<Rightarrow> proj \<Rightarrow> bool" where
  "may_elem (Field x) (Field y) = (x = y)"
| "may_elem (Lit x) (Lit y) = (x = y)"
| "may_elem (Field _) _ = False"
| "may_elem _ (Field _) = False"
| "may_elem _ _ = True"

fun must_elem :: "(nat \<Rightarrow> bool) \<Rightarrow> proj \<Rightarrow> proj \<Rightarrow> bool" where
  "must_elem sym_ok (Field x) (Field y) = (x = y)"
| "must_elem sym_ok (Lit x) (Lit y) = (x = y)"
| "must_elem sym_ok (Sym x) (Sym y) = (x = y \<and> sym_ok x)"
| "must_elem sym_ok _ _ = False"

text \<open>\<open>zip(..).all(..)\<close>: the common steps.\<close>

definition zip_all :: "(proj \<Rightarrow> proj \<Rightarrow> bool) \<Rightarrow> proj list \<Rightarrow> proj list \<Rightarrow> bool" where
  "zip_all P xs ys = list_all (\<lambda>(x, y). P x y) (zip xs ys)"

definition place_overlap :: "mplace \<Rightarrow> mplace \<Rightarrow> bool" where
  "place_overlap a b = (if pl_base a \<noteq> pl_base b then False else zip_all may_elem (pl_proj a) (pl_proj b))"

definition overlap_elem :: "mplace \<Rightarrow> mplace \<Rightarrow> bool" where
  "overlap_elem a b \<longleftrightarrow> pl_base a = pl_base b \<and> zip_all may_elem (pl_proj a) (pl_proj b)"

definition place_covers :: "mplace \<Rightarrow> mplace \<Rightarrow> bool" where
  "place_covers a b \<longleftrightarrow>
     pl_base a = pl_base b \<and> length (pl_proj a) \<le> length (pl_proj b) \<and> zip_all may_elem (pl_proj a) (pl_proj b)"

definition covers_may :: "mplace \<Rightarrow> mplace \<Rightarrow> bool" where
  "covers_may a b \<longleftrightarrow>
     pl_base a = pl_base b \<and> length (pl_proj a) \<le> length (pl_proj b) \<and> zip_all may_elem (pl_proj a) (pl_proj b)"

definition covers_must :: "(nat \<Rightarrow> bool) \<Rightarrow> mplace \<Rightarrow> mplace \<Rightarrow> bool" where
  "covers_must sym_ok a b \<longleftrightarrow>
     pl_base a = pl_base b \<and> length (pl_proj a) \<le> length (pl_proj b) \<and>
     zip_all (must_elem sym_ok) (pl_proj a) (pl_proj b)"

definition spelled_prefix :: "mplace \<Rightarrow> mplace \<Rightarrow> bool" where
  "spelled_prefix a b =
     (let (short, long) = (if length (pl_proj a) \<le> length (pl_proj b) then (a, b) else (b, a))
      in pl_base a = pl_base b \<and> zip_all (=) (pl_proj short) (pl_proj long))"

section \<open>The proof rules of one call\<close>

record index_proof =
  ip_stable :: "nat \<Rightarrow> bool"
  ip_range :: "nat \<Rightarrow> (nat \<times> nat) option"

definition Proof_NONE :: index_proof where
  "Proof_NONE = \<lparr>ip_stable = \<lambda>_. False, ip_range = \<lambda>_. None\<rparr>"

fun proj_off :: "proj \<Rightarrow> (nat \<times> nat) option" where
  "proj_off (Sym l) = Some (l, 0)"
| "proj_off (Off l k) = Some (l, k)"
| "proj_off _ = None"

definition outside_range :: "index_proof \<Rightarrow> nat \<Rightarrow> nat \<Rightarrow> bool" where
  "outside_range pf l c =
     (case ip_range pf l of
        Some (lo, hi) \<Rightarrow> (c < lo \<or> c \<ge> hi) \<and> ip_stable pf l
      | None \<Rightarrow> False)"

definition proved_distinct :: "index_proof \<Rightarrow> proj \<Rightarrow> proj \<Rightarrow> bool" where
  "proved_distinct pf a b =
     (let r2 = (case (a, b) of
                  (Sym l, Lit (Key_Int c)) \<Rightarrow> outside_range pf l c
                | (Lit (Key_Int c), Sym l) \<Rightarrow> outside_range pf l c
                | _ \<Rightarrow> False)
      in case (proj_off a, proj_off b) of
           (Some (l1, k1), Some (l2, k2)) \<Rightarrow> if l1 = l2 \<and> k1 \<noteq> k2 then ip_stable pf l1 else r2
         | _ \<Rightarrow> r2)"

definition overlap_call :: "index_proof \<Rightarrow> mplace \<Rightarrow> mplace \<Rightarrow> bool" where
  "overlap_call pf a b \<longleftrightarrow>
     pl_base a = pl_base b \<and> zip_all (\<lambda>x y. may_elem x y \<and> \<not> proved_distinct pf x y) (pl_proj a) (pl_proj b)"

section \<open>Locations\<close>

text \<open>
  The value of an index or key at run time; a pool handle or any other \<open>Copy\<close> value is \<open>I_Other\<close>. An
  assignment \<open>sg\<close> gives locals their values. A path step denotes a concrete step: the element at a local's
  value, at that value plus an offset, or, for \<open>Opaque\<close>, any element.
\<close>

datatype index_val = I_Int int | I_Str bytes | I_Bool bool | I_Char bytes | I_Other nat

datatype cstep = CField bytes | CElem index_val

type_synonym loc = "base \<times> cstep list"
type_synonym assigns = "nat \<Rightarrow> index_val"

fun key_val :: "index_key \<Rightarrow> index_val" where
  "key_val (Key_Int n) = I_Int (int n)"
| "key_val (Key_Str s) = I_Str s"
| "key_val (Key_Bool b) = I_Bool b"
| "key_val (Key_Char c) = I_Char c"

fun step_at :: "assigns \<Rightarrow> proj \<Rightarrow> cstep \<Rightarrow> bool" where
  "step_at sg (Field f) c = (c = CField f)"
| "step_at sg (Lit k) c = (c = CElem (key_val k))"
| "step_at sg (Sym l) c = (c = CElem (sg l))"
| "step_at sg (Off l k) c = (\<exists>n. sg l = I_Int n \<and> c = CElem (I_Int (n + int k)))"
| "step_at sg Opaque c = (\<exists>v. c = CElem v)"

definition place_at :: "assigns \<Rightarrow> mplace \<Rightarrow> loc \<Rightarrow> bool" where
  "place_at sg p l \<longleftrightarrow> fst l = pl_base p \<and> list_all2 (step_at sg) (pl_proj p) (snd l)"

text \<open>\<open>l\<close> contains \<open>m\<close>; two locations share storage when one contains the other.\<close>

definition inside :: "loc \<Rightarrow> loc \<Rightarrow> bool" where
  "inside l m \<longleftrightarrow> fst l = fst m \<and> (\<exists>rest. snd m = snd l @ rest)"

definition share :: "loc \<Rightarrow> loc \<Rightarrow> bool" where
  "share l m \<longleftrightarrow> inside l m \<or> inside m l"

section \<open>The relations are right\<close>

lemma zip_all_nth: "zip_all P xs ys \<longleftrightarrow> (\<forall>i < min (length xs) (length ys). P (xs ! i) (ys ! i))"
  by (auto simp: zip_all_def list_all_length)

lemma place_at_nth: "place_at sg p l \<Longrightarrow> i < length (pl_proj p) \<Longrightarrow> step_at sg (pl_proj p ! i) (snd l ! i)"
  by (auto simp: place_at_def dest: list_all2_nthD)

lemma place_at_length: "place_at sg p l \<Longrightarrow> length (snd l) = length (pl_proj p) \<and> fst l = pl_base p"
  by (auto simp: place_at_def dest: list_all2_lengthD)

lemma share_nth: "share l m \<Longrightarrow> i < length (snd l) \<Longrightarrow> i < length (snd m) \<Longrightarrow> snd l ! i = snd m ! i"
  by (auto simp: share_def inside_def nth_append)

lemma inside_nth: "inside l m \<longleftrightarrow> fst l = fst m \<and> length (snd l) \<le> length (snd m) \<and> (\<forall>i < length (snd l). snd l ! i = snd m ! i)"
proof
  assume a: "fst l = fst m \<and> length (snd l) \<le> length (snd m) \<and> (\<forall>i < length (snd l). snd l ! i = snd m ! i)"
  then have "take (length (snd l)) (snd m) = snd l" by (auto intro: nth_equalityI)
  then have "snd m = snd l @ drop (length (snd l)) (snd m)" by (metis append_take_drop_id)
  then show "inside l m" using a by (auto simp: inside_def)
qed (auto simp: inside_def nth_append)

lemma inside_trans: "inside l m \<Longrightarrow> inside m n \<Longrightarrow> inside l n"
  by (auto simp: inside_def)

lemma inside_refl [simp]: "inside l l"
  by (simp add: inside_def)

text \<open>Two locations that contain a third share storage.\<close>

lemma inside_share: "inside l n \<Longrightarrow> inside m n \<Longrightarrow> share l m"
  unfolding share_def inside_def by (metis append_eq_append_conv2)

lemma key_val_inj: "key_val k = key_val k' \<longleftrightarrow> k = k'"
  by (cases k; cases k') auto

lemma may_elem_sound: "step_at s1 x c \<Longrightarrow> step_at s2 y c \<Longrightarrow> may_elem x y"
  by (cases "(x, y)" rule: may_elem.cases) (auto simp: key_val_inj)

lemma must_elem_sound:
  "must_elem ok x y \<Longrightarrow> step_at s1 x c \<Longrightarrow> step_at s2 y d \<Longrightarrow> (\<And>l. ok l \<Longrightarrow> x = Sym l \<Longrightarrow> s1 l = s2 l) \<Longrightarrow> c = d"
  by (cases "(ok, x, y)" rule: must_elem.cases) auto

text \<open>What the caller of \<open>overlap_call\<close> vouches for, of the two moments at which the places are evaluated.\<close>

definition proof_holds :: "index_proof \<Rightarrow> assigns \<Rightarrow> assigns \<Rightarrow> bool" where
  "proof_holds pf s1 s2 \<longleftrightarrow>
     (\<forall>l. (ip_stable pf l \<longrightarrow> s1 l = s2 l) \<and>
          (\<forall>lo hi. ip_range pf l = Some (lo, hi) \<longrightarrow>
             (\<exists>n. s1 l = I_Int n \<and> int lo \<le> n \<and> n < int hi) \<and> (\<exists>n. s2 l = I_Int n \<and> int lo \<le> n \<and> n < int hi)))"

lemma proved_distinct_sound:
  assumes "step_at s1 x c" "step_at s2 y c" "proof_holds pf s1 s2"
  shows "\<not> proved_distinct pf x y"
proof -
  have r2: "\<not> outside_range pf l k" if "s l = I_Int (int k)" "s = s1 \<or> s = s2" for s l k
  proof (cases "ip_range pf l")
    case (Some r)
    then have "int (fst r) \<le> int k" "int k < int (snd r)"
      using assms(3) that by (cases r; fastforce simp: proof_holds_def)+
    then show ?thesis using Some by (cases r) (auto simp: outside_range_def)
  qed (simp add: outside_range_def)
  have off: "s1 l = s2 l" if "ip_stable pf l" for l using assms(3) that by (simp add: proof_holds_def)
  show ?thesis using assms(1,2) r2 off
    by (cases x; cases y) (auto simp: proved_distinct_def Let_def split: index_key.split)
qed

lemma overlap_call_share:
  assumes "place_at s1 a l" "place_at s2 b m" "proof_holds pf s1 s2" "\<not> overlap_call pf a b"
  shows "\<not> share l m"
proof
  assume sh: "share l m"
  have "pl_base a = pl_base b" using sh place_at_length [OF assms(1)] place_at_length [OF assms(2)]
    by (auto simp: share_def inside_def)
  moreover have "may_elem (pl_proj a ! i) (pl_proj b ! i) \<and> \<not> proved_distinct pf (pl_proj a ! i) (pl_proj b ! i)"
    if "i < min (length (pl_proj a)) (length (pl_proj b))" for i
  proof -
    have "snd l ! i = snd m ! i"
      using share_nth [OF sh] that place_at_length [OF assms(1)] place_at_length [OF assms(2)] by simp
    then show ?thesis
      using place_at_nth [OF assms(1), of i] place_at_nth [OF assms(2), of i] that may_elem_sound proved_distinct_sound assms(3)
      by auto
  qed
  ultimately show False using assms(4) by (simp add: overlap_call_def zip_all_nth)
qed

lemma overlap_share: "place_at s1 a l \<Longrightarrow> place_at s2 b m \<Longrightarrow> share l m \<Longrightarrow> overlap_elem a b"
  using overlap_call_share [of s1 a l s2 b m Proof_NONE]
  by (auto simp: overlap_call_def overlap_elem_def Proof_NONE_def proof_holds_def zip_all_nth)

lemma covers_must_inside:
  assumes "covers_must ok a b" "place_at s1 a l" "place_at s2 b m" "\<And>x. ok x \<Longrightarrow> Sym x \<in> set (pl_proj a) \<Longrightarrow> s1 x = s2 x"
  shows "inside l m"
  unfolding inside_nth
proof (intro conjI allI impI)
  note len = place_at_length [OF assms(2)] place_at_length [OF assms(3)]
  show "fst l = fst m" "length (snd l) \<le> length (snd m)" using assms(1) len by (auto simp: covers_must_def)
  fix i assume i: "i < length (snd l)"
  then have ab: "i < length (pl_proj a)" "i < length (pl_proj b)" using assms(1) len by (auto simp: covers_must_def)
  then have "must_elem ok (pl_proj a ! i) (pl_proj b ! i)" using assms(1) by (simp add: covers_must_def zip_all_nth)
  then show "snd l ! i = snd m ! i"
    using must_elem_sound [OF _ place_at_nth [OF assms(2) ab(1)] place_at_nth [OF assms(3) ab(2)]] assms(4) nth_mem [OF ab(1)]
    by metis
qed

section \<open>The table\<close>

text \<open>The index inverts the list of places; a table never outgrows its \<open>u32\<close> ids.\<close>

definition pt_ok :: "mplace_table \<Rightarrow> bool" where
  "pt_ok t \<longleftrightarrow> length (pt_copy t) = length (pt_places t) \<and> length (pt_places t) \<le> u32_max \<and>
     (\<forall>p i. pt_index t p = Some i \<longleftrightarrow> i < length (pt_places t) \<and> pt_places t ! i = p)"

lemma pt_new_ok: "pt_ok PlaceTable_new"
  by (simp add: pt_ok_def PlaceTable_new_def)

lemma pt_intern_ok:
  assumes "pt_ok t" "length (pt_places t) < u32_max" "pt_intern p c t = (i, t')"
  shows "pt_ok t'" "pt_get t' i = Some p" "\<exists>more. pt_places t' = pt_places t @ more"
    "pt_index t p = Some i \<or> pt_is_copy t' i = Some c"
proof -
  show "pt_get t' i = Some p" "\<exists>more. pt_places t' = pt_places t @ more" "pt_index t p = Some i \<or> pt_is_copy t' i = Some c"
    using assms
    by (auto simp: pt_intern_def pt_ok_def pt_get_def pt_is_copy_def byte_at_def Let_def nth_append split: option.splits)
  show "pt_ok t'"
  proof (cases "pt_index t p")
    case None
    have "pt_index t p = Some j \<longleftrightarrow> j < length (pt_places t) \<and> pt_places t ! j = p" for j
      using assms(1) unfolding pt_ok_def by blast
    then have "\<not> (j < length (pt_places t) \<and> pt_places t ! j = p)" for j using None by simp
    then show ?thesis using assms None by (auto simp: pt_intern_def pt_ok_def Let_def nth_append less_Suc_eq split: if_splits)
  qed (use assms in \<open>auto simp: pt_intern_def\<close>)
qed

section \<open>Properties\<close>

text \<open>
  C16. Places the checker holds apart never share storage. Take two places, each denoting a location under the values its
  indices have when it is evaluated. If the places do not overlap, neither location contains the other. If the rules
  of a call hold them apart, the same, provided what the call vouches for is true: stable locals have one value at both
  evaluations, bounded locals lie in their ranges. And if the first place surely covers the second, its location contains
  the other's, unless a local vouched for has changed its value.
\<close>

theorem place_relations_sound:
  assumes "place_at s1 a l" "place_at s2 b m"
  shows "(place_overlap a b \<or> \<not> share l m) \<and>
    (overlap_call pf a b \<or> \<not> proof_holds pf s1 s2 \<or> \<not> share l m) \<and>
    (inside l m \<or> \<not> covers_must ok a b \<or> (\<exists>x. ok x \<and> s1 x \<noteq> s2 x))"
proof (intro conjI)
  show "place_overlap a b \<or> \<not> share l m"
    using overlap_share [OF assms] by (auto simp: place_overlap_def overlap_elem_def)
  show "overlap_call pf a b \<or> \<not> proof_holds pf s1 s2 \<or> \<not> share l m"
    using overlap_call_share [OF assms] by blast
  show "inside l m \<or> \<not> covers_must ok a b \<or> (\<exists>x. ok x \<and> s1 x \<noteq> s2 x)"
    using covers_must_inside [OF _ assms] by blast
qed

theorem place_relations_sound_witness:
  "(\<lambda>a b. \<not> place_overlap a b \<and> \<not> share (Local 0, [CElem (I_Int 3), CField ''x'']) (Local 0, [CElem (I_Int 3), CField ''y'']))
     \<lparr>pl_base = Local 0, pl_proj = [Sym 1, Field ''x'']\<rparr> \<lparr>pl_base = Local 0, pl_proj = [Lit (Key_Int 3), Field ''y'']\<rparr>"
  using place_relations_sound [of "\<lambda>_. I_Int 3" "\<lparr>pl_base = Local 0, pl_proj = [Sym 1, Field ''x'']\<rparr>"
      "(Local 0, [CElem (I_Int 3), CField ''x''])" "\<lambda>_. I_Int 3" "\<lparr>pl_base = Local 0, pl_proj = [Lit (Key_Int 3), Field ''y'']\<rparr>"
      "(Local 0, [CElem (I_Int 3), CField ''y''])" Proof_NONE "\<lambda>_. False"]
  by (simp add: place_at_def place_overlap_def zip_all_def)

end
