(* ===== verification/Mem_Cfg.thy ===== *)
theory Mem_Cfg
  imports Mem_Place Wolf_Diag
begin

text \<open>
  The check graph of a function body, \<^verbatim>\<open>crates/wolf_mem/src/cfg.rs\<close>: blocks of effect statements over places.
  Ids index the lists of the graph; the code panics on an id past their end, and \<open>cfg_ok\<close> says that the
  lowering made none. The text of messages is \<open>mprose\<close>: a key naming the literal of the source and the
  strings it formats.
\<close>

datatype mprose = MProse string "bytes list"

section \<open>Regions, sites, locals, loans\<close>

datatype region_kind = RK_Caller | RK_Static | RK_Param | RK_Scope | RK_Value

datatype strategy = Arena | Rc | Pool bytes

record region =
  rg_name :: bytes
  rg_kind :: region_kind
  rg_strategy :: strategy
  rg_span :: span

datatype site_kind = Site_Lit | Site_CallResult | Site_Param | Site_ParamBytes

definition site_is_param :: "site_kind \<Rightarrow> bool" where
  "site_is_param k \<longleftrightarrow> k = Site_Param \<or> k = Site_ParamBytes"

record alloc_site =
  al_span :: span
  al_ty :: bytes
  al_region :: nat
  al_kind :: site_kind

datatype param_mode = Mode_Mut | Mode_Take

record local =
  lc_name :: bytes
  lc_span :: span
  lc_ty :: bytes
  lc_is_copy :: bool
  lc_param_mode :: "param_mode option option"

datatype loan_kind = Shared | Unique

record loan =
  ln_place :: place_id
  ln_kind :: loan_kind
  ln_borrower :: nat
  ln_origin :: span
  ln_two_phase :: bool

section \<open>Statements\<close>

record call_surface =
  cs_callee :: bytes
  cs_span :: span
  cs_mut_args :: "(place_id \<times> span) list"
  cs_read_args :: "(place_id \<times> span) list"
  cs_take_args :: "(place_id \<times> span) list"
  cs_c_call :: bool
  cs_unstable :: "nat list"

datatype stmt =
  S_Read place_id span
| S_Move place_id span
| S_Init place_id span
| S_Mutate place_id span
| S_Uninit place_id span
| S_Call call_surface
| S_Borrow nat span
| S_UseBorrower nat span
| S_Activate nat span
| S_CheckedOp span
| S_Alloc nat span
| S_RegionOpen nat span
| S_RegionClose nat span
| S_Dup place_id span
| S_Drop place_id span
| S_HandleCheck place_id span
| S_UnsafeEnter span
| S_UnsafeExit span
| S_RawRead bytes span
| S_RawWrite bytes span
| S_Assume bytes span
| S_Expose bytes bytes span
| S_Door bytes bytes span
| S_ProvOp bytes bytes span

section \<open>The graph\<close>

type_synonym block_id = nat

record block =
  bk_stmts :: "stmt list"
  bk_succs :: "block_id list"
  bk_trap :: bool

record cfg =
  cf_name :: bytes
  cf_blocks :: "block list"
  cf_locals :: "local list"
  cf_places :: mplace_table
  cf_loans :: "loan list"
  cf_regions :: "region list"
  cf_sites :: "alloc_site list"
  cf_entry :: block_id
  cf_exit :: block_id
  cf_pattern_moves :: "span list"
  cf_nested_exits :: "(block_id \<times> nat list) list"
  cf_induction :: "nat \<Rightarrow> (nat \<times> nat) option"

definition Cfg_block :: "cfg \<Rightarrow> block_id \<Rightarrow> block" where
  "Cfg_block c b = cf_blocks c ! b"

definition Cfg_local :: "cfg \<Rightarrow> nat \<Rightarrow> local" where
  "Cfg_local c l = cf_locals c ! l"

abbreviation place_of :: "cfg \<Rightarrow> place_id \<Rightarrow> mplace" where
  "place_of c p \<equiv> pt_places (cf_places c) ! p"

abbreviation loan_of :: "cfg \<Rightarrow> nat \<Rightarrow> loan" where
  "loan_of c l \<equiv> cf_loans c ! l"

section \<open>Printing places and regions\<close>

fun show_key :: "index_key \<Rightarrow> bytes" where
  "show_key (Key_Int n) = nat_str n"
| "show_key (Key_Str s) = [CHR 0x22] @ s @ [CHR 0x22]"
| "show_key (Key_Bool b) = (if b then ''true'' else ''false'')"
| "show_key (Key_Char c) = [CHR 0x27] @ c @ [CHR 0x27]"

fun show_proj :: "cfg \<Rightarrow> proj \<Rightarrow> bytes" where
  "show_proj c (Field f) = ''.'' @ f"
| "show_proj c (Lit k) = ''['' @ show_key k @ '']''"
| "show_proj c (Sym l) = ''['' @ lc_name (cf_locals c ! l) @ '']''"
| "show_proj c (Off l k) = ''['' @ lc_name (cf_locals c ! l) @ '' + '' @ nat_str k @ '']''"
| "show_proj c Opaque = ''[_]''"

definition show_place :: "cfg \<Rightarrow> place_id \<Rightarrow> bytes" where
  "show_place c p =
     (case pl_base (place_of c p) of Local l \<Rightarrow> lc_name (cf_locals c ! l) | Global _ name \<Rightarrow> name) @
     concat (map (show_proj c) (pl_proj (place_of c p)))"

definition show_region :: "cfg \<Rightarrow> nat \<Rightarrow> bytes" where
  "show_region c r =
     (let rg = cf_regions c ! r
      in case rg_kind rg of
           RK_Caller \<Rightarrow> ''caller''
         | RK_Static \<Rightarrow> ''static''
         | RK_Param \<Rightarrow> ''param '' @ rg_name rg
         | _ \<Rightarrow> ''region '' @ rg_name rg)"

section \<open>Well-formed graphs\<close>

fun stmt_places :: "stmt \<Rightarrow> place_id list" where
  "stmt_places (S_Read p _) = [p]"
| "stmt_places (S_Move p _) = [p]"
| "stmt_places (S_Init p _) = [p]"
| "stmt_places (S_Mutate p _) = [p]"
| "stmt_places (S_Uninit p _) = [p]"
| "stmt_places (S_Call c) = map fst (cs_mut_args c) @ map fst (cs_read_args c) @ map fst (cs_take_args c)"
| "stmt_places (S_Dup p _) = [p]"
| "stmt_places (S_Drop p _) = [p]"
| "stmt_places (S_HandleCheck p _) = [p]"
| "stmt_places _ = []"

fun stmt_loans :: "stmt \<Rightarrow> nat list" where
  "stmt_loans (S_Borrow l _) = [l]"
| "stmt_loans (S_Activate l _) = [l]"
| "stmt_loans _ = []"

definition stmt_ok :: "cfg \<Rightarrow> stmt \<Rightarrow> bool" where
  "stmt_ok c s \<longleftrightarrow>
     list_all (\<lambda>p. p < length (pt_places (cf_places c))) (stmt_places s) \<and>
     list_all (\<lambda>l. l < length (cf_loans c)) (stmt_loans s)"

definition base_ok :: "cfg \<Rightarrow> base \<Rightarrow> bool" where
  "base_ok c b = (case b of Local l \<Rightarrow> l < length (cf_locals c) | Global _ _ \<Rightarrow> True)"

definition cfg_ok :: "cfg \<Rightarrow> bool" where
  "cfg_ok c \<longleftrightarrow>
     pt_ok (cf_places c) \<and> cf_entry c < length (cf_blocks c) \<and> cf_exit c < length (cf_blocks c) \<and>
     list_all (\<lambda>p. base_ok c (pl_base p)) (pt_places (cf_places c)) \<and>
     list_all (\<lambda>l. ln_place l < length (pt_places (cf_places c))) (cf_loans c) \<and>
     list_all (\<lambda>(b, _). b < length (cf_blocks c)) (cf_nested_exits c) \<and>
     list_all (\<lambda>b. list_all (stmt_ok c) (bk_stmts b) \<and> list_all (\<lambda>s. s < length (cf_blocks c)) (bk_succs b)) (cf_blocks c)"

section \<open>Small graphs\<close>

abbreviation at_byte :: "nat \<Rightarrow> span" where
  "at_byte n \<equiv> \<lparr>sp_file = 0, sp_lo = n, sp_hi = n + 1\<rparr>"

definition ex_local :: "bytes \<Rightarrow> param_mode option option \<Rightarrow> local" where
  "ex_local name mode = \<lparr>lc_name = name, lc_span = at_byte 0, lc_ty = ''T'', lc_is_copy = False, lc_param_mode = mode\<rparr>"

definition ex_cfg :: "mplace list \<Rightarrow> local list \<Rightarrow> block list \<Rightarrow> cfg" where
  "ex_cfg ps ls bs =
     \<lparr>cf_name = ''f'', cf_blocks = bs, cf_locals = ls,
      cf_places = fold (\<lambda>p t. snd (pt_intern p False t)) ps PlaceTable_new,
      cf_loans = [], cf_regions = [], cf_sites = [], cf_entry = 0, cf_exit = length bs - 1,
      cf_pattern_moves = [], cf_nested_exits = [], cf_induction = \<lambda>_. None\<rparr>"

lemma interns_ok:
  "pt_ok t \<Longrightarrow> length (pt_places t) + length ps \<le> u32_max \<Longrightarrow> pt_ok (fold (\<lambda>p t. snd (pt_intern p False t)) ps t)"
proof (induction ps arbitrary: t)
  case (Cons p ps)
  obtain i t' where t': "pt_intern p False t = (i, t')" by (cases "pt_intern p False t")
  have "pt_ok t'" using pt_intern_ok(1) [OF Cons.prems(1) _ t'] Cons.prems(2) by simp
  moreover have "length (pt_places t') \<le> Suc (length (pt_places t))"
    using t' by (auto simp: pt_intern_def Let_def split: option.splits)
  ultimately show ?case using Cons.IH [of t'] Cons.prems(2) t' by simp
qed simp

lemma ex_cfg_ok:
  assumes "length ps \<le> u32_max"
  shows "pt_ok (cf_places (ex_cfg ps ls bs))"
  using interns_ok [OF pt_new_ok, of ps] assms by (simp add: ex_cfg_def PlaceTable_new_def)

end
