(* ===== verification/Mem_Flow.thy ===== *)
theory Mem_Flow
  imports Wolf_Prelude
begin

text \<open>
  The forward analyses of \<^verbatim>\<open>wolf_mem\<close> run the same loop: each block has the state at its entry, if it was
  reached; a work list, its top at the head, holds the blocks whose state changed. The loop is a partial
  function, \<open>None\<close> when it does not end. The locale \<open>dataflow\<close> says what an analysis owes the loop and what it
  gets: the loop ends, and each block's entry holds what every edge into the block brings.
\<close>

section \<open>The loop\<close>

type_synonym 's flow_entries = "'s option list"

definition flow_succ :: "('s \<Rightarrow> 's \<Rightarrow> 's \<times> bool) \<Rightarrow> 's \<Rightarrow> nat \<Rightarrow> 's flow_entries \<times> nat list \<Rightarrow> 's flow_entries \<times> nat list" where
  "flow_succ join st succ acc =
     (case acc of (entry, work) \<Rightarrow>
        let (slot, changed) = (case entry ! succ of
                                 None \<Rightarrow> (st, True)
                               | Some existing \<Rightarrow> join existing st)
        in (entry[succ := Some slot], if changed \<and> succ \<notin> set work then succ # work else work))"

definition flow_block ::
  "('s \<Rightarrow> 's \<Rightarrow> 's \<times> bool) \<Rightarrow> (nat \<Rightarrow> 's \<Rightarrow> 's) \<Rightarrow> (nat \<Rightarrow> nat list) \<Rightarrow> nat \<Rightarrow> 's flow_entries \<times> nat list \<Rightarrow> 's flow_entries \<times> nat list" where
  "flow_block join out succs b acc = fold (flow_succ join (out b (the (fst acc ! b)))) (succs b) acc"

partial_function (option) worklist ::
  "('s \<Rightarrow> 's \<Rightarrow> 's \<times> bool) \<Rightarrow> (nat \<Rightarrow> 's \<Rightarrow> 's) \<Rightarrow> (nat \<Rightarrow> nat list) \<Rightarrow> 's flow_entries \<times> nat list \<Rightarrow> 's flow_entries option" where
  "worklist join out succs acc =
     (if snd acc = [] then Some (fst acc)
      else worklist join out succs (flow_block join out succs (hd (snd acc)) (fst acc, tl (snd acc))))"

declare worklist.simps [code]

definition flow_start :: "nat \<Rightarrow> nat \<Rightarrow> 's \<Rightarrow> 's flow_entries \<times> nat list" where
  "flow_start n entry st = ((replicate n None)[entry := Some st], [entry])"

section \<open>What an analysis owes it\<close>

text \<open>
  \<open>facts\<close> is what a state knows, out of finitely many things; joining only adds to it, and reports a change
  exactly when it does. \<open>below\<close> orders states by how much they allow for.
\<close>

locale dataflow =
  fixes ok :: "'c \<Rightarrow> bool" and blocks :: "'c \<Rightarrow> nat" and succs :: "'c \<Rightarrow> nat \<Rightarrow> nat list"
    and join :: "'s \<Rightarrow> 's \<Rightarrow> 's \<times> bool" and out :: "'c \<Rightarrow> nat \<Rightarrow> 's \<Rightarrow> 's"
    and inv :: "'c \<Rightarrow> 's \<Rightarrow> bool" and facts :: "'c \<Rightarrow> 's \<Rightarrow> 'f set" and universe :: "'c \<Rightarrow> 'f set"
    and below :: "'s \<Rightarrow> 's \<Rightarrow> bool" and entry :: "'c \<Rightarrow> nat" and start :: "'c \<Rightarrow> 's"
  assumes finite_universe: "ok c \<Longrightarrow> finite (universe c)"
    and facts_universe: "ok c \<Longrightarrow> inv c s \<Longrightarrow> facts c s \<subseteq> universe c"
    and succs_in: "ok c \<Longrightarrow> b < blocks c \<Longrightarrow> list_all (\<lambda>b'. b' < blocks c) (succs c b)"
    and out_inv: "ok c \<Longrightarrow> b < blocks c \<Longrightarrow> inv c s \<Longrightarrow> inv c (out c b s)"
    and join_grows: "ok c \<Longrightarrow> inv c s \<Longrightarrow> inv c x \<Longrightarrow> join s x = (t, ch) \<Longrightarrow>
      inv c t \<and> facts c s \<subseteq> facts c t \<and> (ch \<longrightarrow> facts c s \<subset> facts c t) \<and> (\<not> ch \<longrightarrow> t = s) \<and> below s t \<and> below x t"
    and entry_in: "ok c \<Longrightarrow> entry c < blocks c"
    and start_inv: "ok c \<Longrightarrow> inv c (start c)"
    and below_refl [simp]: "below s s"
    and below_trans: "below s t \<Longrightarrow> below t u \<Longrightarrow> below s u"
begin

definition entries_inv :: "'c \<Rightarrow> 's flow_entries \<Rightarrow> bool" where
  "entries_inv c en \<longleftrightarrow> length en = blocks c \<and> (\<forall>i<length en. \<forall>S. en ! i = Some S \<longrightarrow> inv c S)"

definition en_facts :: "'c \<Rightarrow> 's flow_entries \<Rightarrow> (nat \<times> 'f option) set" where
  "en_facts c en = {(i, f). i < length en \<and> (\<exists>S. en ! i = Some S \<and> (case f of None \<Rightarrow> True | Some x \<Rightarrow> x \<in> facts c S))}"

definition receives :: "'s flow_entries \<Rightarrow> nat \<Rightarrow> 's \<Rightarrow> bool" where
  "receives en b X \<longleftrightarrow> (\<exists>T. en ! b = Some T \<and> below X T)"

definition en_grows :: "'s flow_entries \<Rightarrow> 's flow_entries \<Rightarrow> bool" where
  "en_grows en en' \<longleftrightarrow> length en' = length en \<and> (\<forall>i<length en. \<forall>S. en ! i = Some S \<longrightarrow> receives en' i S)"

lemma receives_grows: "receives en b X \<Longrightarrow> en_grows en en' \<Longrightarrow> b < length en \<Longrightarrow> receives en' b X"
  unfolding receives_def en_grows_def using below_trans by blast

lemma en_grows_trans: "en_grows en en' \<Longrightarrow> en_grows en' en'' \<Longrightarrow> en_grows en en''"
  by (simp add: en_grows_def) (metis en_grows_def receives_grows)

text \<open>What handing a state to successors does to the entries and the work list.\<close>

definition flows :: "'c \<Rightarrow> 's \<Rightarrow> nat set \<Rightarrow> 's flow_entries \<times> nat list \<Rightarrow> 's flow_entries \<times> nat list \<Rightarrow> bool" where
  "flows c X bs p p' \<longleftrightarrow>
     (case (p, p') of ((en, work), (en', work')) \<Rightarrow>
        entries_inv c en' \<and> en_grows en en' \<and> en_facts c en \<subseteq> en_facts c en' \<and>
        (work' = work \<or> en_facts c en \<subset> en_facts c en') \<and>
        (\<forall>b\<in>bs. receives en' b X) \<and> set work \<subseteq> set work' \<and> set work' \<subseteq> set work \<union> bs \<and>
        (\<forall>i<length en. i \<notin> set work' \<longrightarrow> en' ! i = en ! i))"

lemma flow_succ_flows:
  assumes ok: "ok c" and "entries_inv c en" "inv c X" "b < length en"
  shows "flows c X {b} (en, work) (flow_succ join X b (en, work))"
proof -
  obtain T ch where T: "(case en ! b of None \<Rightarrow> (X, True) | Some S \<Rightarrow> join S X) = (T, ch)"
    by (cases "case en ! b of None \<Rightarrow> (X, True) | Some S \<Rightarrow> join S X")
  have fs: "flow_succ join X b (en, work) = (en[b := Some T], if ch \<and> b \<notin> set work then b # work else work)"
    using T by (simp add: flow_succ_def Let_def split: option.split)
  have up: "inv c T \<and> below X T \<and> (\<forall>S. en ! b = Some S \<longrightarrow> below S T \<and> facts c S \<subseteq> facts c T \<and> (ch \<longrightarrow> facts c S \<subset> facts c T)) \<and>
      (en ! b = None \<or> ch \<or> en ! b = Some T)"
  proof (cases "en ! b")
    case (Some S)
    then have "inv c S" "join S X = (T, ch)" using assms T by (auto simp: entries_inv_def)
    from join_grows [OF ok this(1) assms(3) this(2)] show ?thesis using Some by auto
  qed (use T assms(3) in auto)
  have f: "en_facts c en \<subseteq> en_facts c (en[b := Some T])"
    using up assms(4) by (fastforce simp: en_facts_def nth_list_update split: option.splits)
  have strict: "en_facts c en \<noteq> en_facts c (en[b := Some T])" if "ch"
  proof (cases "en ! b")
    case None
    then have "(b, None) \<in> en_facts c (en[b := Some T]) - en_facts c en" using assms(4) by (simp add: en_facts_def)
    then show ?thesis by blast
  next
    case (Some S)
    then have "facts c S \<subset> facts c T" using up that by blast
    then obtain x where "x \<in> facts c T - facts c S" by blast
    then have "(b, Some x) \<in> en_facts c (en[b := Some T]) - en_facts c en" using assms(4) Some by (simp add: en_facts_def)
    then show ?thesis by blast
  qed
  have nn: "en ! b = None \<Longrightarrow> ch" using T by simp
  then have un: "\<not> ch \<Longrightarrow> en[b := Some T] = en" using up by (metis list_update_id)
  have "entries_inv c (en[b := Some T])" "en_grows en (en[b := Some T])"
    using assms up by (auto simp: entries_inv_def en_grows_def receives_def nth_list_update)
  then show ?thesis
    using f strict un up nn assms(4) by (auto simp: flows_def fs receives_def nth_list_update)
qed

lemma flows_trans:
  assumes "flows c X bs (en, work) (en1, work1)" "flows c X bs' (en1, work1) p'" "\<forall>b\<in>bs. b < length en"
  shows "flows c X (bs \<union> bs') (en, work) p'"
proof -
  obtain en2 work2 where p: "p' = (en2, work2)" by (cases p')
  have g: "en_grows en en1" "en_grows en1 en2" using assms(1,2) by (auto simp: flows_def p)
  have "length en1 = length en" using g(1) by (simp add: en_grows_def)
  then have "receives en2 b X" if "b \<in> bs" for b
    using receives_grows [OF _ g(2)] assms(1,3) that by (auto simp: flows_def)
  then show ?thesis
    using assms(1,2) en_grows_trans [OF g] \<open>length en1 = length en\<close> by (auto simp: flows_def p)
qed

lemma flow_fold_flows:
  "ok c \<Longrightarrow> entries_inv c en \<Longrightarrow> inv c X \<Longrightarrow> list_all (\<lambda>b. b < length en) bs \<Longrightarrow>
   flows c X (set bs) (en, work) (fold (flow_succ join X) bs (en, work))"
proof (induction bs arbitrary: en work)
  case Nil
  then show ?case by (simp add: flows_def en_grows_def receives_def entries_inv_def)
next
  case (Cons b bs)
  obtain en1 work1 where p: "flow_succ join X b (en, work) = (en1, work1)" by (cases "flow_succ join X b (en, work)")
  have f: "flows c X {b} (en, work) (en1, work1)" using flow_succ_flows [of c en X b work] Cons.prems p by simp
  then have "entries_inv c en1" "length en1 = length en" by (auto simp: flows_def en_grows_def)
  then have "flows c X (set bs) (en1, work1) (fold (flow_succ join X) bs (en1, work1))"
    using Cons.IH Cons.prems by simp
  from flows_trans [OF f this] show ?case using Cons.prems p by simp
qed

text \<open>The loop's invariant: a block off the work list has handed its state to all its successors.\<close>

definition passed_on :: "'c \<Rightarrow> 's flow_entries \<Rightarrow> nat \<Rightarrow> bool" where
  "passed_on c en b \<longleftrightarrow> (\<forall>S. en ! b = Some S \<longrightarrow> (\<forall>b'\<in>set (succs c b). receives en b' (out c b S)))"

definition loop_inv :: "'c \<Rightarrow> 's flow_entries \<times> nat list \<Rightarrow> bool" where
  "loop_inv c p \<longleftrightarrow>
     entries_inv c (fst p) \<and> receives (fst p) (entry c) (start c) \<and>
     (\<forall>b\<in>set (snd p). b < blocks c \<and> fst p ! b \<noteq> None) \<and>
     (\<forall>b<blocks c. b \<notin> set (snd p) \<longrightarrow> passed_on c (fst p) b)"

lemma flow_block_step:
  assumes ok: "ok c" and li: "loop_inv c (en, b # work)"
  shows "loop_inv c (flow_block join (out c) (succs c) b (en, work))"
    "en_facts c en \<subset> en_facts c (fst (flow_block join (out c) (succs c) b (en, work))) \<or>
     snd (flow_block join (out c) (succs c) b (en, work)) = work"
    "en_facts c en \<subseteq> en_facts c (fst (flow_block join (out c) (succs c) b (en, work)))"
proof -
  have b: "b < blocks c" using li by (simp add: loop_inv_def)
  note su = succs_in [OF ok]
  obtain S where S: "en ! b = Some S" using li by (auto simp: loop_inv_def)
  define X where "X = out c b S"
  have en: "entries_inv c en" using li by (simp add: loop_inv_def)
  then have len: "length en = blocks c" by (simp add: entries_inv_def)
  have "inv c S" using en S b len by (auto simp: entries_inv_def)
  then have X: "inv c X" unfolding X_def using out_inv ok b by blast
  obtain en' work' where p: "flow_block join (out c) (succs c) b (en, work) = (en', work')"
    by (cases "flow_block join (out c) (succs c) b (en, work)")
  have "fold (flow_succ join X) (succs c b) (en, work) = (en', work')" using p by (simp add: flow_block_def X_def S)
  with flow_fold_flows [OF ok en X, of "succs c b" work] su [OF b] len
  have f: "flows c X (set (succs c b)) (en, work) (en', work')" by simp
  then have g: "en_grows en en'" and en': "entries_inv c en'" by (auto simp: flows_def)
  have kept: "receives en' i X'" if "receives en i X'" "i < blocks c" for i X'
    using receives_grows [OF that(1) g] that(2) len by simp
  have some: "en' ! i \<noteq> None" if "en ! i \<noteq> None" "i < blocks c" for i
    using g that len by (auto simp: en_grows_def receives_def)
  have "passed_on c en' i" if i: "i < blocks c" "i \<notin> set work'" for i
  proof (cases "i = b")
    case True
    have "en' ! b = Some S" using f i len S True by (auto simp: flows_def)
    then show ?thesis using f True by (auto simp: passed_on_def flows_def X_def)
  next
    case False
    have same: "en' ! i = en ! i" "i \<notin> set work" using f i len by (auto simp: flows_def)
    then have "passed_on c en i" using li False i(1) by (auto simp: loop_inv_def)
    then show ?thesis using kept same su [OF i(1)] by (auto simp: passed_on_def list_all_iff)
  qed
  moreover have "i < blocks c \<and> en' ! i \<noteq> None" if "i \<in> set work'" for i
  proof (cases "i \<in> set work")
    case True
    then show ?thesis using li some by (auto simp: loop_inv_def)
  next
    case False
    then have "i \<in> set (succs c b)" using f that by (auto simp: flows_def)
    then show ?thesis using f su [OF b] by (auto simp: flows_def receives_def list_all_iff)
  qed
  moreover have "receives en' (entry c) (start c)" using li kept entry_in ok by (auto simp: loop_inv_def)
  ultimately show "loop_inv c (flow_block join (out c) (succs c) b (en, work))" using en' by (simp add: loop_inv_def p)
  show "en_facts c en \<subset> en_facts c (fst (flow_block join (out c) (succs c) b (en, work))) \<or>
     snd (flow_block join (out c) (succs c) b (en, work)) = work"
    "en_facts c en \<subseteq> en_facts c (fst (flow_block join (out c) (succs c) b (en, work)))"
    using f by (auto simp: flows_def p)
qed

definition all_facts :: "'c \<Rightarrow> (nat \<times> 'f option) set" where
  "all_facts c = {..<blocks c} \<times> insert None (Some ` universe c)"

lemma en_facts_all: "ok c \<Longrightarrow> entries_inv c en \<Longrightarrow> en_facts c en \<subseteq> all_facts c"
proof
  fix x assume oks: "ok c" "entries_inv c en" and x: "x \<in> en_facts c en"
  obtain i f where xf: "x = (i, f)" by (cases x)
  obtain S where S: "i < length en" "en ! i = Some S" "case f of None \<Rightarrow> True | Some y \<Rightarrow> y \<in> facts c S"
    using x xf by (auto simp: en_facts_def)
  have "inv c S" "i < blocks c" using oks(2) S by (auto simp: entries_inv_def)
  then show "x \<in> all_facts c" using facts_universe [OF oks(1)] S(3) by (cases f) (auto simp: xf all_facts_def)
qed

lemma worklist_returns:
  assumes "ok c" "loop_inv c p"
  shows "\<exists>en. worklist join (out c) (succs c) p = Some en \<and> loop_inv c (en, [])"
  using assms(2)
proof (induction p rule: wf_induct [OF wf_measures [of "[\<lambda>p. card (all_facts c) - card (en_facts c (fst p)), \<lambda>p. length (snd p)]"]])
  case (1 p)
  have fin: "finite (all_facts c)" using finite_universe [OF assms(1)] by (simp add: all_facts_def)
  show ?case
  proof (cases p)
    case (Pair en work)
    show ?thesis
    proof (cases work)
      case Nil
      then show ?thesis using 1(2) Pair by (subst worklist.simps) simp
    next
      case (Cons b work')
      define p' where "p' = flow_block join (out c) (succs c) b (en, work')"
      have li: "loop_inv c (en, b # work')" using 1(2) Pair Cons by simp
      note st = flow_block_step [OF assms(1) li, folded p'_def]
      have sub: "en_facts c (fst p') \<subseteq> all_facts c" using st(1) en_facts_all [OF assms(1)] by (auto simp: loop_inv_def)
      have "card (en_facts c en) < card (en_facts c (fst p')) \<and> card (en_facts c (fst p')) \<le> card (all_facts c) \<or>
          snd p' = work' \<and> card (en_facts c en) \<le> card (en_facts c (fst p'))"
        using st(2,3) sub fin by (meson card_mono finite_subset psubset_card_mono)
      then have "(p', p) \<in> measures [\<lambda>p. card (all_facts c) - card (en_facts c (fst p)), \<lambda>p. length (snd p)]"
        by (auto simp: Pair Cons)
      then have "\<exists>en. worklist join (out c) (succs c) p' = Some en \<and> loop_inv c (en, [])" using 1(1) st(1) by blast
      moreover have "worklist join (out c) (succs c) p = worklist join (out c) (succs c) p'"
        by (subst worklist.simps) (simp add: Pair Cons p'_def)
      ultimately show ?thesis by simp
    qed
  qed
qed

text \<open>
  What the loop leaves: states that satisfy the invariant, the entry's at least the start, and each edge's
  target at least what the edge brings.
\<close>

definition solves :: "'c \<Rightarrow> 's flow_entries \<Rightarrow> bool" where
  "solves c en \<longleftrightarrow>
     length en = blocks c \<and> (\<forall>b<blocks c. \<forall>S. en ! b = Some S \<longrightarrow> inv c S) \<and>
     (\<exists>T. en ! entry c = Some T \<and> below (start c) T) \<and>
     (\<forall>b<blocks c. \<forall>S. en ! b = Some S \<longrightarrow> (\<forall>b'\<in>set (succs c b). \<exists>T. en ! b' = Some T \<and> below (out c b S) T))"

lemma worklist_solves:
  assumes "ok c"
  obtains en where "worklist join (out c) (succs c) (flow_start (blocks c) (entry c) (start c)) = Some en" "solves c en"
proof -
  have "loop_inv c (flow_start (blocks c) (entry c) (start c))"
    using entry_in [OF assms] start_inv [OF assms]
    by (auto simp: loop_inv_def flow_start_def entries_inv_def passed_on_def receives_def nth_list_update)
  from worklist_returns [OF assms this] obtain en
    where "worklist join (out c) (succs c) (flow_start (blocks c) (entry c) (start c)) = Some en" "loop_inv c (en, [])"
    by blast
  then show thesis using that by (simp add: solves_def loop_inv_def entries_inv_def passed_on_def receives_def)
qed

end

end
