(* ===== verification/Mem_Moves.thy ===== *)
theory Mem_Moves
  imports Mem_Cfg Mem_Flow Wolf_Str
begin

text \<open>
  The moves pass, \<^verbatim>\<open>crates/wolf_mem/src/moves.rs\<close>: a forward may-analysis over the check graph whose state is
  the set of places that may be empty, each with the span that emptied it. A \<open>BTreeMap\<close> is a list sorted by
  key. The fixpoint is the loop of \<open>Mem_Flow\<close>.
\<close>

section \<open>The state\<close>

record emptied =
  em_span :: span
  em_uninit :: bool
  em_blurred :: bool

definition Emptied_at :: "span \<Rightarrow> bool \<Rightarrow> emptied" where
  "Emptied_at s uninit = \<lparr>em_span = s, em_uninit = uninit, em_blurred = False\<rparr>"

type_synonym moves_state = "(place_id \<times> emptied) list"

record sym_rule =
  sr_loaned :: "nat set"
  sr_raw :: bool

fun raw_tier :: "stmt \<Rightarrow> bool" where
  "raw_tier (S_UnsafeEnter _) = True"
| "raw_tier (S_RawRead _ _) = True"
| "raw_tier (S_RawWrite _ _) = True"
| "raw_tier (S_Assume _ _) = True"
| "raw_tier (S_Expose _ _ _) = True"
| "raw_tier (S_Door _ _ _) = True"
| "raw_tier (S_ProvOp _ _ _) = True"
| "raw_tier _ = False"

definition SymRule_new :: "cfg \<Rightarrow> sym_rule" where
  "SymRule_new c =
     \<lparr>sr_loaned = set (concat (map (\<lambda>l. case pl_base (place_of c (ln_place l)) of Local b \<Rightarrow> [b] | Global _ _ \<Rightarrow> []) (cf_loans c))),
      sr_raw = list_ex (\<lambda>b. list_ex raw_tier (bk_stmts b)) (cf_blocks c)\<rparr>"

definition rule_holds :: "sym_rule \<Rightarrow> nat \<Rightarrow> emptied \<Rightarrow> bool" where
  "rule_holds r l why \<longleftrightarrow> \<not> em_blurred why \<and> \<not> sr_raw r \<and> l \<notin> sr_loaned r"

definition rule_now :: "sym_rule \<Rightarrow> nat \<Rightarrow> bool" where
  "rule_now r l \<longleftrightarrow> \<not> sr_raw r \<and> l \<notin> sr_loaned r"

section \<open>Joining\<close>

definition merge_emptied :: "emptied \<Rightarrow> emptied \<Rightarrow> emptied" where
  "merge_emptied existing why =
     (let merged = existing;
          merged = (if (sp_lo (em_span why), sp_hi (em_span why)) < (sp_lo (em_span existing), sp_hi (em_span existing))
                    then merged\<lparr>em_span := em_span why, em_uninit := em_uninit why\<rparr> else merged)
      in merged\<lparr>em_blurred := em_blurred merged \<or> em_blurred why\<rparr>)"

definition join_entry :: "place_id \<times> emptied \<Rightarrow> moves_state \<times> bool \<Rightarrow> moves_state \<times> bool" where
  "join_entry e acc =
     (case (e, acc) of ((p, why), (into, changed)) \<Rightarrow>
        (case map_of into p of
           None \<Rightarrow> (bt_insert p why into, True)
         | Some existing \<Rightarrow>
             let merged = merge_emptied existing why
             in if merged \<noteq> existing then (bt_insert p merged into, True) else (into, changed)))"

definition join_states :: "moves_state \<Rightarrow> moves_state \<Rightarrow> moves_state \<times> bool" where
  "join_states into from_st = fold join_entry from_st (into, False)"

section \<open>One statement\<close>

text \<open>
  A use of \<open>place\<close> is reported once, against the first maybe-moved place that may share its storage:
  the use, its place, why, and the moved place.
\<close>

type_synonym use_report = "span \<times> place_id \<times> emptied \<times> place_id"

definition check_use :: "cfg \<Rightarrow> moves_state \<Rightarrow> place_id \<Rightarrow> span \<Rightarrow> use_report list" where
  "check_use c st p sp =
     (case find (\<lambda>(m, why). overlap_elem (place_of c m) (place_of c p)) st of
        None \<Rightarrow> []
      | Some (m, why) \<Rightarrow> [(sp, p, why, m)])"

definition blur :: "cfg \<Rightarrow> place_id \<Rightarrow> moves_state \<Rightarrow> moves_state" where
  "blur c written st =
     (case pl_base (place_of c written) of
        Global _ _ \<Rightarrow> st
      | Local l \<Rightarrow>
          map (\<lambda>(m, why). (m, if \<not> em_blurred why \<and> Sym l \<in> set (pl_proj (place_of c m)) then why\<lparr>em_blurred := True\<rparr> else why)) st)"

definition remove_keys :: "place_id set \<Rightarrow> moves_state \<Rightarrow> moves_state" where
  "remove_keys ks st = filter (\<lambda>(m, why). m \<notin> ks) st"

definition residue :: "cfg \<Rightarrow> sym_rule \<Rightarrow> place_id \<Rightarrow> place_id \<Rightarrow> place_id list" where
  "residue c r init m =
     filter (\<lambda>q. covers_may (place_of c m) (place_of c q) \<and>
                 \<not> covers_must (rule_now r) (place_of c init) (place_of c q) \<and>
                 \<not> covers_must (rule_now r) (place_of c q) (place_of c init))
       (map fst (pt_iter (cf_places c)))"

text \<open>\<open>entry(q).or_insert(why)\<close>\<close>

definition or_insert :: "emptied \<Rightarrow> place_id \<Rightarrow> moves_state \<Rightarrow> moves_state" where
  "or_insert why q st = (case map_of st q of Some _ \<Rightarrow> st | None \<Rightarrow> bt_insert q why st)"

definition expand_move :: "cfg \<Rightarrow> sym_rule \<Rightarrow> place_id \<Rightarrow> place_id \<times> emptied \<Rightarrow> moves_state \<Rightarrow> moves_state" where
  "expand_move c r init e st =
     (case e of (m, why) \<Rightarrow> fold (or_insert why) (residue c r init m) (remove_keys {m} st))"

definition init_place :: "cfg \<Rightarrow> sym_rule \<Rightarrow> place_id \<Rightarrow> moves_state \<Rightarrow> moves_state" where
  "init_place c r init st =
     (let revived = map fst (filter (\<lambda>(m, why). covers_must (\<lambda>l. rule_holds r l why) (place_of c init) (place_of c m)) st);
          st = remove_keys (set revived) st;
          containing = filter (\<lambda>(m, why). m \<noteq> init \<and>
                         covers_must (\<lambda>l. rule_holds r l why) (place_of c m) (place_of c init)) st;
          st = fold (expand_move c r init) containing st
      in blur c init st)"

fun check_uses :: "cfg \<Rightarrow> moves_state \<Rightarrow> (place_id \<times> span) list \<Rightarrow> use_report list" where
  "check_uses c st [] = []"
| "check_uses c st ((p, sp) # rest) = check_use c st p sp @ check_uses c st rest"

fun transfer :: "cfg \<Rightarrow> sym_rule \<Rightarrow> stmt \<Rightarrow> moves_state \<Rightarrow> moves_state \<times> use_report list" where
  "transfer c r (S_Read p sp) st = (st, check_use c st p sp)"
| "transfer c r (S_Move p sp) st = (blur c p (bt_insert p (Emptied_at sp False) st), check_use c st p sp)"
| "transfer c r (S_Uninit p sp) st = (blur c p (bt_insert p (Emptied_at sp True) st), [])"
| "transfer c r (S_Init p _) st = (init_place c r p st, [])"
| "transfer c r (S_Mutate p sp) st = (blur c p st, check_use c st p sp)"
| "transfer c r (S_Call cs) st =
     (fold (\<lambda>(p, _). blur c p) (cs_mut_args cs) st, check_uses c st (cs_mut_args cs @ cs_read_args cs))"
| "transfer c r (S_Borrow ln sp) st =
     (blur c (ln_place (loan_of c ln)) st, check_use c st (ln_place (loan_of c ln)) sp)"
| "transfer c r _ st = (st, [])"

fun transfer_all :: "cfg \<Rightarrow> sym_rule \<Rightarrow> stmt list \<Rightarrow> moves_state \<Rightarrow> moves_state" where
  "transfer_all c r [] st = st"
| "transfer_all c r (s # ss) st = transfer_all c r ss (fst (transfer c r s st))"

section \<open>The fixpoint\<close>

definition flow_out :: "cfg \<Rightarrow> block_id \<Rightarrow> moves_state \<Rightarrow> moves_state" where
  "flow_out c b st = transfer_all c (SymRule_new c) (bk_stmts (Cfg_block c b)) st"

definition flow_edges :: "cfg \<Rightarrow> block_id \<Rightarrow> block_id list" where
  "flow_edges c b = bk_succs (Cfg_block c b)"

definition entry_states :: "cfg \<Rightarrow> moves_state flow_entries option" where
  "entry_states c =
     worklist join_states (flow_out c) (flow_edges c) (flow_start (length (cf_blocks c)) (cf_entry c) [])"

section \<open>Diagnostics\<close>

definition report_use :: "cfg \<Rightarrow> use_report \<Rightarrow> mprose diagnostic" where
  "report_use c u =
     (case u of (use_span, p, why, moved) \<Rightarrow>
        let shown = show_place c p; shown_moved = show_place c moved
        in if em_uninit why then
             with_note (MProse ''uninit note'' [])
               (with_secondary (em_span why) (MProse ''declared without a value'' [shown_moved])
                 (with_label (MProse ''used while uninitialized'' [])
                   (Diagnostic_error ''E1001'' use_span (MProse ''used but has no value yet'' [shown]))))
           else
             let d = with_secondary (em_span why) (MProse ''moved here'' [shown_moved])
                       (with_label (MProse ''used after the move'' [])
                         (Diagnostic_error ''E1001'' use_span (MProse ''used after its value moved away'' [shown])));
                 d = (if p \<noteq> moved then
                        with_note
                          (if covers_must (\<lambda>_. True) (place_of c moved) (place_of c p)
                           then MProse ''is part of'' [shown, shown_moved]
                           else if covers_must (\<lambda>_. True) (place_of c p) (place_of c moved)
                           then MProse ''is part of'' [shown_moved, shown]
                           else MProse ''may reach'' [shown, shown_moved]) d
                      else d);
                 d = (case pl_base (place_of c moved) of
                        Local l \<Rightarrow>
                          if lc_param_mode (cf_locals c ! l) = Some None
                          then with_note (MProse ''read parameter'' [lc_name (cf_locals c ! l), shown_moved]) d else d
                      | Global _ _ \<Rightarrow> d);
                 d = (if em_span why \<notin> set (cf_pattern_moves c) then
                        with_suggestion
                          (Suggestion_new (MProse ''copy it at the move'' [])
                            [((em_span why)\<lparr>sp_hi := sp_lo (em_span why)\<rparr>, ''copy '')] Maybe) d
                      else d)
             in with_note (MProse ''re-initializing'' []) d)"

definition report_at_return :: "cfg \<Rightarrow> nat \<Rightarrow> place_id \<Rightarrow> emptied \<Rightarrow> mprose diagnostic" where
  "report_at_return c param moved why =
     (let name = lc_name (cf_locals c ! param); shown = show_place c moved
      in about name (em_span why)
           (with_note (MProse ''initialized at every return'' [shown])
             (with_secondary (lc_span (cf_locals c ! param)) (MProse ''the caller reads it again'' [name])
               (with_label (MProse ''moved here, and not stored back'' [])
                 (Diagnostic_error ''E1001'' (em_span why) (MProse ''may return with its value moved away'' [shown]))))))"

section \<open>The sweep\<close>

text \<open>Reports with the same use, place and move span are one; \<open>seen\<close> is the set of those made.\<close>

type_synonym seen_set = "(span \<times> place_id \<times> span) set"

fun sink_uses :: "use_report list \<Rightarrow> seen_set \<Rightarrow> use_report list \<times> seen_set" where
  "sink_uses [] seen = ([], seen)"
| "sink_uses ((use_span, p, why, moved) # us) seen =
     (if (use_span, p, em_span why) \<in> seen then sink_uses us seen
      else let (out, seen) = sink_uses us (insert (use_span, p, em_span why) seen)
           in ((use_span, p, why, moved) # out, seen))"

fun sweep_stmts :: "cfg \<Rightarrow> sym_rule \<Rightarrow> stmt list \<Rightarrow> moves_state \<Rightarrow> seen_set \<Rightarrow> use_report list \<times> seen_set" where
  "sweep_stmts c r [] st seen = ([], seen)"
| "sweep_stmts c r (s # ss) st seen =
     (case transfer c r s st of
        (st, uses) \<Rightarrow>
          let (out, seen) = sink_uses uses seen; (rest, seen) = sweep_stmts c r ss st seen
          in (out @ rest, seen))"

fun sweep :: "cfg \<Rightarrow> sym_rule \<Rightarrow> (block \<times> moves_state option) list \<Rightarrow> seen_set \<Rightarrow> use_report list \<times> seen_set" where
  "sweep c r [] seen = ([], seen)"
| "sweep c r ((b, None) # bs) seen = sweep c r bs seen"
| "sweep c r ((b, Some st) # bs) seen =
     (let (out, seen) = sweep_stmts c r (bk_stmts b) st seen; (rest, seen) = sweep c r bs seen
      in (out @ rest, seen))"

text \<open>The places of \<open>mut\<close> parameters that may be empty at an exit: once per parameter and move.\<close>

fun at_return :: "cfg \<Rightarrow> moves_state \<Rightarrow> span set \<Rightarrow> (nat \<Rightarrow> bool) \<Rightarrow> (nat \<times> span) set \<Rightarrow> (nat \<times> place_id \<times> emptied) list" where
  "at_return c [] used mine seen = []"
| "at_return c ((moved, why) # st) used mine seen =
     (case pl_base (place_of c moved) of
        Global _ _ \<Rightarrow> at_return c st used mine seen
      | Local l \<Rightarrow>
          if \<not> mine l \<or> lc_param_mode (cf_locals c ! l) \<noteq> Some (Some Mode_Mut) \<or> em_uninit why \<or>
             em_span why \<in> used \<or> (l, em_span why) \<in> seen
          then at_return c st used mine seen
          else (l, moved, why) # at_return c st used mine (insert (l, em_span why) seen))"

definition exit_reports :: "cfg \<Rightarrow> moves_state option list \<Rightarrow> span set \<Rightarrow> (nat \<times> place_id \<times> emptied) list" where
  "exit_reports c entry used =
     (let nested = concat (map snd (cf_nested_exits c))
      in concat (map (\<lambda>(b, params). case entry ! b of
                   None \<Rightarrow> []
                 | Some st \<Rightarrow> at_return c st used (\<lambda>l. l \<in> set params) {}) (cf_nested_exits c)) @
         (case entry ! cf_exit c of
            None \<Rightarrow> []
          | Some st \<Rightarrow> at_return c st used (\<lambda>l. l \<notin> set nested) {}))"

definition moves_check :: "cfg \<Rightarrow> mprose diagnostic list option" where
  "moves_check c =
     (case entry_states c of
        None \<Rightarrow> None
      | Some entry \<Rightarrow>
          (case sweep c (SymRule_new c) (zip (cf_blocks c) entry) {} of
             (uses, seen) \<Rightarrow>
               let used = (\<lambda>(_, _, sp). sp) ` seen
               in Some (map (report_use c) uses @
                        map (\<lambda>(l, moved, why). report_at_return c l moved why) (exit_reports c entry used))))"

end
