(* ===== verification/Mem_Paths.thy ===== *)
theory Mem_Paths
  imports Mem_Moves
begin

text \<open>
  What the moves pass is about. A run walks the check graph with an assignment of index values to locals and
  the set of its empty cells; \<open>leaf\<close> says which locations are cells, as the types of the program's data decide
  it. The abstract state covers an empty cell when one of its places denotes a location around the cell, now
  or, where the place is not blurred, under the same values of the locals that index it.
\<close>

section \<open>Runs\<close>

fun stmt_uses :: "cfg \<Rightarrow> stmt \<Rightarrow> place_id list" where
  "stmt_uses c (S_Read p _) = [p]"
| "stmt_uses c (S_Move p _) = [p]"
| "stmt_uses c (S_Mutate p _) = [p]"
| "stmt_uses c (S_Call cs) = map fst (cs_mut_args cs) @ map fst (cs_read_args cs)"
| "stmt_uses c (S_Borrow ln _) = [ln_place (loan_of c ln)]"
| "stmt_uses c _ = []"

fun stmt_writes :: "cfg \<Rightarrow> stmt \<Rightarrow> place_id list" where
  "stmt_writes c (S_Move p _) = [p]"
| "stmt_writes c (S_Init p _) = [p]"
| "stmt_writes c (S_Uninit p _) = [p]"
| "stmt_writes c (S_Mutate p _) = [p]"
| "stmt_writes c (S_Call cs) = map fst (cs_mut_args cs)"
| "stmt_writes c (S_Borrow ln _) = [ln_place (loan_of c ln)]"
| "stmt_writes c _ = []"

text \<open>A statement may change the locals it writes, and those no rule vouches for at any time.\<close>

definition keeps :: "cfg \<Rightarrow> sym_rule \<Rightarrow> place_id list \<Rightarrow> assigns \<Rightarrow> assigns \<Rightarrow> bool" where
  "keeps c r ps sg sg' \<longleftrightarrow> (\<forall>l. rule_now r l \<and> (\<forall>p\<in>set ps. pl_base (place_of c p) \<noteq> Local l) \<longrightarrow> sg' l = sg l)"

definition cells :: "(loc \<Rightarrow> bool) \<Rightarrow> loc \<Rightarrow> loc set" where
  "cells leaf l = {e. leaf e \<and> inside l e}"

inductive effect :: "cfg \<Rightarrow> (loc \<Rightarrow> bool) \<Rightarrow> assigns \<Rightarrow> stmt \<Rightarrow> loc set \<Rightarrow> loc set \<Rightarrow> bool" for c leaf sg where
  eff_move: "place_at sg (place_of c p) l \<Longrightarrow> effect c leaf sg (S_Move p sp) E (E \<union> cells leaf l)"
| eff_uninit: "place_at sg (place_of c p) l \<Longrightarrow> effect c leaf sg (S_Uninit p sp) E (E \<union> cells leaf l)"
| eff_init: "place_at sg (place_of c p) l \<Longrightarrow> effect c leaf sg (S_Init p sp) E (E - cells leaf l)"
| eff_other: "(\<And>p sp. s \<noteq> S_Move p sp \<and> s \<noteq> S_Uninit p sp \<and> s \<noteq> S_Init p sp) \<Longrightarrow> effect c leaf sg s E E"

type_synonym config = "block_id \<times> stmt list \<times> assigns \<times> loc set"

inductive reachable :: "cfg \<Rightarrow> (loc \<Rightarrow> bool) \<Rightarrow> config \<Rightarrow> bool" for c leaf where
  re_start: "reachable c leaf (cf_entry c, bk_stmts (Cfg_block c (cf_entry c)), sg, {})"
| re_stmt: "reachable c leaf (b, s # ss, sg, E) \<Longrightarrow> effect c leaf sg s E E' \<Longrightarrow>
    keeps c (SymRule_new c) (stmt_writes c s) sg sg' \<Longrightarrow> reachable c leaf (b, ss, sg', E')"
| re_jump: "reachable c leaf (b, [], sg, E) \<Longrightarrow> b' \<in> set (bk_succs (Cfg_block c b)) \<Longrightarrow>
    reachable c leaf (b', bk_stmts (Cfg_block c b'), sg, E)"

inductive_cases effect_move: "effect c leaf sg (S_Move p sp) E E'"
inductive_cases effect_uninit: "effect c leaf sg (S_Uninit p sp) E E'"
inductive_cases effect_init: "effect c leaf sg (S_Init p sp) E E'"

lemma effect_other: "effect c leaf sg s E E' \<Longrightarrow> (\<And>p sp. s \<noteq> S_Move p sp \<and> s \<noteq> S_Uninit p sp \<and> s \<noteq> S_Init p sp) \<Longrightarrow> E' = E"
  by (induction rule: effect.induct) auto

text \<open>A use of a place is bad when it meets an empty cell.\<close>

definition uses_ok :: "cfg \<Rightarrow> assigns \<Rightarrow> stmt \<Rightarrow> loc set \<Rightarrow> bool" where
  "uses_ok c sg s E \<longleftrightarrow> (\<forall>p\<in>set (stmt_uses c s). \<forall>l. place_at sg (place_of c p) l \<longrightarrow> (\<forall>e\<in>E. \<not> share l e))"

section \<open>Covering\<close>

definition agree :: "cfg \<Rightarrow> sym_rule \<Rightarrow> place_id \<Rightarrow> assigns \<Rightarrow> assigns \<Rightarrow> bool" where
  "agree c r m sg0 sg \<longleftrightarrow> (\<forall>l. Sym l \<in> set (pl_proj (place_of c m)) \<and> rule_now r l \<longrightarrow> sg0 l = sg l)"

definition covers_by :: "cfg \<Rightarrow> sym_rule \<Rightarrow> place_id \<Rightarrow> bool \<Rightarrow> assigns \<Rightarrow> loc \<Rightarrow> bool" where
  "covers_by c r m blurred sg e \<longleftrightarrow>
     (\<exists>sg0 l. place_at sg0 (place_of c m) l \<and> inside l e \<and> (blurred \<or> agree c r m sg0 sg))"

definition covered :: "cfg \<Rightarrow> sym_rule \<Rightarrow> moves_state \<Rightarrow> assigns \<Rightarrow> loc \<Rightarrow> bool" where
  "covered c r S sg e \<longleftrightarrow> (\<exists>(m, why)\<in>set S. covers_by c r m (em_blurred why) sg e)"

lemma coveredI: "(m, why) \<in> set S \<Longrightarrow> covers_by c r m (em_blurred why) sg e \<Longrightarrow> covered c r S sg e"
  by (auto simp: covered_def)

lemma covers_byI: "place_at sg0 (place_of c m) l \<Longrightarrow> inside l e \<Longrightarrow> b \<or> agree c r m sg0 sg \<Longrightarrow> covers_by c r m b sg e"
  unfolding covers_by_def by blast

lemma covers_by_now: "place_at sg (place_of c m) l \<Longrightarrow> inside l e \<Longrightarrow> covers_by c r m b sg e"
  by (rule covers_byI) (auto simp: agree_def)

lemma covers_by_blurred: "covers_by c r m b sg e \<Longrightarrow> covers_by c r m True sg' e"
  by (auto simp: covers_by_def)

lemma covers_by_mono: "covers_by c r m b sg e \<Longrightarrow> (b \<Longrightarrow> b') \<Longrightarrow> covers_by c r m b' sg e"
  by (auto simp: covers_by_def)

text \<open>The order of states: more places, more of them blurred.\<close>

definition below :: "moves_state \<Rightarrow> moves_state \<Rightarrow> bool" where
  "below S T \<longleftrightarrow> (\<forall>(m, why)\<in>set S. \<exists>why'. (m, why') \<in> set T \<and> (em_blurred why \<longrightarrow> em_blurred why'))"

lemma below_covered: "below S T \<Longrightarrow> covered c r S sg e \<Longrightarrow> covered c r T sg e"
  unfolding below_def covered_def by (smt (verit) case_prodE case_prodI2 covers_by_mono prod.inject)

lemma below_refl [simp]: "below S S"
  by (auto simp: below_def)

lemma below_trans: "below S T \<Longrightarrow> below T U \<Longrightarrow> below S U"
  unfolding below_def by fastforce

text \<open>Writing blurs the places indexed by the local written.\<close>

lemma blur_covered:
  assumes "covered c r S sg e" "keeps c r [p] sg sg'"
  shows "covered c r (blur c p S) sg' e"
proof -
  obtain m why sg0 l where m: "(m, why) \<in> set S" "place_at sg0 (place_of c m) l" "inside l e"
      "em_blurred why \<or> agree c r m sg0 sg"
    using assms(1) by (auto simp: covered_def covers_by_def)
  show ?thesis
  proof (cases "pl_base (place_of c p)")
    case (Global g n)
    then have "em_blurred why \<or> agree c r m sg0 sg'" using m(4) assms(2) by (auto simp: agree_def keeps_def)
    then show ?thesis using coveredI [OF m(1) covers_byI [OF m(2,3)]] Global by (simp add: blur_def)
  next
    case (Local k)
    define w where "w = (if \<not> em_blurred why \<and> Sym k \<in> set (pl_proj (place_of c m)) then why\<lparr>em_blurred := True\<rparr> else why)"
    have "(m, w) \<in> set (blur c p S)" using m(1) Local by (force simp: blur_def w_def)
    moreover have "covers_by c r m (em_blurred w) sg' e"
    proof (cases "em_blurred why \<or> Sym k \<in> set (pl_proj (place_of c m))")
      case False
      then have "sg l = sg' l" if "Sym l \<in> set (pl_proj (place_of c m)) \<and> rule_now r l" for l
        using assms(2) that Local by (auto simp: keeps_def)
      then have "agree c r m sg0 sg'" using m(4) False by (auto simp: agree_def)
      then show ?thesis by (intro covers_byI [OF m(2,3)] disjI2)
    qed (auto simp: w_def intro: covers_byI [OF m(2,3)])
    ultimately show ?thesis by (rule coveredI)
  qed
qed

lemma keeps_split:
  assumes "keeps c r (p # ps) sg sg'"
  obtains sg1 where "keeps c r [p] sg sg1" "keeps c r ps sg1 sg'"
proof (cases "pl_base (place_of c p)")
  case (Local k)
  define sg1 where "sg1 = (\<lambda>l. if rule_now r l \<and> l \<noteq> k then sg l else sg' l)"
  have "keeps c r [p] sg sg1" "keeps c r ps sg1 sg'" using assms Local by (auto simp: keeps_def sg1_def)
  then show thesis by (rule that)
next
  case (Global g n)
  have "keeps c r [p] sg sg" "keeps c r ps sg sg'" using assms Global by (auto simp: keeps_def)
  then show thesis by (rule that)
qed

lemma blurs_covered:
  "covered c r S sg e \<Longrightarrow> keeps c r (map fst ps) sg sg' \<Longrightarrow> covered c r (fold (\<lambda>(p, _). blur c p) ps S) sg' e"
proof (induction ps arbitrary: S sg)
  case Nil
  then have "agree c r m sg0 sg \<Longrightarrow> agree c r m sg0 sg'" for m sg0 by (auto simp: agree_def keeps_def)
  then show ?case using Nil(1) unfolding covered_def covers_by_def by fastforce
next
  case (Cons x ps)
  obtain p sp where x: "x = (p, sp)" by (cases x)
  obtain sg1 where k: "keeps c r [p] sg sg1" "keeps c r (map fst ps) sg1 sg'"
    using Cons.prems(2) x by (auto elim: keeps_split)
  show ?case using Cons.IH [OF blur_covered [OF Cons.prems(1) k(1)] k(2)] x by simp
qed

section \<open>States stay maps over the table\<close>

definition state_ok :: "cfg \<Rightarrow> moves_state \<Rightarrow> bool" where
  "state_ok c S \<longleftrightarrow> bt_ok S \<and> fst ` set S \<subseteq> {..<length (pt_places (cf_places c))}"

lemma bt_insert_mem: "bt_ok S \<Longrightarrow> (m, w) \<in> set (bt_insert k v S) \<longleftrightarrow> (if m = k then w = v else (m, w) \<in> set S)"
  by (auto simp: bt_mem bt_insert_ok bt_insert_lookup)

lemma bt_one: "bt_ok S \<Longrightarrow> (m, w) \<in> set S \<Longrightarrow> (m, w') \<in> set S \<Longrightarrow> w = w'"
  by (simp add: bt_mem)

lemma bt_insert_fst: "fst ` set (bt_insert k v S) = insert k (fst ` set S)"
  using bt_insert_keys [of k v S] by simp

lemma state_insert: "state_ok c S \<Longrightarrow> p < length (pt_places (cf_places c)) \<Longrightarrow> state_ok c (bt_insert p v S)"
  by (simp add: state_ok_def bt_insert_ok bt_insert_fst)

lemma state_remove: "state_ok c S \<Longrightarrow> state_ok c (remove_keys ks S)"
  by (force simp: state_ok_def remove_keys_def bt_ok_def sorted_wrt_map intro: sorted_wrt_filter)

lemma blur_fst: "map fst (blur c p S) = map fst S"
  by (auto simp: blur_def split: base.split)

lemma state_blur: "state_ok c S \<Longrightarrow> state_ok c (blur c p S)"
  using blur_fst [of c p S] by (simp add: state_ok_def bt_ok_def flip: set_map)

lemma state_blurs: "state_ok c S \<Longrightarrow> state_ok c (fold (\<lambda>(p, _). blur c p) ps S)"
  by (induction ps arbitrary: S) (auto simp: state_blur)

lemma state_or_insert: "state_ok c S \<Longrightarrow> q < length (pt_places (cf_places c)) \<Longrightarrow> state_ok c (or_insert why q S)"
  by (simp add: or_insert_def state_insert split: option.split)

lemma state_or_inserts:
  "state_ok c S \<Longrightarrow> set qs \<subseteq> {..<length (pt_places (cf_places c))} \<Longrightarrow> state_ok c (fold (or_insert why) qs S)"
  by (induction qs arbitrary: S) (auto simp: state_or_insert)

lemma pt_iter_ids: "pt_ok t \<Longrightarrow> map fst (pt_iter t) = [0..<length (pt_places t)]"
  by (rule nth_equalityI)
     (auto simp: pt_iter_def enumerate_eq_zip pt_ok_def as_u32_def)

lemma residue_ids: "pt_ok (cf_places c) \<Longrightarrow> set (residue c r p m) \<subseteq> {..<length (pt_places (cf_places c))}"
  using pt_iter_ids [of "cf_places c"] by (auto simp: residue_def simp flip: set_map)

lemma state_expand: "pt_ok (cf_places c) \<Longrightarrow> state_ok c S \<Longrightarrow> state_ok c (expand_move c r p e S)"
  by (cases e) (simp add: expand_move_def state_or_inserts state_remove residue_ids)

lemma state_expands: "pt_ok (cf_places c) \<Longrightarrow> state_ok c S \<Longrightarrow> state_ok c (fold (expand_move c r p) es S)"
  by (induction es arbitrary: S) (auto simp: state_expand)

lemma state_init: "pt_ok (cf_places c) \<Longrightarrow> state_ok c S \<Longrightarrow> state_ok c (init_place c r p S)"
  by (simp add: init_place_def Let_def state_blur state_expands state_remove)

lemma transfer_state: "pt_ok (cf_places c) \<Longrightarrow> state_ok c S \<Longrightarrow> stmt_ok c s \<Longrightarrow> state_ok c (fst (transfer c r s S))"
  by (cases s) (auto simp: state_blur state_blurs state_insert state_init stmt_ok_def)

section \<open>What an initialization leaves covered\<close>

lemma covers_must_sym:
  assumes "covers_must ok a b" "Sym x \<in> set (pl_proj a)"
  shows "ok x \<and> Sym x \<in> set (pl_proj b)"
proof -
  obtain i where i: "i < length (pl_proj a)" "pl_proj a ! i = Sym x" using assms(2) by (auto simp: in_set_conv_nth)
  then have "must_elem ok (Sym x) (pl_proj b ! i)" "i < length (pl_proj b)"
    using assms(1) by (auto simp: covers_must_def zip_all_nth)
  then show ?thesis using nth_mem [of i "pl_proj b"] by (cases "pl_proj b ! i") auto
qed

lemma covers_must_place_at:
  assumes "covers_must ok a b" "place_at s1 a l" "\<And>x. ok x \<Longrightarrow> Sym x \<in> set (pl_proj a) \<Longrightarrow> s1 x = s2 x"
  shows "place_at s2 a l"
  unfolding place_at_def list_all2_conv_all_nth
proof (intro conjI allI impI)
  note len = place_at_length [OF assms(2)]
  show "fst l = pl_base a" "length (pl_proj a) = length (snd l)" using len by auto
  fix i assume i: "i < length (pl_proj a)"
  then have "must_elem ok (pl_proj a ! i) (pl_proj b ! i)" using assms(1) by (simp add: covers_must_def zip_all_nth)
  then show "step_at s2 (pl_proj a ! i) (snd l ! i)"
    using place_at_nth [OF assms(2) i] assms(3) nth_mem [OF i]
    by (cases "(ok, pl_proj a ! i, pl_proj b ! i)" rule: must_elem.cases) auto
qed

lemma covers_must_mono: "covers_must ok a b \<Longrightarrow> (\<And>x. ok x \<Longrightarrow> ok' x) \<Longrightarrow> covers_must ok' a b"
proof -
  assume a: "covers_must ok a b" and i: "\<And>x. ok x \<Longrightarrow> ok' x"
  have "must_elem ok x y \<Longrightarrow> must_elem ok' x y" for x y
    using i by (cases "(ok, x, y)" rule: must_elem.cases) auto
  then show ?thesis using a by (auto simp: covers_must_def zip_all_nth)
qed

lemma rule_holds_now: "rule_holds r x why \<Longrightarrow> rule_now r x \<and> \<not> em_blurred why"
  by (simp add: rule_holds_def rule_now_def)

text \<open>Entries outside the list expanded stay, and every residue place has an entry.\<close>

lemma or_insert_keeps: "bt_ok S \<Longrightarrow> (m, w) \<in> set S \<Longrightarrow> (m, w) \<in> set (or_insert why q S)"
  by (auto simp: or_insert_def bt_insert_mem bt_mem split: option.split)

lemma or_insert_has: "bt_ok S \<Longrightarrow> \<exists>w. (q, w) \<in> set (or_insert why q S)"
  by (auto simp: or_insert_def bt_insert_mem dest: map_of_SomeD split: option.split)

lemma or_insert_ok: "bt_ok S \<Longrightarrow> bt_ok (or_insert why q S)"
  by (simp add: or_insert_def bt_insert_ok split: option.split)

lemma or_inserts_keep: "bt_ok S \<Longrightarrow> (m, w) \<in> set S \<Longrightarrow> (m, w) \<in> set (fold (or_insert why) qs S)"
  by (induction qs arbitrary: S) (simp_all add: or_insert_keeps or_insert_ok)

lemma or_inserts_have: "bt_ok S \<Longrightarrow> q \<in> set qs \<Longrightarrow> \<exists>w. (q, w) \<in> set (fold (or_insert why) qs S)"
proof (induction qs arbitrary: S)
  case (Cons x qs)
  show ?case
  proof (cases "x = q")
    case True
    then show ?thesis using or_insert_has [OF Cons.prems(1)] or_inserts_keep [OF or_insert_ok [OF Cons.prems(1)]] by fastforce
  qed (use Cons in \<open>auto simp: or_insert_ok\<close>)
qed simp

lemma expand_keeps:
  assumes "state_ok c S" "(q, w) \<in> set S" "q \<noteq> fst e"
  shows "(q, w) \<in> set (expand_move c r p e S)"
proof -
  have "(q, w) \<in> set (remove_keys {fst e} S)" using assms by (auto simp: remove_keys_def)
  moreover have "bt_ok (remove_keys {fst e} S)" using state_remove [OF assms(1)] by (simp add: state_ok_def)
  ultimately show ?thesis using or_inserts_keep by (cases e) (simp add: expand_move_def)
qed

lemma expands_keep:
  "pt_ok (cf_places c) \<Longrightarrow> state_ok c S \<Longrightarrow> (q, w) \<in> set S \<Longrightarrow> q \<notin> fst ` set es \<Longrightarrow>
   (q, w) \<in> set (fold (expand_move c r p) es S)"
  by (induction es arbitrary: S) (auto simp: expand_keeps state_expand)

lemma expands_have:
  assumes "pt_ok (cf_places c)" "state_ok c S" "(m, why) \<in> set es" "q \<in> set (residue c r p m)" "q \<notin> fst ` set es"
  shows "\<exists>w. (q, w) \<in> set (fold (expand_move c r p) es S)"
  using assms(2,3,5)
proof (induction es arbitrary: S)
  case (Cons e es)
  note ok = state_expand [OF assms(1) Cons.prems(1), of r p e]
  show ?case
  proof (cases "e = (m, why)")
    case True
    have "bt_ok (remove_keys {m} S)" using state_remove [OF Cons.prems(1)] by (simp add: state_ok_def)
    from or_inserts_have [OF this assms(4)] obtain w where "(q, w) \<in> set (expand_move c r p e S)"
      using True by (auto simp: expand_move_def)
    then show ?thesis using expands_keep [OF assms(1) ok] Cons.prems(3) by fastforce
  qed (use Cons.IH [OF ok] Cons.prems in auto)
qed simp

end
