(* ===== verification/Mem_Sound.thy ===== *)
theory Mem_Sound
  imports Mem_Paths
begin

text \<open>
  The moves pass is sound: along every run of an accepted graph the abstract state covers the empty cells,
  so that no use meets one.
\<close>

section \<open>Statements\<close>

text \<open>
  What initializing part of a moved place relies on: the table has places for the cells of the rest. The
  lowering interns the fields beside every field it mentions for it.
\<close>

definition rest_named :: "cfg \<Rightarrow> sym_rule \<Rightarrow> (loc \<Rightarrow> bool) \<Rightarrow> place_id \<Rightarrow> bool" where
  "rest_named c r leaf p \<longleftrightarrow>
     (\<forall>m sg lp lm e. m < length (pt_places (cf_places c)) \<and> covers_must (rule_now r) (place_of c m) (place_of c p) \<and>
        place_at sg (place_of c p) lp \<and> place_at sg (place_of c m) lm \<and> e \<in> cells leaf lm - cells leaf lp \<longrightarrow>
        (\<exists>q\<in>set (residue c r p m). \<exists>lq. place_at sg (place_of c q) lq \<and> inside lq e))"

definition universe_ok :: "cfg \<Rightarrow> (loc \<Rightarrow> bool) \<Rightarrow> bool" where
  "universe_ok c leaf \<longleftrightarrow>
     (\<forall>b\<in>set (cf_blocks c). \<forall>p sp. S_Init p sp \<in> set (bk_stmts b) \<longrightarrow> rest_named c (SymRule_new c) leaf p)"

lemma init_expand_covered:
  assumes ok: "pt_ok (cf_places c)" "state_ok c S" and rn: "rest_named c r leaf p"
    and lp: "place_at sg (place_of c p) lp" "e \<notin> cells leaf lp" "leaf e"
    and es: "es = filter (\<lambda>(m, why). m \<noteq> p \<and> covers_must (\<lambda>l. rule_holds r l why) (place_of c m) (place_of c p)) S"
    and cv: "covered c r S sg e"
  shows "covered c r (fold (expand_move c r p) es S) sg e"
proof -
  obtain m why where m: "(m, why) \<in> set S" "covers_by c r m (em_blurred why) sg e"
    using cv by (auto simp: covered_def)
  show ?thesis
  proof (cases "m \<in> fst ` set es")
    case False
    then show ?thesis using coveredI [OF expands_keep [OF ok m(1)] m(2)] by simp
  next
    case True
    then obtain w where "(m, w) \<in> set es" by auto
    moreover have "w = why" using bt_one [OF _ m(1)] calculation ok(2) by (auto simp: es state_ok_def)
    ultimately have me: "(m, why) \<in> set es" by simp
    then have cm: "covers_must (\<lambda>l. rule_holds r l why) (place_of c m) (place_of c p)" by (simp add: es)
    obtain sg0 l where l: "place_at sg0 (place_of c m) l" "inside l e" "em_blurred why \<or> agree c r m sg0 sg"
      using m(2) by (auto simp: covers_by_def)
    have now: "place_at sg (place_of c m) l"
      by (rule covers_must_place_at [OF cm l(1)]) (use l(3) rule_holds_now in \<open>auto simp: agree_def\<close>)
    have mn: "covers_must (rule_now r) (place_of c m) (place_of c p)"
      by (rule covers_must_mono [OF cm]) (simp add: rule_holds_now)
    have "m < length (pt_places (cf_places c))" using ok(2) m(1) by (auto simp: state_ok_def)
    then obtain q lq where q: "q \<in> set (residue c r p m)" "place_at sg (place_of c q) lq" "inside lq e"
      using rn mn lp now l(2) unfolding rest_named_def cells_def by blast
    have "q \<notin> fst ` set es"
    proof
      assume "q \<in> fst ` set es"
      then obtain w where "covers_must (\<lambda>l. rule_holds r l w) (place_of c q) (place_of c p)" by (auto simp: es)
      then have "covers_must (rule_now r) (place_of c q) (place_of c p)"
        by (rule covers_must_mono) (simp add: rule_holds_now)
      then show False using q(1) by (simp add: residue_def)
    qed
    then obtain w where "(q, w) \<in> set (fold (expand_move c r p) es S)"
      using expands_have [OF ok me q(1)] by auto
    then show ?thesis by (rule coveredI) (rule covers_by_now [OF q(2,3)])
  qed
qed

lemma init_covered:
  assumes ok: "pt_ok (cf_places c)" "state_ok c S" and rn: "rest_named c r leaf p"
    and lp: "place_at sg (place_of c p) lp" "e \<notin> cells leaf lp" "leaf e"
    and k: "keeps c r [p] sg sg'" and cv: "covered c r S sg e"
  shows "covered c r (init_place c r p S) sg' e"
proof -
  define R where "R = set (map fst (filter (\<lambda>(m, why). covers_must (\<lambda>l. rule_holds r l why) (place_of c p) (place_of c m)) S))"
  obtain m why where m: "(m, why) \<in> set S" "covers_by c r m (em_blurred why) sg e"
    using cv by (auto simp: covered_def)
  obtain sg0 l where l: "place_at sg0 (place_of c m) l" "inside l e" "em_blurred why \<or> agree c r m sg0 sg"
    using m(2) by (auto simp: covers_by_def)
  have "m \<notin> R"
  proof
    assume "m \<in> R"
    then obtain w where "(m, w) \<in> set S" and cm: "covers_must (\<lambda>l. rule_holds r l w) (place_of c p) (place_of c m)"
      by (auto simp: R_def)
    then have "w = why" using bt_one [OF _ _ m(1)] ok(2) by (auto simp: state_ok_def)
    then have "sg x = sg0 x" if "Sym x \<in> set (pl_proj (place_of c p))" for x
      using covers_must_sym [OF cm that] l(3) rule_holds_now [of r x w] by (auto simp: agree_def)
    then have "inside lp l" by (intro covers_must_inside [OF cm lp(1) l(1)])
    then show False using l(2) lp(2,3) inside_trans by (auto simp: cells_def)
  qed
  then have "(m, why) \<in> set (remove_keys R S)" using m(1) by (simp add: remove_keys_def)
  then have "covered c r (remove_keys R S) sg e" using m(2) by (rule coveredI)
  from init_expand_covered [OF ok(1) state_remove [OF ok(2)] rn lp refl this]
  have "covered c r (blur c p (fold (expand_move c r p)
      (filter (\<lambda>(m, why). m \<noteq> p \<and> covers_must (\<lambda>l. rule_holds r l why) (place_of c m) (place_of c p)) (remove_keys R S))
      (remove_keys R S))) sg' e"
    by (rule blur_covered [OF _ k])
  then show ?thesis by (simp add: init_place_def Let_def R_def)
qed

text \<open>No report, no bad use.\<close>

lemma check_use_ok:
  assumes "check_use c S p sp = []" "covered c r S sg e" "place_at sg (place_of c p) l"
  shows "\<not> share l e"
proof
  assume sh: "share l e"
  obtain m why sg0 l0 where m: "(m, why) \<in> set S" "place_at sg0 (place_of c m) l0" "inside l0 e"
    using assms(2) by (auto simp: covered_def covers_by_def)
  have "share l0 l"
  proof (cases "inside l e")
    case True
    then show ?thesis by (rule inside_share [OF m(3)])
  next
    case False
    then have "inside e l" using sh by (simp add: share_def)
    then show ?thesis using m(3) inside_trans by (auto simp: share_def)
  qed
  then have "overlap_elem (place_of c m) (place_of c p)" by (rule overlap_share [OF m(2) assms(3)])
  moreover have "find (\<lambda>(m, why). overlap_elem (place_of c m) (place_of c p)) S = None"
    using assms(1) by (simp add: check_use_def split: option.splits prod.splits)
  ultimately show False using m(1) by (auto simp: find_None_iff)
qed

lemma check_uses_one: "check_uses c S ps = [] \<Longrightarrow> (p, sp) \<in> set ps \<Longrightarrow> check_use c S p sp = []"
  by (induction c S ps rule: check_uses.induct) auto

lemma transfer_uses_ok:
  assumes "snd (transfer c r s S) = []" "\<forall>e\<in>E. covered c r S sg e"
  shows "uses_ok c sg s E"
proof -
  have "\<exists>sp. check_use c S p sp = []" if "p \<in> set (stmt_uses c s)" for p
    using assms(1) that check_uses_one [of c S _ p] by (cases s) fastforce+
  then show ?thesis using assms(2) check_use_ok unfolding uses_ok_def by blast
qed

text \<open>One statement keeps the empty cells covered.\<close>

lemma insert_covered:
  assumes "bt_ok S" "covered c r S sg e" "\<And>w. (p, w) \<in> set S \<Longrightarrow> pl_proj (place_of c p) = []"
  shows "covered c r (bt_insert p v S) sg e"
proof -
  obtain m why where m: "(m, why) \<in> set S" "covers_by c r m (em_blurred why) sg e"
    using assms(2) by (auto simp: covered_def)
  show ?thesis
  proof (cases "m = p")
    case True
    obtain sg0 l where "place_at sg0 (place_of c p) l" "inside l e" using m(2) True by (auto simp: covers_by_def)
    moreover have "agree c r p sg0 sg" using assms(3) m(1) True by (simp add: agree_def)
    ultimately have "covers_by c r p (em_blurred v) sg e" by (intro covers_byI disjI2)
    then show ?thesis by (intro coveredI [of p v]) (simp_all add: bt_insert_mem assms(1))
  next
    case False
    then show ?thesis using m by (intro coveredI [of m why]) (simp_all add: bt_insert_mem assms(1))
  qed
qed

lemma insert_covers_cells:
  "bt_ok S \<Longrightarrow> place_at sg (place_of c p) l \<Longrightarrow> e \<in> cells leaf l \<Longrightarrow> covered c r (bt_insert p v S) sg e"
  by (intro coveredI [of p v]) (auto simp: bt_insert_mem cells_def intro: covers_by_now)

definition init_places_ok :: "cfg \<Rightarrow> (loc \<Rightarrow> bool) \<Rightarrow> stmt \<Rightarrow> bool" where
  "init_places_ok c leaf s \<longleftrightarrow>
     (\<forall>p sp. s = S_Init p sp \<longrightarrow> rest_named c (SymRule_new c) leaf p) \<and>
     (\<forall>p sp. s = S_Uninit p sp \<longrightarrow> pl_proj (place_of c p) = [])"

lemma overlap_elem_refl: "overlap_elem a a"
proof -
  have "may_elem x x" for x by (cases x) auto
  then show ?thesis by (simp add: overlap_elem_def zip_all_nth)
qed

lemma check_use_absent: "check_use c S p sp = [] \<Longrightarrow> (p, w) \<notin> set S"
  using overlap_elem_refl [of "place_of c p"]
  by (auto simp: check_use_def find_None_iff split: option.splits prod.splits)

lemma keeps_nil: "keeps c r [] sg sg' \<Longrightarrow> covered c r S sg e \<Longrightarrow> covered c r S sg' e"
  using blurs_covered [of c r S sg e "[]" sg'] by simp

lemma transfer_covered:
  assumes ok: "pt_ok (cf_places c)" "state_ok c S" "init_places_ok c leaf s" and r: "r = SymRule_new c"
    and nr: "snd (transfer c r s S) = []"
    and st: "effect c leaf sg s E E'" "keeps c r (stmt_writes c s) sg sg'"
    and cv: "\<forall>e\<in>E. leaf e \<and> covered c r S sg e" and e: "e \<in> E'"
  shows "leaf e \<and> covered c r (fst (transfer c r s S)) sg' e"
proof -
  have bt: "bt_ok S" using ok(2) by (simp add: state_ok_def)
  show ?thesis
  proof (cases s)
    case (S_Move p sp)
    then obtain l where l: "place_at sg (place_of c p) l" "E' = E \<union> cells leaf l" using st(1) by (auto elim: effect_move)
    have "covered c r (bt_insert p (Emptied_at sp False) S) sg e"
    proof (cases "e \<in> cells leaf l")
      case False
      have "(p, w) \<notin> set S" for w using check_use_absent [of c S p sp] nr S_Move by simp
      then show ?thesis using insert_covered [OF bt] cv e l(2) False by blast
    qed (rule insert_covers_cells [OF bt l(1)])
    then have "covered c r (fst (transfer c r s S)) sg' e" using blur_covered st(2) S_Move by simp
    then show ?thesis using cv e l(2) by (auto simp: cells_def)
  next
    case (S_Uninit p sp)
    then obtain l where l: "place_at sg (place_of c p) l" "E' = E \<union> cells leaf l" using st(1) by (auto elim: effect_uninit)
    have "covered c r (bt_insert p (Emptied_at sp True) S) sg e"
    proof (cases "e \<in> cells leaf l")
      case False
      have "pl_proj (place_of c p) = []" using ok(3) S_Uninit by (simp add: init_places_ok_def)
      then show ?thesis using insert_covered [OF bt] cv e l(2) False by blast
    qed (rule insert_covers_cells [OF bt l(1)])
    then have "covered c r (fst (transfer c r s S)) sg' e" using blur_covered st(2) S_Uninit by simp
    then show ?thesis using cv e l(2) by (auto simp: cells_def)
  next
    case (S_Init p sp)
    then obtain l where l: "place_at sg (place_of c p) l" "E' = E - cells leaf l" using st(1) by (auto elim: effect_init)
    have "rest_named c r leaf p" using ok(3) S_Init r by (simp add: init_places_ok_def)
    from init_covered [OF ok(1,2) this l(1), of e sg'] show ?thesis using e l(2) cv st(2) S_Init by simp
  next
    case (S_Call cs)
    then have "E' = E" using effect_other st(1) by blast
    then show ?thesis using S_Call cv e st(2) by (auto intro: blurs_covered)
  qed (use effect_other [OF st(1)] cv e st(2) in \<open>auto intro: keeps_nil blur_covered\<close>)
qed

end
