(* ===== verification/Mem_Fix.thy ===== *)
theory Mem_Fix
  imports Mem_Sound
begin

text \<open>
  The fixpoint loop of the moves pass: it ends on every graph, and leaves in each block's entry what every
  edge into the block brings.
\<close>

section \<open>Where entries come from\<close>

definition origin :: "cfg \<Rightarrow> base \<Rightarrow> span \<Rightarrow> bool \<Rightarrow> bool" where
  "origin c bs sp uninit \<longleftrightarrow>
     (\<exists>b\<in>set (cf_blocks c). \<exists>p. pl_base (place_of c p) = bs \<and>
        (if uninit then S_Uninit p sp else S_Move p sp) \<in> set (bk_stmts b))"

definition state_inv :: "cfg \<Rightarrow> moves_state \<Rightarrow> bool" where
  "state_inv c S \<longleftrightarrow> state_ok c S \<and> (\<forall>(m, w)\<in>set S. origin c (pl_base (place_of c m)) (em_span w) (em_uninit w))"

definition same_why :: "emptied \<Rightarrow> emptied \<Rightarrow> bool" where
  "same_why w w' \<longleftrightarrow> em_span w = em_span w' \<and> em_uninit w = em_uninit w'"

lemma origin_blur: "state_inv c S \<Longrightarrow> state_inv c (blur c p S)"
  unfolding state_inv_def using state_blur [of c S p] by (auto simp: blur_def split: base.splits)

lemma origin_blurs: "state_inv c S \<Longrightarrow> state_inv c (fold (\<lambda>(p, _). blur c p) ps S)"
  by (induction ps arbitrary: S) (auto simp: origin_blur)

lemma origin_insert:
  "state_inv c S \<Longrightarrow> p < length (pt_places (cf_places c)) \<Longrightarrow> origin c (pl_base (place_of c p)) (em_span v) (em_uninit v) \<Longrightarrow>
   state_inv c (bt_insert p v S)"
  unfolding state_inv_def using state_insert [of c S p v]
  by (auto simp: state_ok_def bt_insert_mem split: if_splits)

lemma origin_remove: "state_inv c S \<Longrightarrow> state_inv c (remove_keys ks S)"
  unfolding state_inv_def using state_remove [of c S ks] by (auto simp: remove_keys_def)

lemma origin_or_inserts:
  "state_inv c S \<Longrightarrow> (\<And>q. q \<in> set qs \<Longrightarrow> q < length (pt_places (cf_places c)) \<and>
     origin c (pl_base (place_of c q)) (em_span why) (em_uninit why)) \<Longrightarrow> state_inv c (fold (or_insert why) qs S)"
  by (induction qs arbitrary: S) (auto simp: or_insert_def origin_insert split: option.split)

lemma origin_expand:
  assumes "pt_ok (cf_places c)" "state_inv c S" "origin c (pl_base (place_of c m)) (em_span why) (em_uninit why)"
  shows "state_inv c (expand_move c r p (m, why) S)"
proof -
  have "q < length (pt_places (cf_places c)) \<and> origin c (pl_base (place_of c q)) (em_span why) (em_uninit why)"
    if "q \<in> set (residue c r p m)" for q
  proof
    show "q < length (pt_places (cf_places c))" using that residue_ids [OF assms(1)] by blast
    have "pl_base (place_of c q) = pl_base (place_of c m)" using that by (auto simp: residue_def covers_may_def)
    then show "origin c (pl_base (place_of c q)) (em_span why) (em_uninit why)" using assms(3) by simp
  qed
  then show ?thesis by (simp add: expand_move_def origin_or_inserts origin_remove assms(2))
qed

lemma origin_expands:
  "pt_ok (cf_places c) \<Longrightarrow> state_inv c S \<Longrightarrow>
   \<forall>(m, w)\<in>set es. origin c (pl_base (place_of c m)) (em_span w) (em_uninit w) \<Longrightarrow>
   state_inv c (fold (expand_move c r p) es S)"
  by (induction es arbitrary: S) (auto simp: origin_expand)

lemma origin_init:
  assumes "pt_ok (cf_places c)" "state_inv c S"
  shows "state_inv c (init_place c r p S)"
proof -
  have "state_inv c (remove_keys ks S)" for ks by (rule origin_remove [OF assms(2)])
  then show ?thesis unfolding init_place_def Let_def
    by (intro origin_blur origin_expands [OF assms(1)]) (auto simp: state_inv_def)
qed

lemma transfer_inv:
  assumes "pt_ok (cf_places c)" "state_inv c S" "stmt_ok c s" "b \<in> set (cf_blocks c)" "s \<in> set (bk_stmts b)"
  shows "state_inv c (fst (transfer c r s S))"
proof -
  have "origin c (pl_base (place_of c p)) sp u" if "s = (if u then S_Uninit p sp else S_Move p sp)" for p sp u
    unfolding origin_def using assms(4,5) that by blast
  from this [of False] this [of True] show ?thesis
    using assms(1-3) by (cases s) (auto simp: origin_blur origin_blurs origin_init stmt_ok_def Emptied_at_def intro!: origin_blur origin_insert)
qed

lemma transfer_all_inv:
  "pt_ok (cf_places c) \<Longrightarrow> state_inv c S \<Longrightarrow> list_all (stmt_ok c) ss \<Longrightarrow> b \<in> set (cf_blocks c) \<Longrightarrow>
   set ss \<subseteq> set (bk_stmts b) \<Longrightarrow> state_inv c (transfer_all c r ss S)"
  by (induction ss arbitrary: S) (auto intro: transfer_inv)

section \<open>Joining\<close>

text \<open>
  What a state knows, as a set: its places, those blurred, and for each place the spans at or after its own.
  Joining only adds to it.
\<close>

type_synonym fact = "place_id \<times> ((nat \<times> nat) + bool)"

definition at_span :: "emptied \<Rightarrow> nat \<times> nat" where
  "at_span w = (sp_lo (em_span w), sp_hi (em_span w))"

definition spans :: "cfg \<Rightarrow> (nat \<times> nat) set" where
  "spans c = {(sp_lo sp, sp_hi sp) | sp. \<exists>b\<in>set (cf_blocks c). \<exists>p. S_Uninit p sp \<in> set (bk_stmts b) \<or> S_Move p sp \<in> set (bk_stmts b)}"

definition knows :: "cfg \<Rightarrow> emptied \<Rightarrow> (nat \<times> nat) + bool \<Rightarrow> bool" where
  "knows c w f = (case f of Inl q \<Rightarrow> q \<in> spans c \<and> at_span w \<le> q | Inr x \<Rightarrow> x \<longrightarrow> em_blurred w)"

definition facts :: "cfg \<Rightarrow> moves_state \<Rightarrow> fact set" where
  "facts c S = {(m, f). \<exists>w. (m, w) \<in> set S \<and> knows c w f}"

lemma facts_iff: "bt_ok S \<Longrightarrow> (m, f) \<in> facts c S \<longleftrightarrow> (\<exists>w. map_of S m = Some w \<and> knows c w f)"
  by (simp add: facts_def bt_mem)

lemma origin_spans: "origin c bs (em_span w) u \<Longrightarrow> at_span w \<in> spans c"
  by (auto simp: origin_def at_span_def spans_def split: if_splits)

lemma merge_emptied_alt:
  "merge_emptied w v =
     (if at_span v < at_span w then \<lparr>em_span = em_span v, em_uninit = em_uninit v, em_blurred = em_blurred w \<or> em_blurred v\<rparr>
      else \<lparr>em_span = em_span w, em_uninit = em_uninit w, em_blurred = em_blurred w \<or> em_blurred v\<rparr>)"
  unfolding merge_emptied_def Let_def at_span_def [symmetric]
  by (cases "at_span v < at_span w"; simp_all only: if_True if_False simp_thms; cases w; simp only: emptied.simps)

lemma at_span_merge: "at_span (merge_emptied w v) = min (at_span w) (at_span v)"
proof -
  have "at_span \<lparr>em_span = em_span x, em_uninit = u, em_blurred = b\<rparr> = at_span x" for x u b
    by (simp only: at_span_def emptied.simps)
  then show ?thesis by (cases "at_span v < at_span w") (simp_all only: merge_emptied_alt if_True if_False, simp_all add: min.absorb1 min.absorb2 not_less less_imp_le)
qed

lemma merge_blurred: "em_blurred (merge_emptied w v) = (em_blurred w \<or> em_blurred v)"
  by (simp only: merge_emptied_alt emptied.simps split: if_split) blast

lemma merge_changes:
  assumes "merge_emptied w v \<noteq> w" "\<not> at_span v < at_span w"
  shows "em_blurred v \<and> \<not> em_blurred w"
proof (rule ccontr)
  assume "\<not> (em_blurred v \<and> \<not> em_blurred w)"
  then have "(em_blurred w \<or> em_blurred v) = em_blurred w" by blast
  then have "merge_emptied w v = w" using assms(2) by (cases w) (simp only: merge_emptied_alt if_False emptied.simps)
  then show False using assms(1) by blast
qed

lemma merge_why: "same_why (merge_emptied w v) w \<or> same_why (merge_emptied w v) v"
  by (simp only: merge_emptied_alt same_why_def emptied.simps split: if_split) blast

lemma join_entry_grows:
  assumes inv: "state_inv c S" and p: "p < length (pt_places (cf_places c))"
      "origin c (pl_base (place_of c p)) (em_span why) (em_uninit why)"
    and j: "join_entry (p, why) (S, ch) = (T, ch')"
  shows "state_inv c T" "facts c S \<subseteq> facts c T" "ch' \<Longrightarrow> ch \<or> facts c S \<subset> facts c T" "\<not> ch' \<Longrightarrow> T = S \<and> \<not> ch"
    "below S T" "\<exists>w. (p, w) \<in> set T \<and> (em_blurred why \<longrightarrow> em_blurred w)"
proof -
  have bt: "bt_ok S" using inv by (simp add: state_inv_def state_ok_def)
  have sp: "at_span why \<in> spans c" by (rule origin_spans [OF p(2)])
  define w0 where "w0 = (case map_of S p of None \<Rightarrow> why | Some w \<Rightarrow> merge_emptied w why)"
  have w0: "at_span w0 \<le> at_span why" "em_blurred why \<longrightarrow> em_blurred w0"
      "same_why w0 why \<or> (\<exists>w. map_of S p = Some w \<and> same_why w0 w)"
      "\<And>w. map_of S p = Some w \<Longrightarrow> at_span w0 \<le> at_span w \<and> (em_blurred w \<longrightarrow> em_blurred w0)"
    using merge_why [of _ why] by (auto simp: w0_def same_why_def at_span_merge merge_blurred split: option.split)
  have T: "T = (if map_of S p = Some w0 then S else bt_insert p w0 S)" "ch' \<longleftrightarrow> ch \<or> map_of S p \<noteq> Some w0"
    using j by (auto simp: join_entry_def w0_def Let_def split: option.splits if_splits)
  have lk: "map_of T m = (if m = p then Some w0 else map_of S m)" for m
    using bt_insert_lookup [OF bt] by (simp add: T(1))
  have btT: "bt_ok T" using bt_insert_ok [OF bt] bt by (simp add: T(1))
  have "origin c (pl_base (place_of c p)) (em_span w0) (em_uninit w0)"
    using w0(3) p(2) inv bt_mem [OF bt] by (fastforce simp: same_why_def state_inv_def)
  then show "state_inv c T" using origin_insert [OF inv p(1)] inv by (simp add: T(1))
  show sub: "facts c S \<subseteq> facts c T"
  proof
    fix x assume "x \<in> facts c S"
    then show "x \<in> facts c T" using w0(4) facts_iff [OF bt] facts_iff [OF btT]
      by (cases x) (fastforce simp: lk knows_def split: sum.splits intro: order_trans)
  qed
  show "\<not> ch' \<Longrightarrow> T = S \<and> \<not> ch" by (simp add: T)
  show "\<exists>w. (p, w) \<in> set T \<and> (em_blurred why \<longrightarrow> em_blurred w)" using w0(2) by (auto simp: bt_mem [OF btT] lk)
  show "below S T"
    unfolding below_def using w0(4) by (auto simp: bt_mem [OF btT] bt_mem [OF bt] lk)
  assume "ch'"
  show "ch \<or> facts c S \<subset> facts c T"
  proof (cases "map_of S p")
    case None
    then have "(p, Inr False) \<in> facts c T - facts c S" by (simp add: facts_iff [OF bt] facts_iff [OF btT] lk knows_def)
    then show ?thesis using sub by blast
  next
    case (Some w)
    show ?thesis
    proof (cases ch)
      case False
      then have m: "merge_emptied w why \<noteq> w" using \<open>ch'\<close> T(2) Some by (simp add: w0_def)
      have "\<exists>f. (p, f) \<in> facts c T - facts c S"
      proof (cases "at_span why < at_span w")
        case True
        then have "(p, Inl (at_span why)) \<in> facts c T - facts c S"
          using w0(1) sp Some by (simp add: facts_iff [OF bt] facts_iff [OF btT] lk knows_def)
        then show ?thesis by blast
      next
        case False
        then have "(p, Inr True) \<in> facts c T - facts c S"
          using merge_changes [OF m] w0(2) Some by (simp add: facts_iff [OF bt] facts_iff [OF btT] lk knows_def)
        then show ?thesis by blast
      qed
      then show ?thesis using sub by blast
    qed simp
  qed
qed

lemma join_fold_grows:
  assumes "state_inv c S" "\<forall>(p, w)\<in>set es. p < length (pt_places (cf_places c)) \<and> origin c (pl_base (place_of c p)) (em_span w) (em_uninit w)"
    "fold join_entry es (S, ch) = (T, ch')"
  shows "state_inv c T \<and> facts c S \<subseteq> facts c T \<and> (ch' \<longrightarrow> ch \<or> facts c S \<subset> facts c T) \<and> (\<not> ch' \<longrightarrow> T = S \<and> \<not> ch) \<and>
    below S T \<and> below es T"
  using assms
proof (induction es arbitrary: S ch)
  case (Cons e es)
  obtain p w where e: "e = (p, w)" by (cases e)
  obtain S1 ch1 where j: "join_entry (p, w) (S, ch) = (S1, ch1)" by (cases "join_entry (p, w) (S, ch)")
  note g = join_entry_grows [OF Cons.prems(1) _ _ j]
  have p: "p < length (pt_places (cf_places c))" "origin c (pl_base (place_of c p)) (em_span w) (em_uninit w)"
    using Cons.prems(2) e by auto
  note g = g [OF p]
  have fj: "fold join_entry es (S1, ch1) = (T, ch')" using Cons.prems(3) e j by simp
  then have ih: "state_inv c T \<and> facts c S1 \<subseteq> facts c T \<and> (ch' \<longrightarrow> ch1 \<or> facts c S1 \<subset> facts c T) \<and>
      (\<not> ch' \<longrightarrow> T = S1 \<and> \<not> ch1) \<and> below S1 T \<and> below es T"
    using Cons.IH [OF g(1) _ fj] Cons.prems(2) by auto
  obtain w1 where w1: "(p, w1) \<in> set S1" "em_blurred w \<longrightarrow> em_blurred w1" using g(6) by blast
  then obtain w2 where "(p, w2) \<in> set T" "em_blurred w1 \<longrightarrow> em_blurred w2" using ih unfolding below_def by blast
  then have "below (e # es) T" using ih w1(2) unfolding below_def e by auto
  then show ?case using ih g(2-4) below_trans [OF g(5)] by blast
qed (auto simp: below_def)

lemma join_states_grows:
  assumes "state_inv c S" "state_inv c X" "join_states S X = (T, ch)"
  shows "state_inv c T" "facts c S \<subseteq> facts c T" "ch \<Longrightarrow> facts c S \<subset> facts c T" "\<not> ch \<Longrightarrow> T = S" "below S T" "below X T"
proof -
  have "\<forall>(p, w)\<in>set X. p < length (pt_places (cf_places c)) \<and> origin c (pl_base (place_of c p)) (em_span w) (em_uninit w)"
    using assms(2) by (force simp: state_inv_def state_ok_def)
  from join_fold_grows [OF assms(1) this, of False T ch] assms(3)
  show "state_inv c T" "facts c S \<subseteq> facts c T" "ch \<Longrightarrow> facts c S \<subset> facts c T" "\<not> ch \<Longrightarrow> T = S" "below S T" "below X T"
    by (auto simp: join_states_def)
qed

section \<open>The work list\<close>

lemma block_ok:
  assumes "cfg_ok c" "b < length (cf_blocks c)"
  shows "list_all (stmt_ok c) (bk_stmts (Cfg_block c b))" "list_all (\<lambda>s. s < length (cf_blocks c)) (bk_succs (Cfg_block c b))"
    "Cfg_block c b \<in> set (cf_blocks c)" "pt_ok (cf_places c)"
  using assms nth_mem [OF assms(2)] by (auto simp: cfg_ok_def Cfg_block_def list_all_iff)

lemma finite_spans: "finite (spans c)"
proof -
  have "spans c \<subseteq> (\<Union>b\<in>set (cf_blocks c). \<Union>s\<in>set (bk_stmts b). {(sp_lo sp, sp_hi sp) | sp p. s = S_Uninit p sp \<or> s = S_Move p sp})"
    unfolding spans_def by blast
  moreover have "finite {(sp_lo sp, sp_hi sp) | sp p. s = S_Uninit p sp \<or> s = S_Move p sp}" for s
    by (cases s) auto
  ultimately show ?thesis by (elim finite_subset) blast
qed

definition moves_universe :: "cfg \<Rightarrow> fact set" where
  "moves_universe c = {..<length (pt_places (cf_places c))} \<times> (Inl ` spans c \<union> range Inr)"

lemma facts_all: "state_inv c S \<Longrightarrow> facts c S \<subseteq> moves_universe c"
proof
  fix y assume inv: "state_inv c S" and yf: "y \<in> facts c S"
  obtain m g w where y: "y = (m, g)" "(m, w) \<in> set S" "knows c w g" using yf by (cases y) (auto simp: facts_def)
  have "m < length (pt_places (cf_places c))" using inv y(2) by (auto simp: state_inv_def state_ok_def)
  then show "y \<in> moves_universe c" using y(1,3) by (cases g) (auto simp: knows_def moves_universe_def)
qed

interpretation moves: dataflow cfg_ok "\<lambda>c. length (cf_blocks c)" flow_edges join_states flow_out state_inv facts moves_universe
  below cf_entry "\<lambda>_. []"
proof
  fix c :: cfg and b assume ok: "cfg_ok c" and b: "b < length (cf_blocks c)"
  show "list_all (\<lambda>b'. b' < length (cf_blocks c)) (flow_edges c b)" using block_ok(2) [OF ok b] by (simp add: flow_edges_def)
  fix S assume "state_inv c S"
  then show "state_inv c (flow_out c b S)"
    unfolding flow_out_def by (rule transfer_all_inv [OF block_ok(4) [OF ok b] _ block_ok(1,3) [OF ok b]]) simp
next
  fix c :: cfg and S X T ch assume "cfg_ok c" "state_inv c S" "state_inv c X" "join_states S X = (T, ch)"
  then show "state_inv c T \<and> facts c S \<subseteq> facts c T \<and> (ch \<longrightarrow> facts c S \<subset> facts c T) \<and> (\<not> ch \<longrightarrow> T = S) \<and> below S T \<and> below X T"
    using join_states_grows [of c S X T ch] by blast
next
  fix c and S assume "state_inv c S"
  then show "facts c S \<subseteq> moves_universe c" by (rule facts_all)
next
  fix c show "finite (moves_universe c)" by (simp add: moves_universe_def finite_spans)
qed (auto simp: cfg_ok_def state_inv_def state_ok_def bt_ok_def intro: below_trans)

end
