(* ===== verification/Mem_Theorems.thy ===== *)
theory Mem_Theorems
  imports Mem_Fix "HOL-Library.Code_Target_Nat"
begin

text \<open>
  What the moves pass promises of a body it accepts: no use of a moved or unset value on any path, and every
  \<open>mut\<close> parameter whole where the function returns; and where it does not keep its word.
\<close>

section \<open>The sweep sees every use\<close>

lemma sink_uses_quiet: "fst (sink_uses us {}) = [] \<Longrightarrow> us = []"
  by (cases us) (auto split: prod.splits)

lemma sweep_stmts_quiet:
  "fst (sweep_stmts c r ss S {}) = [] \<Longrightarrow>
   snd (sweep_stmts c r ss S {}) = {} \<and> (\<forall>pre s post. ss = pre @ s # post \<longrightarrow> snd (transfer c r s (transfer_all c r pre S)) = [])"
proof (induction ss arbitrary: S)
  case (Cons s ss)
  obtain S1 us where t: "transfer c r s S = (S1, us)" by (cases "transfer c r s S")
  have "fst (sink_uses us {}) = []" using Cons.prems t by (auto split: prod.splits)
  then have us: "us = []" by (rule sink_uses_quiet)
  then have q: "fst (sweep_stmts c r ss S1 {}) = []" using Cons.prems t by (auto split: prod.splits)
  note ih = Cons.IH [OF q]
  have "snd (transfer c r s' (transfer_all c r pre S)) = []" if "s # ss = pre @ s' # post" for pre s' post
    using that ih t us by (cases pre) auto
  moreover have "snd (sweep_stmts c r (s # ss) S {}) = {}" using ih t us by (auto split: prod.splits)
  ultimately show ?case by blast
qed simp

lemma sweep_quiet:
  "fst (sweep c r bs {}) = [] \<Longrightarrow> snd (sweep c r bs {}) = {} \<and>
   (\<forall>(b, X)\<in>set bs. \<forall>S. X = Some S \<longrightarrow> fst (sweep_stmts c r (bk_stmts b) S {}) = [])"
proof (induction bs)
  case (Cons x bs)
  obtain b X where x: "x = (b, X)" by (cases x)
  show ?case
  proof (cases X)
    case (Some S)
    obtain out seen where o: "sweep_stmts c r (bk_stmts b) S {} = (out, seen)" by (cases "sweep_stmts c r (bk_stmts b) S {}")
    have "out = []" using Cons.prems o x Some by (auto split: prod.splits)
    then have "seen = {}" using sweep_stmts_quiet [of c r "bk_stmts b" S] o by simp
    then show ?thesis using Cons o x Some \<open>out = []\<close> by (auto split: prod.splits)
  qed (use Cons x in auto)
qed simp

definition accepted_entries :: "cfg \<Rightarrow> moves_state flow_entries \<Rightarrow> bool" where
  "accepted_entries c en \<longleftrightarrow>
     moves.solves c en \<and> exit_reports c en {} = [] \<and>
     (\<forall>b<length (cf_blocks c). \<forall>S pre s post. en ! b = Some S \<and> bk_stmts (Cfg_block c b) = pre @ s # post \<longrightarrow>
        snd (transfer c (SymRule_new c) s (transfer_all c (SymRule_new c) pre S)) = [])"

lemma accepted:
  assumes "cfg_ok c" "moves_check c = Some []"
  obtains en where "accepted_entries c en"
proof -
  let ?r = "SymRule_new c"
  obtain en where en: "entry_states c = Some en" "moves.solves c en" 
    by (rule moves.worklist_solves [OF assms(1)]) (auto simp: entry_states_def)
  have len: "length en = length (cf_blocks c)" using en(2) by (simp add: moves.solves_def)
  obtain us seen where sw: "sweep c ?r (zip (cf_blocks c) en) {} = (us, seen)" by (cases "sweep c ?r (zip (cf_blocks c) en) {}")
  have q: "us = []" "exit_reports c en ((\<lambda>(_, _, sp). sp) ` seen) = []"
    using assms(2) en(1) sw by (auto simp: moves_check_def Let_def)
  have sq: "seen = {}" "\<forall>(b, X)\<in>set (zip (cf_blocks c) en). \<forall>S. X = Some S \<longrightarrow> fst (sweep_stmts c ?r (bk_stmts b) S {}) = []"
    using sweep_quiet [of c ?r "zip (cf_blocks c) en"] sw q(1) by auto
  have "snd (transfer c ?r s (transfer_all c ?r pre S)) = []"
    if "b < length (cf_blocks c)" "en ! b = Some S" "bk_stmts (Cfg_block c b) = pre @ s # post" for b S pre s post
  proof -
    have "(cf_blocks c ! b, en ! b) \<in> set (zip (cf_blocks c) en)" using that(1) len by (auto simp: set_zip)
    then have "fst (sweep_stmts c ?r (bk_stmts (Cfg_block c b)) S {}) = []" using sq(2) that(2) by (auto simp: Cfg_block_def)
    then show ?thesis using sweep_stmts_quiet that(3) by blast
  qed
  then show thesis using that [of en] en(2) q(2) sq(1) by (simp add: accepted_entries_def)
qed

section \<open>Runs of accepted graphs\<close>

definition moves_hyps :: "cfg \<Rightarrow> (loc \<Rightarrow> bool) \<Rightarrow> bool" where
  "moves_hyps c leaf \<longleftrightarrow>
     cfg_ok c \<and> universe_ok c leaf \<and>
     list_all (\<lambda>b. list_all (\<lambda>s. case s of S_Uninit p sp \<Rightarrow> pl_proj (place_of c p) = [] | _ \<Rightarrow> True) (bk_stmts b)) (cf_blocks c)"

lemma transfer_all_snoc: "transfer_all c r (pre @ [s]) S = fst (transfer c r s (transfer_all c r pre S))"
  by (induction pre arbitrary: S) auto

definition walk_inv :: "cfg \<Rightarrow> (loc \<Rightarrow> bool) \<Rightarrow> moves_state flow_entries \<Rightarrow> config \<Rightarrow> bool" where
  "walk_inv c leaf en x \<longleftrightarrow>
     (case x of (b, ss, sg, E) \<Rightarrow> b < length (cf_blocks c) \<and>
        (\<exists>S pre. en ! b = Some S \<and> bk_stmts (Cfg_block c b) = pre @ ss \<and>
           (\<forall>e\<in>E. leaf e \<and> covered c (SymRule_new c) (transfer_all c (SymRule_new c) pre S) sg e)))"

lemma walk_inv_all:
  assumes hy: "moves_hyps c leaf" and en: "accepted_entries c en"
  shows "reachable c leaf x \<Longrightarrow> walk_inv c leaf en x"
proof (induction rule: reachable.induct)
  have ok: "cfg_ok c" using hy by (simp add: moves_hyps_def)
  let ?r = "SymRule_new c"
  {
    case (re_start sg)
    then show ?case using en ok by (auto simp: walk_inv_def accepted_entries_def moves.solves_def cfg_ok_def)
  next
    case (re_stmt b s ss sg E E' sg')
    obtain S pre where b: "b < length (cf_blocks c)" "en ! b = Some S" "bk_stmts (Cfg_block c b) = pre @ s # ss"
        and cv: "\<forall>e\<in>E. leaf e \<and> covered c ?r (transfer_all c ?r pre S) sg e"
      using re_stmt.IH by (auto simp: walk_inv_def)
    note bo = block_ok [OF ok b(1)]
    have "state_inv c S" using en b(1,2) by (auto simp: accepted_entries_def moves.solves_def)
    then have "state_inv c (transfer_all c ?r pre S)"
      by (rule transfer_all_inv [OF bo(4)]) (use bo(1,3) b(3) in auto)
    then have st: "state_ok c (transfer_all c ?r pre S)" by (simp add: state_inv_def)
    have "s \<in> set (bk_stmts (Cfg_block c b))" using b(3) by simp
    then have "init_places_ok c leaf s"
      using hy bo(3) by (fastforce simp: init_places_ok_def moves_hyps_def universe_ok_def list_all_iff)
    note tc = transfer_covered [OF bo(4) st this refl _ re_stmt.hyps(2,3) cv]
    have "snd (transfer c ?r s (transfer_all c ?r pre S)) = []" using en b by (auto simp: accepted_entries_def)
    then have "\<forall>e\<in>E'. leaf e \<and> covered c ?r (transfer_all c ?r (pre @ [s]) S) sg' e"
      using tc by (auto simp: transfer_all_snoc)
    then show ?case using b unfolding walk_inv_def by (auto intro!: exI [of _ "pre @ [s]"])
  next
    case (re_jump b sg E b')
    obtain S where b: "b < length (cf_blocks c)" "en ! b = Some S"
        and cv: "\<forall>e\<in>E. leaf e \<and> covered c ?r (transfer_all c ?r (bk_stmts (Cfg_block c b)) S) sg e"
      using re_jump.IH by (auto simp: walk_inv_def)
    have "moves.solves c en" using en by (simp add: accepted_entries_def)
    then obtain T where T: "en ! b' = Some T" "below (transfer_all c ?r (bk_stmts (Cfg_block c b)) S) T"
      using b re_jump.hyps(2) unfolding moves.solves_def flow_edges_def flow_out_def by blast
    then show ?case using cv below_covered block_ok(2) [OF ok b(1)] re_jump.hyps(2)
      by (fastforce simp: walk_inv_def list_all_iff)
  }
qed

section \<open>Exits\<close>

text \<open>The exits at which a parameter is answered for: those of its own function.\<close>

definition param_exit :: "cfg \<Rightarrow> nat \<Rightarrow> block_id \<Rightarrow> bool" where
  "param_exit c l b \<longleftrightarrow>
     (\<exists>params. (b, params) \<in> set (cf_nested_exits c) \<and> l \<in> set params) \<or>
     b = cf_exit c \<and> (\<forall>(_, params)\<in>set (cf_nested_exits c). l \<notin> set params)"

definition set_by_decl :: "cfg \<Rightarrow> nat \<Rightarrow> bool" where
  "set_by_decl c l \<longleftrightarrow> (\<exists>b\<in>set (cf_blocks c). \<exists>p sp. S_Uninit p sp \<in> set (bk_stmts b) \<and> pl_base (place_of c p) = Local l)"

lemma at_return_quiet:
  "at_return c S {} mine {} = [] \<Longrightarrow> (m, w) \<in> set S \<Longrightarrow> pl_base (place_of c m) = Local l \<Longrightarrow> mine l \<Longrightarrow>
   lc_param_mode (cf_locals c ! l) = Some (Some Mode_Mut) \<Longrightarrow> em_uninit w"
  by (induction S) (auto split: base.splits if_splits)

lemma exit_reports_quiet:
  assumes "exit_reports c en {} = []" "param_exit c l b" "en ! b = Some S"
  obtains mine where "mine l" "at_return c S {} mine {} = []"
proof -
  from assms(2) consider ps where "(b, ps) \<in> set (cf_nested_exits c)" "l \<in> set ps" |
      "b = cf_exit c" "l \<notin> set (concat (map snd (cf_nested_exits c)))"
    unfolding param_exit_def by fastforce
  then show thesis
  proof cases
    case (1 ps)
    have "\<forall>x\<in>set (cf_nested_exits c).
        (case x of (b, params) \<Rightarrow> case en ! b of None \<Rightarrow> [] | Some st \<Rightarrow> at_return c st {} (\<lambda>l. l \<in> set params) {}) = []"
      using assms(1) by (simp add: exit_reports_def Let_def)
    from bspec [OF this 1(1)] have "at_return c S {} (\<lambda>l. l \<in> set ps) {} = []" using assms(3) by simp
    then show thesis using that [of "\<lambda>l. l \<in> set ps"] 1(2) by simp
  next
    case 2
    then have "at_return c S {} (\<lambda>l. l \<notin> set (concat (map snd (cf_nested_exits c)))) {} = []"
      using assms(1,3) by (simp add: exit_reports_def Let_def)
    then show thesis by (rule that [of "\<lambda>l. l \<notin> set (concat (map snd (cf_nested_exits c)))", rotated]) (rule 2(2))
  qed
qed

section \<open>Naming the cells\<close>

text \<open>
  When every cell has a place spelled with fields and literals only, and no place goes below a cell, storing
  to part of a moved place loses nothing: the hypothesis of the soundness theorem holds.
\<close>

definition cells_named :: "cfg \<Rightarrow> (loc \<Rightarrow> bool) \<Rightarrow> bool" where
  "cells_named c leaf \<longleftrightarrow>
     (\<forall>e. leaf e \<longrightarrow> (\<exists>q<length (pt_places (cf_places c)). \<forall>sg. place_at sg (place_of c q) e)) \<and>
     (\<forall>e q sg l. leaf e \<and> q < length (pt_places (cf_places c)) \<and> place_at sg (place_of c q) l \<and> inside e l \<longrightarrow> l = e)"

lemma cells_named_rest:
  assumes "pt_ok (cf_places c)" "cells_named c leaf" "p < length (pt_places (cf_places c))"
  shows "rest_named c r leaf p"
  unfolding rest_named_def
proof (intro allI impI; elim conjE)
  fix m sg lp lm e
  assume m: "covers_must (rule_now r) (place_of c m) (place_of c p)"
    and lp: "place_at sg (place_of c p) lp" and lm: "place_at sg (place_of c m) lm"
    and e: "e \<in> cells leaf lm - cells leaf lp"
  then have el: "leaf e" "inside lm e" "\<not> inside lp e" by (auto simp: cells_def)
  then obtain q where q: "q < length (pt_places (cf_places c))" "\<And>sg. place_at sg (place_of c q) e"
    using assms(2) unfolding cells_named_def by blast
  have "overlap_elem (place_of c m) (place_of c q)" by (rule overlap_share [OF lm q(2) [of sg]]) (simp add: share_def el(2))
  then have "covers_may (place_of c m) (place_of c q)"
    using el(2) place_at_length [OF lm] place_at_length [OF q(2)] by (simp add: covers_may_def overlap_elem_def inside_nth)
  moreover have "\<not> covers_must (rule_now r) (place_of c p) (place_of c q)"
    using covers_must_inside [OF _ lp q(2) [of sg]] el(3) by blast
  moreover have "\<not> covers_must (rule_now r) (place_of c q) (place_of c p)"
  proof
    assume "covers_must (rule_now r) (place_of c q) (place_of c p)"
    then have "inside e lp" by (rule covers_must_inside [OF _ q(2) [of sg] lp]) simp
    then have "lp = e" using assms(2,3) lp el(1) unfolding cells_named_def by blast
    then show False using el(3) by simp
  qed
  moreover have "q \<in> set (map fst (pt_iter (cf_places c)))" using pt_iter_ids [OF assms(1)] q(1) by simp
  ultimately have "q \<in> set (residue c r p m)" by (simp add: residue_def)
  then show "\<exists>q\<in>set (residue c r p m). \<exists>lq. place_at sg (place_of c q) lq \<and> inside lq e" using q(2) inside_refl by blast
qed

lemma cells_named_universe:
  assumes "cfg_ok c" "cells_named c leaf"
  shows "universe_ok c leaf"
  unfolding universe_ok_def
proof (intro ballI allI impI)
  fix b p sp assume "b \<in> set (cf_blocks c)" "S_Init p sp \<in> set (bk_stmts b)"
  then have "stmt_ok c (S_Init p sp)" using assms(1) by (fastforce simp: cfg_ok_def list_all_iff)
  then have "p < length (pt_places (cf_places c))" by (simp add: stmt_ok_def)
  then show "rest_named c (SymRule_new c) leaf p" using cells_named_rest assms by (auto simp: cfg_ok_def)
qed

section \<open>Two graphs\<close>

text \<open>A function with a \<open>mut\<close> parameter of two fields moves one out, reads the other and stores the first back.\<close>

definition ex_field_places :: "mplace list" where
  "ex_field_places =
     [\<lparr>pl_base = Local 0, pl_proj = []\<rparr>, \<lparr>pl_base = Local 0, pl_proj = [Field ''a'']\<rparr>,
      \<lparr>pl_base = Local 0, pl_proj = [Field ''b'']\<rparr>, \<lparr>pl_base = Local 1, pl_proj = []\<rparr>]"

definition ex_fields :: cfg where
  "ex_fields =
     ex_cfg ex_field_places
       [ex_local ''s'' (Some (Some Mode_Mut)), ex_local ''t'' None]
       [\<lparr>bk_stmts = [S_Move 1 (at_byte 1), S_Init 3 (at_byte 2), S_Read 2 (at_byte 3), S_Init 1 (at_byte 4), S_Move 3 (at_byte 5)],
         bk_succs = [1], bk_trap = False\<rparr>,
        \<lparr>bk_stmts = [], bk_succs = [], bk_trap = False\<rparr>]"

definition ex_fields_leaf :: "loc \<Rightarrow> bool" where
  "ex_fields_leaf e \<longleftrightarrow> e \<in> {(Local 0, [CField ''a'']), (Local 0, [CField ''b'']), (Local 1, [])}"

text \<open>\<open>let ys = move xs; xs[0] = v; read xs\<close> for a list of two elements.\<close>

definition ex_list :: cfg where
  "ex_list =
     ex_cfg [\<lparr>pl_base = Local 0, pl_proj = []\<rparr>, \<lparr>pl_base = Local 1, pl_proj = []\<rparr>,
             \<lparr>pl_base = Local 0, pl_proj = [Lit (Key_Int 0)]\<rparr>]
       [ex_local ''xs'' None, ex_local ''ys'' None]
       [\<lparr>bk_stmts = [S_Init 0 (at_byte 0), S_Move 0 (at_byte 1), S_Init 1 (at_byte 2), S_Init 2 (at_byte 3), S_Read 0 (at_byte 4)],
         bk_succs = [1], bk_trap = False\<rparr>,
        \<lparr>bk_stmts = [], bk_succs = [], bk_trap = False\<rparr>]"

definition ex_list_leaf :: "loc \<Rightarrow> bool" where
  "ex_list_leaf e \<longleftrightarrow> e \<in> {(Local 0, [CElem (I_Int 0)]), (Local 0, [CElem (I_Int 1)]), (Local 1, [])}"

lemma ex_fields_places: "pt_places (cf_places ex_fields) = ex_field_places"
  by code_simp

lemma ex_list_places:
  "pt_places (cf_places ex_list) =
     [\<lparr>pl_base = Local 0, pl_proj = []\<rparr>, \<lparr>pl_base = Local 1, pl_proj = []\<rparr>, \<lparr>pl_base = Local 0, pl_proj = [Lit (Key_Int 0)]\<rparr>]"
  by code_simp

lemma ex_fields_accepted: "moves_check ex_fields = Some []"
  by code_simp

lemma ex_list_accepted: "moves_check ex_list = Some []"
  by code_simp

lemma ex_fields_hyps: "moves_hyps ex_fields ex_fields_leaf"
proof -
  have pt: "pt_ok (cf_places ex_fields)" unfolding ex_fields_def by (rule ex_cfg_ok) (simp add: ex_field_places_def)
  have "cf_entry ex_fields < length (cf_blocks ex_fields) \<and> cf_exit ex_fields < length (cf_blocks ex_fields) \<and>
     list_all (\<lambda>p. base_ok ex_fields (pl_base p)) (pt_places (cf_places ex_fields)) \<and>
     list_all (\<lambda>l. ln_place l < length (pt_places (cf_places ex_fields))) (cf_loans ex_fields) \<and>
     list_all (\<lambda>(b, _). b < length (cf_blocks ex_fields)) (cf_nested_exits ex_fields) \<and>
     list_all (\<lambda>b. list_all (stmt_ok ex_fields) (bk_stmts b) \<and> list_all (\<lambda>s. s < length (cf_blocks ex_fields)) (bk_succs b)) (cf_blocks ex_fields)"
    by code_simp
  then have ok: "cfg_ok ex_fields" using pt by (simp add: cfg_ok_def)
  have "\<exists>q<length ex_field_places. \<forall>sg. place_at sg (ex_field_places ! q) e" if ef: "ex_fields_leaf e" for e
  proof -
    consider "e = (Local 0, [CField ''a''])" | "e = (Local 0, [CField ''b''])" | "e = (Local 1, [])"
      using ef unfolding ex_fields_leaf_def by blast
    then show ?thesis
    proof cases
      case 1 then show ?thesis by (intro exI [of _ 1]) (simp add: place_at_def ex_field_places_def)
    next
      case 2 then show ?thesis by (intro exI [of _ 2]) (simp add: place_at_def ex_field_places_def)
    next
      case 3 then show ?thesis by (intro exI [of _ 3]) (simp add: place_at_def ex_field_places_def)
    qed
  qed
  moreover have "l = e"
    if "ex_fields_leaf e \<and> q < length ex_field_places \<and> place_at sg (ex_field_places ! q) l \<and> inside e l" for e l q sg
    using that unfolding ex_fields_leaf_def ex_field_places_def
    by (cases l; cases q rule: nat.exhaust) (auto simp: place_at_def inside_def nth_Cons' split: if_splits)
  ultimately have "cells_named ex_fields ex_fields_leaf" unfolding cells_named_def ex_fields_places by blast
  then have "universe_ok ex_fields ex_fields_leaf" by (rule cells_named_universe [OF ok])
  moreover have "list_all (\<lambda>b. list_all (\<lambda>s. case s of S_Uninit p sp \<Rightarrow> pl_proj (place_of ex_fields p) = [] | _ \<Rightarrow> True) (bk_stmts b)) (cf_blocks ex_fields)"
    by code_simp
  ultimately show ?thesis using ok by (simp add: moves_hyps_def)
qed

text \<open>Runs of the two, statement by statement.\<close>

lemma run_move:
  assumes "reachable c leaf (b, S_Move p sp # ss, sg, E)" "place_at sg (place_of c p) l"
  shows "reachable c leaf (b, ss, sg, E \<union> cells leaf l)"
  by (rule re_stmt [OF assms(1) eff_move [OF assms(2)]]) (simp add: keeps_def)

lemma run_init:
  assumes "reachable c leaf (b, S_Init p sp # ss, sg, E)" "place_at sg (place_of c p) l"
  shows "reachable c leaf (b, ss, sg, E - cells leaf l)"
  by (rule re_stmt [OF assms(1) eff_init [OF assms(2)]]) (simp add: keeps_def)

lemma run_read: "reachable c leaf (b, S_Read p sp # ss, sg, E) \<Longrightarrow> reachable c leaf (b, ss, sg, E)"
  by (rule re_stmt [OF _ eff_other]) (auto simp: keeps_def)

lemma ex_fields_run:
  "reachable ex_fields ex_fields_leaf
     (0, [S_Read 2 (at_byte 3), S_Init 1 (at_byte 4), S_Move 3 (at_byte 5)], \<lambda>_. I_Other 0, {(Local 0, [CField ''a''])})"
  "reachable ex_fields ex_fields_leaf (1, bk_stmts (Cfg_block ex_fields 1), \<lambda>_. I_Other 0, {(Local 1, [])})"
proof -
  let ?sg = "\<lambda>_. I_Other 0" and ?a = "(Local 0, [CField ''a'']) :: loc" and ?t = "(Local 1, []) :: loc"
  have cl: "cells ex_fields_leaf ?a = {?a}" "cells ex_fields_leaf ?t = {?t}"
    by (auto simp: cells_def ex_fields_leaf_def inside_def)
  have at: "place_at ?sg (place_of ex_fields 1) ?a" "place_at ?sg (place_of ex_fields 3) ?t"
    by (simp_all add: ex_fields_places ex_field_places_def place_at_def)
  have "bk_stmts (Cfg_block ex_fields (cf_entry ex_fields)) =
      [S_Move 1 (at_byte 1), S_Init 3 (at_byte 2), S_Read 2 (at_byte 3), S_Init 1 (at_byte 4), S_Move 3 (at_byte 5)]"
    "cf_entry ex_fields = 0" "bk_succs (Cfg_block ex_fields 0) = [1]"
    by (simp_all add: ex_fields_def ex_cfg_def Cfg_block_def)
  note blk = this
  have "reachable ex_fields ex_fields_leaf
      (0, [S_Move 1 (at_byte 1), S_Init 3 (at_byte 2), S_Read 2 (at_byte 3), S_Init 1 (at_byte 4), S_Move 3 (at_byte 5)], ?sg, {})"
    using re_start [of ex_fields ex_fields_leaf ?sg] blk by simp
  from run_init [OF run_move [OF this at(1)] at(2)]
  show 1: "reachable ex_fields ex_fields_leaf (0, [S_Read 2 (at_byte 3), S_Init 1 (at_byte 4), S_Move 3 (at_byte 5)], ?sg, {?a})"
    by (simp add: cl cl [unfolded One_nat_def])
  from run_move [OF run_init [OF run_read [OF 1] at(1)] at(2)]
  have "reachable ex_fields ex_fields_leaf (0, [], ?sg, {?t})" by (simp add: cl cl [unfolded One_nat_def])
  from re_jump [OF this, of 1] show "reachable ex_fields ex_fields_leaf (1, bk_stmts (Cfg_block ex_fields 1), ?sg, {?t})"
    by (simp add: blk)
qed

lemma ex_list_ok: "cfg_ok ex_list"
proof -
  have pt: "pt_ok (cf_places ex_list)" unfolding ex_list_def by (rule ex_cfg_ok) simp
  have "cf_entry ex_list < length (cf_blocks ex_list) \<and> cf_exit ex_list < length (cf_blocks ex_list) \<and>
     list_all (\<lambda>p. base_ok ex_list (pl_base p)) (pt_places (cf_places ex_list)) \<and>
     list_all (\<lambda>l. ln_place l < length (pt_places (cf_places ex_list))) (cf_loans ex_list) \<and>
     list_all (\<lambda>(b, _). b < length (cf_blocks ex_list)) (cf_nested_exits ex_list) \<and>
     list_all (\<lambda>b. list_all (stmt_ok ex_list) (bk_stmts b) \<and> list_all (\<lambda>s. s < length (cf_blocks ex_list)) (bk_succs b)) (cf_blocks ex_list)"
    by code_simp
  then show ?thesis using pt by (simp add: cfg_ok_def)
qed

lemma ex_list_run:
  "reachable ex_list ex_list_leaf (0, [S_Read 0 (at_byte 4)], \<lambda>_. I_Other 0, {(Local 0, [CElem (I_Int 1)])})"
proof -
  let ?sg = "\<lambda>_. I_Other 0" and ?x = "\<lambda>i. (Local 0, [CElem (I_Int i)]) :: loc" and ?y = "(Local 1, []) :: loc"
    and ?xs = "(Local 0, []) :: loc"
  have cl: "cells ex_list_leaf ?xs = {?x 0, ?x 1}" "cells ex_list_leaf (?x 0) = {?x 0}" "cells ex_list_leaf ?y = {?y}"
    by (auto simp: cells_def ex_list_leaf_def inside_def)
  have at: "place_at ?sg (place_of ex_list 0) ?xs" "place_at ?sg (place_of ex_list 1) ?y" "place_at ?sg (place_of ex_list 2) (?x 0)"
    by (simp_all add: ex_list_places place_at_def)
  have "reachable ex_list ex_list_leaf
      (0, [S_Init 0 (at_byte 0), S_Move 0 (at_byte 1), S_Init 1 (at_byte 2), S_Init 2 (at_byte 3), S_Read 0 (at_byte 4)], ?sg, {})"
    using re_start [of ex_list ex_list_leaf ?sg] by (simp add: ex_list_def ex_cfg_def Cfg_block_def)
  from run_init [OF run_init [OF run_move [OF run_init [OF this at(1)] at(1)] at(2)] at(3)]
  show ?thesis by (simp add: cl cl [unfolded One_nat_def] insert_Diff_if)
qed

section \<open>Properties\<close>





text \<open>
  C20. Under the assumptions of the property before it (a well-formed graph, places for the cells beside a stored
  part, only whole locals declared without a value), a \<open>mut\<close> parameter that no declaration leaves unset is whole
  at every return of its function: on no run of an accepted body does a cell of it arrive empty at the exit that
  answers for it, whether the function's own or, for the parameter of a nested function, the nested one's.
\<close>

theorem accepted_mut_params_whole:
  assumes "moves_hyps c leaf" "moves_check c = Some []" "reachable c leaf (b, bk_stmts (Cfg_block c b), sg, E)"
    and "param_exit c l b" "lc_param_mode (cf_locals c ! l) = Some (Some Mode_Mut)" "\<not> set_by_decl c l" "e \<in> E"
  shows "fst e \<noteq> Local l"
proof
  assume el: "fst e = Local l"
  have "cfg_ok c" using assms(1) by (simp add: moves_hyps_def)
  then obtain en where en: "accepted_entries c en" by (rule accepted [OF _ assms(2)])
  obtain S pre where S: "b < length (cf_blocks c)" "en ! b = Some S" "bk_stmts (Cfg_block c b) = pre @ bk_stmts (Cfg_block c b)"
      "\<forall>e\<in>E. covered c (SymRule_new c) (transfer_all c (SymRule_new c) pre S) sg e"
    using walk_inv_all [OF assms(1) en assms(3)] by (auto simp: walk_inv_def)
  then have "covered c (SymRule_new c) S sg e" using assms(7) by simp
  then obtain m w where m: "(m, w) \<in> set S" "pl_base (place_of c m) = Local l"
    using el place_at_length by (fastforce simp: covered_def covers_by_def inside_def)
  obtain mine where "mine l" "at_return c S {} mine {} = []"
    using exit_reports_quiet [OF _ assms(4) S(2)] en by (auto simp: accepted_entries_def)
  then have "em_uninit w" using at_return_quiet m assms(5) by blast
  moreover have "state_inv c S" using en S(1,2) by (auto simp: accepted_entries_def moves.solves_def)
  ultimately show False using m assms(6) by (fastforce simp: state_inv_def origin_def set_by_decl_def)
qed

theorem accepted_mut_params_whole_witness: "fst (Local 1, [] :: cstep list) \<noteq> Local 0"
  by (rule accepted_mut_params_whole [OF ex_fields_hyps ex_fields_accepted ex_fields_run(2)])
     (simp_all add: param_exit_def set_by_decl_def ex_fields_def ex_cfg_def ex_local_def)

text \<open>
  What the soundness of the pass rests on does not hold of the elements of a list: no element has a
  sibling in the table, so that after \<open>let ys = move xs\<close> a store to \<open>xs[0]\<close> leaves nothing of the move behind,
  and the pass accepts a read of the whole list, whose other elements are still empty.
\<close>

theorem element_store_revives_list:
  "moves_check ex_list = Some [] \<and> cfg_ok ex_list \<and>
   (\<exists>sg E. reachable ex_list ex_list_leaf (0, [S_Read 0 (at_byte 4)], sg, E) \<and> \<not> uses_ok ex_list sg (S_Read 0 (at_byte 4)) E)"
proof (intro conjI exI)
  show "moves_check ex_list = Some []" by (rule ex_list_accepted)
  show "cfg_ok ex_list" by (rule ex_list_ok)
  show "reachable ex_list ex_list_leaf (0, [S_Read 0 (at_byte 4)], \<lambda>_. I_Other 0, {(Local 0, [CElem (I_Int 1)])})"
    by (rule ex_list_run)
  show "\<not> uses_ok ex_list (\<lambda>_. I_Other 0) (S_Read 0 (at_byte 4)) {(Local 0, [CElem (I_Int 1)])}"
    by (auto simp: uses_ok_def ex_list_places place_at_def share_def inside_def intro!: exI [of _ "Local 0"])
qed

end
