(* ===== verification/Mem_Excl.thy ===== *)
theory Mem_Excl
  imports Mem_Moves "HOL-Library.Code_Target_Nat"
begin

text \<open>
  The exclusivity check of call surfaces, \<^verbatim>\<open>crates/wolf_mem/src/excl.rs\<close>: within one call a place passed \<open>mut\<close>
  has no other access path, and a place lent to the call does not move away in it. The pairs are decided by
  \<open>overlap_call\<close>, with the locals that keep their value through the call as its proof.
\<close>

section \<open>The check\<close>

definition call_proof :: "cfg \<Rightarrow> call_surface \<Rightarrow> index_proof" where
  "call_proof c cs =
     \<lparr>ip_stable = \<lambda>l. rule_now (SymRule_new c) l \<and> l \<notin> set (cs_unstable cs), ip_range = cf_induction c\<rparr>"

definition overlap_note :: "cfg \<Rightarrow> place_id \<Rightarrow> place_id \<Rightarrow> mprose" where
  "overlap_note c a b =
     (let sa = show_place c a; sb = show_place c b
      in if a = b then MProse ''the same place twice'' []
         else if \<not> spelled_prefix (place_of c a) (place_of c b) \<and>
                 (place_covers (place_of c a) (place_of c b) \<or> place_covers (place_of c b) (place_of c a))
         then MProse ''elements are one place'' [sa, sb]
         else if place_covers (place_of c a) (place_of c b) then MProse ''is inside'' [sb, sa]
         else if place_covers (place_of c b) (place_of c a) then MProse ''is inside'' [sa, sb]
         else MProse ''can reach the same memory'' [])"

definition mut_mut_report :: "cfg \<Rightarrow> place_id \<times> span \<Rightarrow> place_id \<times> span \<Rightarrow> mprose diagnostic" where
  "mut_mut_report c x y =
     (case (x, y) of ((m, mspan), (m2, m2span)) \<Rightarrow>
        with_note (overlap_note c m m2)
          (with_secondary mspan (MProse ''is passed mut here'' [show_place c m])
            (with_label (MProse ''second exclusive claim'' [])
              (Diagnostic_error ''E1002'' m2span (MProse ''cannot go mut here'' [show_place c m2, show_place c m])))))"

definition mut_read_report :: "cfg \<Rightarrow> place_id \<times> span \<Rightarrow> place_id \<times> span \<Rightarrow> mprose diagnostic" where
  "mut_read_report c x y =
     (case (x, y) of ((m, mspan), (r, rspan)) \<Rightarrow>
        with_note (overlap_note c m r)
          (with_secondary mspan (MProse ''is passed mut here'' [show_place c m])
            (with_label (MProse ''read of a place being mutated'' [])
              (Diagnostic_error ''E1002'' rspan (MProse ''is lent while mut'' [show_place c r, show_place c m])))))"

definition mut_take_report :: "cfg \<Rightarrow> place_id \<times> span \<Rightarrow> place_id \<times> span \<Rightarrow> mprose diagnostic" where
  "mut_take_report c x y =
     (case (x, y) of ((m, mspan), (t, tspan)) \<Rightarrow>
        with_secondary mspan (MProse ''is passed mut here'' [show_place c m])
          (with_label (MProse ''moved while being mutated'' [])
            (Diagnostic_error ''E1002'' tspan (MProse ''moves away while mut'' [show_place c t, show_place c m]))))"

definition read_take_report :: "cfg \<Rightarrow> place_id \<times> span \<Rightarrow> place_id \<times> span \<Rightarrow> mprose diagnostic" where
  "read_take_report c x y =
     (case (x, y) of ((r, rspan), (t, tspan)) \<Rightarrow>
        with_secondary rspan (MProse ''is read by this call'' [show_place c r])
          (with_label (MProse ''moved while lent'' [])
            (Diagnostic_error ''E1002'' tspan (MProse ''moves away while lent'' [show_place c t, show_place c r]))))"

text \<open>One claim against a list of others.\<close>

definition against ::
  "cfg \<Rightarrow> index_proof \<Rightarrow> (place_id \<times> span \<Rightarrow> place_id \<times> span \<Rightarrow> mprose diagnostic) \<Rightarrow> place_id \<times> span \<Rightarrow>
   (place_id \<times> span) list \<Rightarrow> mprose diagnostic list" where
  "against c pf report x ys =
     map (report x) (filter (\<lambda>y. overlap_call pf (place_of c (fst x)) (place_of c (fst y))) ys)"

fun mut_claims :: "cfg \<Rightarrow> index_proof \<Rightarrow> call_surface \<Rightarrow> (place_id \<times> span) list \<Rightarrow> mprose diagnostic list" where
  "mut_claims c pf cs [] = []"
| "mut_claims c pf cs (m # ms) =
     against c pf (mut_mut_report c) m ms @ against c pf (mut_read_report c) m (cs_read_args cs) @
     against c pf (mut_take_report c) m (cs_take_args cs) @ mut_claims c pf cs ms"

definition call_claims :: "cfg \<Rightarrow> call_surface \<Rightarrow> mprose diagnostic list" where
  "call_claims c cs =
     (let pf = call_proof c cs
      in mut_claims c pf cs (cs_mut_args cs) @
         concat (map (\<lambda>r. against c pf (read_take_report c) r (cs_take_args cs)) (cs_read_args cs)))"

definition excl_stmt :: "cfg \<Rightarrow> stmt \<Rightarrow> mprose diagnostic list" where
  "excl_stmt c s = (case s of S_Call cs \<Rightarrow> call_claims c cs | _ \<Rightarrow> [])"

definition excl_check :: "cfg \<Rightarrow> mprose diagnostic list" where
  "excl_check c = concat (map (\<lambda>b. concat (map (excl_stmt c) (bk_stmts b))) (cf_blocks c))"

section \<open>Which calls pass\<close>

text \<open>Two arguments of a call whose claims exclude each other, in the order they are compared.\<close>

definition clash :: "call_surface \<Rightarrow> place_id \<Rightarrow> place_id \<Rightarrow> bool" where
  "clash cs p q \<longleftrightarrow>
     (let muts = map fst (cs_mut_args cs); reads = fst ` set (cs_read_args cs); takes = fst ` set (cs_take_args cs)
      in (\<exists>i j. i < j \<and> j < length muts \<and> muts ! i = p \<and> muts ! j = q) \<or>
         p \<in> set muts \<and> q \<in> reads \<union> takes \<or> p \<in> reads \<and> q \<in> takes)"

lemma against_quiet:
  "against c pf rep x ys = [] \<longleftrightarrow> (\<forall>q\<in>fst ` set ys. \<not> overlap_call pf (place_of c (fst x)) (place_of c q))"
  by (auto simp: against_def filter_empty_conv)

lemma mut_claims_quiet:
  "mut_claims c pf cs ms = [] \<longleftrightarrow>
     sorted_wrt (\<lambda>p q. \<not> overlap_call pf (place_of c p) (place_of c q)) (map fst ms) \<and>
     (\<forall>p\<in>set (map fst ms). \<forall>q\<in>fst ` set (cs_read_args cs) \<union> fst ` set (cs_take_args cs).
        \<not> overlap_call pf (place_of c p) (place_of c q))"
proof (induction ms)
  case (Cons m ms)
  show ?case
    by (simp only: mut_claims.simps append_is_Nil_conv against_quiet Cons list.map sorted_wrt.simps set_map list.set ball_Un
        ball_simps) blast
qed simp

lemma call_claims_quiet:
  "call_claims c cs = [] \<longleftrightarrow> (\<forall>p q. clash cs p q \<longrightarrow> \<not> overlap_call (call_proof c cs) (place_of c p) (place_of c q))"
proof -
  define ok where "ok p q \<longleftrightarrow> \<not> overlap_call (call_proof c cs) (place_of c p) (place_of c q)" for p q
  have "call_claims c cs = [] \<longleftrightarrow> mut_claims c (call_proof c cs) cs (cs_mut_args cs) = [] \<and>
      (\<forall>p\<in>fst ` set (cs_read_args cs). \<forall>q\<in>fst ` set (cs_take_args cs). ok p q)"
    by (simp add: call_claims_def Let_def against_quiet ok_def)
  then show ?thesis
    unfolding mut_claims_quiet clash_def Let_def sorted_wrt_iff_nth_less ok_def [symmetric] by blast
qed

lemma excl_check_quiet:
  "excl_check c = [] \<longleftrightarrow> (\<forall>b\<in>set (cf_blocks c). \<forall>cs. S_Call cs \<in> set (bk_stmts b) \<longrightarrow> call_claims c cs = [])"
proof -
  have "excl_stmt c s = [] \<longleftrightarrow> (\<forall>cs. s = S_Call cs \<longrightarrow> call_claims c cs = [])" for s
    by (cases s) (auto simp: excl_stmt_def)
  then show ?thesis by (auto simp: excl_check_def)
qed

section \<open>An example\<close>

text \<open>\<open>f(mut xs[i], mut xs[i + 1])\<close>\<close>

definition ex_surface :: call_surface where
  "ex_surface =
     \<lparr>cs_callee = ''f'', cs_span = at_byte 0, cs_mut_args = [(0, at_byte 1), (1, at_byte 2)], cs_read_args = [],
      cs_take_args = [], cs_c_call = False, cs_unstable = []\<rparr>"

definition ex_call :: cfg where
  "ex_call =
     ex_cfg [\<lparr>pl_base = Local 0, pl_proj = [Sym 1]\<rparr>, \<lparr>pl_base = Local 0, pl_proj = [Off 1 1]\<rparr>]
       [ex_local ''xs'' None, ex_local ''i'' None]
       [\<lparr>bk_stmts = [S_Call ex_surface], bk_succs = [], bk_trap = False\<rparr>]"

lemma ex_call_accepted: "excl_check ex_call = []"
  by code_simp

lemma ex_call_block: "cf_blocks ex_call ! 0 \<in> set (cf_blocks ex_call)" "S_Call ex_surface \<in> set (bk_stmts (cf_blocks ex_call ! 0))"
  by (simp_all add: ex_call_def ex_cfg_def)

lemma ex_call_clash: "clash ex_surface 0 1"
  unfolding clash_def Let_def by (rule disjI1, rule exI [of _ 0], rule exI [of _ 1]) (simp add: ex_surface_def)

section \<open>Properties\<close>

text \<open>
  The exclusivity check refuses exactly the bodies with a clash: a body passes when no call of it passes
  \<open>mut\<close> a place that may overlap another argument's, or moves away one that may overlap a place it lends.
\<close>

theorem excl_check_exact:
  "excl_check c = [] \<longleftrightarrow>
     (\<forall>b\<in>set (cf_blocks c). \<forall>cs p q. S_Call cs \<in> set (bk_stmts b) \<and> clash cs p q \<longrightarrow>
        \<not> overlap_call (call_proof c cs) (place_of c p) (place_of c q))"
  unfolding excl_check_quiet call_claims_quiet by blast

theorem excl_check_exact_witness: "\<not> overlap_call (call_proof ex_call ex_surface) (place_of ex_call 0) (place_of ex_call 1)"
  using excl_check_exact [of ex_call] ex_call_accepted ex_call_block ex_call_clash by blast

text \<open>
  C11. In an accepted body the exclusive claims of a call are exclusive: as long as the locals the call leaves
  stable keep their values and the induction locals stay in their ranges while its arguments are evaluated (what
  \<open>proof_holds\<close> says of the two moments), the locations of two clashing arguments share no storage. Two
  arguments clash when both are claimed for mutation, when one is and the other is read or taken, or when one is read
  and the other taken.
\<close>

theorem accepted_calls_exclusive:
  assumes "excl_check c = []" "b \<in> set (cf_blocks c)" "S_Call cs \<in> set (bk_stmts b)"
    and "clash cs p q" "proof_holds (call_proof c cs) s1 s2" "place_at s1 (place_of c p) l" "place_at s2 (place_of c q) m"
  shows "\<not> share l m"
  using assms overlap_call_share call_claims_quiet [of c cs] by (auto simp: excl_check_quiet)

theorem accepted_calls_exclusive_witness:
  "\<not> share (Local 0, [CElem (I_Int 4)]) (Local 0, [CElem (I_Int 5)])"
proof (rule accepted_calls_exclusive [of ex_call "cf_blocks ex_call ! 0" ex_surface 0 1 "\<lambda>_. I_Int 4" "\<lambda>_. I_Int 4"])
  have pl: "pt_places (cf_places ex_call) = [\<lparr>pl_base = Local 0, pl_proj = [Sym 1]\<rparr>, \<lparr>pl_base = Local 0, pl_proj = [Off 1 1]\<rparr>]"
    by code_simp
  show "place_at (\<lambda>_. I_Int 4) (place_of ex_call 0) (Local 0, [CElem (I_Int 4)])"
    "place_at (\<lambda>_. I_Int 4) (place_of ex_call 1) (Local 0, [CElem (I_Int 5)])"
    by (simp_all add: pl place_at_def)
  show "proof_holds (call_proof ex_call ex_surface) (\<lambda>_. I_Int 4) (\<lambda>_. I_Int 4)"
    by (simp add: proof_holds_def call_proof_def ex_call_def ex_cfg_def)
qed (fact ex_call_accepted ex_call_block ex_call_clash)+

end
