(* ===== verification/Sema_Types.thy ===== *)
theory Sema_Types
  imports Wolf_Str
begin

text \<open>
  The interned type table, \<^verbatim>\<open>crates/wolf_sema/src/types.rs\<close>. The structure of a type has its children as a type
  argument: ids into the table here, whole types in \<open>Sema_Solutions\<close>. The hash map is an association list; the
  bound of \<open>u32\<close> on the number of types is left out.
\<close>

type_synonym ty_id = nat

datatype prim =
  P_Bool | P_Str | P_Byte | P_Int | P_Uint | P_I8 | P_I16 | P_I32 | P_I64 | P_U8 | P_U16 | P_U32 | P_U64 | P_F32 | P_F64 | P_Char

definition prim_name :: "prim \<Rightarrow> bytes" where
  "prim_name p =
     (case p of
        P_Bool \<Rightarrow> ''bool'' | P_Str \<Rightarrow> ''str'' | P_Byte \<Rightarrow> ''byte'' | P_Int \<Rightarrow> ''int'' | P_Uint \<Rightarrow> ''uint''
      | P_I8 \<Rightarrow> ''i8'' | P_I16 \<Rightarrow> ''i16'' | P_I32 \<Rightarrow> ''i32'' | P_I64 \<Rightarrow> ''i64''
      | P_U8 \<Rightarrow> ''u8'' | P_U16 \<Rightarrow> ''u16'' | P_U32 \<Rightarrow> ''u32'' | P_U64 \<Rightarrow> ''u64''
      | P_F32 \<Rightarrow> ''f32'' | P_F64 \<Rightarrow> ''f64'' | P_Char \<Rightarrow> ''char'')"

definition prim_from_name :: "bytes \<Rightarrow> prim option" where
  "prim_from_name name =
     (if name = ''bool'' then Some P_Bool else if name = ''str'' then Some P_Str else if name = ''byte'' then Some P_Byte
      else if name = ''int'' then Some P_Int else if name = ''uint'' then Some P_Uint
      else if name = ''i8'' then Some P_I8 else if name = ''i16'' then Some P_I16
      else if name = ''i32'' then Some P_I32 else if name = ''i64'' then Some P_I64
      else if name = ''u8'' then Some P_U8 else if name = ''u16'' then Some P_U16
      else if name = ''u32'' then Some P_U32 else if name = ''u64'' then Some P_U64
      else if name = ''f32'' then Some P_F32 else if name = ''f64'' then Some P_F64
      else if name = ''char'' then Some P_Char else None)"

definition prim_is_integer :: "prim \<Rightarrow> bool" where
  "prim_is_integer p \<longleftrightarrow> p \<in> {P_Int, P_Uint, P_I8, P_I16, P_I32, P_I64, P_U8, P_U16, P_U32, P_U64}"

definition prim_is_float :: "prim \<Rightarrow> bool" where
  "prim_is_float p \<longleftrightarrow> p \<in> {P_F32, P_F64}"

lemma prim_name_roundtrip: "prim_from_name (prim_name p) = Some p"
  by (cases p) (simp_all add: prim_from_name_def prim_name_def)

datatype meta_ty = Meta_TypeInfo | Meta_FieldList | Meta_Field | Meta_VariantList | Meta_TraitList

datatype 't ty_kind =
  TY_Error
| TY_Never
| TY_Unit
| TY_Prim prim
| TY_VaList
| TY_Wrapping 't
| TY_Tuple "'t list"
| TY_Fn "'t list" 't
| TY_ErrUnion 't 't
| TY_Row "(bytes \<times> 't list) list" "'t option"
| TY_InferredRow nat bytes
| TY_OpenTail
| TY_Range 't
| TY_Nominal nat bytes "'t list"
| TY_Rigid bytes
| TY_Var nat
| TY_Ptr 't
| TY_Shared 't
| TY_Handle 't
| TY_Weak 't
| TY_Distinct 't
| TY_List 't
| TY_Pool 't
| TY_Map 't 't
| TY_Chan 't
| TY_Mutex 't
| TY_TaskScope
| TY_Proc 't
| TY_ExitReason
| TY_Dyn nat bytes
| TY_Proj 't bytes
| TY_RegionTy
| TY_TypeTy
| TY_Meta meta_ty
| TY_Unsupported bytes

type_synonym kind = "ty_id ty_kind"

record type_table =
  tt_kinds :: "kind list"
  tt_map :: "(kind \<times> ty_id) list"

definition TypeTable_new :: type_table where
  "TypeTable_new = \<lparr>tt_kinds = [], tt_map = []\<rparr>"

definition tt_intern :: "kind \<Rightarrow> type_table \<Rightarrow> ty_id \<times> type_table" where
  "tt_intern k tb =
     (case map_of (tt_map tb) k of
        Some i \<Rightarrow> (i, tb)
      | None \<Rightarrow>
          let i = length (tt_kinds tb)
          in (i, tb\<lparr>tt_kinds := tt_kinds tb @ [k], tt_map := (k, i) # tt_map tb\<rparr>))"

definition tt_kind :: "type_table \<Rightarrow> ty_id \<Rightarrow> kind" where
  "tt_kind tb i = tt_kinds tb ! i"

definition tt_len :: "type_table \<Rightarrow> nat" where
  "tt_len tb = length (tt_kinds tb)"

text \<open>A row in canonical form: sorted by tag, the first payload of a repeated tag kept.\<close>

fun dedup_tags :: "(bytes \<times> 'a) list \<Rightarrow> (bytes \<times> 'a) list" where
  "dedup_tags [] = []"
| "dedup_tags [t] = [t]"
| "dedup_tags (t # u # ts) = (if fst u = fst t then dedup_tags (t # ts) else t # dedup_tags (u # ts))"

definition canon_tags :: "(bytes \<times> 'a) list \<Rightarrow> (bytes \<times> 'a) list" where
  "canon_tags tags = dedup_tags (sort_key fst tags)"

definition tt_row :: "(bytes \<times> ty_id list) list \<Rightarrow> ty_id option \<Rightarrow> type_table \<Rightarrow> ty_id \<times> type_table" where
  "tt_row tags tail tb = tt_intern (TY_Row (canon_tags tags) tail) tb"

definition tt_err_union :: "ty_id \<Rightarrow> ty_id \<Rightarrow> type_table \<Rightarrow> ty_id \<times> type_table" where
  "tt_err_union ok row tb = tt_intern (TY_ErrUnion ok row) tb"

definition tt_empty_row :: "type_table \<Rightarrow> ty_id \<times> type_table" where
  "tt_empty_row tb = tt_intern (TY_Row [] None) tb"

section \<open>Well-formed tables\<close>

text \<open>
  Children come before their type, a kind is listed once, the map is the inverse of the list and rows are
  canonical: hash-consing makes equal ids of equal structures.
\<close>

definition kids :: "'t ty_kind \<Rightarrow> 't set" where
  "kids k = set_ty_kind k"

definition row_ok :: "kind \<Rightarrow> bool" where
  "row_ok k \<longleftrightarrow> (case k of TY_Row tags _ \<Rightarrow> sorted_wrt (<) (map fst tags) | _ \<Rightarrow> True)"

definition tt_ok :: "type_table \<Rightarrow> bool" where
  "tt_ok tb \<longleftrightarrow>
     (\<forall>i<length (tt_kinds tb). (\<forall>t\<in>kids (tt_kinds tb ! i). t < i) \<and> row_ok (tt_kinds tb ! i)) \<and>
     (\<forall>k i. map_of (tt_map tb) k = Some i \<longleftrightarrow> i < length (tt_kinds tb) \<and> tt_kinds tb ! i = k)"

lemma tt_new_ok: "tt_ok TypeTable_new"
  by (simp add: tt_ok_def TypeTable_new_def)

lemma tt_intern_ok:
  assumes "tt_ok tb" "\<forall>t\<in>kids k. t < length (tt_kinds tb)" "row_ok k" "tt_intern k tb = (i, tb')"
  shows "tt_ok tb'" "i < length (tt_kinds tb')" "tt_kinds tb' ! i = k" "\<exists>ks. tt_kinds tb' = tt_kinds tb @ ks \<and> set ks \<subseteq> {k}"
proof -
  have "tt_ok tb' \<and> i < length (tt_kinds tb') \<and> tt_kinds tb' ! i = k \<and> (\<exists>ks. tt_kinds tb' = tt_kinds tb @ ks \<and> set ks \<subseteq> {k})"
  proof (cases "map_of (tt_map tb) k")
    case (Some j)
    then show ?thesis using assms by (auto simp: tt_intern_def tt_ok_def)
  next
    case None
    have tb': "i = length (tt_kinds tb)" "tb' = tb\<lparr>tt_kinds := tt_kinds tb @ [k], tt_map := (k, i) # tt_map tb\<rparr>"
      using None assms(4) by (auto simp: tt_intern_def Let_def)
    have new: "tt_kinds tb ! j \<noteq> k" if "j < length (tt_kinds tb)" for j
      using assms(1) None that by (metis option.distinct(1) tt_ok_def)
    have "tt_ok tb'"
      using assms(1-3) new by (auto simp: tt_ok_def tb' nth_append less_Suc_eq)
    then show ?thesis by (simp add: tb' nth_append)
  qed
  then show "tt_ok tb'" "i < length (tt_kinds tb')" "tt_kinds tb' ! i = k" "\<exists>ks. tt_kinds tb' = tt_kinds tb @ ks \<and> set ks \<subseteq> {k}"
    by auto
qed

section \<open>Canonical tags\<close>

lemma dedup_keys: "set (map fst (dedup_tags ts)) = set (map fst ts)"
  by (induction ts rule: dedup_tags.induct) auto

lemma dedup_strict: "sorted (map fst ts) \<Longrightarrow> sorted_wrt (<) (map fst (dedup_tags ts))"
proof (induction ts rule: dedup_tags.induct)
  case (3 t u ts)
  show ?case
  proof (cases "fst u = fst t")
    case False
    have "x \<in> fst ` set (dedup_tags (u # ts)) \<Longrightarrow> fst u \<le> x" for x
      using dedup_keys [of "u # ts"] 3(3) by auto
    moreover have "fst t < fst u" using False 3(3) by auto
    ultimately show ?thesis using 3 False by fastforce
  qed (use 3 in auto)
qed auto

lemma dedup_map_of: "sorted (map fst ts) \<Longrightarrow> map_of (dedup_tags ts) = map_of ts"
  by (induction ts rule: dedup_tags.induct) (auto simp: fun_eq_iff)

lemma map_of_sort: "map_of (sort_key fst ts) = map_of (ts :: ('a::linorder \<times> 'b) list)"
proof
  fix x
  have "filter (\<lambda>t. fst t = x) (sort_key fst ts) = filter (\<lambda>t. fst t = x) ts"
  proof -
    have "sorted (map fst (filter (\<lambda>t. fst t = x) ts))" by (induction ts) auto
    then show ?thesis by (simp add: filter_sort sort_key_id_if_sorted)
  qed
  moreover have "map_of us x = map_option snd (case filter (\<lambda>t. fst t = x) us of [] \<Rightarrow> None | t # _ \<Rightarrow> Some t)" for us :: "('a \<times> 'b) list"
    by (induction us) auto
  ultimately show "map_of (sort_key fst ts) x = map_of ts x" by simp
qed

lemma canon_strict: "sorted_wrt (<) (map fst (canon_tags ts))"
  unfolding canon_tags_def by (rule dedup_strict) simp

lemma canon_map_of: "map_of (canon_tags ts) = map_of ts"
  unfolding canon_tags_def by (simp add: dedup_map_of map_of_sort)

end
