(* ===== verification/Mem_Shared.thy ===== *)
theory Mem_Shared
  imports Mem_Cfg Sema_Types
begin

text \<open>
  The acyclicity law of strong \<open>shared\<close> edges, \<^verbatim>\<open>crates/wolf_mem/src/shared.rs\<close>, over the types and signatures of
  \<^verbatim>\<open>wolf_sema\<close> (\<^verbatim>\<open>types.rs\<close>, \<^verbatim>\<open>sig.rs\<close>; of a signature, what the check reads). A type id indexes the
  table of kinds; \<open>collect\<close> stops at depth 64. The search is a partial function: \<open>None\<close> is that it does not end.
\<close>

section \<open>Types and signatures\<close>

record field_sig =
  fs_name :: bytes
  fs_ty :: ty_id
  fs_span :: span

record variant_sig =
  vs_name :: bytes
  vs_payload :: "ty_id list"
  vs_span :: span

datatype item_sig = IS_Struct "field_sig list" | IS_Enum "variant_sig list" | IS_Distinct ty_id | IS_Other

record sig_tables =
  sg_kinds :: "kind list"
  sg_modules :: "(bytes \<times> item_sig) list list"

section \<open>Strong edges\<close>

type_synonym type_node = "nat \<times> bytes"

record strong_edge =
  ed_from :: type_node
  ed_to :: type_node
  ed_via_shared :: bool
  ed_span :: span

text \<open>\<open>s.contains("shared ")\<close>\<close>

definition contains_text :: "bytes \<Rightarrow> bytes \<Rightarrow> bool" where
  "contains_text s t = list_ex (\<lambda>i. take (length t) (drop i s) = t) [0..<Suc (length s)]"

text \<open>What \<open>collect\<close> pushes: edges, and the spans of types it cannot see through.\<close>

type_synonym collected = "strong_edge list \<times> span list"

definition both :: "collected list \<Rightarrow> collected" where
  "both cs = (concat (map fst cs), concat (map snd cs))"

text \<open>The types \<open>collect\<close> looks into, each with whether it lies behind a \<open>shared\<close>.\<close>

fun parts :: "kind \<Rightarrow> (bool \<times> ty_id) list" where
  "parts (TY_Shared t) = [(True, t)]"
| "parts (TY_List t) = [(False, t)]"
| "parts (TY_Pool t) = [(False, t)]"
| "parts (TY_Wrapping t) = [(False, t)]"
| "parts (TY_Distinct t) = [(False, t)]"
| "parts (TY_Range t) = [(False, t)]"
| "parts (TY_Map k v) = [(False, k), (False, v)]"
| "parts (TY_Tuple ts) = map (Pair False) ts"
| "parts (TY_ErrUnion t row) = [(False, t), (False, row)]"
| "parts (TY_Row tags _) = map (Pair False) (concat (map snd tags))"
| "parts _ = []"

definition leaf :: "type_node \<Rightarrow> span \<Rightarrow> bool \<Rightarrow> kind \<Rightarrow> collected" where
  "leaf from_node sp via k =
     (case k of
        TY_Nominal m name _ \<Rightarrow> ([\<lparr>ed_from = from_node, ed_to = (m, name), ed_via_shared = via, ed_span = sp\<rparr>], [])
      | TY_Unsupported s \<Rightarrow> if contains_text s ''shared '' then ([], [sp]) else ([], [])
      | _ \<Rightarrow> ([], []))"

text \<open>The levels left are \<open>65 - depth\<close>: there is none when \<open>depth > 64\<close>.\<close>

primrec collect :: "nat \<Rightarrow> sig_tables \<Rightarrow> ty_id \<Rightarrow> bool \<Rightarrow> type_node \<Rightarrow> span \<Rightarrow> collected" where
  "collect 0 sigs ty via from_node sp = ([], [])"
| "collect (Suc left) sigs ty via from_node sp =
     both (leaf from_node sp via (sg_kinds sigs ! ty) #
           map (\<lambda>(shared, t). collect left sigs t (via \<or> shared) from_node sp) (parts (sg_kinds sigs ! ty)))"

definition item_types :: "item_sig \<Rightarrow> (ty_id \<times> span) list" where
  "item_types s =
     (case s of
        IS_Struct fs \<Rightarrow> map (\<lambda>f. (fs_ty f, fs_span f)) fs
      | IS_Enum vs \<Rightarrow> concat (map (\<lambda>v. map (\<lambda>t. (t, vs_span v)) (vs_payload v)) vs)
      | _ \<Rightarrow> [])"

definition item_nodes :: "sig_tables \<Rightarrow> (type_node \<times> item_sig) list" where
  "item_nodes sigs = concat (map (\<lambda>(mi, items). map (\<lambda>(name, s). ((mi, name), s)) items) (enumerate 0 (sg_modules sigs)))"

definition all_edges :: "sig_tables \<Rightarrow> collected" where
  "all_edges sigs =
     both (concat (map (\<lambda>(n, s). map (\<lambda>(t, sp). collect 65 sigs t False n sp) (item_types s)) (item_nodes sigs)))"

section \<open>The search\<close>

definition targets :: "strong_edge list \<Rightarrow> type_node \<Rightarrow> type_node list" where
  "targets edges n = map ed_to (filter (\<lambda>e. ed_from e = n) edges)"

text \<open>
  \<open>dfs\<close> over a list of nodes to visit in turn: the recursion of the code and its loop over the edges of a node
  are one function. The result is whether the node was found, the nodes seen and the path to where it stands.
\<close>

type_synonym dfs_state = "type_node set \<times> type_node list"

partial_function (option) dfs :: "strong_edge list \<Rightarrow> type_node \<Rightarrow> type_node list \<Rightarrow> dfs_state \<Rightarrow> (bool \<times> dfs_state) option" where
  "dfs edges to curs st =
     (if curs = [] then Some (False, st)
      else if hd curs \<in> fst st then dfs edges to (tl curs) st
      else if hd curs = to then Some (True, insert (hd curs) (fst st), snd st @ [hd curs])
      else Option.bind (dfs edges to (targets edges (hd curs)) (insert (hd curs) (fst st), snd st @ [hd curs]))
             (\<lambda>r. if fst r then Some r else dfs edges to (tl curs) (fst (snd r), butlast (snd (snd r)))))"

declare dfs.simps [code]

definition strong_path :: "strong_edge list \<Rightarrow> type_node \<Rightarrow> type_node \<Rightarrow> type_node list option option" where
  "strong_path edges from_node to =
     (if from_node = to then Some (Some [to])
      else case dfs edges to [from_node] ({}, []) of
             None \<Rightarrow> None
           | Some (found, _, path) \<Rightarrow> Some (if found then Some path else None))"

section \<open>The check\<close>

definition shared_report :: "strong_edge \<Rightarrow> type_node list \<Rightarrow> mprose diagnostic" where
  "shared_report e path =
     (let cyc = snd (ed_from e) # map snd path;
          cyc = (if last cyc \<noteq> snd (ed_from e) then cyc @ [snd (ed_from e)] else cyc)
      in with_note (MProse ''strong shared references drop their target'' [snd (ed_to e)])
           (with_label (MProse ''this shared edge closes the cycle'' cyc)
             (Diagnostic_error ''E1006'' (ed_span e) (MProse ''holds a strong shared path back to itself'' [snd (ed_from e)]))))"

fun shared_reports :: "strong_edge list \<Rightarrow> strong_edge list \<Rightarrow> mprose diagnostic list option" where
  "shared_reports edges [] = Some []"
| "shared_reports edges (e # es) =
     (if \<not> ed_via_shared e then shared_reports edges es
      else case strong_path edges (ed_to e) (ed_from e) of
             None \<Rightarrow> None
           | Some None \<Rightarrow> shared_reports edges es
           | Some (Some path) \<Rightarrow> map_option ((#) (shared_report e path)) (shared_reports edges es))"

text \<open>The diagnostics, and the spans refused as not yet checkable.\<close>

definition shared_check :: "sig_tables \<Rightarrow> (mprose diagnostic list \<times> span list) option" where
  "shared_check sigs =
     (case all_edges sigs of (edges, not_yet) \<Rightarrow> map_option (\<lambda>ds. (ds, not_yet)) (shared_reports edges edges))"

section \<open>The search is exact\<close>












section \<open>What a definition owns\<close>

















section \<open>Properties\<close>


text \<open>\<open>struct Box[T]: v: T\<close> and \<open>struct Node: next: Box[shared Node]\<close>\<close>

definition ex_generic :: sig_tables where
  "ex_generic =
     \<lparr>sg_kinds = [TY_Rigid ''T'', TY_Nominal 0 ''Node'' [], TY_Shared 1, TY_Nominal 0 ''Box'' [2]],
      sg_modules = [[(''Box'', IS_Struct [\<lparr>fs_name = ''v'', fs_ty = 0, fs_span = at_byte 0\<rparr>]),
                     (''Node'', IS_Struct [\<lparr>fs_name = ''next'', fs_ty = 3, fs_span = at_byte 1\<rparr>])]]\<rparr>"

lemma collect_nominal:
  "sg_kinds sigs ! ty = TY_Nominal m name args \<Longrightarrow>
     collect (Suc n) sigs ty via a sp = ([\<lparr>ed_from = a, ed_to = (m, name), ed_via_shared = via, ed_span = sp\<rparr>], [])"
  by (simp add: leaf_def both_def)

lemma collect_rigid: "sg_kinds sigs ! ty = TY_Rigid name \<Longrightarrow> collect (Suc n) sigs ty via a sp = ([], [])"
  by (simp add: leaf_def both_def)

lemma ex_generic_edges:
  "all_edges ex_generic = ([\<lparr>ed_from = (0, ''Node''), ed_to = (0, ''Box''), ed_via_shared = False, ed_span = at_byte 1\<rparr>], [])"
proof -
  have "all_edges ex_generic =
      both [collect (Suc 64) ex_generic 0 False (0, ''Box'') (at_byte 0), collect (Suc 64) ex_generic 3 False (0, ''Node'') (at_byte 1)]"
    by (simp add: all_edges_def item_nodes_def item_types_def ex_generic_def del: collect.simps)
  also have "collect (Suc 64) ex_generic 0 False (0, ''Box'') (at_byte 0) = ([], [])"
    by (rule collect_rigid) (simp add: ex_generic_def)
  also have "collect (Suc 64) ex_generic 3 False (0, ''Node'') (at_byte 1) =
      ([\<lparr>ed_from = (0, ''Node''), ed_to = (0, ''Box''), ed_via_shared = False, ed_span = at_byte 1\<rparr>], [])"
    by (rule collect_nominal) (simp add: ex_generic_def)
  finally show ?thesis by (simp add: both_def)
qed

text \<open>
  The check does not look into the arguments of a generic type: a node that owns a box of a \<open>shared\<close> node
  is a strong cycle, and passes.
\<close>

theorem generic_cycle_missed: "shared_check ex_generic = Some ([], [])"
  by (simp add: shared_check_def ex_generic_edges)

end
