(* ===== verification/Mem_Loans.thy ===== *)
theory Mem_Loans
  imports Mem_Cfg Mem_Flow "HOL-Library.Word" "HOL-Library.Code_Target_Nat"
begin

unbundle bit_operations_syntax

text \<open>
  The loans pass, \<^verbatim>\<open>crates/wolf_mem/src/loans.rs\<close>: which loans are in force at each statement and still
  needed by a later use of their borrower, as bits of a word indexed by loan. \<open>None\<close> is that the assertion on
  the number of loans fails or a loop does not end.
\<close>

section \<open>Bits\<close>

type_synonym loan_bits = "64 word"

definition MAX_LOANS :: nat where
  "MAX_LOANS = 64"

definition loan_bit :: "nat \<Rightarrow> loan_bits" where
  "loan_bit i = push_bit i 1"

record loan_flow =
  lf_live :: loan_bits
  lf_active :: loan_bits

section \<open>Borrower liveness\<close>

definition base_local :: "cfg \<Rightarrow> place_id \<Rightarrow> nat option" where
  "base_local c p = (case pl_base (place_of c p) of Local l \<Rightarrow> Some l | Global _ _ \<Rightarrow> None)"

fun borrower_of_stmt :: "cfg \<Rightarrow> stmt \<Rightarrow> nat option" where
  "borrower_of_stmt c (S_UseBorrower l _) = Some l"
| "borrower_of_stmt c (S_Read p _) = base_local c p"
| "borrower_of_stmt c (S_Move p _) = base_local c p"
| "borrower_of_stmt c _ = None"

definition borrower_bit :: "cfg \<Rightarrow> nat \<Rightarrow> loan_bits" where
  "borrower_bit c l = fold (\<lambda>(i, ln) bits. if ln_borrower ln = l then bits OR loan_bit i else bits) (enumerate 0 (cf_loans c)) 0"

definition live_before :: "cfg \<Rightarrow> stmt \<Rightarrow> loan_bits \<Rightarrow> loan_bits" where
  "live_before c s live = (case borrower_of_stmt c s of Some l \<Rightarrow> live OR borrower_bit c l | None \<Rightarrow> live)"

definition block_live_in :: "cfg \<Rightarrow> block_id \<Rightarrow> loan_bits \<Rightarrow> loan_bits" where
  "block_live_in c b live_out = foldr (live_before c) (bk_stmts (Cfg_block c b)) live_out"

definition live_out_of :: "cfg \<Rightarrow> loan_bits list \<Rightarrow> block_id \<Rightarrow> loan_bits" where
  "live_out_of c live_out b =
     fold (\<lambda>succ bits. bits OR block_live_in c succ (live_out ! succ)) (bk_succs (Cfg_block c b)) 0"

definition live_block :: "cfg \<Rightarrow> block_id \<Rightarrow> loan_bits list \<times> bool \<Rightarrow> loan_bits list \<times> bool" where
  "live_block c b acc =
     (case acc of (live_out, changed) \<Rightarrow>
        let bits = live_out_of c live_out b
        in if bits \<noteq> live_out ! b then (live_out[b := bits], True) else (live_out, changed))"

definition live_pass :: "cfg \<Rightarrow> loan_bits list \<Rightarrow> loan_bits list \<times> bool" where
  "live_pass c live_out = fold (live_block c) (rev [0..<length (cf_blocks c)]) (live_out, False)"

partial_function (option) live_loop :: "cfg \<Rightarrow> loan_bits list \<Rightarrow> loan_bits list option" where
  "live_loop c live_out =
     (let p = live_pass c live_out in if snd p then live_loop c (fst p) else Some (fst p))"

declare live_loop.simps [code]

section \<open>One statement\<close>

text \<open>A conflict is the span, its message and the loan it conflicts with.\<close>

type_synonym loan_report = "span \<times> mprose \<times> nat"

definition loan_conflicts :: "cfg \<Rightarrow> loan_flow \<Rightarrow> loan_bits \<Rightarrow> place_id \<Rightarrow> span \<Rightarrow> bool \<Rightarrow> loan_report list" where
  "loan_conflicts c fl borrower_live p sp write =
     (let needed = lf_live fl AND borrower_live
      in concat (map (\<lambda>(i, ln).
           if needed AND loan_bit i = 0 then []
           else if \<not> place_overlap (place_of c (ln_place ln)) (place_of c p) then []
           else let activated = lf_active fl AND loan_bit i \<noteq> 0; unique = ln_kind ln = Unique
                in if (if write then True else unique \<and> activated)
                   then [(sp, MProse (if write then ''cannot be changed while lent'' else ''cannot be read while lent'')
                            [show_place c p, show_place c (ln_place ln)], i)]
                   else [])
         (enumerate 0 (cf_loans c))))"

definition borrow_conflicts :: "cfg \<Rightarrow> loan_flow \<Rightarrow> loan_bits \<Rightarrow> nat \<Rightarrow> span \<Rightarrow> loan_report list" where
  "borrow_conflicts c fl borrower_live loan sp =
     (let needed = lf_live fl AND borrower_live; new = loan_of c loan
      in concat (map (\<lambda>(i, old).
           if needed AND loan_bit i = 0 \<or> i = loan then []
           else if \<not> place_overlap (place_of c (ln_place old)) (place_of c (ln_place new)) then []
           else let both_shared = ln_kind old = Shared \<and> ln_kind new = Shared;
                    old_reserved = ln_two_phase old \<and> lf_active fl AND loan_bit i = 0
                in if \<not> both_shared \<and> \<not> (old_reserved \<and> ln_kind new = Shared)
                   then [(sp, MProse ''is already lent out via'' [show_place c (ln_place new), show_place c (ln_place old)], i)]
                   else [])
         (enumerate 0 (cf_loans c))))"

definition kill_overlapping :: "cfg \<Rightarrow> place_id \<Rightarrow> loan_flow \<Rightarrow> loan_flow" where
  "kill_overlapping c p fl =
     fold (\<lambda>(i, ln) fl.
        if place_overlap (place_of c (ln_place ln)) (place_of c p)
        then fl\<lparr>lf_live := lf_live fl AND NOT (loan_bit i), lf_active := lf_active fl AND NOT (loan_bit i)\<rparr> else fl)
       (enumerate 0 (cf_loans c)) fl"

fun loan_transfer :: "cfg \<Rightarrow> stmt \<Rightarrow> loan_flow \<Rightarrow> loan_bits \<Rightarrow> loan_flow \<times> loan_report list" where
  "loan_transfer c (S_Read p sp) fl bl = (fl, loan_conflicts c fl bl p sp False)"
| "loan_transfer c (S_Mutate p sp) fl bl = (kill_overlapping c p fl, loan_conflicts c fl bl p sp True)"
| "loan_transfer c (S_Move p sp) fl bl = (kill_overlapping c p fl, loan_conflicts c fl bl p sp True)"
| "loan_transfer c (S_Init p sp) fl bl = (kill_overlapping c p fl, loan_conflicts c fl bl p sp True)"
| "loan_transfer c (S_Call cs) fl bl =
     (fl, concat (map (\<lambda>(p, sp). loan_conflicts c fl bl p sp True) (cs_mut_args cs)) @
          concat (map (\<lambda>(p, sp). loan_conflicts c fl bl p sp False) (cs_read_args cs)) @
          concat (map (\<lambda>(p, sp). loan_conflicts c fl bl p sp True) (cs_take_args cs)))"
| "loan_transfer c (S_Borrow loan sp) fl bl =
     (let live = lf_live fl OR loan_bit loan
      in (fl\<lparr>lf_live := live,
             lf_active := if \<not> ln_two_phase (loan_of c loan) then lf_active fl OR loan_bit loan else lf_active fl\<rparr>,
          borrow_conflicts c fl bl loan sp))"
| "loan_transfer c (S_Activate loan _) fl bl = (fl\<lparr>lf_active := lf_active fl OR loan_bit loan\<rparr>, [])"
| "loan_transfer c _ fl bl = (fl, [])"

definition loan_step :: "cfg \<Rightarrow> stmt \<Rightarrow> loan_flow \<Rightarrow> loan_flow" where
  "loan_step c s fl = fst (loan_transfer c s fl 0)"

section \<open>The check\<close>

definition loan_out :: "cfg \<Rightarrow> block_id \<Rightarrow> loan_flow \<Rightarrow> loan_flow" where
  "loan_out c b fl = fold (loan_step c) (bk_stmts (Cfg_block c b)) fl"

definition loan_join :: "loan_flow \<Rightarrow> loan_flow \<Rightarrow> loan_flow \<times> bool" where
  "loan_join prev fl =
     (let joined = \<lparr>lf_live = lf_live prev OR lf_live fl, lf_active = lf_active prev OR lf_active fl\<rparr>
      in (joined, joined \<noteq> prev))"

definition loan_edges :: "cfg \<Rightarrow> block_id \<Rightarrow> block_id list" where
  "loan_edges c b = bk_succs (Cfg_block c b)"

definition loan_entries :: "cfg \<Rightarrow> loan_flow flow_entries option" where
  "loan_entries c =
     worklist loan_join (loan_out c) (loan_edges c)
       (flow_start (length (cf_blocks c)) (cf_entry c) \<lparr>lf_live = 0, lf_active = 0\<rparr>)"

text \<open>\<open>live_after\<close>: what is live after each statement of a block, from its end.\<close>

fun live_after :: "cfg \<Rightarrow> stmt list \<Rightarrow> loan_bits \<Rightarrow> loan_bits list" where
  "live_after c [] live = []"
| "live_after c (s # ss) live = foldr (live_before c) ss live # live_after c ss live"

fun loan_sweep :: "cfg \<Rightarrow> (stmt \<times> loan_bits) list \<Rightarrow> loan_flow \<Rightarrow> loan_report list" where
  "loan_sweep c [] fl = []"
| "loan_sweep c ((s, after) # ss) fl =
     (case loan_transfer c s fl after of (fl', reports) \<Rightarrow> reports @ loan_sweep c ss fl')"

definition loan_block_reports :: "cfg \<Rightarrow> loan_bits list \<Rightarrow> loan_flow flow_entries \<Rightarrow> block_id \<Rightarrow> loan_report list" where
  "loan_block_reports c live_out entry b =
     (case entry ! b of
        None \<Rightarrow> []
      | Some fl \<Rightarrow>
          let stmts = bk_stmts (Cfg_block c b)
          in loan_sweep c (zip stmts (live_after c stmts (live_out ! b))) fl)"

definition loan_diag :: "cfg \<Rightarrow> loan_report \<Rightarrow> mprose diagnostic" where
  "loan_diag c r =
     (case r of (sp, msg, loan) \<Rightarrow>
        with_note (MProse ''the loan is still needed'' [])
          (with_secondary (ln_origin (loan_of c loan)) (MProse ''the value is lent here'' [])
            (with_label (MProse ''conflicting access'' []) (Diagnostic_error ''E1002'' sp msg))))"

definition loans_check :: "cfg \<Rightarrow> mprose diagnostic list option" where
  "loans_check c =
     (if cf_loans c = [] then Some []
      else if length (cf_loans c) > MAX_LOANS then None
      else case live_loop c (replicate (length (cf_blocks c)) 0) of
             None \<Rightarrow> None
           | Some live_out \<Rightarrow>
               (case loan_entries c of
                  None \<Rightarrow> None
                | Some entry \<Rightarrow>
                    Some (map (loan_diag c) (concat (map (loan_block_reports c live_out entry) [0..<length (cf_blocks c)])))))"

end
