(* ===== verification/Mem_Loans_Sound.thy ===== *)
theory Mem_Loans_Sound
  imports Mem_Loans
begin

text \<open>
  The loans pass is sound along every path of the check graph: between the statement that takes a loan and a
  later use of its borrower no statement conflicts with the loan. And both of its loops end.
\<close>

section \<open>Bits as sets\<close>

definition bits :: "loan_bits \<Rightarrow> nat set" where
  "bits w = {i. bit w i}"

lemma bits_or [simp]: "bits (v OR w) = bits v \<union> bits w"
  by (auto simp: bits_def bit_or_iff)

lemma bits_and [simp]: "bits (v AND w) = bits v \<inter> bits w"
  by (auto simp: bits_def bit_and_iff)

lemma bits_zero [simp]: "bits 0 = {}"
  by (simp add: bits_def)

lemma bits_loan: "bits (loan_bit i) = (if i < 64 then {i} else {})"
proof -
  have "bit (push_bit i (1 :: loan_bits)) j \<longleftrightarrow> j = i \<and> i < 64" for j
    by (simp only: bit_push_bit_iff bit_1_iff) auto
  then show ?thesis by (auto simp: bits_def loan_bit_def simp del: push_bit_of_1)
qed

lemma bits_less: "bits w \<subseteq> {..<64}"
  using bit_imp_le_length [of w] by (auto simp: bits_def)

lemma bits_eq: "v = w \<longleftrightarrow> bits v = bits w"
proof
  assume "bits v = bits w"
  then have "bit v n = bit w n" for n by (auto simp: bits_def set_eq_iff)
  then show "v = w" by (simp add: bit_eq_iff)
qed simp

lemma bits_and_not: "bits (v AND NOT w) = bits v - bits w"
  using bits_less [of v] by (auto simp: bits_def bit_and_iff bit_not_iff)

lemma bit_tested: "v AND loan_bit i = 0 \<longleftrightarrow> i \<notin> bits v"
  using bits_less [of v] by (auto simp: bits_eq bits_loan)

lemma fold_bits_or:
  "bits (fold (\<lambda>x w. w OR f x) xs w) = bits w \<union> (\<Union>x\<in>set xs. bits (f x))"
  by (induction xs arbitrary: w) auto

lemma borrower_bit_bits:
  assumes "length (cf_loans c) \<le> 64"
  shows "bits (borrower_bit c l) = {i. i < length (cf_loans c) \<and> ln_borrower (loan_of c i) = l}"
proof -
  have g: "bits (fold (\<lambda>(i, ln) w. if ln_borrower ln = l then w OR loan_bit i else w) xs w) =
      bits w \<union> (\<Union>(i, ln)\<in>set xs. if ln_borrower ln = l then bits (loan_bit i) else {})" for xs w
    by (induction xs arbitrary: w) (auto split: if_splits)
  show ?thesis
    using assms unfolding borrower_bit_def g
    by (auto simp: enumerate_eq_zip set_zip bits_loan split: if_splits)
qed

section \<open>Liveness\<close>

definition uses_borrower :: "cfg \<Rightarrow> nat \<Rightarrow> stmt \<Rightarrow> bool" where
  "uses_borrower c L s \<longleftrightarrow> borrower_of_stmt c s = Some (ln_borrower (loan_of c L))"

lemma live_before_bits:
  assumes "length (cf_loans c) \<le> 64"
  shows "bits (live_before c s w) = bits w \<union> {i. i < length (cf_loans c) \<and> uses_borrower c i s}"
  using assms by (auto simp: live_before_def uses_borrower_def borrower_bit_bits split: option.split)

lemma live_stmts_bits:
  assumes "length (cf_loans c) \<le> 64"
  shows "bits (foldr (live_before c) ss w) = bits w \<union> {i. i < length (cf_loans c) \<and> (\<exists>s\<in>set ss. uses_borrower c i s)}"
  by (induction ss) (auto simp: live_before_bits [OF assms])

lemma live_out_of_bits:
  "bits (live_out_of c lo b) = (\<Union>b'\<in>set (bk_succs (Cfg_block c b)). bits (block_live_in c b' (lo ! b')))"
  by (simp add: live_out_of_def fold_bits_or)

lemma live_out_mono:
  assumes "length (cf_loans c) \<le> 64" "\<And>b'. b' \<in> set (bk_succs (Cfg_block c b)) \<Longrightarrow> bits (lo ! b') \<subseteq> bits (lo' ! b')"
  shows "bits (live_out_of c lo b) \<subseteq> bits (live_out_of c lo' b)"
  using assms(2) by (fastforce simp: live_out_of_bits block_live_in_def live_stmts_bits [OF assms(1)])

text \<open>The loop only adds: each block's bits stay within what its successors ask for.\<close>

definition live_inv :: "cfg \<Rightarrow> loan_bits list \<Rightarrow> bool" where
  "live_inv c lo \<longleftrightarrow> length lo = length (cf_blocks c) \<and> (\<forall>b<length lo. bits (lo ! b) \<subseteq> bits (live_out_of c lo b))"

definition live_facts :: "loan_bits list \<Rightarrow> (nat \<times> nat) set" where
  "live_facts lo = {(b, i). b < length lo \<and> i \<in> bits (lo ! b)}"

lemma live_block_step:
  assumes "cfg_ok c" "length (cf_loans c) \<le> 64" "live_inv c lo" "b < length (cf_blocks c)" "live_block c b (lo, ch) = (lo', ch')"
  shows "live_inv c lo'" "live_facts lo \<subseteq> live_facts lo'" "ch' \<longleftrightarrow> ch \<or> lo' \<noteq> lo"
    "lo' \<noteq> lo \<Longrightarrow> live_facts lo \<subset> live_facts lo'" "lo' = lo \<Longrightarrow> lo ! b = live_out_of c lo b"
proof -
  let ?w = "live_out_of c lo b"
  have len: "length lo = length (cf_blocks c)" and sub: "\<And>b. b < length lo \<Longrightarrow> bits (lo ! b) \<subseteq> bits (live_out_of c lo b)"
    using assms(3) by (auto simp: live_inv_def)
  have lo': "lo' = (if ?w \<noteq> lo ! b then lo[b := ?w] else lo)" "ch' \<longleftrightarrow> ch \<or> ?w \<noteq> lo ! b"
    using assms(5) by (auto simp: live_block_def Let_def split: if_splits)
  have up: "bits (lo ! i) \<subseteq> bits (lo[b := ?w] ! i)" if "i < length lo" for i
    using that sub by (cases "i = b") auto
  have su: "\<And>i b'. i < length lo \<Longrightarrow> b' \<in> set (bk_succs (Cfg_block c i)) \<Longrightarrow> b' < length lo"
    using assms(1) len by (auto simp: cfg_ok_def list_all_iff Cfg_block_def)
  have mono: "bits (live_out_of c lo i) \<subseteq> bits (live_out_of c (lo[b := ?w]) i)" if "i < length lo" for i
    using that up su by (intro live_out_mono [OF assms(2)]) auto
  have "bits (lo[b := ?w] ! i) \<subseteq> bits (live_out_of c (lo[b := ?w]) i)" if "i < length lo" for i
    using that mono [OF that] sub [OF that] by (cases "i = b") auto
  then show "live_inv c lo'" using assms(3) len by (auto simp: live_inv_def lo')
  show f: "live_facts lo \<subseteq> live_facts lo'" using up by (auto simp: live_facts_def lo' split: if_splits)
  have ch: "lo[b := ?w] = lo \<longleftrightarrow> ?w = lo ! b" using assms(4) len by (metis list_update_id nth_list_update_eq)
  then show "ch' \<longleftrightarrow> ch \<or> lo' \<noteq> lo" "lo' = lo \<Longrightarrow> lo ! b = live_out_of c lo b" by (auto simp: lo' split: if_splits)
  show "lo' \<noteq> lo \<Longrightarrow> live_facts lo \<subset> live_facts lo'"
  proof -
    assume "lo' \<noteq> lo"
    then have w: "?w \<noteq> lo ! b" "lo' = lo[b := ?w]" by (auto simp: lo' split: if_splits)
    then obtain i where "i \<in> bits ?w" "i \<notin> bits (lo ! b)" using sub [of b] assms(4) len by (auto simp: bits_eq)
    then have "(b, i) \<in> live_facts lo' - live_facts lo" using assms(4) len by (simp add: live_facts_def w(2))
    then show ?thesis using f by blast
  qed
qed

lemma live_blocks_step:
  assumes "cfg_ok c" "length (cf_loans c) \<le> 64"
  shows "live_inv c lo \<Longrightarrow> set bs \<subseteq> {..<length (cf_blocks c)} \<Longrightarrow> fold (live_block c) bs (lo, ch) = (lo', ch') \<Longrightarrow>
    live_inv c lo' \<and> live_facts lo \<subseteq> live_facts lo' \<and> (ch' \<longleftrightarrow> ch \<or> lo' \<noteq> lo) \<and> (lo' \<noteq> lo \<longrightarrow> live_facts lo \<subset> live_facts lo') \<and>
    (lo' = lo \<longrightarrow> (\<forall>b\<in>set bs. lo ! b = live_out_of c lo b))"
proof (induction bs arbitrary: lo ch)
  case (Cons b bs)
  obtain lo1 ch1 where s: "live_block c b (lo, ch) = (lo1, ch1)" by (cases "live_block c b (lo, ch)")
  note st = live_block_step [OF assms Cons.prems(1) _ s]
  have b: "b < length (cf_blocks c)" using Cons.prems(2) by simp
  note st = st [OF b]
  have ih: "live_inv c lo' \<and> live_facts lo1 \<subseteq> live_facts lo' \<and> (ch' \<longleftrightarrow> ch1 \<or> lo' \<noteq> lo1) \<and>
      (lo' \<noteq> lo1 \<longrightarrow> live_facts lo1 \<subset> live_facts lo') \<and> (lo' = lo1 \<longrightarrow> (\<forall>b\<in>set bs. lo1 ! b = live_out_of c lo1 b))"
    using Cons.IH [OF st(1), of ch1] Cons.prems(2,3) s by simp
  have "lo' = lo \<Longrightarrow> lo1 = lo" using ih st(2,4) by blast
  then show ?case using ih st by auto
qed simp

text \<open>A fixed point of the pass: each block is live where its successors are.\<close>

definition live_solved :: "cfg \<Rightarrow> loan_bits list \<Rightarrow> bool" where
  "live_solved c lo \<longleftrightarrow> length lo = length (cf_blocks c) \<and> (\<forall>b<length lo. lo ! b = live_out_of c lo b)"

lemma live_loop_returns:
  assumes "cfg_ok c" "length (cf_loans c) \<le> 64"
  shows "live_inv c lo \<Longrightarrow> \<exists>lo'. live_loop c lo = Some lo' \<and> live_solved c lo'"
proof (induction "card ({..<length (cf_blocks c)} \<times> {..<64::nat}) - card (live_facts lo)" arbitrary: lo rule: less_induct)
  case less
  obtain lo' ch' where p: "live_pass c lo = (lo', ch')" by (cases "live_pass c lo")
  have bs: "set (rev [0..<length (cf_blocks c)]) \<subseteq> {..<length (cf_blocks c)}" by auto
  have st: "live_inv c lo'" "live_facts lo \<subseteq> live_facts lo'" "ch' \<longleftrightarrow> lo' \<noteq> lo" "lo' \<noteq> lo \<longrightarrow> live_facts lo \<subset> live_facts lo'"
      "lo' = lo \<longrightarrow> (\<forall>b<length (cf_blocks c). lo ! b = live_out_of c lo b)"
    using live_blocks_step [OF assms less.prems bs p [unfolded live_pass_def]] by auto
  show ?case
  proof (cases "lo' = lo")
    case True
    then have "live_loop c lo = Some lo" using st(3) p by (subst live_loop.simps) simp
    then show ?thesis using st(5) True less.prems by (simp add: live_solved_def live_inv_def)
  next
    case False
    let ?U = "{..<length (cf_blocks c)} \<times> {..<64::nat}"
    have sub: "live_facts lo' \<subseteq> ?U" using st(1) bits_less by (fastforce simp: live_facts_def live_inv_def)
    then have "finite (live_facts lo')" by (rule finite_subset) simp
    then have "card (live_facts lo) < card (live_facts lo')" using st(4) False psubset_card_mono by blast
    moreover have "card (live_facts lo') \<le> card ?U" using sub by (intro card_mono) auto
    ultimately have "card ?U - card (live_facts lo') < card ?U - card (live_facts lo)" by linarith
    then have "\<exists>lo''. live_loop c lo' = Some lo'' \<and> live_solved c lo''" using less.hyps st(1) by blast
    moreover have "live_loop c lo = live_loop c lo'" using st(3) False p by (subst live_loop.simps) simp
    ultimately show ?thesis by simp
  qed
qed

lemma live_start: "live_inv c (replicate (length (cf_blocks c)) 0)"
  by (simp add: live_inv_def)

section \<open>The forward loop\<close>

definition flow_facts :: "cfg \<Rightarrow> loan_flow \<Rightarrow> (nat + nat) set" where
  "flow_facts c fl = Inl ` bits (lf_live fl) \<union> Inr ` bits (lf_active fl)"

definition flow_below :: "loan_flow \<Rightarrow> loan_flow \<Rightarrow> bool" where
  "flow_below fl fl' \<longleftrightarrow> bits (lf_live fl) \<subseteq> bits (lf_live fl') \<and> bits (lf_active fl) \<subseteq> bits (lf_active fl')"

lemma flow_eq:
  fixes fl fl' :: loan_flow
  shows "fl = fl' \<longleftrightarrow> bits (lf_live fl) = bits (lf_live fl') \<and> bits (lf_active fl) = bits (lf_active fl')"
  by (cases fl; cases fl') (simp add: bits_eq)

interpretation loans: dataflow cfg_ok "\<lambda>c. length (cf_blocks c)" loan_edges loan_join loan_out "\<lambda>_ _. True" flow_facts
  "\<lambda>_. {..<64} <+> {..<64}" flow_below cf_entry "\<lambda>_. \<lparr>lf_live = 0, lf_active = 0\<rparr>"
proof
  fix c and fl fl' t :: loan_flow and ch assume j: "loan_join fl fl' = (t, ch)"
  have t: "t = \<lparr>lf_live = lf_live fl OR lf_live fl', lf_active = lf_active fl OR lf_active fl'\<rparr>" "ch \<longleftrightarrow> t \<noteq> fl"
    using j by (auto simp: loan_join_def Let_def)
  then have b: "bits (lf_live t) = bits (lf_live fl) \<union> bits (lf_live fl')" "bits (lf_active t) = bits (lf_active fl) \<union> bits (lf_active fl')"
      "ch \<longleftrightarrow> t \<noteq> fl"
    by simp_all
  then have "flow_facts c fl \<subseteq> flow_facts c t" by (auto simp: flow_facts_def)
  moreover have "flow_facts c fl \<noteq> flow_facts c t" if "ch"
  proof
    assume "flow_facts c fl = flow_facts c t"
    then have "t = fl" by (auto simp: flow_eq flow_facts_def)
    then show False using that b(3) by simp
  qed
  ultimately show "True \<and> flow_facts c fl \<subseteq> flow_facts c t \<and> (ch \<longrightarrow> flow_facts c fl \<subset> flow_facts c t) \<and> (\<not> ch \<longrightarrow> t = fl) \<and>
      flow_below fl t \<and> flow_below fl' t"
    using b by (auto simp: flow_below_def)
next
  fix c :: cfg and b assume "cfg_ok c" "b < length (cf_blocks c)"
  then show "list_all (\<lambda>b'. b' < length (cf_blocks c)) (loan_edges c b)"
    by (auto simp: cfg_ok_def list_all_iff loan_edges_def Cfg_block_def)
next
  fix c fl show "flow_facts c fl \<subseteq> {..<64} <+> {..<64}" using bits_less by (auto simp: flow_facts_def)
qed (auto simp: cfg_ok_def flow_below_def)

end
