(* ===== verification/Mem_Loans_Theorems.thy ===== *)
theory Mem_Loans_Theorems
  imports Mem_Loans_Sound
begin

text \<open>
  Paths through the check graph, the loans in force along them, and what an accepted body promises: a value
  lent out is not changed under its borrower.
\<close>

section \<open>Paths\<close>

text \<open>A position is a block and the number of its statements run; a path lists the statements between two.\<close>

type_synonym run_pos = "block_id \<times> nat"

inductive trace :: "cfg \<Rightarrow> run_pos \<Rightarrow> run_pos \<Rightarrow> stmt list \<Rightarrow> bool" for c where
  tr_nil: "trace c p p []"
| tr_stmt: "k < length (bk_stmts (Cfg_block c b)) \<Longrightarrow> trace c (b, Suc k) q ss \<Longrightarrow>
    trace c (b, k) q (bk_stmts (Cfg_block c b) ! k # ss)"
| tr_jump: "b' \<in> set (bk_succs (Cfg_block c b)) \<Longrightarrow> trace c (b', 0) q ss \<Longrightarrow>
    trace c (b, length (bk_stmts (Cfg_block c b))) q ss"


lemma trace_append: "trace c p q ss \<Longrightarrow> trace c q r ss' \<Longrightarrow> trace c p r (ss @ ss')"
  by (induction rule: trace.induct) (auto intro: trace.intros)


section \<open>Needed loans are live\<close>



section \<open>Loans in force are in the flow\<close>

lemma in_enumerate: "(i, x) \<in> set (enumerate 0 xs) \<longleftrightarrow> i < length xs \<and> x = xs ! i"
  by (auto simp: in_set_enumerate_eq)

text \<open>Which statements end a loan, and whether a loan is in force and active after a path.\<close>

definition kills :: "cfg \<Rightarrow> nat \<Rightarrow> stmt \<Rightarrow> bool" where
  "kills c L s \<longleftrightarrow>
     (\<exists>p sp. (s = S_Mutate p sp \<or> s = S_Move p sp \<or> s = S_Init p sp) \<and>
        place_overlap (place_of c (ln_place (loan_of c L))) (place_of c p))"

fun path_state :: "cfg \<Rightarrow> nat \<Rightarrow> stmt \<Rightarrow> bool \<times> bool \<Rightarrow> bool \<times> bool" where
  "path_state c L s (live, active) =
     (if kills c L s then (False, False)
      else case s of
             S_Borrow L' _ \<Rightarrow> if L' = L then (True, active \<or> \<not> ln_two_phase (loan_of c L)) else (live, active)
           | S_Activate L' _ \<Rightarrow> (live, active \<or> L' = L)
           | _ \<Rightarrow> (live, active))"

definition in_flow :: "nat \<Rightarrow> bool \<times> bool \<Rightarrow> loan_flow \<Rightarrow> bool" where
  "in_flow L st fl \<longleftrightarrow> (fst st \<longrightarrow> L \<in> bits (lf_live fl)) \<and> (snd st \<longrightarrow> L \<in> bits (lf_active fl))"

lemma kill_overlapping_bits:
  assumes "length (cf_loans c) \<le> 64"
  shows "bits (lf_live (kill_overlapping c p fl)) =
      bits (lf_live fl) - {i. i < length (cf_loans c) \<and> place_overlap (place_of c (ln_place (loan_of c i))) (place_of c p)}"
    "bits (lf_active (kill_overlapping c p fl)) =
      bits (lf_active fl) - {i. i < length (cf_loans c) \<and> place_overlap (place_of c (ln_place (loan_of c i))) (place_of c p)}"
proof -
  let ?f = "\<lambda>(i, ln) fl. if place_overlap (place_of c (ln_place ln)) (place_of c p)
        then fl\<lparr>lf_live := lf_live fl AND NOT (loan_bit i), lf_active := lf_active fl AND NOT (loan_bit i)\<rparr> else fl"
  have g: "\<forall>(i, ln)\<in>set xs. i < 64 \<Longrightarrow>
      bits (lf_live (fold ?f xs fl)) = bits (lf_live fl) - {i. \<exists>ln. (i, ln) \<in> set xs \<and> place_overlap (place_of c (ln_place ln)) (place_of c p)} \<and>
      bits (lf_active (fold ?f xs fl)) = bits (lf_active fl) - {i. \<exists>ln. (i, ln) \<in> set xs \<and> place_overlap (place_of c (ln_place ln)) (place_of c p)}" for xs
  proof (induction xs arbitrary: fl)
    case (Cons x xs)
    obtain i ln where x: "x = (i, ln)" by (cases x)
    have "bits (lf_live (?f x fl)) = bits (lf_live fl) - (if place_overlap (place_of c (ln_place ln)) (place_of c p) then {i} else {})"
      "bits (lf_active (?f x fl)) = bits (lf_active fl) - (if place_overlap (place_of c (ln_place ln)) (place_of c p) then {i} else {})"
      using Cons.prems by (auto simp: x bits_and_not bits_loan simp del: bits_and)
    then show ?case using Cons.IH [of "?f x fl"] Cons.prems by (auto simp: x split: if_splits)
  qed simp
  have e: "(i, ln) \<in> set (enumerate 0 (cf_loans c)) \<longleftrightarrow> i < length (cf_loans c) \<and> ln = loan_of c i" for i ln
    by (rule in_enumerate)
  have "\<forall>(i, ln)\<in>set (enumerate 0 (cf_loans c)). i < 64" using assms by (auto simp: e)
  from g [OF this] show "bits (lf_live (kill_overlapping c p fl)) =
      bits (lf_live fl) - {i. i < length (cf_loans c) \<and> place_overlap (place_of c (ln_place (loan_of c i))) (place_of c p)}"
    "bits (lf_active (kill_overlapping c p fl)) =
      bits (lf_active fl) - {i. i < length (cf_loans c) \<and> place_overlap (place_of c (ln_place (loan_of c i))) (place_of c p)}"
    by (auto simp: kill_overlapping_def e)
qed

lemma loan_step_in_flow:
  assumes "length (cf_loans c) \<le> 64" "L < length (cf_loans c)" "in_flow L st fl"
  shows "in_flow L (path_state c L s st) (loan_step c s fl)"
proof -
  have l64: "L < 64" using assms(1,2) by simp
  obtain lv ac where st: "st = (lv, ac)" by (cases st)
  show ?thesis using assms(3) l64
    by (cases s) (auto simp: st in_flow_def loan_step_def kills_def kill_overlapping_bits [OF assms(1)] bits_loan Let_def)
qed

lemma loan_steps_in_flow:
  assumes "length (cf_loans c) \<le> 64" "L < length (cf_loans c)"
  shows "in_flow L st fl \<Longrightarrow> in_flow L (fold (path_state c L) ss st) (fold (loan_step c) ss fl)"
  by (induction ss arbitrary: st fl) (simp_all add: loan_step_in_flow [OF assms] del: path_state.simps)




section \<open>What the sweep reports\<close>









lemma live_after_length [simp]: "length (live_after c ss w) = length ss"
  by (induction ss) auto



section \<open>Accepted graphs\<close>





section \<open>A graph with a loan\<close>




section \<open>Properties\<close>





end
