(* ===== verification/Wolf_Roots.thy ===== *)
theory Wolf_Roots
  imports Wolf_Prelude
begin

text \<open>
  Union-find forests as lists of parents, a root being its own: the region variables of \<^verbatim>\<open>wolf_mem\<close> and the
  inference variables of \<^verbatim>\<open>wolf_sema\<close> live in such lists. Following the parents is a partial function, \<open>None\<close>
  when no root is ever reached.
\<close>

partial_function (option) find_root :: "nat list \<Rightarrow> nat \<Rightarrow> nat option" where
  "find_root parent root = (if parent ! root \<noteq> root then find_root parent (parent ! root) else Some root)"

declare find_root.simps [code]

text \<open>\<open>leads p i r\<close>: the parents of \<open>i\<close> end in the root \<open>r\<close>.\<close>

inductive leads :: "nat list \<Rightarrow> nat \<Rightarrow> nat \<Rightarrow> bool" for p where
  le_root: "p ! r = r \<Longrightarrow> leads p r r"
| le_step: "p ! i \<noteq> i \<Longrightarrow> leads p (p ! i) r \<Longrightarrow> leads p i r"

inductive_cases leads_cases: "leads p i r"

lemma leads_root: "leads p i r \<Longrightarrow> p ! r = r"
  by (induction rule: leads.induct)

lemma leads_fun: "leads p i r \<Longrightarrow> leads p i r' \<Longrightarrow> r = r'"
proof (induction rule: leads.induct)
  case (le_root r)
  then show ?case by (auto elim: leads_cases)
next
  case (le_step i r)
  then show ?case by (auto elim: leads_cases)
qed

lemma leads_iff: "leads p i r \<longleftrightarrow> (if p ! i = i then r = i else leads p (p ! i) r)"
  by (auto intro: leads.intros elim: leads_cases)

lemma find_root_leads: "leads p i r \<Longrightarrow> find_root p i = Some r"
  by (induction rule: leads.induct) (subst find_root.simps, simp)+

lemma leads_less: "leads p i r \<Longrightarrow> \<forall>i<n. p ! i < n \<Longrightarrow> i < n \<Longrightarrow> r < n"
  by (induction rule: leads.induct) auto

lemma leads_link:
  assumes "p ! c = c" "p ! r = r" "c \<noteq> r" "c < length p" "leads p i s"
  shows "leads (p[c := r]) i (if s = c then r else s)"
  using assms(5)
proof (induction rule: leads.induct)
  case (le_root q)
  have rr: "leads (p[c := r]) r r" using assms(2,3) by (intro leads.le_root) simp
  show ?case
  proof (cases "q = c")
    case True
    have "leads (p[c := r]) c r"
      by (rule leads.le_step) (use assms(3,4) rr in simp_all)
    then show ?thesis using True by simp
  next
    case False
    then have "leads (p[c := r]) q q" using le_root by (intro leads.le_root) simp
    then show ?thesis using False by simp
  qed
next
  case (le_step i s)
  have "i \<noteq> c" using le_step.hyps(1) assms(1) by auto
  then show ?case using le_step leads.le_step [of "p[c := r]" i] by simp
qed

lemma leads_append:
  "leads p i r \<Longrightarrow> i < length p \<Longrightarrow> \<forall>i<length p. p ! i < length p \<Longrightarrow> leads (p @ xs) i r"
proof (induction rule: leads.induct)
  case (le_root r)
  then show ?case by (intro leads.le_root) (simp add: nth_append)
next
  case (le_step i r)
  then show ?case using leads.le_step [of "p @ xs" i r] by (simp add: nth_append)
qed

end
