(* ===== verification/Mem_Regions.thy ===== *)
theory Mem_Regions
  imports Mem_Cfg Wolf_Roots
begin

text \<open>
  Region variables, \<^verbatim>\<open>crates/wolf_mem/src/regions.rs\<close>: a union-find table whose classes may be bound to one
  rigid region, and the summary of a function's regions. An operation that takes \<open>&mut self\<close> to compress
  paths returns the new table; \<open>None\<close> is that a chain of parents never reaches a root.
\<close>

section \<open>The table\<close>

datatype binding = B_Caller | B_Static | B_Local nat

datatype unify = U_Ok | U_ParamsMerged | U_Conflict binding binding

record region_table =
  rt_regions :: "region list"
  rt_parent :: "nat list"
  rt_binding :: "binding option list"

definition RegionTable_default :: region_table where
  "RegionTable_default = \<lparr>rt_regions = [], rt_parent = [], rt_binding = []\<rparr>"

definition kind_binding :: "region_kind \<Rightarrow> nat \<Rightarrow> binding option" where
  "kind_binding k i =
     (case k of
        RK_Caller \<Rightarrow> Some B_Caller
      | RK_Static \<Rightarrow> Some B_Static
      | RK_Scope \<Rightarrow> Some (B_Local i)
      | RK_Value \<Rightarrow> Some (B_Local i)
      | RK_Param \<Rightarrow> None)"

definition new_region :: "region \<Rightarrow> region_table \<Rightarrow> nat \<times> region_table" where
  "new_region r t =
     (let i = as_u32 (length (rt_regions t))
      in (i, t\<lparr>rt_regions := rt_regions t @ [r], rt_parent := rt_parent t @ [i],
               rt_binding := rt_binding t @ [kind_binding (rg_kind r) i]\<rparr>))"

text \<open>Path compression.\<close>

partial_function (option) compress :: "nat \<Rightarrow> nat list \<Rightarrow> nat \<Rightarrow> nat list option" where
  "compress root parent cur =
     (if parent ! cur \<noteq> root then compress root (parent[cur := root]) (parent ! cur) else Some parent)"

declare compress.simps [code]

definition rt_find :: "nat \<Rightarrow> region_table \<Rightarrow> (nat \<times> region_table) option" where
  "rt_find r t =
     (case find_root (rt_parent t) r of
        None \<Rightarrow> None
      | Some root \<Rightarrow>
          (case compress root (rt_parent t) r of
             None \<Rightarrow> None
           | Some parent \<Rightarrow> Some (root, t\<lparr>rt_parent := parent\<rparr>)))"

definition rt_binding_of :: "nat \<Rightarrow> region_table \<Rightarrow> (binding option \<times> region_table) option" where
  "rt_binding_of r t = (case rt_find r t of None \<Rightarrow> None | Some (root, t) \<Rightarrow> Some (rt_binding t ! root, t))"

definition rt_same :: "nat \<Rightarrow> nat \<Rightarrow> region_table \<Rightarrow> (bool \<times> region_table) option" where
  "rt_same a b t =
     (case rt_find a t of
        None \<Rightarrow> None
      | Some (ra, t) \<Rightarrow> (case rt_find b t of None \<Rightarrow> None | Some (rb, t) \<Rightarrow> Some (ra = rb, t)))"

definition link :: "nat \<Rightarrow> nat \<Rightarrow> region_table \<Rightarrow> region_table" where
  "link child root t = t\<lparr>rt_parent := (rt_parent t)[child := root]\<rparr>"

definition unify_roots :: "nat \<Rightarrow> nat \<Rightarrow> region_table \<Rightarrow> unify \<times> region_table" where
  "unify_roots ra rb t =
     (if ra = rb then (U_Ok, t)
      else case (rt_binding t ! ra, rt_binding t ! rb) of
             (Some x, Some y) \<Rightarrow> if x = y then (U_Ok, link rb ra t) else (U_Conflict x y, t)
           | (Some _, None) \<Rightarrow> (U_Ok, link rb ra t)
           | (None, Some _) \<Rightarrow> (U_Ok, link ra rb t)
           | (None, None) \<Rightarrow> (U_ParamsMerged, link rb ra t))"

definition rt_unify :: "nat \<Rightarrow> nat \<Rightarrow> region_table \<Rightarrow> (unify \<times> region_table) option" where
  "rt_unify a b t =
     (case rt_find a t of
        None \<Rightarrow> None
      | Some (ra, t) \<Rightarrow> (case rt_find b t of None \<Rightarrow> None | Some (rb, t) \<Rightarrow> Some (unify_roots ra rb t)))"

section \<open>The summary\<close>

record site_summary =
  ss_span :: span
  ss_ty :: bytes
  ss_region :: nat
  ss_kind :: site_kind
  ss_escape :: "bytes option"
  ss_stacked :: bool

record region_summary =
  su_name :: bytes
  su_regions :: "region list"
  su_resolved :: "bytes list"
  su_sites :: "site_summary list"
  su_promoted :: "nat list"
  su_never_allocates :: "nat list"
  su_conflicted :: bool

fun binding_text :: "region list \<Rightarrow> binding option \<Rightarrow> bytes" where
  "binding_text rs (Some B_Caller) = ''caller''"
| "binding_text rs (Some B_Static) = ''static''"
| "binding_text rs (Some (B_Local r)) = ''region '' @ rg_name (rs ! r)"
| "binding_text rs None = ''own (generalized)''"

fun resolve_all :: "nat list \<Rightarrow> region_table \<Rightarrow> (bytes list \<times> region_table) option" where
  "resolve_all [] t = Some ([], t)"
| "resolve_all (i # is) t =
     (case rt_binding_of i t of
        None \<Rightarrow> None
      | Some (b, t) \<Rightarrow>
          (case resolve_all is t of
             None \<Rightarrow> None
           | Some (rest, t) \<Rightarrow> Some (binding_text (rt_regions t) b # rest, t)))"

text \<open>\<open>any\<close> stops at the first region in the class.\<close>

fun any_same :: "nat list \<Rightarrow> nat \<Rightarrow> region_table \<Rightarrow> (bool \<times> region_table) option" where
  "any_same [] r t = Some (False, t)"
| "any_same (p # ps) r t =
     (case rt_same p r t of
        None \<Rightarrow> None
      | Some (same, t) \<Rightarrow> if same then Some (True, t) else any_same ps r t)"

fun site_summaries :: "nat list \<Rightarrow> (alloc_site \<times> bytes option) list \<Rightarrow> region_table \<Rightarrow> (site_summary list \<times> region_table) option" where
  "site_summaries promoted [] t = Some ([], t)"
| "site_summaries promoted ((s, esc) # ss) t =
     (case (if al_kind s = Site_Lit \<and> esc = None then any_same promoted (al_region s) t else Some (True, t)) of
        None \<Rightarrow> None
      | Some (held, t) \<Rightarrow>
          (case site_summaries promoted ss t of
             None \<Rightarrow> None
           | Some (rest, t) \<Rightarrow>
               Some (\<lparr>ss_span = al_span s, ss_ty = al_ty s, ss_region = al_region s, ss_kind = al_kind s,
                      ss_escape = esc, ss_stacked = (al_kind s = Site_Lit \<and> esc = None \<and> \<not> held)\<rparr> # rest, t)))"

fun never_allocating :: "nat list \<Rightarrow> nat list \<Rightarrow> nat list \<Rightarrow> region_table \<Rightarrow> (nat list \<times> region_table) option" where
  "never_allocating [] site_regions ambient t = Some ([], t)"
| "never_allocating (p # ps) site_regions ambient t =
     (case any_same site_regions p t of
        None \<Rightarrow> None
      | Some (held, t) \<Rightarrow>
          (case (if held then Some (True, t) else any_same ambient p t) of
             None \<Rightarrow> None
           | Some (used, t) \<Rightarrow>
               (case never_allocating ps site_regions ambient t of
                  None \<Rightarrow> None
                | Some (rest, t) \<Rightarrow> Some (if used then rest else p # rest, t))))"

definition summarize ::
  "bytes \<Rightarrow> region_table \<Rightarrow> alloc_site list \<Rightarrow> bytes option list \<Rightarrow> nat list \<Rightarrow> nat list \<Rightarrow> bool \<Rightarrow> region_summary option" where
  "summarize name rt sites site_escape promoted callee_ambient conflicted =
     (case resolve_all [0..<length (rt_regions rt)] rt of
        None \<Rightarrow> None
      | Some (resolved, rt) \<Rightarrow>
          (case site_summaries promoted (zip sites site_escape) rt of
             None \<Rightarrow> None
           | Some (ss, rt) \<Rightarrow>
               (case never_allocating promoted (map al_region sites) callee_ambient rt of
                  None \<Rightarrow> None
                | Some (never, rt) \<Rightarrow>
                    Some \<lparr>su_name = name, su_regions = rt_regions rt, su_resolved = resolved, su_sites = ss,
                          su_promoted = promoted, su_never_allocates = never, su_conflicted = conflicted\<rparr>)))"

section \<open>Classes\<close>

definition uf_ok :: "region_table \<Rightarrow> bool" where
  "uf_ok t \<longleftrightarrow>
     length (rt_parent t) = length (rt_regions t) \<and> length (rt_binding t) = length (rt_regions t) \<and>
     length (rt_regions t) \<le> u32_max \<and>
     (\<forall>i<length (rt_regions t). rt_parent t ! i < length (rt_regions t) \<and> (\<exists>r. leads (rt_parent t) i r))"

text \<open>Pointing an element at its root changes no class.\<close>

lemma leads_update:
  assumes "leads p c r" "c < length p" "leads p i s"
  shows "leads (p[c := r]) i s"
  using assms(3)
proof (induction rule: leads.induct)
  case (le_root q)
  show ?case
  proof (cases "q = c")
    case True
    then have "r = c" using leads_fun [OF assms(1)] leads.le_root [OF le_root] by simp
    then show ?thesis using True assms(2) by (intro leads.le_root) simp
  qed (use le_root in \<open>simp add: leads.le_root\<close>)
next
  case (le_step i s)
  show ?case
  proof (cases "i = c")
    case True
    have "leads p c s" using leads.le_step [OF le_step.hyps(1,2)] True by simp
    then have sr: "s = r" using leads_fun [OF assms(1)] by simp
    have pr: "p ! r = r" by (rule leads_root [OF assms(1)])
    have rc: "r \<noteq> c" using pr le_step.hyps(1) True by auto
    have "leads (p[c := r]) c r"
    proof (rule leads.le_step)
      show "p[c := r] ! c \<noteq> c" using rc assms(2) by simp
      have "leads (p[c := r]) r r" using pr rc by (intro leads.le_root) simp
      then show "leads (p[c := r]) (p[c := r] ! c) r" using assms(2) by simp
    qed
    then show ?thesis using True sr by simp
  next
    case False
    then show ?thesis using le_step leads.le_step [of "p[c := r]" i s] by simp
  qed
qed

lemma compress_leads:
  assumes "leads p c r" "\<forall>i<length p. p ! i < length p" "c < length p"
  shows "\<exists>p'. compress r p c = Some p' \<and> length p' = length p \<and> (\<forall>i<length p. p' ! i < length p) \<and>
    (\<forall>i s. leads p i s \<longrightarrow> leads p' i s)"
  using assms
proof (induction "card {i. i < length p \<and> p ! i \<noteq> r}" arbitrary: p c rule: less_induct)
  case less
  show ?case
  proof (cases "p ! c = r")
    case True
    then show ?thesis using less.prems by (subst compress.simps) simp
  next
    case False
    have rl: "r < length p" by (rule leads_less [OF less.prems])
    have nx: "leads p (p ! c) r" using less.prems(1) False by (auto elim: leads_cases)
    let ?p = "p[c := r]"
    have "leads ?p (p ! c) r" by (rule leads_update [OF less.prems(1,3) nx])
    moreover have "{i. i < length p \<and> ?p ! i \<noteq> r} \<subset> {i. i < length p \<and> p ! i \<noteq> r}"
      using less.prems(3) False by (auto simp: nth_list_update split: if_splits)
    then have "card {i. i < length ?p \<and> ?p ! i \<noteq> r} < card {i. i < length p \<and> p ! i \<noteq> r}"
      by (simp add: psubset_card_mono)
    moreover have "\<forall>i<length ?p. ?p ! i < length ?p" using less.prems(2,3) rl by (auto simp: nth_list_update)
    ultimately obtain p' where p': "compress r ?p (p ! c) = Some p'" "length p' = length p" "\<forall>i<length p. p' ! i < length p"
        "\<forall>i s. leads ?p i s \<longrightarrow> leads p' i s"
      using less.hyps [of ?p "p ! c"] less.prems(2,3) by auto
    have "compress r p c = compress r ?p (p ! c)" using False by (subst compress.simps) simp
    then show ?thesis using p' leads_update [OF less.prems(1,3)] by (intro exI [of _ p']) simp
  qed
qed

section \<open>Finding\<close>

text \<open>The class of a region, by its root, and what the class is bound to.\<close>

definition class_of :: "region_table \<Rightarrow> nat \<Rightarrow> nat option" where
  "class_of t i = find_root (rt_parent t) i"

definition same_class :: "region_table \<Rightarrow> nat \<Rightarrow> nat \<Rightarrow> bool" where
  "same_class t i j \<longleftrightarrow> class_of t i = class_of t j"

definition class_binding :: "region_table \<Rightarrow> nat \<Rightarrow> binding option" where
  "class_binding t i = rt_binding t ! the (class_of t i)"

text \<open>Two tables with the same classes, bindings and regions.\<close>

definition same_table :: "region_table \<Rightarrow> region_table \<Rightarrow> bool" where
  "same_table t t' \<longleftrightarrow>
     rt_regions t' = rt_regions t \<and> rt_binding t' = rt_binding t \<and> (\<forall>i<length (rt_regions t). class_of t' i = class_of t i)"

lemma uf_class: "uf_ok t \<Longrightarrow> i < length (rt_regions t) \<Longrightarrow> \<exists>r. class_of t i = Some r \<and> leads (rt_parent t) i r \<and> r < length (rt_regions t)"
  using find_root_leads leads_less unfolding uf_ok_def class_of_def by metis

lemma class_leads: "uf_ok t \<Longrightarrow> i < length (rt_regions t) \<Longrightarrow> class_of t i = Some r \<longleftrightarrow> leads (rt_parent t) i r"
  using uf_class find_root_leads class_of_def by (metis option.inject)

lemma rt_find_spec:
  assumes "uf_ok t" "a < length (rt_regions t)"
  obtains r t' where "rt_find a t = Some (r, t')" "uf_ok t'" "same_table t t'" "class_of t a = Some r" "r < length (rt_regions t)"
    "rt_parent t' ! r = r"
proof -
  obtain r where r: "class_of t a = Some r" "leads (rt_parent t) a r" "r < length (rt_regions t)"
    using uf_class [OF assms] by blast
  obtain p where p: "compress r (rt_parent t) a = Some p" "length p = length (rt_parent t)" "\<forall>i<length (rt_parent t). p ! i < length (rt_parent t)"
      "\<And>i s. leads (rt_parent t) i s \<Longrightarrow> leads p i s"
    using compress_leads [OF r(2)] assms by (auto simp: uf_ok_def)
  let ?t = "t\<lparr>rt_parent := p\<rparr>"
  have "rt_find a t = Some (r, ?t)" using r(1) p(1) by (simp add: rt_find_def class_of_def)
  moreover have ok: "uf_ok ?t" using assms(1) p by (auto simp: uf_ok_def) metis
  moreover have "class_of ?t i = class_of t i" if i: "i < length (rt_regions t)" for i
  proof -
    obtain q where "class_of t i = Some q" "leads (rt_parent t) i q" using uf_class [OF assms(1) i] by blast
    then show ?thesis using class_leads [OF ok, of i q] p(4) i by simp
  qed
  then have "same_table t ?t" by (simp add: same_table_def)
  moreover have "p ! r = r" using leads_root [OF p(4) [OF r(2)]] .
  ultimately show thesis using that r(1,3) by simp
qed

lemma same_table_trans: "same_table t t' \<Longrightarrow> same_table t' t'' \<Longrightarrow> same_table t t''"
  by (simp add: same_table_def)

lemma rt_same_spec:
  assumes "uf_ok t" "a < length (rt_regions t)" "b < length (rt_regions t)"
  obtains t' where "rt_same a b t = Some (same_class t a b, t')" "uf_ok t'" "same_table t t'"
proof -
  obtain ra t1 where a: "rt_find a t = Some (ra, t1)" "uf_ok t1" "same_table t t1" "class_of t a = Some ra"
    by (rule rt_find_spec [OF assms(1,2)])
  have n: "length (rt_regions t1) = length (rt_regions t)" using a(3) by (simp add: same_table_def)
  obtain rb t2 where b: "rt_find b t1 = Some (rb, t2)" "uf_ok t2" "same_table t1 t2" "class_of t1 b = Some rb"
    by (rule rt_find_spec [OF a(2)]) (use assms(3) n in simp)
  have "class_of t b = Some rb" using b(4) a(3) assms(3) by (simp add: same_table_def)
  then show thesis
    using that [OF _ b(2) same_table_trans [OF a(3) b(3)]] a(1,4) b(1) by (simp add: rt_same_def same_class_def)
qed

section \<open>Linking two classes\<close>

lemma link_class:
  assumes ok: "uf_ok t" and "rt_parent t ! c = c" "rt_parent t ! r = r" "c \<noteq> r" "c < length (rt_regions t)" "r < length (rt_regions t)"
  shows "uf_ok (link c r t)"
    "\<And>i. i < length (rt_regions t) \<Longrightarrow> class_of (link c r t) i = (if class_of t i = Some c then Some r else class_of t i)"
proof -
  have len: "c < length (rt_parent t)" using ok assms(5) by (simp add: uf_ok_def)
  note ll = leads_link [OF assms(2,3,4) len]
  show ok': "uf_ok (link c r t)"
    unfolding uf_ok_def
  proof (intro conjI allI impI)
    fix i assume i: "i < length (rt_regions (link c r t))"
    then obtain s where "leads (rt_parent t) i s" "rt_parent t ! i < length (rt_regions t)"
      using ok by (auto simp: uf_ok_def link_def)
    then show "\<exists>s. leads (rt_parent (link c r t)) i s" "rt_parent (link c r t) ! i < length (rt_regions (link c r t))"
      using ll assms(6) len by (auto simp: link_def nth_list_update)
  qed (use ok in \<open>auto simp: uf_ok_def link_def\<close>)
  fix i assume i: "i < length (rt_regions t)"
  then obtain q where q: "class_of t i = Some q" "leads (rt_parent t) i q" using uf_class [OF ok] by blast
  then show "class_of (link c r t) i = (if class_of t i = Some c then Some r else class_of t i)"
    using class_leads [OF ok', of i "if q = c then r else q"] ll [OF q(2)] i by (simp add: link_def)
qed

section \<open>Unifying\<close>

text \<open>What the classes are after merging those of \<open>a\<close> and \<open>b\<close>, the class keeping the binding \<open>bd\<close>.\<close>

definition merged :: "region_table \<Rightarrow> nat \<Rightarrow> nat \<Rightarrow> binding option \<Rightarrow> region_table \<Rightarrow> bool" where
  "merged t a b bd t' \<longleftrightarrow>
     rt_regions t' = rt_regions t \<and>
     (\<forall>i<length (rt_regions t). \<forall>j<length (rt_regions t).
        same_class t' i j \<longleftrightarrow> same_class t i j \<or> same_class t i a \<and> same_class t j b \<or> same_class t i b \<and> same_class t j a) \<and>
     (\<forall>i<length (rt_regions t).
        class_binding t' i = (if same_class t i a \<or> same_class t i b then bd else class_binding t i))"

lemma link_merged:
  assumes ok: "uf_ok t" and ab: "a < length (rt_regions t)" "b < length (rt_regions t)"
    and ra: "class_of t a = Some ra" "class_of t b = Some rb" "ra \<noteq> rb"
  shows "merged t a b (rt_binding t ! ra) (link rb ra t)" "uf_ok (link rb ra t)"
proof -
  have l: "leads (rt_parent t) a ra" "leads (rt_parent t) b rb" using class_leads [OF ok] ab ra by auto
  then have r: "rt_parent t ! ra = ra" "rt_parent t ! rb = rb" using leads_root by auto
  have n: "ra < length (rt_regions t)" "rb < length (rt_regions t)"
    using uf_class [OF ok ab(1)] uf_class [OF ok ab(2)] ra by auto
  note lc = link_class [OF ok r(2,1) _ n(2,1)]
  show "uf_ok (link rb ra t)" by (rule lc(1)) (use ra(3) in simp)
  have cl: "class_of (link rb ra t) i = (if class_of t i = Some rb then Some ra else class_of t i)" if "i < length (rt_regions t)" for i
    by (rule lc(2)) (use ra(3) that in simp_all)
  show "merged t a b (rt_binding t ! ra) (link rb ra t)"
    unfolding merged_def same_class_def class_binding_def
    using cl ra by (auto simp: link_def)
qed

lemma merged_swap: "merged t a b bd t' \<longleftrightarrow> merged t b a bd t'"
  unfolding merged_def by (simp add: disj_commute)

lemma merged_same_table:
  assumes "same_table t t1" "merged t1 a b bd t'" "a < length (rt_regions t)" "b < length (rt_regions t)"
  shows "merged t a b bd t'"
proof -
  have n: "rt_regions t1 = rt_regions t" "rt_binding t1 = rt_binding t" using assms(1) by (auto simp: same_table_def)
  have c: "i < length (rt_regions t) \<Longrightarrow> class_of t1 i = class_of t i" for i using assms(1) by (simp add: same_table_def)
  show ?thesis using assms(2-4) unfolding merged_def same_class_def class_binding_def n by (simp add: c)
qed

definition class_rigid :: "region_table \<Rightarrow> nat \<Rightarrow> bool" where
  "class_rigid t i \<longleftrightarrow> class_binding t i \<noteq> None"

lemma rt_unify_spec:
  assumes ok: "uf_ok t" and ab: "a < length (rt_regions t)" "b < length (rt_regions t)"
  obtains out t' where "rt_unify a b t = Some (out, t')" "uf_ok t'"
    "if same_class t a b then out = U_Ok \<and> same_table t t'
     else case (class_binding t a, class_binding t b) of
            (Some x, Some y) \<Rightarrow> if x = y then out = U_Ok \<and> merged t a b (Some x) t' else out = U_Conflict x y \<and> same_table t t'
          | (Some x, None) \<Rightarrow> out = U_Ok \<and> merged t a b (Some x) t'
          | (None, Some y) \<Rightarrow> out = U_Ok \<and> merged t a b (Some y) t'
          | (None, None) \<Rightarrow> out = U_ParamsMerged \<and> merged t a b None t'"
proof -
  obtain ra t1 where a: "rt_find a t = Some (ra, t1)" "uf_ok t1" "same_table t t1" "class_of t a = Some ra"
    by (rule rt_find_spec [OF ok ab(1)])
  have n1: "length (rt_regions t1) = length (rt_regions t)" using a(3) by (simp add: same_table_def)
  obtain rb t2 where b: "rt_find b t1 = Some (rb, t2)" "uf_ok t2" "same_table t1 t2" "class_of t1 b = Some rb"
    by (rule rt_find_spec [OF a(2)]) (use ab(2) n1 in simp)
  have s: "same_table t t2" by (rule same_table_trans [OF a(3) b(3)])
  then have n2: "rt_regions t2 = rt_regions t" "rt_binding t2 = rt_binding t" "class_of t2 a = Some ra" "class_of t2 b = Some rb"
    using a(3,4) b(4) ab by (auto simp: same_table_def)
  have rb: "class_of t b = Some rb" using b(4) a(3) ab(2) by (simp add: same_table_def)
  have bd: "class_binding t a = rt_binding t ! ra" "class_binding t b = rt_binding t ! rb" using a(4) rb by (simp_all add: class_binding_def)
  have sc: "same_class t a b \<longleftrightarrow> ra = rb" using a(4) rb by (simp add: same_class_def)
  have un: "rt_unify a b t = Some (unify_roots ra rb t2)" using a(1) b(1) by (simp add: rt_unify_def)
  show thesis
  proof (cases "ra = rb")
    case True
    then show thesis using that un sc s b(2) by (simp add: unify_roots_def)
  next
    case False
    have lk: "merged t a b (rt_binding t ! ra) (link rb ra t2)" "uf_ok (link rb ra t2)"
      using link_merged [OF b(2), of a b ra rb] n2 ab False merged_same_table [OF s] by auto
    have kl: "merged t a b (rt_binding t ! rb) (link ra rb t2)" "uf_ok (link ra rb t2)"
      using link_merged [OF b(2), of b a rb ra] n2 ab False merged_same_table [OF s, of b a] merged_swap by auto
    show thesis
      by (rule that [of "fst (unify_roots ra rb t2)" "snd (unify_roots ra rb t2)"])
         (use un False sc bd n2 lk kl s b(2) in \<open>auto simp: unify_roots_def split: option.splits\<close>)
  qed
qed

section \<open>Tables in use\<close>

text \<open>A table as the lowering builds it: regions are added, and two of it unified, found or compared.\<close>

inductive rt_reach :: "region_table \<Rightarrow> bool" where
  rr_default: "rt_reach RegionTable_default"
| rr_new: "rt_reach t \<Longrightarrow> length (rt_regions t) < u32_max \<Longrightarrow> new_region r t = (i, t') \<Longrightarrow> rt_reach t'"
| rr_unify: "rt_reach t \<Longrightarrow> a < length (rt_regions t) \<Longrightarrow> b < length (rt_regions t) \<Longrightarrow> rt_unify a b t = Some (u, t') \<Longrightarrow> rt_reach t'"
| rr_find: "rt_reach t \<Longrightarrow> a < length (rt_regions t) \<Longrightarrow> rt_find a t = Some (r, t') \<Longrightarrow> rt_reach t'"

text \<open>The class of a rigid region is bound to it.\<close>

definition rigid_ok :: "region_table \<Rightarrow> bool" where
  "rigid_ok t \<longleftrightarrow>
     (\<forall>i<length (rt_regions t). \<forall>b. kind_binding (rg_kind (rt_regions t ! i)) i = Some b \<longrightarrow> class_binding t i = Some b)"

lemma same_table_rigid: "same_table t t' \<Longrightarrow> rigid_ok t \<Longrightarrow> rigid_ok t'"
  by (simp add: same_table_def rigid_ok_def class_binding_def)

lemma merged_rigid:
  assumes "rigid_ok t" "merged t a b bd t'"
    and "\<And>i. i < length (rt_regions t) \<Longrightarrow> same_class t i a \<or> same_class t i b \<Longrightarrow> class_binding t i = None \<or> class_binding t i = bd"
  shows "rigid_ok t'"
  using assms unfolding rigid_ok_def merged_def by (metis option.distinct(1))

lemma new_region_spec:
  assumes ok: "uf_ok t" and "length (rt_regions t) < u32_max" "new_region r t = (i, t')"
  shows "uf_ok t'" "i = length (rt_regions t)" "rt_regions t' = rt_regions t @ [r]"
    "\<And>j. j < length (rt_regions t) \<Longrightarrow> class_of t' j = class_of t j"
    "class_of t' i = Some i" "class_binding t' i = kind_binding (rg_kind r) i"
    "\<And>j. j < length (rt_regions t) \<Longrightarrow> class_binding t' j = class_binding t j"
proof -
  let ?n = "length (rt_regions t)"
  have n: "i = ?n" and t': "t' = t\<lparr>rt_regions := rt_regions t @ [r], rt_parent := rt_parent t @ [i],
      rt_binding := rt_binding t @ [kind_binding (rg_kind r) i]\<rparr>"
    using assms(2,3) by (auto simp: new_region_def Let_def)
  have len: "length (rt_parent t) = ?n" "length (rt_binding t) = ?n" using ok by (auto simp: uf_ok_def)
  have old: "leads (rt_parent t') j s" if "leads (rt_parent t) j s" "j < ?n" for j s
    using leads_append [OF that(1), of "[i]"] that(2) ok len by (simp add: t' uf_ok_def)
  have new: "leads (rt_parent t') i i" by (intro leads.le_root) (simp add: t' n len nth_append)
  show ok': "uf_ok t'"
    unfolding uf_ok_def
  proof (intro conjI allI impI)
    fix j assume j: "j < length (rt_regions t')"
    show "\<exists>s. leads (rt_parent t') j s"
    proof (cases "j = ?n")
      case False
      then have "j < ?n" using j by (simp add: t')
      then show ?thesis using uf_class [OF ok] old by blast
    qed (use new n in blast)
    show "rt_parent t' ! j < length (rt_regions t')"
      using j ok len by (cases "j = ?n") (auto simp: t' nth_append n uf_ok_def less_Suc_eq)
  qed (use len assms(2) in \<open>auto simp: t'\<close>)
  show "i = ?n" "rt_regions t' = rt_regions t @ [r]" using n by (simp_all add: t')
  show ci: "class_of t' i = Some i" using class_leads [OF ok', of i i] new by (simp add: t' n)
  show cj: "class_of t' j = class_of t j" if j: "j < ?n" for j
  proof -
    obtain s where "class_of t j = Some s" "leads (rt_parent t) j s" using uf_class [OF ok j] by blast
    then show ?thesis using class_leads [OF ok', of j s] old j by (simp add: t')
  qed
  show "class_binding t' i = kind_binding (rg_kind r) i" by (simp add: class_binding_def ci) (simp add: t' n len nth_append)
  show "class_binding t' j = class_binding t j" if j: "j < ?n" for j
  proof -
    obtain s where "class_of t j = Some s" "s < ?n" using uf_class [OF ok j] by blast
    then show ?thesis by (simp add: class_binding_def cj [OF j]) (simp add: t' len nth_append)
  qed
qed

lemma class_binding_same: "same_class t i j \<Longrightarrow> class_binding t i = class_binding t j"
  by (simp add: class_binding_def same_class_def)

lemma rt_reach_ok: "rt_reach t \<Longrightarrow> uf_ok t \<and> rigid_ok t"
proof (induction rule: rt_reach.induct)
  case rr_default
  then show ?case by (simp add: RegionTable_default_def uf_ok_def rigid_ok_def)
next
  case (rr_new t r i t')
  have ok: "uf_ok t" "rigid_ok t" using rr_new.IH by auto
  note nr = new_region_spec [OF ok(1) rr_new.hyps(2,3)]
  have "rigid_ok t'"
    using ok(2) nr(2,3,6,7) by (auto simp: rigid_ok_def nth_append less_Suc_eq)
  then show ?case using nr(1) by simp
next
  case (rr_unify t a b u t')
  have ok: "uf_ok t" "rigid_ok t" using rr_unify.IH by auto
  obtain out t'' where u: "rt_unify a b t = Some (out, t'')" "uf_ok t''"
    "if same_class t a b then out = U_Ok \<and> same_table t t''
     else case (class_binding t a, class_binding t b) of
            (Some x, Some y) \<Rightarrow> if x = y then out = U_Ok \<and> merged t a b (Some x) t'' else out = U_Conflict x y \<and> same_table t t''
          | (Some x, None) \<Rightarrow> out = U_Ok \<and> merged t a b (Some x) t''
          | (None, Some y) \<Rightarrow> out = U_Ok \<and> merged t a b (Some y) t''
          | (None, None) \<Rightarrow> out = U_ParamsMerged \<and> merged t a b None t''"
    by (rule rt_unify_spec [OF ok(1) rr_unify.hyps(2,3)])
  have "same_table t t'' \<or> (\<exists>bd. merged t a b bd t'' \<and>
      (class_binding t a = None \<or> class_binding t a = bd) \<and> (class_binding t b = None \<or> class_binding t b = bd))"
    using u(3) by (auto split: if_splits option.splits)
  then consider "same_table t t''" | bd where "merged t a b bd t''"
      "class_binding t a = None \<or> class_binding t a = bd" "class_binding t b = None \<or> class_binding t b = bd"
    by blast
  then have "rigid_ok t''"
  proof cases
    case 1
    then show ?thesis using same_table_rigid ok(2) by blast
  next
    case (2 bd)
    then show ?thesis by (intro merged_rigid [OF ok(2) 2(1)]) (auto dest: class_binding_same)
  qed
  then show ?case using u(1,2) rr_unify.hyps(4) by simp
next
  case (rr_find t a r t')
  have ok: "uf_ok t" "rigid_ok t" using rr_find.IH by auto
  obtain r1 t1 where "rt_find a t = Some (r1, t1)" "uf_ok t1" "same_table t t1"
    by (rule rt_find_spec [OF ok(1) rr_find.hyps(2)])
  then show ?case using same_table_rigid ok(2) rr_find.hyps(3) by auto
qed

end
