(* ===== verification/Mem_Region_Theorems.thy ===== *)
theory Mem_Region_Theorems
  imports Mem_Regions "HOL-Library.Code_Target_Nat"
begin

text \<open>What region inference promises: unification merges classes and nothing else, and never two rigid ones.\<close>

section \<open>The summary's walks\<close>

definition in_range :: "region_table \<Rightarrow> nat list \<Rightarrow> bool" where
  "in_range t rs \<longleftrightarrow> list_all (\<lambda>r. r < length (rt_regions t)) rs"

lemma same_table_refl [simp]: "same_table t t"
  by (simp add: same_table_def)

lemma same_table_regions: "same_table t t' \<Longrightarrow> rt_regions t' = rt_regions t"
  by (simp add: same_table_def)

lemma same_table_class:
  "same_table t t' \<Longrightarrow> i < length (rt_regions t) \<Longrightarrow> j < length (rt_regions t) \<Longrightarrow> same_class t' i j = same_class t i j"
  by (simp add: same_table_def same_class_def)

lemma any_same_spec:
  "uf_ok t \<Longrightarrow> in_range t ps \<Longrightarrow> r < length (rt_regions t) \<Longrightarrow>
   \<exists>t'. any_same ps r t = Some (\<exists>p\<in>set ps. same_class t p r, t') \<and> uf_ok t' \<and> same_table t t'"
proof (induction ps arbitrary: t)
  case (Cons p ps)
  have p: "p < length (rt_regions t)" using Cons.prems(2) by (simp add: in_range_def)
  obtain t1 where t1: "rt_same p r t = Some (same_class t p r, t1)" "uf_ok t1" "same_table t t1"
    by (rule rt_same_spec [OF Cons.prems(1) p Cons.prems(3)])
  note n = same_table_regions [OF t1(3)]
  obtain t2 where t2: "any_same ps r t1 = Some (\<exists>p\<in>set ps. same_class t1 p r, t2)" "uf_ok t2" "same_table t1 t2"
    using Cons.IH [OF t1(2)] Cons.prems(2,3) n by (auto simp: in_range_def)
  have "(\<exists>p\<in>set ps. same_class t1 p r) \<longleftrightarrow> (\<exists>p\<in>set ps. same_class t p r)"
    using same_table_class [OF t1(3)] Cons.prems(2,3) by (auto simp: in_range_def list_all_iff)
  then show ?case using t1 t2 same_table_trans [OF t1(3) t2(3)] by (cases "same_class t p r") simp_all
qed simp

lemma resolve_all_spec:
  "uf_ok t \<Longrightarrow> in_range t is \<Longrightarrow>
   \<exists>t'. resolve_all is t = Some (map (\<lambda>i. binding_text (rt_regions t) (class_binding t i)) is, t') \<and> uf_ok t' \<and> same_table t t'"
proof (induction "is" arbitrary: t)
  case (Cons i "is")
  have i: "i < length (rt_regions t)" using Cons.prems(2) by (simp add: in_range_def)
  obtain r t1 where t1: "rt_find i t = Some (r, t1)" "uf_ok t1" "same_table t t1" "class_of t i = Some r"
    by (rule rt_find_spec [OF Cons.prems(1) i])
  note n = same_table_regions [OF t1(3)]
  obtain t2 where t2: "resolve_all is t1 = Some (map (\<lambda>i. binding_text (rt_regions t1) (class_binding t1 i)) is, t2)" "uf_ok t2"
      "same_table t1 t2"
    using Cons.IH [OF t1(2)] Cons.prems(2) n by (auto simp: in_range_def)
  have "rt_binding t1 ! r = class_binding t i" using t1(3,4) by (simp add: class_binding_def same_table_def)
  moreover have "map (\<lambda>i. binding_text (rt_regions t1) (class_binding t1 i)) is = map (\<lambda>i. binding_text (rt_regions t) (class_binding t i)) is"
    using t1(3) Cons.prems(2) by (auto simp: in_range_def list_all_iff same_table_def class_binding_def)
  ultimately show ?case
    using t1(1) t2 n same_table_regions [OF t2(3)] same_table_trans [OF t1(3) t2(3)] by (simp add: rt_binding_of_def)
qed simp

text \<open>The stack fact of a site and the warning's fact of a region, over the classes.\<close>

definition site_stacked :: "region_table \<Rightarrow> nat list \<Rightarrow> alloc_site \<times> bytes option \<Rightarrow> bool" where
  "site_stacked t promoted s \<longleftrightarrow>
     al_kind (fst s) = Site_Lit \<and> snd s = None \<and> (\<forall>p\<in>set promoted. \<not> same_class t p (al_region (fst s)))"

definition region_unused :: "region_table \<Rightarrow> nat list \<Rightarrow> nat list \<Rightarrow> nat \<Rightarrow> bool" where
  "region_unused t site_regions ambient p \<longleftrightarrow> (\<forall>r\<in>set site_regions \<union> set ambient. \<not> same_class t r p)"

lemma region_unused_same:
  assumes "same_table t t'" "in_range t rs" "in_range t ambient" "p < length (rt_regions t)"
  shows "region_unused t' rs ambient p = region_unused t rs ambient p"
proof -
  have "same_class t' r p = same_class t r p" if "r \<in> set rs \<union> set ambient" for r
    using same_table_class [OF assms(1) _ assms(4)] that assms(2,3) by (auto simp: in_range_def list_all_iff)
  then show ?thesis unfolding region_unused_def by blast
qed

lemma site_summaries_spec:
  "uf_ok t \<Longrightarrow> in_range t promoted \<Longrightarrow> in_range t (map (al_region \<circ> fst) ss) \<Longrightarrow>
   \<exists>out t'. site_summaries promoted ss t = Some (out, t') \<and> uf_ok t' \<and> same_table t t' \<and>
     map ss_stacked out = map (site_stacked t promoted) ss"
proof (induction ss arbitrary: t)
  case (Cons x ss)
  obtain s esc where x: "x = (s, esc)" by (cases x)
  have s: "al_region s < length (rt_regions t)" using Cons.prems(3) by (simp add: in_range_def x)
  have "\<exists>held t1. (if al_kind s = Site_Lit \<and> esc = None then any_same promoted (al_region s) t else Some (True, t)) = Some (held, t1) \<and>
      uf_ok t1 \<and> same_table t t1 \<and>
      (al_kind s = Site_Lit \<and> esc = None \<longrightarrow> held = (\<exists>p\<in>set promoted. same_class t p (al_region s)))"
    using any_same_spec [OF Cons.prems(1,2) s] Cons.prems(1) by auto
  then obtain held t1 where t1: "(if al_kind s = Site_Lit \<and> esc = None then any_same promoted (al_region s) t else Some (True, t)) = Some (held, t1)"
      "uf_ok t1" "same_table t t1" "al_kind s = Site_Lit \<and> esc = None \<longrightarrow> held = (\<exists>p\<in>set promoted. same_class t p (al_region s))"
    by blast
  note n = same_table_regions [OF t1(3)]
  obtain out t2 where t2: "site_summaries promoted ss t1 = Some (out, t2)" "uf_ok t2" "same_table t1 t2"
      "map ss_stacked out = map (site_stacked t1 promoted) ss"
    using Cons.IH [OF t1(2)] Cons.prems(2,3) n by (auto simp: in_range_def)
  have "map (site_stacked t1 promoted) ss = map (site_stacked t promoted) ss"
    using same_table_class [OF t1(3)] Cons.prems(2,3) by (fastforce simp: site_stacked_def in_range_def list_all_iff)
  then show ?case using t1(1,4) t2 same_table_trans [OF t1(3) t2(3)] by (auto simp: x site_stacked_def)
qed simp

lemma never_allocating_spec:
  "uf_ok t \<Longrightarrow> in_range t ps \<Longrightarrow> in_range t rs \<Longrightarrow> in_range t ambient \<Longrightarrow>
   \<exists>t'. never_allocating ps rs ambient t = Some (filter (region_unused t rs ambient) ps, t') \<and> uf_ok t' \<and> same_table t t'"
proof (induction ps arbitrary: t)
  case (Cons p ps)
  have p: "p < length (rt_regions t)" using Cons.prems(2) by (simp add: in_range_def)
  obtain t1 where t1: "any_same rs p t = Some (\<exists>r\<in>set rs. same_class t r p, t1)" "uf_ok t1" "same_table t t1"
    using any_same_spec [OF Cons.prems(1,3) p] by blast
  note n1 = same_table_regions [OF t1(3)]
  have am: "in_range t1 ambient" "p < length (rt_regions t1)" using Cons.prems(4) p n1 by (simp_all add: in_range_def)
  have "\<exists>t2. (if \<exists>r\<in>set rs. same_class t r p then Some (True, t1) else any_same ambient p t1) =
      Some (\<not> region_unused t rs ambient p, t2) \<and> uf_ok t2 \<and> same_table t t2"
  proof (cases "\<exists>r\<in>set rs. same_class t r p")
    case False
    obtain t2 where "any_same ambient p t1 = Some (\<exists>r\<in>set ambient. same_class t1 r p, t2)" "uf_ok t2" "same_table t1 t2"
      using any_same_spec [OF t1(2) am] by blast
    moreover have "(\<exists>r\<in>set ambient. same_class t1 r p) \<longleftrightarrow> (\<exists>r\<in>set ambient. same_class t r p)"
      using same_table_class [OF t1(3)] Cons.prems(4) p by (auto simp: in_range_def list_all_iff)
    ultimately show ?thesis using False same_table_trans [OF t1(3)] by (auto simp: region_unused_def)
  qed (use t1 in \<open>auto simp: region_unused_def\<close>)
  then obtain t2 where t2: "(if \<exists>r\<in>set rs. same_class t r p then Some (True, t1) else any_same ambient p t1) =
      Some (\<not> region_unused t rs ambient p, t2)" "uf_ok t2" "same_table t t2"
    by blast
  note n2 = same_table_regions [OF t2(3)]
  obtain t3 where t3: "never_allocating ps rs ambient t2 = Some (filter (region_unused t2 rs ambient) ps, t3)" "uf_ok t3" "same_table t2 t3"
    using Cons.IH [OF t2(2)] Cons.prems n2 by (auto simp: in_range_def)
  have "filter (region_unused t2 rs ambient) ps = filter (region_unused t rs ambient) ps"
    using region_unused_same [OF t2(3) Cons.prems(3,4)] Cons.prems(2) by (intro filter_cong) (auto simp: in_range_def list_all_iff)
  then show ?case using t1(1) t2(1) t3 same_table_trans [OF t2(3) t3(3)] by auto
qed simp

section \<open>A table\<close>

text \<open>The caller's region, a parameter's and two blocks'.\<close>

definition ex_region :: "bytes \<Rightarrow> region_kind \<Rightarrow> region" where
  "ex_region name k = \<lparr>rg_name = name, rg_kind = k, rg_strategy = Arena, rg_span = at_byte 0\<rparr>"

definition ex_table :: region_table where
  "ex_table = fold (\<lambda>r t. snd (new_region r t))
     [ex_region ''caller'' RK_Caller, ex_region ''p'' RK_Param, ex_region ''a'' RK_Scope, ex_region ''b'' RK_Scope] RegionTable_default"

lemma new_regions_reach:
  "rt_reach t \<Longrightarrow> length (rt_regions t) + length rs \<le> u32_max \<Longrightarrow> rt_reach (fold (\<lambda>r t. snd (new_region r t)) rs t)"
proof (induction rs arbitrary: t)
  case (Cons r rs)
  have "rt_reach (snd (new_region r t))" by (rule rr_new [OF Cons.prems(1), of r "fst (new_region r t)"]) (use Cons.prems(2) in simp_all)
  moreover have "length (rt_regions (snd (new_region r t))) = Suc (length (rt_regions t))" by (simp add: new_region_def Let_def)
  ultimately show ?case using Cons.IH Cons.prems(2) by simp
qed simp

lemma ex_table_reach: "rt_reach ex_table"
  unfolding ex_table_def by (rule new_regions_reach [OF rr_default]) (simp add: RegionTable_default_def)

lemma ex_table_regions:
  "rt_regions ex_table = [ex_region ''caller'' RK_Caller, ex_region ''p'' RK_Param, ex_region ''a'' RK_Scope, ex_region ''b'' RK_Scope]"
  by (simp add: ex_table_def new_region_def Let_def RegionTable_default_def)

section \<open>Properties\<close>

text \<open>
  C9. On a table as the lowering builds it (regions added, unified and looked up), unifying two of its regions
  always answers, and does what the answer says: \<open>U_Ok\<close> and \<open>U_ParamsMerged\<close> merge
  their two classes and no others, the class keeping the rigid region either was bound to; \<open>U_Conflict\<close> names
  the two rigid regions and merges nothing; \<open>U_ParamsMerged\<close> is the answer exactly when the classes differ and
  neither is rigid.
\<close>

theorem region_unify_exact:
  assumes "rt_reach t" "a < length (rt_regions t)" "b < length (rt_regions t)"
  shows "\<exists>out t'. rt_unify a b t = Some (out, t') \<and>
    (if same_class t a b then out = U_Ok \<and> same_table t t'
     else case (class_binding t a, class_binding t b) of
            (Some x, Some y) \<Rightarrow> if x = y then out = U_Ok \<and> merged t a b (Some x) t' else out = U_Conflict x y \<and> same_table t t'
          | (Some x, None) \<Rightarrow> out = U_Ok \<and> merged t a b (Some x) t'
          | (None, Some y) \<Rightarrow> out = U_Ok \<and> merged t a b (Some y) t'
          | (None, None) \<Rightarrow> out = U_ParamsMerged \<and> merged t a b None t')"
proof -
  have "uf_ok t" using rt_reach_ok [OF assms(1)] by simp
  from rt_unify_spec [OF this assms(2,3)] show ?thesis by blast
qed

theorem region_unify_exact_witness: "\<exists>out t'. rt_unify 1 0 ex_table = Some (out, t') \<and> out = U_Ok"
proof -
  have "\<not> same_class ex_table 1 0 \<and> class_binding ex_table 1 = None \<and> class_binding ex_table 0 = Some B_Caller" by code_simp
  then show ?thesis using region_unify_exact [OF ex_table_reach, of 1 0] by (auto simp: ex_table_regions)
qed

text \<open>
  Two region blocks never become one region, however the function's regions were unified: in every table
  the lowering can build, different \<open>Scope\<close> or \<open>Value\<close> regions are in different classes, and unifying them
  is a conflict.
\<close>

theorem rigid_regions_distinct:
  assumes "rt_reach t" "i < length (rt_regions t)" "j < length (rt_regions t)" "i \<noteq> j"
    and "rg_kind (rt_regions t ! i) \<in> {RK_Scope, RK_Value}" "rg_kind (rt_regions t ! j) \<in> {RK_Scope, RK_Value}"
  shows "(\<exists>t'. rt_same i j t = Some (False, t')) \<and> (\<exists>t'. rt_unify i j t = Some (U_Conflict (B_Local i) (B_Local j), t'))"
proof -
  have ok: "uf_ok t" "rigid_ok t" using rt_reach_ok [OF assms(1)] by auto
  have b: "class_binding t i = Some (B_Local i)" "class_binding t j = Some (B_Local j)"
    using ok(2) assms(2,3,5,6) by (auto simp: rigid_ok_def kind_binding_def)
  then have nc: "\<not> same_class t i j" using class_binding_same [of t i j] assms(4) by auto
  obtain t1 where "rt_same i j t = Some (same_class t i j, t1)" by (rule rt_same_spec [OF ok(1) assms(2,3)])
  moreover obtain out t2 where "rt_unify i j t = Some (out, t2)"
      "if same_class t i j then out = U_Ok \<and> same_table t t2
       else case (class_binding t i, class_binding t j) of
              (Some x, Some y) \<Rightarrow> if x = y then out = U_Ok \<and> merged t i j (Some x) t2 else out = U_Conflict x y \<and> same_table t t2
            | (Some x, None) \<Rightarrow> out = U_Ok \<and> merged t i j (Some x) t2
            | (None, Some y) \<Rightarrow> out = U_Ok \<and> merged t i j (Some y) t2
            | (None, None) \<Rightarrow> out = U_ParamsMerged \<and> merged t i j None t2"
    by (rule rt_unify_spec [OF ok(1) assms(2,3)])
  ultimately show ?thesis using nc b assms(4) by auto
qed

theorem rigid_regions_distinct_witness: "\<exists>t'. rt_unify 2 3 ex_table = Some (U_Conflict (B_Local 2) (B_Local 3), t')"
  using rigid_regions_distinct [OF ex_table_reach, of 2 3] by (simp add: ex_table_regions ex_region_def)

text \<open>
  C21. The summary of a function's regions says what the classes say. For a table as the lowering builds it, with
  all regions in range and one escape verdict per site: the summary exists, a
  literal site is stack-allocated exactly when it does not escape and shares its class with no promoted region, a
  promoted region is reported to allocate nothing exactly when no site and no call's ambient region is in its
  class, and every region resolves to the text of its class's binding.
\<close>

theorem region_summary_exact:
  assumes "rt_reach t" "in_range t promoted" "in_range t (map al_region sites)" "in_range t ambient" "length esc = length sites"
  shows "\<exists>su. summarize name t sites esc promoted ambient cf = Some su \<and>
    su_never_allocates su = filter (region_unused t (map al_region sites) ambient) promoted \<and>
    map ss_stacked (su_sites su) = map (site_stacked t promoted) (zip sites esc) \<and>
    su_resolved su = map (\<lambda>i. binding_text (rt_regions t) (class_binding t i)) [0..<length (rt_regions t)]"
proof -
  have ok: "uf_ok t" using rt_reach_ok [OF assms(1)] by simp
  have "in_range t [0..<length (rt_regions t)]" by (simp add: in_range_def list_all_iff)
  then obtain t1 where t1: "resolve_all [0..<length (rt_regions t)] t =
      Some (map (\<lambda>i. binding_text (rt_regions t) (class_binding t i)) [0..<length (rt_regions t)], t1)" "uf_ok t1" "same_table t t1"
    using resolve_all_spec [OF ok] by blast
  note n1 = same_table_regions [OF t1(3)]
  have m: "map (al_region \<circ> fst) (zip sites esc) = map al_region sites"
    using assms(5) by (simp add: map_fst_zip flip: map_map)
  obtain out t2 where t2: "site_summaries promoted (zip sites esc) t1 = Some (out, t2)" "uf_ok t2" "same_table t1 t2"
      "map ss_stacked out = map (site_stacked t1 promoted) (zip sites esc)"
    using site_summaries_spec [OF t1(2), of promoted "zip sites esc"] assms(2,3) n1 m by (auto simp: in_range_def)
  note s2 = same_table_trans [OF t1(3) t2(3)]
  note n2 = same_table_regions [OF s2]
  obtain t3 where t3: "never_allocating promoted (map al_region sites) ambient t2 =
      Some (filter (region_unused t2 (map al_region sites) ambient) promoted, t3)"
    using never_allocating_spec [OF t2(2), of promoted "map al_region sites" ambient] assms(2-4) n2 by (auto simp: in_range_def)
  have "map (site_stacked t1 promoted) (zip sites esc) = map (site_stacked t promoted) (zip sites esc)"
    using same_table_class [OF t1(3)] assms(2,3)
    by (intro map_cong refl) (auto simp: site_stacked_def in_range_def list_all_iff dest!: set_zip_leftD)
  moreover have "filter (region_unused t2 (map al_region sites) ambient) promoted = filter (region_unused t (map al_region sites) ambient) promoted"
    using region_unused_same [OF s2 assms(3,4)] assms(2) by (intro filter_cong) (auto simp: in_range_def list_all_iff)
  ultimately show ?thesis using t1(1) t2(1,4) t3 by (simp add: summarize_def)
qed

theorem region_summary_exact_witness:
  "\<exists>su. summarize ''f'' ex_table [\<lparr>al_span = at_byte 1, al_ty = ''T'', al_region = 2, al_kind = Site_Lit\<rparr>] [None] [3] [0] False = Some su \<and>
     su_never_allocates su = [3]"
proof -
  let ?s = "\<lparr>al_span = at_byte 1, al_ty = ''T'', al_region = 2, al_kind = Site_Lit\<rparr>"
  have "filter (region_unused ex_table [2] [0]) [3] = [3]" by code_simp
  then show ?thesis
    using region_summary_exact [OF ex_table_reach, of "[3]" "[?s]" "[0]" "[None]" "''f''" False]
    by (auto simp: in_range_def ex_table_regions)
qed

end
