(* ===== verification/Sema_Norm.thy ===== *)
theory Sema_Norm
  imports Wolf_Str "HOL-Library.Signed_Division" "HOL-Library.Code_Target_Int" "HOL-Library.Code_Target_Nat"
begin

text \<open>
  Equality of const-generic arguments, \<^verbatim>\<open>crates/wolf_sema/src/ctfe/norm.rs\<close>. The token list with a position is
  the list of the tokens left; an \<open>i128\<close> is an integer with its range checked where the code checks it. A
  \<open>BTreeMap\<close> is a list sorted by key.
\<close>

unbundle bit_operations_syntax

section \<open>Tokens\<close>

datatype tok = T_Int int | T_Id bytes | T_Plus | T_Minus | T_Beyond byte | T_LParen | T_RParen | T_Other

definition i128 :: "int \<Rightarrow> int option" where
  "i128 v = (if - (2 ^ 127) \<le> v \<and> v < 2 ^ 127 then Some v else None)"

definition is_alpha_us :: "byte \<Rightarrow> bool" where
  "is_alpha_us c \<longleftrightarrow> CHR ''a'' \<le> c \<and> c \<le> CHR ''z'' \<or> c = CHR ''_'' \<or> CHR ''A'' \<le> c \<and> c \<le> CHR ''Z''"

definition digit_us :: "byte \<Rightarrow> bool" where
  "digit_us c \<longleftrightarrow> is_digit c \<or> c = CHR ''_''"

definition word_char :: "byte \<Rightarrow> bool" where
  "word_char c \<longleftrightarrow> is_alpha_us c \<or> is_digit c"

definition int_tok :: "bytes \<Rightarrow> tok" where
  "int_tok ds = (case i128 (int (digits_val (filter (\<lambda>c. c \<noteq> CHR ''_'') ds))) of Some v \<Rightarrow> T_Int v | None \<Rightarrow> T_Other)"

function tokenize :: "bytes \<Rightarrow> tok list" where
  "tokenize s =
     (case s of
        [] \<Rightarrow> []
      | c # r \<Rightarrow>
          if c = CHR '' '' \<or> c = CHR 0x09 then tokenize r
          else if is_digit c then int_tok (takeWhile digit_us s) # tokenize (dropWhile digit_us s)
          else if is_alpha_us c then T_Id (takeWhile word_char s) # tokenize (dropWhile word_char s)
          else if c = CHR ''+'' then T_Plus # tokenize r
          else if c = CHR ''-'' then T_Minus # tokenize r
          else if c \<in> set ''*/%&|^'' then T_Beyond c # tokenize r
          else if c = CHR ''<'' \<or> c = CHR ''>'' then
            (case r of
               d # r' \<Rightarrow> if d = c then T_Beyond (if c = CHR ''<'' then CHR ''l'' else CHR ''r'') # tokenize r'
                        else T_Other # tokenize r
             | [] \<Rightarrow> [T_Other])
          else if c = CHR ''('' then T_LParen # tokenize r
          else if c = CHR '')'' then T_RParen # tokenize r
          else T_Other # tokenize r)"
  by pat_completeness auto
termination
proof (relation "measure length", goal_cases)
  case (3 s c r)
  then have "length (dropWhile digit_us s) \<le> length r" by (simp add: digit_us_def length_dropWhile_le)
  then show ?case using 3 by simp
next
  case (4 s c r)
  then have "length (dropWhile word_char s) \<le> length r" by (simp add: word_char_def length_dropWhile_le)
  then show ?case using 4 by simp
qed auto

declare tokenize.simps [simp del]

section \<open>The linear tier\<close>

record lin_expr =
  le_terms :: "(bytes \<times> int) list"
  le_k :: int

fun add_terms :: "(bytes \<times> int) list \<Rightarrow> (bytes \<times> int) list \<Rightarrow> (bytes \<times> int) list option" where
  "add_terms acc [] = Some acc"
| "add_terms acc ((name, c) # ts) =
     (case i128 ((case map_of acc name of None \<Rightarrow> 0 | Some slot \<Rightarrow> slot) + c) of
        None \<Rightarrow> None
      | Some v \<Rightarrow> add_terms (bt_insert name v acc) ts)"

definition lin_add :: "lin_expr \<Rightarrow> lin_expr \<Rightarrow> lin_expr option" where
  "lin_add a b =
     (case add_terms (le_terms a) (le_terms b) of
        None \<Rightarrow> None
      | Some terms \<Rightarrow>
          (case i128 (le_k a + le_k b) of
             None \<Rightarrow> None
           | Some k \<Rightarrow> Some \<lparr>le_terms = filter (\<lambda>(_, c). c \<noteq> 0) terms, le_k = k\<rparr>))"

text \<open>\<open>lin_loop\<close> is the loop of \<open>sum\<close> after its first atom.\<close>

function (sequential) lin_atom :: "int \<Rightarrow> tok list \<Rightarrow> (lin_expr \<times> tok list) option"
  and lin_loop :: "int \<Rightarrow> lin_expr \<Rightarrow> tok list \<Rightarrow> (lin_expr \<times> tok list) option" where
  "lin_atom sign (T_Int v # ts) = map_option (\<lambda>k. (\<lparr>le_terms = [], le_k = k\<rparr>, ts)) (i128 (v * sign))"
| "lin_atom sign (T_Id name # ts) = Some (\<lparr>le_terms = [(name, sign)], le_k = 0\<rparr>, ts)"
| "lin_atom sign (T_Minus # ts) = lin_atom (- sign) ts"
| "lin_atom sign (T_LParen # ts) =
     (case lin_atom sign ts of
        None \<Rightarrow> None
      | Some (acc, ts1) \<Rightarrow>
          (case lin_loop sign acc ts1 of
             Some (inner, T_RParen # ts2) \<Rightarrow> Some (inner, ts2)
           | _ \<Rightarrow> None))"
| "lin_atom sign _ = None"
| "lin_loop sign acc (T_Plus # ts) =
     (case lin_atom sign ts of
        None \<Rightarrow> None
      | Some (rhs, ts1) \<Rightarrow> (case lin_add acc rhs of None \<Rightarrow> None | Some acc \<Rightarrow> lin_loop sign acc ts1))"
| "lin_loop sign acc (T_Minus # ts) =
     (case lin_atom (- sign) ts of
        None \<Rightarrow> None
      | Some (rhs, ts1) \<Rightarrow> (case lin_add acc rhs of None \<Rightarrow> None | Some acc \<Rightarrow> lin_loop sign acc ts1))"
| "lin_loop sign acc ts = Some (acc, ts)"
  by pat_completeness auto

lemma lin_shorter:
  "lin_atom_lin_loop_dom (Inl (sign, ts)) \<Longrightarrow> lin_atom sign ts = Some (r, ts') \<Longrightarrow> length ts' < length ts"
  "lin_atom_lin_loop_dom (Inr (sign, acc, ts)) \<Longrightarrow> lin_loop sign acc ts = Some (r, ts') \<Longrightarrow> length ts' \<le> length ts"
proof (induction sign ts and sign acc ts arbitrary: r ts' and r ts' rule: lin_atom_lin_loop.pinduct)
  case (4 sign ts)
  then show ?case
    by (fastforce simp: lin_atom.psimps split: option.splits list.splits tok.splits)
qed (force simp: lin_atom.psimps lin_loop.psimps split: option.splits)+

termination lin_atom
  apply (relation "measure (\<lambda>x. case x of Inl (_, ts) \<Rightarrow> length ts | Inr (_, _, ts) \<Rightarrow> length ts)")
  apply (auto dest: lin_shorter)
  done

definition lin_sum :: "int \<Rightarrow> tok list \<Rightarrow> (lin_expr \<times> tok list) option" where
  "lin_sum sign ts = (case lin_atom sign ts of None \<Rightarrow> None | Some (acc, ts) \<Rightarrow> lin_loop sign acc ts)"

section \<open>Closed expressions\<close>

definition closed_prec :: "byte \<Rightarrow> nat" where
  "closed_prec c =
     (if c \<in> set ''*/%'' then 6 else if c \<in> set ''lr'' then 4 else if c = CHR ''&'' then 3
      else if c = CHR ''^'' then 2 else if c = CHR ''|'' then 1 else 0)"

fun closed_op :: "tok \<Rightarrow> (byte \<times> nat) option" where
  "closed_op T_Plus = Some (CHR ''+'', 5)"
| "closed_op T_Minus = Some (CHR ''-'', 5)"
| "closed_op (T_Beyond c) = Some (c, closed_prec c)"
| "closed_op _ = None"

text \<open>\<open>as i128\<close> of an integer: the value modulo \<open>2 ^ 128\<close>, in the range.\<close>

definition wrap_i128 :: "int \<Rightarrow> int" where
  "wrap_i128 v = (v + 2 ^ 127) mod 2 ^ 128 - 2 ^ 127"

definition shift_of :: "int \<Rightarrow> nat option" where
  "shift_of r = (if 0 \<le> r \<and> r < 2 ^ 32 \<and> r < 128 then Some (nat r) else None)"

definition closed_apply :: "byte \<Rightarrow> int \<Rightarrow> int \<Rightarrow> int option" where
  "closed_apply c l r =
     (if c = CHR ''+'' then i128 (l + r)
      else if c = CHR ''-'' then i128 (l - r)
      else if c = CHR ''*'' then i128 (l * r)
      else if c = CHR ''/'' then (if r = 0 then None else i128 (l sdiv r))
      else if c = CHR ''%'' then (if r = 0 \<or> i128 (l sdiv r) = None then None else Some (l smod r))
      else if c = CHR ''&'' then Some (l AND r)
      else if c = CHR ''|'' then Some (l OR r)
      else if c = CHR ''^'' then Some (l XOR r)
      else if c = CHR ''l'' then map_option (\<lambda>n. wrap_i128 (l * 2 ^ n)) (shift_of r)
      else if c = CHR ''r'' then map_option (\<lambda>n. l div 2 ^ n) (shift_of r)
      else None)"

text \<open>\<open>closed_loop\<close> is the loop of \<open>expr\<close> after its first leaf.\<close>

function (sequential) closed_leaf :: "tok list \<Rightarrow> (int \<times> tok list) option"
  and closed_loop :: "nat \<Rightarrow> int \<Rightarrow> tok list \<Rightarrow> (int \<times> tok list) option" where
  "closed_leaf (T_Int v # ts) = Some (v, ts)"
| "closed_leaf (T_Minus # ts) =
     (case closed_leaf ts of None \<Rightarrow> None | Some (v, ts1) \<Rightarrow> map_option (\<lambda>v. (v, ts1)) (i128 (- v)))"
| "closed_leaf (T_LParen # ts) =
     (case closed_leaf ts of
        None \<Rightarrow> None
      | Some (lhs, ts1) \<Rightarrow>
          (case closed_loop 0 lhs ts1 of
             Some (v, T_RParen # ts2) \<Rightarrow> Some (v, ts2)
           | _ \<Rightarrow> None))"
| "closed_leaf _ = None"
| "closed_loop least lhs (t # ts) =
     (case closed_op t of
        None \<Rightarrow> Some (lhs, t # ts)
      | Some (c, prec) \<Rightarrow>
          if prec < least then Some (lhs, t # ts)
          else case closed_leaf ts of
                 None \<Rightarrow> None
               | Some (l1, ts1) \<Rightarrow>
                   (case closed_loop (prec + 1) l1 ts1 of
                      None \<Rightarrow> None
                    | Some (rhs, ts2) \<Rightarrow>
                        (case closed_apply c lhs rhs of
                           None \<Rightarrow> None
                         | Some v \<Rightarrow> closed_loop least v ts2)))"
| "closed_loop least lhs [] = Some (lhs, [])"
  by pat_completeness auto

lemma closed_shorter:
  "closed_leaf_closed_loop_dom (Inl ts) \<Longrightarrow> closed_leaf ts = Some (r, ts') \<Longrightarrow> length ts' < length ts"
  "closed_leaf_closed_loop_dom (Inr (least, lhs, ts)) \<Longrightarrow> closed_loop least lhs ts = Some (r, ts') \<Longrightarrow> length ts' \<le> length ts"
proof (induction ts and least lhs ts arbitrary: r ts' and r ts' rule: closed_leaf_closed_loop.pinduct)
  case (3 ts)
  then show ?case
    by (fastforce simp: closed_leaf.psimps split: option.splits list.splits tok.splits)
next
  case (5 least lhs t ts)
  show ?case
  proof (cases "closed_op t")
    case None
    then show ?thesis using 5 by (simp add: closed_loop.psimps)
  next
    case (Some cp)
    then show ?thesis using 5 by (cases cp) (fastforce simp: closed_loop.psimps split: option.splits if_splits)
  qed
qed (force simp: closed_leaf.psimps closed_loop.psimps split: option.splits)+

termination closed_leaf
  apply (relation "measure (\<lambda>x. case x of Inl ts \<Rightarrow> length ts | Inr (_, _, ts) \<Rightarrow> length ts)")
  apply (auto dest!: closed_shorter)
  done

definition closed_expr :: "nat \<Rightarrow> tok list \<Rightarrow> (int \<times> tok list) option" where
  "closed_expr least ts = (case closed_leaf ts of None \<Rightarrow> None | Some (lhs, ts) \<Rightarrow> closed_loop least lhs ts)"

section \<open>Normal forms\<close>

datatype norm_form = Linear lin_expr | Beyond | NotConst

definition normalize :: "bytes \<Rightarrow> norm_form" where
  "normalize s =
     (let toks = tokenize s
      in if T_Other \<in> set toks then NotConst
         else if list_ex (\<lambda>t. case t of T_Beyond _ \<Rightarrow> True | _ \<Rightarrow> False) toks then
           if list_ex (\<lambda>t. case t of T_Id _ \<Rightarrow> True | _ \<Rightarrow> False) toks then Beyond
           else case closed_expr 0 toks of
                  Some (v, []) \<Rightarrow> Linear \<lparr>le_terms = [], le_k = v\<rparr>
                | _ \<Rightarrow> Beyond
         else case lin_sum 1 toks of
                Some (lin, []) \<Rightarrow> Linear lin
              | _ \<Rightarrow> NotConst)"

section \<open>Comparing opaque forms\<close>

datatype opaque_eq = OE_Equal | OE_Distinct | OE_NeedsWitness

fun split_args :: "nat \<Rightarrow> bytes \<Rightarrow> bytes \<Rightarrow> bytes list" where
  "split_args depth cur [] = (if trim cur = [] then [] else [trim cur])"
| "split_args depth cur (c # s) =
     (if c = CHR ''['' \<or> c = CHR ''('' then split_args (depth + 1) (cur @ [c]) s
      else if c = CHR '']'' \<or> c = CHR '')'' then split_args (depth - 1) (cur @ [c]) s
      else if c = CHR '','' \<and> depth = 0 then trim cur # split_args depth [] s
      else split_args depth (cur @ [c]) s)"

definition split_opaque :: "bytes \<Rightarrow> (bytes \<times> bytes list) option" where
  "split_opaque s =
     (case dropWhile (\<lambda>c. c \<noteq> CHR ''['') s of
        [] \<Rightarrow> None
      | _ # rest \<Rightarrow>
          if last s \<noteq> CHR '']'' then None
          else Some (takeWhile (\<lambda>c. c \<noteq> CHR ''['') s, split_args 0 [] (butlast rest)))"

fun compare_args :: "opaque_eq \<Rightarrow> (bytes \<times> bytes) list \<Rightarrow> opaque_eq" where
  "compare_args verdict [] = verdict"
| "compare_args verdict ((x, y) # ps) =
     (if x = y then compare_args verdict ps
      else case (normalize x, normalize y) of
             (Linear lx, Linear ly) \<Rightarrow> if lx \<noteq> ly then OE_Distinct else compare_args verdict ps
           | (Beyond, Beyond) \<Rightarrow> compare_args OE_NeedsWitness ps
           | (Beyond, Linear _) \<Rightarrow> compare_args OE_NeedsWitness ps
           | (Linear _, Beyond) \<Rightarrow> compare_args OE_NeedsWitness ps
           | _ \<Rightarrow> OE_Distinct)"

definition opaque_eq_of :: "bytes \<Rightarrow> bytes \<Rightarrow> opaque_eq" where
  "opaque_eq_of a b =
     (if a = b then OE_Equal
      else case (split_opaque a, split_opaque b) of
             (Some (ha, aa), Some (hb, ab)) \<Rightarrow>
               if ha \<noteq> hb \<or> length aa \<noteq> length ab then OE_Distinct
               else compare_args OE_Equal (zip aa ab)
           | _ \<Rightarrow> OE_Distinct)"

end
