(* ===== verification/Sema_Norm_Theorems.thy ===== *)
theory Sema_Norm_Theorems
  imports Sema_Norm
begin

text \<open>
  What const expressions mean, as a grammar with values over unbounded integers and a valuation of the
  parameters, and what the normal forms of \<open>Sema_Norm\<close> say about it.
\<close>

unbundle bit_operations_syntax

section \<open>The grammar\<close>

text \<open>
  \<open>denotes \<rho> p ts v\<close>: the tokens spell an expression of value \<open>v\<close> whose operators bind at least as tight as \<open>p\<close>;
  operators of one level group to the left, and level 7 is that of the leaves.
\<close>

definition op_val :: "byte \<Rightarrow> int \<Rightarrow> int \<Rightarrow> int option" where
  "op_val c l r =
     (if c = CHR ''+'' then Some (l + r)
      else if c = CHR ''-'' then Some (l - r)
      else if c = CHR ''*'' then Some (l * r)
      else if c = CHR ''/'' then (if r = 0 then None else Some (l sdiv r))
      else if c = CHR ''%'' then (if r = 0 then None else Some (l smod r))
      else if c = CHR ''&'' then Some (l AND r)
      else if c = CHR ''|'' then Some (l OR r)
      else if c = CHR ''^'' then Some (l XOR r)
      else if c = CHR ''l'' then (if 0 \<le> r then Some (l * 2 ^ nat r) else None)
      else if c = CHR ''r'' then (if 0 \<le> r then Some (l div 2 ^ nat r) else None)
      else None)"

inductive denotes :: "(bytes \<Rightarrow> int) \<Rightarrow> nat \<Rightarrow> tok list \<Rightarrow> int \<Rightarrow> bool" for \<rho> where
  d_int: "denotes \<rho> 7 [T_Int v] v"
| d_id: "denotes \<rho> 7 [T_Id x] (\<rho> x)"
| d_neg: "denotes \<rho> 7 ts v \<Longrightarrow> denotes \<rho> 7 (T_Minus # ts) (- v)"
| d_paren: "denotes \<rho> 0 ts v \<Longrightarrow> denotes \<rho> 7 (T_LParen # ts @ [T_RParen]) v"
| d_op: "denotes \<rho> p l a \<Longrightarrow> closed_op t = Some (c, p) \<Longrightarrow> denotes \<rho> (Suc p) r b \<Longrightarrow> op_val c a b = Some v \<Longrightarrow> denotes \<rho> p (l @ t # r) v"
| d_down: "denotes \<rho> p ts v \<Longrightarrow> q \<le> p \<Longrightarrow> denotes \<rho> q ts v"

section \<open>Linear forms\<close>

definition lin_val :: "(bytes \<Rightarrow> int) \<Rightarrow> lin_expr \<Rightarrow> int" where
  "lin_val \<rho> e = sum_list (map (\<lambda>(x, c). c * \<rho> x) (le_terms e)) + le_k e"

definition canonical :: "lin_expr \<Rightarrow> bool" where
  "canonical e \<longleftrightarrow> bt_ok (le_terms e) \<and> list_all (\<lambda>(_, c). c \<noteq> 0) (le_terms e)"

lemma i128_Some [simp]: "i128 v = Some w \<longleftrightarrow> w = v \<and> - (2 ^ 127) \<le> v \<and> v < 2 ^ 127"
  by (auto simp: i128_def)

lemma bt_insert_sum:
  "bt_ok m \<Longrightarrow> sum_list (map (\<lambda>(x, c). c * (\<rho> x :: int)) (bt_insert k v m)) =
     sum_list (map (\<lambda>(x, c). c * \<rho> x) m) + (v - (case map_of m k of None \<Rightarrow> 0 | Some c \<Rightarrow> c)) * \<rho> k"
proof (induction k v m rule: bt_insert.induct)
  case (2 k v a b m)
  have "map_of m k = None" if "k < a"
    using 2(2) that by (fastforce simp: bt_ok_def map_of_eq_None_iff)
  with 2 show ?case by (auto simp: bt_ok_def algebra_simps)
qed simp

lemma add_terms_sum:
  assumes "add_terms acc ts = Some m" "bt_ok acc"
  shows "bt_ok m \<and> sum_list (map (\<lambda>(x, c). c * (\<rho> x :: int)) m) =
     sum_list (map (\<lambda>(x, c). c * \<rho> x) acc) + sum_list (map (\<lambda>(x, c). c * \<rho> x) ts)"
  using assms
proof (induction acc ts rule: add_terms.induct)
  case (2 acc name c ts)
  define v where "v = (case map_of acc name of None \<Rightarrow> 0 | Some slot \<Rightarrow> slot) + c"
  have ins: "bt_ok (bt_insert name v acc)" using 2(3) by (rule bt_insert_ok)
  have "i128 v = Some v" and rest: "add_terms (bt_insert name v acc) ts = Some m"
    using 2(2) by (auto simp: v_def split: option.splits)
  from 2(1) [OF this(1) [unfolded v_def] rest [unfolded v_def] ins [unfolded v_def]]
  show ?case using 2(3) by (simp add: bt_insert_sum v_def algebra_simps split: option.splits)
qed simp

lemma sum_nonzero: "sum_list (map (\<lambda>(x, c). c * (\<rho> x :: int)) (filter (\<lambda>(_, c). c \<noteq> 0) m)) = sum_list (map (\<lambda>(x, c). c * \<rho> x) m)"
  by (induction m) auto

lemma bt_ok_filter: "bt_ok m \<Longrightarrow> bt_ok (filter P m)"
  by (induction m) (auto simp: bt_ok_def)

lemma lin_add_sum:
  assumes "lin_add a b = Some e" "canonical a"
  shows "canonical e" "lin_val \<rho> e = lin_val \<rho> a + lin_val \<rho> b"
proof -
  obtain m where m: "add_terms (le_terms a) (le_terms b) = Some m" "e = \<lparr>le_terms = filter (\<lambda>(_, c). c \<noteq> 0) m, le_k = le_k a + le_k b\<rparr>"
    using assms(1) by (auto simp: lin_add_def split: option.splits)
  have "bt_ok (le_terms a)" using assms(2) by (simp add: canonical_def)
  note s = add_terms_sum [OF m(1) this]
  show "canonical e" using s by (auto simp: m(2) canonical_def bt_ok_filter list_all_iff)
  show "lin_val \<rho> e = lin_val \<rho> a + lin_val \<rho> b" using s [of \<rho>] by (simp add: m(2) lin_val_def sum_nonzero)
qed

text \<open>What the parser of the linear tier consumes is an expression, and its form has that value.\<close>

definition lin_reads :: "nat \<Rightarrow> int \<Rightarrow> tok list \<Rightarrow> lin_expr \<Rightarrow> bool" where
  "lin_reads p sign us e \<longleftrightarrow> canonical e \<and> (\<forall>\<rho>. \<exists>v. denotes \<rho> p us v \<and> lin_val \<rho> e = sign * v)"

lemma lin_reads_op:
  assumes "lin_reads 5 sign us a" "lin_reads 7 s ws b" "lin_add a b = Some e" "sign \<in> {1, - 1}"
    and "t = T_Plus \<and> s = sign \<or> t = T_Minus \<and> s = - sign"
  shows "lin_reads 5 sign (us @ t # ws) e"
  unfolding lin_reads_def
proof (intro conjI allI)
  show "canonical e" using lin_add_sum(1) [OF assms(3)] assms(1) by (simp add: lin_reads_def)
  fix \<rho>
  obtain v w where v: "denotes \<rho> 5 us v" "lin_val \<rho> a = sign * v" and w: "denotes \<rho> 7 ws w" "lin_val \<rho> b = s * w"
    using assms(1,2) unfolding lin_reads_def by blast
  have val: "lin_val \<rho> e = sign * v + s * w"
    using lin_add_sum(2) [OF assms(3), of \<rho>] assms(1) v(2) w(2) by (simp add: lin_reads_def)
  have w6: "denotes \<rho> (Suc 5) ws w" using w(1) by (rule d_down) simp
  show "\<exists>x. denotes \<rho> 5 (us @ t # ws) x \<and> lin_val \<rho> e = sign * x"
    using assms(5)
  proof
    assume t: "t = T_Plus \<and> s = sign"
    then have "denotes \<rho> 5 (us @ t # ws) (v + w)" using d_op [OF v(1) _ w6, of t "CHR ''+''"] by (simp add: op_val_def)
    then show ?thesis using t val by (auto simp: algebra_simps)
  next
    assume t: "t = T_Minus \<and> s = - sign"
    then have "denotes \<rho> 5 (us @ t # ws) (v - w)" using d_op [OF v(1) _ w6, of t "CHR ''-''"] by (simp add: op_val_def)
    then show ?thesis using t val by (auto simp: algebra_simps)
  qed
qed

lemma lin_reads_down: "lin_reads p sign us e \<Longrightarrow> q \<le> p \<Longrightarrow> lin_reads q sign us e"
  unfolding lin_reads_def using d_down by blast

lemma lin_parses:
  "lin_atom sign ts = Some (e, rest) \<Longrightarrow> sign \<in> {1, - 1} \<Longrightarrow> \<exists>us. ts = us @ rest \<and> lin_reads 7 sign us e"
  "lin_loop sign acc ts = Some (e, rest) \<Longrightarrow> sign \<in> {1, - 1} \<Longrightarrow> lin_reads 5 sign us0 acc \<Longrightarrow>
     \<exists>us. ts = us @ rest \<and> lin_reads 5 sign (us0 @ us) e"
proof (induction sign ts and sign acc ts arbitrary: e rest and e rest us0 rule: lin_atom_lin_loop.induct)
  case (1 sign v ts)
  then have "lin_reads 7 sign [T_Int v] e"
    by (auto simp: lin_reads_def canonical_def bt_ok_def lin_val_def intro!: exI [of _ v] d_int)
  then show ?case using 1 by auto
next
  case (2 sign name ts)
  have "lin_reads 7 sign [T_Id name] e"
    unfolding lin_reads_def
  proof (intro conjI allI)
    show "canonical e" using 2 by (auto simp: canonical_def bt_ok_def)
    fix \<rho> show "\<exists>v. denotes \<rho> 7 [T_Id name] v \<and> lin_val \<rho> e = sign * v"
      using 2 d_id [of \<rho> name] by (auto simp: lin_val_def)
  qed
  then show ?case using 2 by auto
next
  case (3 sign ts)
  obtain us where us: "ts = us @ rest" "lin_reads 7 (- sign) us e" using 3 by auto
  have "lin_reads 7 sign (T_Minus # us) e"
    unfolding lin_reads_def
  proof (intro conjI allI)
    show "canonical e" using us(2) by (simp add: lin_reads_def)
    fix \<rho>
    obtain v where v: "denotes \<rho> 7 us v" "lin_val \<rho> e = - sign * v" using us(2) unfolding lin_reads_def by blast
    then show "\<exists>v. denotes \<rho> 7 (T_Minus # us) v \<and> lin_val \<rho> e = sign * v"
      by (intro exI [of _ "- v"]) (simp add: d_neg)
  qed
  then show ?case using us(1) by auto
next
  case (4 sign ts)
  obtain acc ts1 where a: "lin_atom sign ts = Some (acc, ts1)" "lin_loop sign acc ts1 = Some (e, T_RParen # rest)"
    using 4(3) by (auto split: option.splits list.splits tok.splits)
  obtain us where us: "ts = us @ ts1" "lin_reads 7 sign us acc" using 4(1) [OF a(1) 4(4)] by blast
  have "lin_reads 5 sign us acc" using us(2) by (rule lin_reads_down) simp
  from 4(2) [OF a(1) refl a(2) 4(4) this]
  obtain ws where ws: "ts1 = ws @ T_RParen # rest" "lin_reads 5 sign (us @ ws) e" by blast
  have r0: "lin_reads 0 sign (us @ ws) e" using ws(2) by (rule lin_reads_down) simp
  have "lin_reads 7 sign (T_LParen # (us @ ws) @ [T_RParen]) e"
    using r0 d_paren unfolding lin_reads_def by blast
  then show ?case using us(1) ws(1) by (intro exI [of _ "T_LParen # (us @ ws) @ [T_RParen]"]) simp
next
  case (6 sign acc ts)
  obtain rhs ts1 acc' where a: "lin_atom sign ts = Some (rhs, ts1)" "lin_add acc rhs = Some acc'" "lin_loop sign acc' ts1 = Some (e, rest)"
    using 6(3) by (auto split: option.splits)
  obtain ws where ws: "ts = ws @ ts1" "lin_reads 7 sign ws rhs" using 6(1) [OF a(1) 6(4)] by blast
  have "lin_reads 5 sign (us0 @ T_Plus # ws) acc'"
    using lin_reads_op [OF 6(5) ws(2) a(2) 6(4)] by simp
  from 6(2) [OF a(1) refl a(2) a(3) 6(4) this] show ?case using ws(1) by auto
next
  case (7 sign acc ts)
  have s: "- sign \<in> {1, - 1}" using 7(4) by auto
  obtain rhs ts1 acc' where a: "lin_atom (- sign) ts = Some (rhs, ts1)" "lin_add acc rhs = Some acc'" "lin_loop sign acc' ts1 = Some (e, rest)"
    using 7(3) by (auto split: option.splits)
  obtain ws where ws: "ts = ws @ ts1" "lin_reads 7 (- sign) ws rhs" using 7(1) [OF a(1) s] by blast
  have "lin_reads 5 sign (us0 @ T_Minus # ws) acc'"
    using lin_reads_op [OF 7(5) ws(2) a(2) 7(4)] by simp
  from 7(2) [OF a(1) refl a(2) a(3) 7(4) this] show ?case using ws(1) by auto
qed auto

section \<open>Closed expressions\<close>

text \<open>The next token is no operator that binds at least as tight as \<open>p\<close>.\<close>

definition stops :: "nat \<Rightarrow> tok list \<Rightarrow> bool" where
  "stops p ts \<longleftrightarrow> (case ts of [] \<Rightarrow> True | t # _ \<Rightarrow> (case closed_op t of None \<Rightarrow> True | Some (_, q) \<Rightarrow> q < p))"

lemma closed_op_prec: "closed_op t = Some (c, p) \<Longrightarrow> p \<le> 6"
  by (cases t) (auto simp: closed_prec_def split: if_splits)

lemma stops_seven: "7 \<le> p \<Longrightarrow> stops p ts"
  using closed_op_prec by (fastforce simp: stops_def split: list.splits option.splits)

lemma closed_apply_val: "closed_apply c l r = Some v \<Longrightarrow> c \<noteq> CHR ''l'' \<Longrightarrow> op_val c l r = Some v"
  by (auto simp: closed_apply_def op_val_def shift_of_def split: if_splits)

definition no_shl :: "tok list \<Rightarrow> bool" where
  "no_shl ts \<longleftrightarrow> T_Beyond (CHR ''l'') \<notin> set ts"

lemma closed_parses:
  "closed_leaf ts = Some (v, rest) \<Longrightarrow> no_shl ts \<Longrightarrow> \<exists>us. ts = us @ rest \<and> denotes \<rho> 7 us v"
  "closed_loop least lhs ts = Some (v, rest) \<Longrightarrow> no_shl ts \<Longrightarrow> denotes \<rho> q us0 lhs \<Longrightarrow> least \<le> q \<Longrightarrow> stops (Suc q) ts \<Longrightarrow>
     \<exists>us. ts = us @ rest \<and> denotes \<rho> least (us0 @ us) v \<and> stops least rest"
proof (induction ts and least lhs ts arbitrary: v rest and v rest q us0 rule: closed_leaf_closed_loop.induct)
  case (1 v ts)
  then show ?case using d_int by auto
next
  case (2 ts)
  obtain w where w: "closed_leaf ts = Some (w, rest)" "v = - w" using 2(2) by (auto split: option.splits)
  obtain us where "ts = us @ rest" "denotes \<rho> 7 us w" using 2(1) [OF w(1)] 2(3) by (auto simp: no_shl_def)
  then show ?case using d_neg w(2) by (intro exI [of _ "T_Minus # us"]) simp
next
  case (3 ts)
  obtain lhs ts1 where a: "closed_leaf ts = Some (lhs, ts1)" "closed_loop 0 lhs ts1 = Some (v, T_RParen # rest)"
    using 3(3) by (auto split: option.splits list.splits tok.splits)
  obtain us where us: "ts = us @ ts1" "denotes \<rho> 7 us lhs" using 3(1) [OF a(1)] 3(4) by (auto simp: no_shl_def)
  have "no_shl ts1" using 3(4) us(1) by (simp add: no_shl_def)
  from 3(2) [OF a(1) refl a(2) this us(2)] stops_seven [of "Suc 7" ts1]
  obtain ws where ws: "ts1 = ws @ T_RParen # rest" "denotes \<rho> 0 (us @ ws) v" by auto
  then show ?case using us(1) d_paren [OF ws(2)] by (intro exI [of _ "T_LParen # (us @ ws) @ [T_RParen]"]) simp
next
  case (5 least lhs t ts)
  show ?case
  proof (cases "closed_op t")
    case None
    then show ?thesis using 5 d_down by (auto simp: stops_def)
  next
    case (Some cp)
    obtain c p where cp: "closed_op t = Some (c, p)" using Some by (cases cp) auto
    show ?thesis
    proof (cases "p < least")
      case True
      then show ?thesis using 5 cp d_down by (auto simp: stops_def)
    next
      case False
      then obtain l1 ts1 rhs ts2 w where a: "closed_leaf ts = Some (l1, ts1)" "closed_loop (p + 1) l1 ts1 = Some (rhs, ts2)"
          "closed_apply c lhs rhs = Some w" "closed_loop least w ts2 = Some (v, rest)"
        using 5(4) cp by (auto split: option.splits)
      have ns: "no_shl ts" and cl: "c \<noteq> CHR ''l''" using 5(5) cp by (cases t; auto simp: no_shl_def)+
      obtain us where us: "ts = us @ ts1" "denotes \<rho> 7 us l1" using 5(1) [OF cp refl False a(1) ns] by blast
      have p: "p \<le> q" "p \<le> 6" using 5(8) cp closed_op_prec [OF cp] by (auto simp: stops_def)
      have n1: "no_shl ts1" using ns us(1) by (simp add: no_shl_def)
      have "stops (Suc 7) ts1" by (simp add: stops_seven)
      with 5(2) [OF cp refl False a(1) refl a(2) n1 us(2)] p(2)
      obtain ws where ws: "ts1 = ws @ ts2" "denotes \<rho> (p + 1) (us @ ws) rhs" "stops (p + 1) ts2" by auto
      have "denotes \<rho> p us0 lhs" using 5(6) p(1) by (rule d_down)
      then have d: "denotes \<rho> p (us0 @ t # (us @ ws)) w"
        using d_op [OF _ cp _ closed_apply_val [OF a(3) cl]] ws(2) by simp
      have n2: "no_shl ts2" using n1 ws(1) by (simp add: no_shl_def)
      have "\<exists>xs. ts2 = xs @ rest \<and> denotes \<rho> least ((us0 @ t # (us @ ws)) @ xs) v \<and> stops least rest"
        using 5(3) [OF cp refl False a(1) refl a(2) refl a(3) a(4) n2 d] False ws(3) by simp
      then show ?thesis using us(1) ws(1) by auto
    qed
  qed
next
  case (6 least lhs)
  then show ?case using d_down by (auto simp: stops_def)
qed auto

section \<open>Normal forms\<close>

lemma canonical_value: "closed_expr 0 ts = Some (v, []) \<Longrightarrow> no_shl ts \<Longrightarrow> denotes \<rho> 0 ts v"
proof -
  assume a: "closed_expr 0 ts = Some (v, [])" "no_shl ts"
  obtain lhs ts1 where l: "closed_leaf ts = Some (lhs, ts1)" "closed_loop 0 lhs ts1 = Some (v, [])"
    using a(1) by (auto simp: closed_expr_def split: option.splits)
  obtain us where us: "ts = us @ ts1" "denotes \<rho> 7 us lhs" using closed_parses(1) [OF l(1) a(2)] by blast
  have "stops (Suc 7) ts1" by (simp add: stops_seven)
  with closed_parses(2) [OF l(2) _ us(2)] a(2) us(1) show ?thesis by (auto simp: no_shl_def)
qed

lemma normalize_linear:
  assumes "normalize s = Linear e" "no_shl (tokenize s)"
  shows "canonical e" "denotes \<rho> 0 (tokenize s) (lin_val \<rho> e)"
proof -
  define toks where "toks = tokenize s"
  consider (closed) v where "closed_expr 0 toks = Some (v, [])" "e = \<lparr>le_terms = [], le_k = v\<rparr>"
    | (linear) "lin_sum 1 toks = Some (e, [])"
    using assms(1) by (auto simp: normalize_def Let_def toks_def split: if_splits option.splits list.splits)
  then have "canonical e \<and> denotes \<rho> 0 toks (lin_val \<rho> e)"
  proof cases
    case closed
    then show ?thesis using canonical_value assms(2)
      by (auto simp: canonical_def bt_ok_def lin_val_def toks_def)
  next
    case linear
    then obtain acc ts1 where l: "lin_atom 1 toks = Some (acc, ts1)" "lin_loop 1 acc ts1 = Some (e, [])"
      by (auto simp: lin_sum_def split: option.splits)
    obtain us where us: "toks = us @ ts1" "lin_reads 7 1 us acc" using lin_parses(1) [OF l(1)] by auto
    have "lin_reads 5 1 us acc" using us(2) by (rule lin_reads_down) simp
    then have "lin_reads 5 1 toks e" using lin_parses(2) [OF l(2), of us] us(1) by auto
    then have "lin_reads 0 1 toks e" by (rule lin_reads_down) simp
    then show ?thesis unfolding lin_reads_def by (metis mult_1)
  qed
  then show "canonical e" "denotes \<rho> 0 (tokenize s) (lin_val \<rho> e)" by (auto simp: toks_def)
qed

text \<open>Canonical forms with the same values are the same.\<close>

lemma sum_point:
  "bt_ok m \<Longrightarrow> sum_list (map (\<lambda>(y, c). c * (if y = x then 1 else 0)) m) = (case map_of m x of None \<Rightarrow> 0 | Some c \<Rightarrow> (c :: int))"
proof (induction m)
  case (Cons a m)
  obtain y c where a: "a = (y, c)" by (cases a)
  have "map_of m x = None" if "y = x"
    using Cons(2) that by (fastforce simp: a bt_ok_def map_of_eq_None_iff)
  with Cons show ?case by (auto simp: a bt_ok_def)
qed simp

lemma bt_same_map:
  assumes "bt_ok m" "bt_ok n" "map_of m = map_of n" shows "m = n"
proof -
  have d: "distinct (map fst m)" "distinct (map fst n)" "sorted (map fst m)" "sorted (map fst n)"
    using assms(1,2) by (auto simp: bt_ok_def strict_sorted_iff)
  have "set m = set n" using assms(3) d(1,2) by (metis map_of_inject_set)
  moreover have "inj_on fst (set m \<union> set n)" using calculation d(1) by (simp add: distinct_map)
  ultimately show ?thesis using map_sorted_distinct_set_unique [of fst m n] d by simp
qed

lemma canonical_ext:
  assumes "canonical a" "canonical b" "\<And>\<rho>. lin_val \<rho> a = lin_val \<rho> b"
  shows "a = b"
proof -
  have k: "le_k a = le_k b" using assms(3) [of "\<lambda>_. 0"] by (simp add: lin_val_def split_def)
  have ok: "bt_ok (le_terms a)" "bt_ok (le_terms b)" using assms(1,2) by (auto simp: canonical_def)
  have nz: "map_of (le_terms a) x \<noteq> Some 0" "map_of (le_terms b) x \<noteq> Some 0" for x
    using assms(1,2) by (fastforce simp: canonical_def list_all_iff dest: map_of_SomeD)+
  have "map_of (le_terms a) x = map_of (le_terms b) x" for x
    using assms(3) [of "\<lambda>y. if y = x then 1 else 0"] k nz [of x] sum_point [OF ok(1), of x] sum_point [OF ok(2), of x]
    by (auto simp: lin_val_def split: option.splits)
  then have "le_terms a = le_terms b" using bt_same_map [OF ok] by blast
  then show ?thesis using k by simp
qed

text \<open>Two arguments the comparison takes for the same.\<close>

definition same_const :: "bytes \<Rightarrow> bytes \<Rightarrow> bool" where
  "same_const x y \<longleftrightarrow> (\<forall>\<rho>. \<exists>v. denotes \<rho> 0 (tokenize x) v \<and> denotes \<rho> 0 (tokenize y) v)"

lemma compare_args_equal:
  "compare_args verdict ps = OE_Equal \<Longrightarrow>
     verdict = OE_Equal \<and> list_all (\<lambda>(x, y). x = y \<or> (\<exists>l. normalize x = Linear l \<and> normalize y = Linear l)) ps"
proof (induction verdict ps rule: compare_args.induct)
  case (2 verdict x y ps)
  then show ?case by (auto split: if_splits norm_form.splits)
qed simp

section \<open>Properties\<close>

text \<open>
  C17. Two opaque types that compare equal and are not the same text apply the same head to arguments that are
  pairwise the same text or const expressions that denote one value, whatever the values of the parameters; when no argument
  of either has a shift to the left, which \<open>shl_overflow_equal\<close> is about.
\<close>

theorem opaque_equal_sound:
  assumes "opaque_eq_of a b = OE_Equal" "a \<noteq> b" "split_opaque a = Some (h, xs)"
    and "list_all (\<lambda>x. no_shl (tokenize x)) xs"
  shows "\<exists>ys. split_opaque b = Some (h, ys) \<and>
     (list_all (\<lambda>x. no_shl (tokenize x)) ys \<longrightarrow> list_all2 (\<lambda>x y. x = y \<or> same_const x y) xs ys)"
proof -
  obtain ys where ys: "split_opaque b = Some (h, ys)" "length xs = length ys" "compare_args OE_Equal (zip xs ys) = OE_Equal"
    using assms(1-3) by (auto simp: opaque_eq_of_def split: option.splits prod.splits if_splits)
  have "x = y \<or> same_const x y" if m: "(x, y) \<in> set (zip xs ys)" "no_shl (tokenize x)" "no_shl (tokenize y)" for x y
  proof (cases "x = y")
    case False
    then obtain l where "normalize x = Linear l" "normalize y = Linear l"
      using compare_args_equal [OF ys(3)] m(1) by (auto simp: list_all_iff)
    then show ?thesis unfolding same_const_def using normalize_linear(2) m(2,3) by blast
  qed simp
  then have "list_all (\<lambda>x. no_shl (tokenize x)) ys \<longrightarrow> list_all2 (\<lambda>x y. x = y \<or> same_const x y) xs ys"
    using assms(4) ys(2) unfolding list_all2_iff list_all_iff
    by (auto simp del: split_paired_All) (metis set_zip_leftD set_zip_rightD)
  then show ?thesis using ys(1) by blast
qed

theorem opaque_equal_sound_witness: "same_const ''N+M'' ''M+N''"
proof -
  have "split_opaque ''B[N+M]'' = Some (''B'', [''N+M''])"
    "split_opaque ''B[M+N]'' = Some (''B'', [''M+N''])"
    "no_shl (tokenize ''N+M'')" "no_shl (tokenize ''M+N'')"
    "opaque_eq_of ''B[N+M]'' ''B[M+N]'' = OE_Equal" by code_simp+
  then show ?thesis
    using opaque_equal_sound [of "''B[N+M]''" "''B[M+N]''" "''B''" "[''N+M'']"] by auto
qed

text \<open>
  C23. Normal forms decide the linear tier: expressions without a shift to the left that normalize to linear forms
  denote the values of their forms, and the forms are the same just when they have the same value for all values
  of the parameters. So two linear arguments are told apart only if some instance tells them apart.
\<close>

theorem linear_forms_decide:
  assumes "normalize x = Linear lx" "normalize y = Linear ly" "no_shl (tokenize x)" "no_shl (tokenize y)"
  shows "denotes \<rho> 0 (tokenize x) (lin_val \<rho> lx) \<and> denotes \<rho> 0 (tokenize y) (lin_val \<rho> ly) \<and>
     (lx = ly \<longleftrightarrow> (\<forall>\<rho>. lin_val \<rho> lx = lin_val \<rho> ly))"
  using canonical_ext [of lx ly] normalize_linear [OF assms(1,3)] normalize_linear [OF assms(2,4)] by blast

theorem linear_forms_decide_witness:
  "denotes (\<lambda>_. 5) 0 (tokenize ''N+N'') (lin_val (\<lambda>_. 5) \<lparr>le_terms = [(''N'', 2)], le_k = 0\<rparr>)"
proof -
  have "normalize ''N+N'' = Linear \<lparr>le_terms = [(''N'', 2)], le_k = 0\<rparr>" "no_shl (tokenize ''N+N'')" by code_simp+
  then show ?thesis using linear_forms_decide [of "''N+N''" _ "''N+N''" _ "\<lambda>_. 5"] by blast
qed

text \<open>
  A shift to the left drops the bits it pushes out where the other operators refuse to overflow, so types with
  different arguments compare equal.
\<close>

theorem shl_overflow_equal:
  "opaque_eq_of ''B[2<<127]'' ''B[0]'' = OE_Equal"
  by code_simp

end
