(* ===== verification/Sema_Unify.thy ===== *)
theory Sema_Unify
  imports Sema_Types Sema_Norm Wolf_Span Wolf_Roots
begin

text \<open>
  Unification, \<^verbatim>\<open>crates/wolf_sema/src/unify.rs\<close>: variables in a flat arena with union-find and levels, an undo
  log, and the structural walk. Every recursive call of \<open>unify\<close>, \<open>unify_rows\<close> and \<open>occurs_adjust\<close> is one of a
  sequence under \<open>?\<close>, so the recursion is a loop over the stack of what is still to do. \<open>None\<close> is that a loop does
  not end; a result holds the table and the store as the call leaves them, also when it fails.
\<close>

section \<open>Variables\<close>

datatype num_kind = NK_Any | NK_Num | NK_Integer | NK_IntFrozen | NK_Float

definition nk_meet :: "num_kind \<Rightarrow> num_kind \<Rightarrow> num_kind option" where
  "nk_meet a b =
     (if a = NK_Any then Some b else if b = NK_Any then Some a
      else if a = NK_Num then Some b else if b = NK_Num then Some a
      else case (a, b) of
             (NK_IntFrozen, NK_Integer) \<Rightarrow> Some NK_IntFrozen
           | (NK_Integer, NK_IntFrozen) \<Rightarrow> Some NK_IntFrozen
           | (NK_IntFrozen, NK_IntFrozen) \<Rightarrow> Some NK_IntFrozen
           | (NK_Integer, NK_Integer) \<Rightarrow> Some NK_Integer
           | (NK_Float, NK_Float) \<Rightarrow> Some NK_Float
           | _ \<Rightarrow> None)"

definition nk_placeholder :: "num_kind \<Rightarrow> bytes" where
  "nk_placeholder k =
     (case k of NK_Any \<Rightarrow> ''_'' | NK_Num \<Rightarrow> ''{number}'' | NK_Integer \<Rightarrow> ''{integer}'' | NK_IntFrozen \<Rightarrow> ''{integer}'' | NK_Float \<Rightarrow> ''{float}'')"

record var_state =
  va_parent :: nat
  va_level :: nat
  va_kind :: num_kind
  va_solution :: "ty_id option"
  va_origin :: span

datatype undo = Un_Parent nat nat | Un_Kind nat num_kind | Un_Level nat nat | Un_Solution nat

record snapshot =
  sn_log :: nat
  sn_vars :: nat

datatype unify_err = UE_Mismatch | UE_Occurs ty_id ty_id | UE_NeedsWitness

record var_store =
  vr_vars :: "var_state list"
  vr_log :: "undo list"

definition VarStore_new :: var_store where
  "VarStore_new = \<lparr>vr_vars = [], vr_log = []\<rparr>"

definition vr_fresh :: "nat \<Rightarrow> num_kind \<Rightarrow> span \<Rightarrow> type_table \<Rightarrow> var_store \<Rightarrow> ty_id \<times> type_table \<times> var_store" where
  "vr_fresh level k origin tb st =
     (let idx = length (vr_vars st);
          st = st\<lparr>vr_vars := vr_vars st @ [\<lparr>va_parent = idx, va_level = level, va_kind = k, va_solution = None, va_origin = origin\<rparr>]\<rparr>;
          (i, tb) = tt_intern (TY_Var idx) tb
      in (i, tb, st))"

definition vr_len :: "var_store \<Rightarrow> nat" where
  "vr_len st = length (vr_vars st)"

definition vr_find :: "var_store \<Rightarrow> nat \<Rightarrow> nat option" where
  "vr_find st v = find_root (map va_parent (vr_vars st)) v"

abbreviation vr_var :: "var_store \<Rightarrow> nat \<Rightarrow> var_state" where
  "vr_var st v \<equiv> vr_vars st ! v"

definition vr_probe :: "var_store \<Rightarrow> nat \<Rightarrow> ty_id option option" where
  "vr_probe st v = map_option (\<lambda>r. va_solution (vr_var st r)) (vr_find st v)"

definition vr_kind_of :: "var_store \<Rightarrow> nat \<Rightarrow> num_kind option" where
  "vr_kind_of st v = map_option (\<lambda>r. va_kind (vr_var st r)) (vr_find st v)"

definition vr_origin_of :: "var_store \<Rightarrow> nat \<Rightarrow> span option" where
  "vr_origin_of st v = map_option (\<lambda>r. va_origin (vr_var st r)) (vr_find st v)"

definition vr_unresolved_roots :: "var_store \<Rightarrow> (nat \<times> num_kind \<times> span) list" where
  "vr_unresolved_roots st =
     map (\<lambda>v. (v, va_kind (vr_var st v), va_origin (vr_var st v)))
       (filter (\<lambda>v. va_parent (vr_var st v) = v \<and> va_solution (vr_var st v) = None) [0..<length (vr_vars st)])"

section \<open>The undo log\<close>

definition vr_snapshot :: "var_store \<Rightarrow> snapshot" where
  "vr_snapshot st = \<lparr>sn_log = length (vr_log st), sn_vars = length (vr_vars st)\<rparr>"

definition upd :: "nat \<Rightarrow> (var_state \<Rightarrow> var_state) \<Rightarrow> var_state list \<Rightarrow> var_state list" where
  "upd v f vars = vars[v := f (vars ! v)]"

fun undo_entry :: "undo \<Rightarrow> var_state list \<Rightarrow> var_state list" where
  "undo_entry (Un_Parent v old) vars = upd v (va_parent_update (\<lambda>_. old)) vars"
| "undo_entry (Un_Kind v old) vars = upd v (va_kind_update (\<lambda>_. old)) vars"
| "undo_entry (Un_Level v old) vars = upd v (va_level_update (\<lambda>_. old)) vars"
| "undo_entry (Un_Solution v) vars = upd v (va_solution_update (\<lambda>_. None)) vars"

definition vr_rollback :: "snapshot \<Rightarrow> var_store \<Rightarrow> var_store" where
  "vr_rollback sn st =
     \<lparr>vr_vars = take (sn_vars sn) (fold undo_entry (rev (drop (sn_log sn) (vr_log st))) (vr_vars st)),
      vr_log = take (sn_log sn) (vr_log st)\<rparr>"

definition set_parent :: "nat \<Rightarrow> nat \<Rightarrow> var_store \<Rightarrow> var_store" where
  "set_parent v p st =
     st\<lparr>vr_log := vr_log st @ [Un_Parent v (va_parent (vr_var st v))],
        vr_vars := upd v (va_parent_update (\<lambda>_. p)) (vr_vars st)\<rparr>"

definition set_kind :: "nat \<Rightarrow> num_kind \<Rightarrow> var_store \<Rightarrow> var_store" where
  "set_kind v k st =
     st\<lparr>vr_log := vr_log st @ [Un_Kind v (va_kind (vr_var st v))],
        vr_vars := upd v (va_kind_update (\<lambda>_. k)) (vr_vars st)\<rparr>"

definition set_level :: "nat \<Rightarrow> nat \<Rightarrow> var_store \<Rightarrow> var_store" where
  "set_level v l st =
     st\<lparr>vr_log := vr_log st @ [Un_Level v (va_level (vr_var st v))],
        vr_vars := upd v (va_level_update (\<lambda>_. l)) (vr_vars st)\<rparr>"

definition set_solution :: "nat \<Rightarrow> ty_id \<Rightarrow> var_store \<Rightarrow> var_store" where
  "set_solution v t st =
     st\<lparr>vr_log := vr_log st @ [Un_Solution v],
        vr_vars := upd v (va_solution_update (\<lambda>_. Some t)) (vr_vars st)\<rparr>"

definition vr_freeze :: "nat \<Rightarrow> var_store \<Rightarrow> var_store option" where
  "vr_freeze v st =
     map_option (\<lambda>root.
       if va_solution (vr_var st root) = None \<and> va_kind (vr_var st root) = NK_Integer
       then set_kind root NK_IntFrozen st else st) (vr_find st v)"

section \<open>Heads of kinds\<close>

definition var_of :: "'t ty_kind \<Rightarrow> nat option" where
  "var_of k = (case k of TY_Var v \<Rightarrow> Some v | _ \<Rightarrow> None)"

definition row_of :: "'t ty_kind \<Rightarrow> ((bytes \<times> 't list) list \<times> 't option) option" where
  "row_of k = (case k of TY_Row tags tail \<Rightarrow> Some (tags, tail) | _ \<Rightarrow> None)"

partial_function (option) shallow :: "type_table \<Rightarrow> var_store \<Rightarrow> ty_id \<Rightarrow> ty_id option" where
  "shallow tb st t =
     (if var_of (tt_kind tb t) = None then Some t
      else Option.bind (vr_probe st (the (var_of (tt_kind tb t))))
             (\<lambda>sol. if sol = None then Some t else shallow tb st (the sol)))"

declare shallow.simps [code]

definition kind_admits :: "num_kind \<Rightarrow> 't ty_kind \<Rightarrow> bool" where
  "kind_admits nk k =
     (let concrete = (case k of
                        TY_Prim p \<Rightarrow> if prim_is_integer p then NK_Integer else if prim_is_float p then NK_Float else NK_Any
                      | TY_Wrapping _ \<Rightarrow> NK_Integer
                      | _ \<Rightarrow> NK_Any)
      in if k = TY_Error \<or> k = TY_Never then True
         else case nk of
                NK_Any \<Rightarrow> True
              | NK_Num \<Rightarrow> concrete = NK_Integer \<or> concrete = NK_Float
              | NK_Integer \<Rightarrow> concrete = NK_Integer \<or> concrete = NK_Float
              | NK_IntFrozen \<Rightarrow> concrete = NK_Integer
              | NK_Float \<Rightarrow> concrete = NK_Float)"

section \<open>The occurs check\<close>

text \<open>The children \<open>occurs_adjust\<close> visits, in its order. Nominal arguments and the result of a process are not among them.\<close>

fun occurs_kids :: "'t ty_kind \<Rightarrow> 't list" where
  "occurs_kids (TY_Wrapping t) = [t]"
| "occurs_kids (TY_Range t) = [t]"
| "occurs_kids (TY_Ptr t) = [t]"
| "occurs_kids (TY_Shared t) = [t]"
| "occurs_kids (TY_Handle t) = [t]"
| "occurs_kids (TY_Weak t) = [t]"
| "occurs_kids (TY_Distinct t) = [t]"
| "occurs_kids (TY_List t) = [t]"
| "occurs_kids (TY_Pool t) = [t]"
| "occurs_kids (TY_Chan t) = [t]"
| "occurs_kids (TY_Mutex t) = [t]"
| "occurs_kids (TY_Proj t _) = [t]"
| "occurs_kids (TY_ErrUnion t row) = [t, row]"
| "occurs_kids (TY_Map k v) = [k, v]"
| "occurs_kids (TY_Row tags tail) = concat (map snd tags) @ (case tail of Some t \<Rightarrow> [t] | None \<Rightarrow> [])"
| "occurs_kids (TY_Tuple ts) = ts"
| "occurs_kids (TY_Fn params ret) = params @ [ret]"
| "occurs_kids _ = []"

partial_function (option) occurs_adjust ::
  "type_table \<Rightarrow> nat \<Rightarrow> nat \<Rightarrow> ty_id list \<Rightarrow> var_store \<Rightarrow> (bool \<times> var_store) option" where
  "occurs_adjust tb var level todo st =
     (if todo = [] then Some (True, st)
      else if var_of (tt_kind tb (hd todo)) = None then
        occurs_adjust tb var level (occurs_kids (tt_kind tb (hd todo)) @ tl todo) st
      else Option.bind (vr_find st (the (var_of (tt_kind tb (hd todo)))))
        (\<lambda>root. if root = var then Some (False, st)
                else if va_solution (vr_var st root) \<noteq> None then
                  occurs_adjust tb var level (the (va_solution (vr_var st root)) # tl todo) st
                else occurs_adjust tb var level (tl todo) (if level < va_level (vr_var st root) then set_level root level st else st)))"

declare occurs_adjust.simps [code]

section \<open>One step of unification\<close>

text \<open>
  What is still to do: two types to unify, the rest of two rows once their shared tags are, or the failure that
  comes after the payloads before it.
\<close>

datatype goal =
  G_Types ty_id ty_id
| G_Rest "(bytes \<times> ty_id list) list" "ty_id option" "(bytes \<times> ty_id list) list" "ty_id option"
| G_Fail

type_synonym step = "(unify_err + goal list) \<times> type_table \<times> var_store"

definition unify_vars :: "nat \<Rightarrow> nat \<Rightarrow> type_table \<Rightarrow> var_store \<Rightarrow> step option" where
  "unify_vars va vb tb st =
     Option.bind (vr_find st va) (\<lambda>ra. Option.bind (vr_find st vb) (\<lambda>rb.
       if ra = rb then Some (Inr [], tb, st)
       else case nk_meet (va_kind (vr_var st ra)) (va_kind (vr_var st rb)) of
              None \<Rightarrow> Some (Inl UE_Mismatch, tb, st)
            | Some merged \<Rightarrow>
                let (root, child) = (if va_level (vr_var st ra) \<le> va_level (vr_var st rb) then (ra, rb) else (rb, ra));
                    st = set_parent child root st
                in Some (Inr [], tb, if va_kind (vr_var st root) \<noteq> merged then set_kind root merged st else st)))"

definition var_bind :: "nat \<Rightarrow> ty_id \<Rightarrow> type_table \<Rightarrow> var_store \<Rightarrow> step option" where
  "var_bind v t tb st =
     Option.bind (vr_find st v) (\<lambda>root.
       if \<not> kind_admits (va_kind (vr_var st root)) (tt_kind tb t) then Some (Inl UE_Mismatch, tb, st)
       else let (var_ty, tb) = tt_intern (TY_Var root) tb
            in Option.bind (occurs_adjust tb root (va_level (vr_var st root)) [t] st)
                 (\<lambda>r. if fst r then Some (Inr [], tb, set_solution root t (snd r))
                      else Some (Inl (UE_Occurs var_ty t), tb, snd r)))"

abbreviation pairs :: "ty_id list \<Rightarrow> ty_id list \<Rightarrow> goal list" where
  "pairs xs ys \<equiv> map2 G_Types xs ys"

text \<open>The arms of \<open>unify\<close> for two kinds of which none is a variable, an error, \<open>never\<close> or a pair of rows.\<close>

fun structural :: "kind \<Rightarrow> kind \<Rightarrow> unify_err + goal list" where
  "structural (TY_Prim p) kb = (case kb of TY_Prim q \<Rightarrow> if p = q then Inr [] else Inl UE_Mismatch | _ \<Rightarrow> Inl UE_Mismatch)"
| "structural TY_Unit kb = (if kb = TY_Unit then Inr [] else Inl UE_Mismatch)"
| "structural (TY_Rigid x) kb = (if kb = TY_Rigid x then Inr [] else Inl UE_Mismatch)"
| "structural (TY_Nominal m n xs) kb =
     (case kb of
        TY_Nominal m' n' ys \<Rightarrow> if m = m' \<and> n = n' \<and> length xs = length ys then Inr (pairs xs ys) else Inl UE_Mismatch
      | _ \<Rightarrow> Inl UE_Mismatch)"
| "structural (TY_Unsupported x) kb =
     (case kb of
        TY_Unsupported y \<Rightarrow>
          (case opaque_eq_of x y of
             OE_Equal \<Rightarrow> Inr [] | OE_Distinct \<Rightarrow> Inl UE_Mismatch | OE_NeedsWitness \<Rightarrow> Inl UE_NeedsWitness)
      | _ \<Rightarrow> Inl UE_Mismatch)"
| "structural (TY_Meta x) kb = (if kb = TY_Meta x then Inr [] else Inl UE_Mismatch)"
| "structural (TY_Dyn m n) kb = (if kb = TY_Dyn m n then Inr [] else Inl UE_Mismatch)"
| "structural (TY_Proj x n) kb =
     (case kb of TY_Proj y n' \<Rightarrow> if n = n' then Inr [G_Types x y] else Inl UE_Mismatch | _ \<Rightarrow> Inl UE_Mismatch)"
| "structural TY_RegionTy kb = (if kb = TY_RegionTy then Inr [] else Inl UE_Mismatch)"
| "structural TY_TypeTy kb = (if kb = TY_TypeTy then Inr [] else Inl UE_Mismatch)"
| "structural TY_TaskScope kb = (if kb = TY_TaskScope then Inr [] else Inl UE_Mismatch)"
| "structural TY_ExitReason kb = (if kb = TY_ExitReason then Inr [] else Inl UE_Mismatch)"
| "structural (TY_Proc x) kb = (case kb of TY_Proc y \<Rightarrow> Inr [G_Types x y] | _ \<Rightarrow> Inl UE_Mismatch)"
| "structural (TY_ErrUnion x r) kb = (case kb of TY_ErrUnion y q \<Rightarrow> Inr [G_Types x y, G_Types r q] | _ \<Rightarrow> Inl UE_Mismatch)"
| "structural (TY_Wrapping x) kb = (case kb of TY_Wrapping y \<Rightarrow> Inr [G_Types x y] | _ \<Rightarrow> Inl UE_Mismatch)"
| "structural (TY_Range x) kb = (case kb of TY_Range y \<Rightarrow> Inr [G_Types x y] | _ \<Rightarrow> Inl UE_Mismatch)"
| "structural (TY_Ptr x) kb = (case kb of TY_Ptr y \<Rightarrow> Inr [G_Types x y] | _ \<Rightarrow> Inl UE_Mismatch)"
| "structural (TY_Shared x) kb = (case kb of TY_Shared y \<Rightarrow> Inr [G_Types x y] | _ \<Rightarrow> Inl UE_Mismatch)"
| "structural (TY_Handle x) kb = (case kb of TY_Handle y \<Rightarrow> Inr [G_Types x y] | _ \<Rightarrow> Inl UE_Mismatch)"
| "structural (TY_Weak x) kb = (case kb of TY_Weak y \<Rightarrow> Inr [G_Types x y] | _ \<Rightarrow> Inl UE_Mismatch)"
| "structural (TY_Distinct x) kb = (case kb of TY_Distinct y \<Rightarrow> Inr [G_Types x y] | _ \<Rightarrow> Inl UE_Mismatch)"
| "structural (TY_List x) kb = (case kb of TY_List y \<Rightarrow> Inr [G_Types x y] | _ \<Rightarrow> Inl UE_Mismatch)"
| "structural (TY_Pool x) kb = (case kb of TY_Pool y \<Rightarrow> Inr [G_Types x y] | _ \<Rightarrow> Inl UE_Mismatch)"
| "structural (TY_Chan x) kb = (case kb of TY_Chan y \<Rightarrow> Inr [G_Types x y] | _ \<Rightarrow> Inl UE_Mismatch)"
| "structural (TY_Mutex x) kb = (case kb of TY_Mutex y \<Rightarrow> Inr [G_Types x y] | _ \<Rightarrow> Inl UE_Mismatch)"
| "structural (TY_Map k v) kb = (case kb of TY_Map k' v' \<Rightarrow> Inr [G_Types k k', G_Types v v'] | _ \<Rightarrow> Inl UE_Mismatch)"
| "structural (TY_Tuple xs) kb =
     (case kb of TY_Tuple ys \<Rightarrow> if length xs \<noteq> length ys then Inl UE_Mismatch else Inr (pairs xs ys) | _ \<Rightarrow> Inl UE_Mismatch)"
| "structural (TY_Fn ps r) kb =
     (case kb of
        TY_Fn qs q \<Rightarrow> if length ps \<noteq> length qs then Inl UE_Mismatch else Inr (pairs ps qs @ [G_Types r q])
      | _ \<Rightarrow> Inl UE_Mismatch)"
| "structural _ kb = Inl UE_Mismatch"

text \<open>The payloads of the tags of \<open>ta\<close> that \<open>tb\<close> has, in the order of \<open>ta\<close>.\<close>

type_synonym tags = "(bytes \<times> ty_id list) list"

fun shared_payloads :: "tags \<Rightarrow> tags \<Rightarrow> goal list" where
  "shared_payloads [] tb = []"
| "shared_payloads ((n, pa) # ta) tb =
     (case map_of tb n of
        None \<Rightarrow> shared_payloads ta tb
      | Some pb \<Rightarrow> if length pa \<noteq> length pb then [G_Fail] else pairs pa pb @ shared_payloads ta tb)"

definition only_in :: "tags \<Rightarrow> tags \<Rightarrow> tags" where
  "only_in ta tb = filter (\<lambda>(n, _). n \<notin> fst ` set tb) ta"

definition unify_rest :: "tags \<Rightarrow> ty_id option \<Rightarrow> tags \<Rightarrow> ty_id option \<Rightarrow> type_table \<Rightarrow> var_store \<Rightarrow> step" where
  "unify_rest ta tla tb tlb tab st =
     (let only_a = only_in ta tb; only_b = only_in tb ta; (empty_row, tab) = tt_empty_row tab
      in if only_a = [] then
           (if only_b = [] then
              (case (tla, tlb) of
                 (None, None) \<Rightarrow> (Inr [], tab, st)
               | (Some x, Some y) \<Rightarrow> (Inr [G_Types x y], tab, st)
               | (Some x, None) \<Rightarrow> (Inr [G_Types x empty_row], tab, st)
               | (None, Some x) \<Rightarrow> (Inr [G_Types x empty_row], tab, st))
            else case tla of
                   None \<Rightarrow> (Inl UE_Mismatch, tab, st)
                 | Some t \<Rightarrow> let (remainder, tab) = tt_row only_b tlb tab in (Inr [G_Types t remainder], tab, st))
         else if only_b = [] then
           (case tlb of
              None \<Rightarrow> (Inl UE_Mismatch, tab, st)
            | Some t \<Rightarrow> let (remainder, tab) = tt_row only_a tla tab in (Inr [G_Types t remainder], tab, st))
         else (Inl UE_Mismatch, tab, st))"

definition shallow_tail :: "type_table \<Rightarrow> var_store \<Rightarrow> ty_id option \<Rightarrow> ty_id option option" where
  "shallow_tail tab st tail = (case tail of None \<Rightarrow> Some None | Some t \<Rightarrow> map_option Some (shallow tab st t))"

definition tail_row :: "type_table \<Rightarrow> ty_id option \<Rightarrow> (tags \<times> ty_id option) option" where
  "tail_row tab tail = Option.bind tail (\<lambda>t. row_of (tt_kind tab t))"

definition unify_rows :: "tags \<Rightarrow> ty_id option \<Rightarrow> tags \<Rightarrow> ty_id option \<Rightarrow> type_table \<Rightarrow> var_store \<Rightarrow> step option" where
  "unify_rows ta tla tb tlb tab st =
     Option.bind (shallow_tail tab st tla) (\<lambda>tla. Option.bind (shallow_tail tab st tlb) (\<lambda>tlb.
       case tail_row tab tla of
         Some (tags, tail) \<Rightarrow>
           (let (host, tab) = tt_row (ta @ tags) tail tab; (other, tab) = tt_row tb tlb tab
            in Some (Inr [G_Types host other], tab, st))
       | None \<Rightarrow>
           (case tail_row tab tlb of
              Some (tags, tail) \<Rightarrow>
                (let (host, tab) = tt_row (tb @ tags) tail tab; (other, tab) = tt_row ta tla tab
                 in Some (Inr [G_Types other host], tab, st))
            | None \<Rightarrow> Some (Inr (shared_payloads ta tb @ [G_Rest ta tla tb tlb]), tab, st))))"

definition unify_types :: "ty_id \<Rightarrow> ty_id \<Rightarrow> type_table \<Rightarrow> var_store \<Rightarrow> step option" where
  "unify_types a b tab st =
     Option.bind (shallow tab st a) (\<lambda>a. Option.bind (shallow tab st b) (\<lambda>b.
       if a = b then Some (Inr [], tab, st)
       else let ka = tt_kind tab a; kb = tt_kind tab b
            in if ka = TY_Error \<or> kb = TY_Error \<or> ka = TY_Never \<or> kb = TY_Never then Some (Inr [], tab, st)
               else case (var_of ka, var_of kb) of
                      (Some va, Some vb) \<Rightarrow> unify_vars va vb tab st
                    | (Some v, None) \<Rightarrow> var_bind v b tab st
                    | (None, Some v) \<Rightarrow> var_bind v a tab st
                    | (None, None) \<Rightarrow>
                        (case (row_of ka, row_of kb) of
                           (Some (ta, tla), Some (tb, tlb)) \<Rightarrow> unify_rows ta tla tb tlb tab st
                         | _ \<Rightarrow> Some (structural ka kb, tab, st))))"

definition unify_step :: "goal \<Rightarrow> type_table \<Rightarrow> var_store \<Rightarrow> step option" where
  "unify_step g tab st =
     (case g of
        G_Types a b \<Rightarrow> unify_types a b tab st
      | G_Rest ta tla tb tlb \<Rightarrow> Some (unify_rest ta tla tb tlb tab st)
      | G_Fail \<Rightarrow> Some (Inl UE_Mismatch, tab, st))"

section \<open>Unification\<close>

type_synonym 'r outcome = "(unify_err + 'r) \<times> type_table \<times> var_store"

partial_function (option) unify_loop :: "goal list \<Rightarrow> type_table \<Rightarrow> var_store \<Rightarrow> unit outcome option" where
  "unify_loop gs tab st =
     (if gs = [] then Some (Inr (), tab, st)
      else Option.bind (unify_step (hd gs) tab st)
             (\<lambda>r. if isl (fst r) then Some (Inl (projl (fst r)), snd r)
                  else unify_loop (projr (fst r) @ tl gs) (fst (snd r)) (snd (snd r))))"

declare unify_loop.simps [code]

definition unify_tys :: "ty_id \<Rightarrow> ty_id \<Rightarrow> type_table \<Rightarrow> var_store \<Rightarrow> unit outcome option" where
  "unify_tys a b tab st = unify_loop [G_Types a b] tab st"

definition join_tys :: "ty_id \<Rightarrow> ty_id \<Rightarrow> type_table \<Rightarrow> var_store \<Rightarrow> ty_id outcome option" where
  "join_tys a b tab st =
     Option.bind (shallow tab st a) (\<lambda>ra. Option.bind (shallow tab st b) (\<lambda>rb.
       if tt_kind tab ra = TY_Never then Some (Inr rb, tab, st)
       else if tt_kind tab rb = TY_Never then Some (Inr ra, tab, st)
       else map_option (\<lambda>(res, tab, st). (map_sum id (\<lambda>_. ra) res, tab, st)) (unify_tys ra rb tab st)))"

end
