(* ===== verification/Sema_Unify_Inv.thy ===== *)
theory Sema_Unify_Inv
  imports Sema_Unify
begin

text \<open>
  What every operation on the variables keeps: the table and the store stay well-formed, the table only grows,
  and the undo log gives back the store as it was (\<open>grows\<close>).
\<close>

section \<open>Well-formed stores\<close>

definition vs_ok :: "type_table \<Rightarrow> var_store \<Rightarrow> bool" where
  "vs_ok tab st \<longleftrightarrow>
     (\<forall>s\<in>set (vr_vars st). va_parent s < length (vr_vars st)) \<and>
     (\<forall>v<length (vr_vars st). \<exists>r. leads (map va_parent (vr_vars st)) v r) \<and>
     (\<forall>s\<in>set (vr_vars st). \<forall>t. va_solution s = Some t \<longrightarrow> t < tt_len tab \<and> var_of (tt_kind tab t) = None) \<and>
     (\<forall>i<tt_len tab. \<forall>v. var_of (tt_kind tab i) = Some v \<longrightarrow> v < length (vr_vars st))"

definition state_ok :: "type_table \<Rightarrow> var_store \<Rightarrow> bool" where
  "state_ok tab st \<longleftrightarrow> tt_ok tab \<and> vs_ok tab st"

definition ext :: "type_table \<Rightarrow> type_table \<Rightarrow> bool" where
  "ext tab tab' \<longleftrightarrow> (\<exists>ks. tt_kinds tab' = tt_kinds tab @ ks)"

lemma ext_refl [simp]: "ext tab tab"
  by (simp add: ext_def)

lemma ext_trans: "ext a b \<Longrightarrow> ext b c \<Longrightarrow> ext a c"
  by (auto simp: ext_def)

lemma ext_len: "ext a b \<Longrightarrow> tt_len a \<le> tt_len b"
  by (auto simp: ext_def tt_len_def)

lemma ext_kind: "ext a b \<Longrightarrow> i < tt_len a \<Longrightarrow> tt_kind b i = tt_kind a i"
  by (auto simp: ext_def tt_kind_def tt_len_def nth_append)

lemma var_of_Some: "var_of k = Some v \<longleftrightarrow> k = TY_Var v"
  by (cases k) (auto simp: var_of_def)

lemma var_of_None: "var_of k = None \<Longrightarrow> k \<noteq> TY_Var v"
  by (auto simp: var_of_def)

lemma row_of_Some: "row_of k = Some (tags, tail) \<longleftrightarrow> k = TY_Row tags tail"
  by (cases k) (auto simp: row_of_def)

lemma tt_ok_kids: "tt_ok tab \<Longrightarrow> i < tt_len tab \<Longrightarrow> t \<in> kids (tt_kind tab i) \<Longrightarrow> t < i"
  by (auto simp: tt_ok_def tt_kind_def tt_len_def)

lemma tt_ok_row: "tt_ok tab \<Longrightarrow> i < tt_len tab \<Longrightarrow> row_ok (tt_kind tab i)"
  by (auto simp: tt_ok_def tt_kind_def tt_len_def)

lemma vr_find_ok:
  assumes "vs_ok tab st" "v < length (vr_vars st)"
  obtains r where "vr_find st v = Some r" "r < length (vr_vars st)" "va_parent (vr_var st r) = r"
    "leads (map va_parent (vr_vars st)) v r"
proof -
  let ?p = "map va_parent (vr_vars st)"
  obtain r where r: "leads ?p v r" using assms by (auto simp: vs_ok_def)
  have "\<forall>i<length (vr_vars st). ?p ! i < length (vr_vars st)" using assms(1) by (auto simp: vs_ok_def)
  then have "r < length (vr_vars st)" using leads_less [OF r] assms(2) by blast
  then show thesis using that [of r] find_root_leads [OF r] leads_root [OF r] r by (simp add: vr_find_def)
qed

lemma vs_ok_solution: "vs_ok tab st \<Longrightarrow> v < length (vr_vars st) \<Longrightarrow> va_solution (vr_var st v) = Some t \<Longrightarrow>
    t < tt_len tab \<and> var_of (tt_kind tab t) = None"
  by (auto simp: vs_ok_def)

lemma shallow_ok:
  assumes "vs_ok tab st" "t < tt_len tab"
  obtains s where "shallow tab st t = Some s" "s < tt_len tab"
    "s = t \<or> (\<exists>v r. tt_kind tab t = TY_Var v \<and> vr_find st v = Some r \<and> va_solution (vr_var st r) = Some s)"
    "\<And>v. tt_kind tab s = TY_Var v \<Longrightarrow> \<exists>r. vr_find st v = Some r \<and> va_solution (vr_var st r) = None"
proof (cases "var_of (tt_kind tab t)")
  case None
  then have "shallow tab st t = Some t" by (subst shallow.simps) simp
  then show thesis using that [of t] None assms(2) by (metis option.distinct(1) var_of_Some)
next
  case (Some v)
  then have v: "v < length (vr_vars st)" using assms by (auto simp: vs_ok_def)
  obtain r where r: "vr_find st v = Some r" "r < length (vr_vars st)" using vr_find_ok [OF assms(1) v] by blast
  show thesis
  proof (cases "va_solution (vr_var st r)")
    case None
    then have "shallow tab st t = Some t" using Some r by (subst shallow.simps) (simp add: vr_probe_def)
    then show thesis using that [of t] None Some r assms(2) by (auto simp: var_of_Some)
  next
    case (Some s)
    then have s: "s < tt_len tab" "var_of (tt_kind tab s) = None" using vs_ok_solution [OF assms(1) r(2)] by auto
    have "shallow tab st s = Some s" using s(2) by (subst shallow.simps) simp
    then have "shallow tab st t = Some s"
      using Some r \<open>var_of (tt_kind tab t) = Some v\<close> by (subst shallow.simps) (simp add: vr_probe_def)
    then show thesis using that [of s] s Some r \<open>var_of (tt_kind tab t) = Some v\<close> var_of_None [OF s(2)]
      by (auto simp: var_of_Some)
  qed
qed

section \<open>The log\<close>

fun undo_var :: "undo \<Rightarrow> nat" where
  "undo_var (Un_Parent v _) = v"
| "undo_var (Un_Kind v _) = v"
| "undo_var (Un_Level v _) = v"
| "undo_var (Un_Solution v) = v"

definition grows :: "var_store \<Rightarrow> var_store \<Rightarrow> bool" where
  "grows st st' \<longleftrightarrow>
     (\<exists>es. vr_log st' = vr_log st @ es \<and> length (vr_vars st) \<le> length (vr_vars st') \<and>
           list_all (\<lambda>u. undo_var u < length (vr_vars st')) es \<and>
           take (length (vr_vars st)) (fold undo_entry (rev es) (vr_vars st')) = vr_vars st)"

lemma undo_length [simp]: "length (undo_entry u vars) = length vars"
  by (cases u) (auto simp: upd_def)

lemma undos_length [simp]: "length (fold undo_entry us vars) = length vars"
  by (induction us arbitrary: vars) auto

lemma undo_append: "undo_var u < length vars \<Longrightarrow> undo_entry u (vars @ ws) = undo_entry u vars @ ws"
  by (cases u) (auto simp: upd_def nth_append list_update_append)

lemma undos_append: "list_all (\<lambda>u. undo_var u < length vars) us \<Longrightarrow> fold undo_entry us (vars @ ws) = fold undo_entry us vars @ ws"
  by (induction us arbitrary: vars) (auto simp: undo_append list_all_iff)

lemma grows_refl [simp]: "grows st st"
  by (simp add: grows_def)

lemma grows_trans:
  assumes "grows a b" "grows b c" shows "grows a c"
proof -
  obtain es where es: "vr_log b = vr_log a @ es" "length (vr_vars a) \<le> length (vr_vars b)"
      "list_all (\<lambda>u. undo_var u < length (vr_vars b)) es"
      "take (length (vr_vars a)) (fold undo_entry (rev es) (vr_vars b)) = vr_vars a"
    using assms(1) by (auto simp: grows_def)
  obtain fs where fs: "vr_log c = vr_log b @ fs" "length (vr_vars b) \<le> length (vr_vars c)"
      "list_all (\<lambda>u. undo_var u < length (vr_vars c)) fs"
      "take (length (vr_vars b)) (fold undo_entry (rev fs) (vr_vars c)) = vr_vars b"
    using assms(2) by (auto simp: grows_def)
  let ?w = "fold undo_entry (rev fs) (vr_vars c)"
  have "?w = vr_vars b @ drop (length (vr_vars b)) ?w" using fs(4) by (metis append_take_drop_id)
  then have "fold undo_entry (rev es) ?w = fold undo_entry (rev es) (vr_vars b) @ drop (length (vr_vars b)) ?w"
    using es(3) by (metis list_all_rev undos_append)
  then have "take (length (vr_vars a)) (fold undo_entry (rev (es @ fs)) (vr_vars c)) = vr_vars a"
    using es(2,4) by simp
  moreover have "list_all (\<lambda>u. undo_var u < length (vr_vars c)) (es @ fs)"
    using es(3) fs(2,3) by (auto simp: list_all_iff)
  ultimately show ?thesis using es(1,2) fs(1,2) by (auto simp: grows_def intro!: exI [of _ "es @ fs"])
qed

lemma grows_rollback: "grows st st' \<Longrightarrow> vr_rollback (vr_snapshot st) st' = st"
  by (auto simp: grows_def vr_rollback_def vr_snapshot_def)

lemma setters_grow:
  assumes "v < length (vr_vars st)"
  shows "grows st (set_parent v p st)" "grows st (set_kind v k st)" "grows st (set_level v l st)"
    "va_solution (vr_var st v) = None \<Longrightarrow> grows st (set_solution v t st)"
proof -
  have u: "f (g (vr_var st v)) = vr_var st v \<Longrightarrow> upd v f (upd v g (vr_vars st)) = vr_vars st" for f g
    using assms by (simp add: upd_def)
  show "grows st (set_parent v p st)" "grows st (set_kind v k st)" "grows st (set_level v l st)"
    using assms by (auto simp: grows_def set_parent_def set_kind_def set_level_def u) (simp_all add: upd_def)
  show "grows st (set_solution v t st)" if "va_solution (vr_var st v) = None"
    using assms that by (auto simp: grows_def set_solution_def u) (simp_all add: upd_def)
qed

lemma fresh_grows: "vr_fresh level k origin tab st = (i, tab', st') \<Longrightarrow> grows st st'"
  by (auto simp: vr_fresh_def grows_def Let_def split: prod.splits)

end
