(* ===== verification/Sema_Unify_Step.thy ===== *)
theory Sema_Unify_Step
  imports Sema_Unify_Inv
begin

text \<open>Each operation of \<open>Sema_Unify\<close> keeps what \<open>Sema_Unify_Inv\<close> asks of the table and the store.\<close>

definition leads_to :: "type_table \<Rightarrow> var_store \<Rightarrow> type_table \<Rightarrow> var_store \<Rightarrow> bool" where
  "leads_to tab st tab' st' \<longleftrightarrow> state_ok tab' st' \<and> ext tab tab' \<and> grows st st' \<and> length (vr_vars st) \<le> length (vr_vars st')"

lemma leads_to_refl: "state_ok tab st \<Longrightarrow> leads_to tab st tab st"
  by (simp add: leads_to_def)

lemma leads_to_trans: "leads_to a s b t \<Longrightarrow> leads_to b t c u \<Longrightarrow> leads_to a s c u"
  using ext_trans grows_trans by (fastforce simp: leads_to_def)

section \<open>Setters\<close>

lemma set_upd: "x \<in> set (upd v f vars) \<Longrightarrow> v < length vars \<Longrightarrow> x = f (vars ! v) \<or> x \<in> set vars"
  using set_update_subset_insert [of vars v "f (vars ! v)"] by (auto simp: upd_def)

lemma upd_length [simp]: "length (upd v f vars) = length vars"
  by (simp add: upd_def)

lemma upd_parents: "(\<And>s. va_parent (f s) = va_parent s) \<Longrightarrow> map va_parent (upd v f vars) = map va_parent vars"
  by (cases "v < length vars") (simp_all add: upd_def map_update list_update_same_conv list_update_beyond)

lemma vs_ok_upd:
  assumes "vs_ok tab st" "v < length (vr_vars st)" "vr_vars st' = upd v f (vr_vars st)"
    and "\<And>s. va_parent (f s) = va_parent s"
    and "\<And>t. va_solution (f (vr_var st v)) = Some t \<Longrightarrow> t < tt_len tab \<and> var_of (tt_kind tab t) = None"
  shows "vs_ok tab st'"
  unfolding vs_ok_def
proof (intro conjI ballI allI impI)
  have len: "length (vr_vars st') = length (vr_vars st)" by (simp add: assms(3))
  have s: "s = f (vr_var st v) \<or> s \<in> set (vr_vars st)" if "s \<in> set (vr_vars st')" for s
    using set_upd [of s v f "vr_vars st"] that assms(2,3) by auto
  show "va_parent s < length (vr_vars st')" if "s \<in> set (vr_vars st')" for s
    using s [OF that] assms(1,2,4) by (auto simp: vs_ok_def len)
  show "t < tt_len tab" "var_of (tt_kind tab t) = None" if "s \<in> set (vr_vars st')" "va_solution s = Some t" for s t
    using s [OF that(1)] that(2) assms(1,5) by (auto simp: vs_ok_def)
  show "\<exists>r. leads (map va_parent (vr_vars st')) i r" if "i < length (vr_vars st')" for i
    using assms(1,3,4) that by (simp add: vs_ok_def upd_parents)
  show "v < length (vr_vars st')" if "i < tt_len tab" "var_of (tt_kind tab i) = Some v" for i v
    using assms(1) that by (auto simp: vs_ok_def len)
qed

lemma set_kind_to:
  assumes "state_ok tab st" "v < length (vr_vars st)" shows "leads_to tab st tab (set_kind v k st)"
  using assms setters_grow(2) vs_ok_upd [of tab st v "set_kind v k st" "va_kind_update (\<lambda>_. k)"] vs_ok_solution
  by (auto simp: leads_to_def state_ok_def set_kind_def)

lemma set_level_to:
  assumes "state_ok tab st" "v < length (vr_vars st)" shows "leads_to tab st tab (set_level v l st)"
  using assms setters_grow(3) vs_ok_upd [of tab st v "set_level v l st" "va_level_update (\<lambda>_. l)"] vs_ok_solution
  by (auto simp: leads_to_def state_ok_def set_level_def)

lemma set_solution_to:
  assumes "state_ok tab st" "v < length (vr_vars st)" "va_solution (vr_var st v) = None" "t < tt_len tab" "var_of (tt_kind tab t) = None"
  shows "leads_to tab st tab (set_solution v t st)"
  using assms setters_grow(4) vs_ok_upd [of tab st v "set_solution v t st" "va_solution_update (\<lambda>_. Some t)"]
  by (auto simp: leads_to_def state_ok_def set_solution_def)

lemma set_parent_to:
  assumes "state_ok tab st" "c < length (vr_vars st)" "r < length (vr_vars st)" "c \<noteq> r"
    and "va_parent (vr_var st c) = c" "va_parent (vr_var st r) = r"
  shows "leads_to tab st tab (set_parent c r st)"
proof -
  let ?p = "map va_parent (vr_vars st)" and ?st = "set_parent c r st"
  have p: "map va_parent (vr_vars ?st) = ?p[c := r]" using assms(2) by (simp add: set_parent_def upd_def map_update)
  have "vs_ok tab ?st"
    unfolding vs_ok_def
  proof (intro conjI ballI allI impI)
    have len: "length (vr_vars ?st) = length (vr_vars st)" by (simp add: set_parent_def)
    have s: "s = va_parent_update (\<lambda>_. r) (vr_var st c) \<or> s \<in> set (vr_vars st)" if "s \<in> set (vr_vars ?st)" for s
      using set_upd [of s c "va_parent_update (\<lambda>_. r)" "vr_vars st"] that assms(2) by (simp add: set_parent_def)
    show "va_parent s < length (vr_vars ?st)" if "s \<in> set (vr_vars ?st)" for s
      using s [OF that] assms(1,3) by (auto simp: state_ok_def vs_ok_def len)
    show "t < tt_len tab" "var_of (tt_kind tab t) = None" if "s \<in> set (vr_vars ?st)" "va_solution s = Some t" for s t
      using s [OF that(1)] that(2) vs_ok_solution [of tab st c t] assms(1,2) by (auto simp: state_ok_def vs_ok_def)
    show "\<exists>q. leads (map va_parent (vr_vars ?st)) i q" if i: "i < length (vr_vars ?st)" for i
    proof -
      obtain q where "leads ?p i q" using assms(1) i len by (auto simp: state_ok_def vs_ok_def)
      from leads_link [OF _ _ assms(4) _ this] show ?thesis unfolding p using assms(2,3,5,6) by auto
    qed
    show "v < length (vr_vars ?st)" if "i < tt_len tab" "var_of (tt_kind tab i) = Some v" for i v
      using assms(1) that by (auto simp: state_ok_def vs_ok_def len)
  qed
  then show ?thesis using assms(1,2) setters_grow(1) by (auto simp: leads_to_def state_ok_def set_parent_def)
qed

lemma vs_ok_ext:
  assumes "vs_ok tab st" "ext tab tab'" "\<And>i v. i < tt_len tab' \<Longrightarrow> var_of (tt_kind tab' i) = Some v \<Longrightarrow> v < length (vr_vars st)"
  shows "vs_ok tab' st"
  using assms ext_len [OF assms(2)] ext_kind [OF assms(2)] by (fastforce simp: vs_ok_def)

lemma intern_to:
  assumes "state_ok tab st" "\<forall>t\<in>kids k. t < tt_len tab" "row_ok k" "tt_intern k tab = (i, tab')"
    and "\<And>v. var_of k = Some v \<Longrightarrow> v < length (vr_vars st)"
  shows "leads_to tab st tab' st" "i < tt_len tab'" "tt_kind tab' i = k"
proof -
  have ok: "tt_ok tab" "vs_ok tab st" using assms(1) by (auto simp: state_ok_def)
  note t = tt_intern_ok [OF ok(1) assms(2) [unfolded tt_len_def] assms(3,4)]
  obtain ks where ks: "tt_kinds tab' = tt_kinds tab @ ks" "set ks \<subseteq> {k}" using t(4) by blast
  have e: "ext tab tab'" using ks(1) by (auto simp: ext_def)
  have "v < length (vr_vars st)" if "j < tt_len tab'" "var_of (tt_kind tab' j) = Some v" for j v
  proof (cases "j < tt_len tab")
    case True
    then show ?thesis using ok(2) that(2) ext_kind [OF e True] by (auto simp: vs_ok_def)
  next
    case False
    then have "tt_kind tab' j \<in> set ks"
      using that(1) ks(1) by (auto simp: tt_kind_def tt_len_def nth_append)
    then show ?thesis using ks(2) that(2) assms(5) by auto
  qed
  then have "vs_ok tab' st" using vs_ok_ext [OF ok(2) e] by blast
  then show "leads_to tab st tab' st" using t(1) e by (simp add: leads_to_def state_ok_def)
  show "i < tt_len tab'" "tt_kind tab' i = k" using t(2,3) by (auto simp: tt_len_def tt_kind_def)
qed

lemma fresh_to:
  assumes "state_ok tab st" "vr_fresh level k origin tab st = (i, tab', st')"
  shows "leads_to tab st tab' st'" "i < tt_len tab'" "tt_kind tab' i = TY_Var (length (vr_vars st))"
proof -
  let ?new = "\<lparr>va_parent = length (vr_vars st), va_level = level, va_kind = k, va_solution = None, va_origin = origin\<rparr>"
  let ?st = "st\<lparr>vr_vars := vr_vars st @ [?new]\<rparr>" and ?p = "map va_parent (vr_vars st)"
  have i: "tt_intern (TY_Var (length (vr_vars st))) tab = (i, tab')" "st' = ?st"
    using assms(2) by (auto simp: vr_fresh_def Let_def split: prod.splits)
  have ok: "tt_ok tab" "vs_ok tab st" using assms(1) by (auto simp: state_ok_def)
  have "vs_ok tab ?st"
    unfolding vs_ok_def
  proof (intro conjI ballI allI impI)
    show "\<exists>r. leads (map va_parent (vr_vars ?st)) v r" if v: "v < length (vr_vars ?st)" for v
    proof (cases "v < length (vr_vars st)")
      case True
      then obtain r where "leads ?p v r" using ok(2) by (auto simp: vs_ok_def)
      then have "leads (?p @ [length (vr_vars st)]) v r"
        using ok(2) True by (intro leads_append) (auto simp: vs_ok_def)
      then show ?thesis by auto
    next
      case False
      then have "v = length (vr_vars st)" using v by simp
      then show ?thesis by (intro exI [of _ v] leads.le_root) (simp add: nth_append)
    qed
  qed (use ok(2) in \<open>auto simp: vs_ok_def less_Suc_eq\<close>)
  then have so: "state_ok tab ?st" using ok(1) by (simp add: state_ok_def)
  note it = intern_to [OF so _ _ i(1)]
  show "i < tt_len tab'" "tt_kind tab' i = TY_Var (length (vr_vars st))"
    using it(2,3) by (auto simp: kids_def row_ok_def var_of_Some)
  have "leads_to tab ?st tab' ?st" using it(1) by (auto simp: kids_def row_ok_def var_of_Some)
  then show "leads_to tab st tab' st'" using fresh_grows [OF assms(2)] i(2) by (auto simp: leads_to_def)
qed

section \<open>The occurs check\<close>

definition shape :: "var_state \<Rightarrow> nat \<times> num_kind \<times> ty_id option" where
  "shape s = (va_parent s, va_kind s, va_solution s)"

text \<open>Stores that differ in levels only.\<close>

definition same_shape :: "var_store \<Rightarrow> var_store \<Rightarrow> bool" where
  "same_shape st st' \<longleftrightarrow> map shape (vr_vars st') = map shape (vr_vars st)"

lemma same_shape_refl [simp]: "same_shape st st"
  by (simp add: same_shape_def)

lemma same_shape_level: "same_shape st (set_level v l st)"
  by (cases "v < length (vr_vars st)")
    (simp_all add: same_shape_def set_level_def upd_def map_update shape_def list_update_beyond list_update_same_conv)

lemma same_shape_find:
  assumes "same_shape st st'" shows "vr_find st' = vr_find st"
proof -
  have "map va_parent (vr_vars st') = map fst (map shape (vr_vars st'))" by (simp add: shape_def o_def)
  also have "\<dots> = map fst (map shape (vr_vars st))" using assms unfolding same_shape_def by simp
  also have "\<dots> = map va_parent (vr_vars st)" by (simp add: shape_def o_def)
  finally show ?thesis by (auto simp: vr_find_def)
qed

lemma same_shape_length: "same_shape st st' \<Longrightarrow> length (vr_vars st') = length (vr_vars st)"
  unfolding same_shape_def by (metis length_map)

lemma same_shape_var:
  assumes "same_shape st st'" "v < length (vr_vars st)"
  shows "va_parent (vr_var st' v) = va_parent (vr_var st v)" "va_kind (vr_var st' v) = va_kind (vr_var st v)"
    "va_solution (vr_var st' v) = va_solution (vr_var st v)"
proof -
  have "shape (vr_var st' v) = shape (vr_var st v)"
    using assms same_shape_length [OF assms(1)] unfolding same_shape_def by (metis nth_map)
  then show "va_parent (vr_var st' v) = va_parent (vr_var st v)" "va_kind (vr_var st' v) = va_kind (vr_var st v)"
    "va_solution (vr_var st' v) = va_solution (vr_var st v)" by (auto simp: shape_def)
qed

lemma occurs_kids_sub: "set (occurs_kids k) \<subseteq> kids k"
  by (cases k) (auto simp: kids_def split: option.splits)

lemma occurs_step:
  "occurs_adjust tab var level todo st = Some r \<Longrightarrow> state_ok tab st \<Longrightarrow> list_all (\<lambda>t. t < tt_len tab) todo \<Longrightarrow>
     leads_to tab st tab (snd r) \<and> same_shape st (snd r)"
proof (induction rule: occurs_adjust.raw_induct [rotated 1, consumes 1, case_names step])
  case (step rec tab var level todo st r)
  note IH = step(1) and def = step(2) and ok = step(3) and td = step(4)
  show ?case
  proof (cases todo)
    case Nil
    then show ?thesis using def ok leads_to_refl by auto
  next
    case (Cons t ts)
    have t: "t < tt_len tab" "list_all (\<lambda>t. t < tt_len tab) ts" using td Cons by auto
    show ?thesis
    proof (cases "var_of (tt_kind tab t)")
      case None
      have "\<forall>x\<in>kids (tt_kind tab t). x < tt_len tab"
        using tt_ok_kids [of tab t] ok t(1) by (fastforce simp: state_ok_def)
      then have "list_all (\<lambda>t. t < tt_len tab) (occurs_kids (tt_kind tab t) @ ts)"
        using occurs_kids_sub [of "tt_kind tab t"] t(2) by (auto simp: list_all_iff)
      with IH [of tab var level "occurs_kids (tt_kind tab t) @ ts" st] def ok None Cons show ?thesis by simp
    next
      case (Some w)
      have w: "w < length (vr_vars st)" using ok t(1) Some by (auto simp: state_ok_def vs_ok_def)
      obtain root where root: "vr_find st w = Some root" "root < length (vr_vars st)"
        using vr_find_ok [of tab st w] ok w by (auto simp: state_ok_def)
      consider "root = var" | s where "root \<noteq> var" "va_solution (vr_var st root) = Some s"
        | "root \<noteq> var" "va_solution (vr_var st root) = None" by (cases "va_solution (vr_var st root)") auto
      then show ?thesis
      proof cases
        case 1
        then show ?thesis using def ok Some root Cons leads_to_refl by auto
      next
        case 2
        then have "s < tt_len tab" using vs_ok_solution [of tab st root s] ok root(2) by (auto simp: state_ok_def)
        with IH [of tab var level "s # ts" st] def ok Some root Cons 2 t(2) show ?thesis by simp
      next
        case 3
        define st1 where "st1 = (if level < va_level (vr_var st root) then set_level root level st else st)"
        have t1: "leads_to tab st tab st1" "same_shape st st1"
          using ok set_level_to [OF ok root(2)] leads_to_refl same_shape_level by (simp_all add: st1_def)
        have "rec tab var level ts st1 = Some r" using def Some root(1) Cons 3 by (simp add: st1_def)
        then have t2: "leads_to tab st1 tab (snd r) \<and> same_shape st1 (snd r)"
          using IH [of tab var level ts st1] t1(1) t(2) by (simp add: leads_to_def)
        then show ?thesis using leads_to_trans [OF t1(1)] t1(2) by (simp add: same_shape_def)
      qed
    qed
  qed
qed

section \<open>Steps\<close>

definition goal_ok :: "nat \<Rightarrow> goal \<Rightarrow> bool" where
  "goal_ok n g =
     (case g of
        G_Types a b \<Rightarrow> a < n \<and> b < n
      | G_Rest ta tla tb tlb \<Rightarrow>
          (\<forall>t\<in>kids (TY_Row ta tla) \<union> kids (TY_Row tb tlb). t < n) \<and>
          sorted_wrt (<) (map fst ta) \<and> sorted_wrt (<) (map fst tb)
      | G_Fail \<Rightarrow> True)"

lemma goal_ok_mono: "goal_ok n g \<Longrightarrow> n \<le> m \<Longrightarrow> goal_ok m g"
  by (cases g) (auto simp: goal_ok_def intro: less_le_trans)

text \<open>What a step may do.\<close>

definition step_ok :: "type_table \<Rightarrow> var_store \<Rightarrow> step \<Rightarrow> bool" where
  "step_ok tab st r \<longleftrightarrow>
     (case r of (res, tab', st') \<Rightarrow>
        leads_to tab st tab' st' \<and> (case res of Inl _ \<Rightarrow> True | Inr gs \<Rightarrow> list_all (goal_ok (tt_len tab')) gs))"

lemma pairs_ok: "\<forall>x\<in>set xs. x < n \<Longrightarrow> \<forall>y\<in>set ys. y < n \<Longrightarrow> list_all (goal_ok n) (pairs xs ys)"
  by (auto simp: list_all_iff goal_ok_def) (meson set_zip_leftD set_zip_rightD)+

text \<open>Two kinds that unify structurally are built by one constructor, or are opaque forms.\<close>

lemma structural_rel:
  "structural ka kb = Inr gs \<Longrightarrow>
     (\<exists>x y. ka = TY_Unsupported x \<and> kb = TY_Unsupported y \<and> opaque_eq_of x y = OE_Equal \<and> gs = []) \<or> rel_ty_kind (\<lambda>_ _. True) ka kb"
  by (cases ka; cases kb) (simp_all add: list_all2_conv_all_nth split: if_splits opaque_eq.splits)

lemma structural_cases:
  assumes "structural ka kb = Inr gs"
  obtains (opaque) x y where "ka = TY_Unsupported x" "kb = TY_Unsupported y" "opaque_eq_of x y = OE_Equal" "gs = []"
    | (same) "rel_ty_kind (\<lambda>_ _. True) ka kb"
  using structural_rel [OF assms] by blast

lemma structural_ok:
  assumes "structural ka kb = Inr gs" shows "\<forall>t\<in>kids ka. t < n \<Longrightarrow> \<forall>t\<in>kids kb. t < n \<Longrightarrow> list_all (goal_ok n) gs"
  using assms
proof (cases rule: structural_cases)
  case same
  from this assms show "\<forall>t\<in>kids ka. t < n \<Longrightarrow> \<forall>t\<in>kids kb. t < n \<Longrightarrow> list_all (goal_ok n) gs"
    by (cases rule: ty_kind.rel_cases) (auto simp: kids_def goal_ok_def pairs_ok split: if_splits opaque_eq.splits)
qed auto

lemma structural_goals:
  assumes "structural ka kb = Inr gs" "g \<in> set gs" shows "\<exists>x y. g = G_Types x y"
  using assms(1)
proof (cases rule: structural_cases)
  case same
  from this assms show ?thesis
    by (cases rule: ty_kind.rel_cases) (auto split: if_splits opaque_eq.splits)
qed (use assms in simp)

lemma unify_vars_ok:
  assumes "state_ok tab st" "va < length (vr_vars st)" "vb < length (vr_vars st)"
  shows "\<exists>r. unify_vars va vb tab st = Some r \<and> step_ok tab st r"
proof -
  have vs: "vs_ok tab st" using assms(1) by (simp add: state_ok_def)
  obtain ra where ra: "vr_find st va = Some ra" "ra < length (vr_vars st)" "va_parent (vr_var st ra) = ra"
    using vr_find_ok [OF vs assms(2)] by blast
  obtain rb where rb: "vr_find st vb = Some rb" "rb < length (vr_vars st)" "va_parent (vr_var st rb) = rb"
    using vr_find_ok [OF vs assms(3)] by blast
  define root child where rc: "root = (if va_level (vr_var st ra) \<le> va_level (vr_var st rb) then ra else rb)"
    "child = (if va_level (vr_var st ra) \<le> va_level (vr_var st rb) then rb else ra)"
  let ?st = "set_parent child root st"
  have *: "ra \<noteq> rb \<Longrightarrow> leads_to tab st tab ?st"
    using set_parent_to [OF assms(1), of child root] ra rb by (auto simp: rc)
  have k: "ra \<noteq> rb \<Longrightarrow> leads_to tab ?st tab (set_kind root k ?st)" for k
    using set_kind_to [of tab ?st root k] * ra(2) rb(2) by (auto simp: leads_to_def rc)
  show ?thesis
    using leads_to_refl [OF assms(1)] * k leads_to_trans [OF * k]
    by (auto simp: unify_vars_def ra(1) rb(1) step_ok_def Let_def rc split: option.split)
qed

lemma var_bind_ok:
  assumes "var_bind v t tab st = Some r" "state_ok tab st" "v < length (vr_vars st)" "t < tt_len tab" "var_of (tt_kind tab t) = None"
    and "\<And>root. vr_find st v = Some root \<Longrightarrow> va_solution (vr_var st root) = None"
  shows "step_ok tab st r"
proof -
  have vs: "vs_ok tab st" using assms(2) by (simp add: state_ok_def)
  obtain root where root: "vr_find st v = Some root" "root < length (vr_vars st)" using vr_find_ok [OF vs assms(3)] by blast
  show ?thesis
  proof (cases "kind_admits (va_kind (vr_var st root)) (tt_kind tab t)")
    case True
    obtain i tab1 where i: "tt_intern (TY_Var root) tab = (i, tab1)" by (cases "tt_intern (TY_Var root) tab")
    have t1: "leads_to tab st tab1 st"
      using intern_to(1) [OF assms(2) _ _ i] root(2) by (auto simp: kids_def row_ok_def var_of_Some)
    have len: "tt_len tab \<le> tt_len tab1" "tt_kind tab1 t = tt_kind tab t"
      using t1 ext_len ext_kind assms(4) by (auto simp: leads_to_def)
    obtain ok st1 where o: "occurs_adjust tab1 root (va_level (vr_var st root)) [t] st = Some (ok, st1)"
        "r = (if ok then (Inr [], tab1, set_solution root t st1) else (Inl (UE_Occurs i t), tab1, st1))"
      using assms(1) True by (auto simp: var_bind_def root(1) i bind_eq_Some_conv split: if_splits)
    have o1: "leads_to tab1 st tab1 st1" "same_shape st st1"
      using occurs_step [OF o(1)] t1 assms(4) len by (auto simp: leads_to_def)
    have "leads_to tab1 st1 tab1 (set_solution root t st1)"
      using set_solution_to [of tab1 st1 root t] o1 same_shape_var(3) [OF o1(2) root(2)] assms(4-6) root len
      by (auto simp: leads_to_def same_shape_length)
    then show ?thesis using leads_to_trans [OF t1 o1(1)] leads_to_trans by (auto simp: o(2) step_ok_def)
  qed (use assms(1) root leads_to_refl [OF assms(2)] in \<open>auto simp: var_bind_def step_ok_def\<close>)
qed

end
