(* ===== verification/Sema_Unify_Run.thy ===== *)
theory Sema_Unify_Run
  imports Sema_Unify_Step
begin

text \<open>Rows, steps and whole calls keep the table and the store well-formed, and the log gives the store back.\<close>

definition row_kids :: "nat \<Rightarrow> tags \<Rightarrow> ty_id option \<Rightarrow> bool" where
  "row_kids n tags tail \<longleftrightarrow> (\<forall>t\<in>kids (TY_Row tags tail). t < n)"

lemma row_kids_simps: "row_kids n tags tail \<longleftrightarrow> (\<forall>(m, p)\<in>set tags. \<forall>t\<in>set p. t < n) \<and> (\<forall>t\<in>set_option tail. t < n)"
  by (auto simp: row_kids_def kids_def)

lemma row_kids_mono: "row_kids n tags tail \<Longrightarrow> n \<le> m \<Longrightarrow> row_kids m tags tail"
  unfolding row_kids_def by (meson less_le_trans)

lemma dedup_sub: "set (dedup_tags ts) \<subseteq> set ts"
  by (induction ts rule: dedup_tags.induct) auto

lemma canon_sub: "set (canon_tags ts) \<subseteq> set ts"
  using dedup_sub [of "sort_key fst ts"] by (simp add: canon_tags_def)

lemma tt_row_to:
  assumes "state_ok tab st" "row_kids (tt_len tab) tags tail" "tt_row tags tail tab = (i, tab')"
  shows "leads_to tab st tab' st" "i < tt_len tab'" "tt_kind tab' i = TY_Row (canon_tags tags) tail"
proof -
  have "\<forall>t\<in>kids (TY_Row (canon_tags tags) tail). t < tt_len tab"
    using assms(2) canon_sub [of tags] by (fastforce simp: row_kids_simps kids_def)
  from intern_to [OF assms(1) this _ assms(3) [unfolded tt_row_def]]
  show "leads_to tab st tab' st" "i < tt_len tab'" "tt_kind tab' i = TY_Row (canon_tags tags) tail"
    by (auto simp: row_ok_def canon_strict var_of_Some)
qed

lemma empty_row_to:
  assumes "state_ok tab st" "tt_empty_row tab = (i, tab')"
  shows "leads_to tab st tab' st" "i < tt_len tab'" "tt_kind tab' i = TY_Row [] None"
  using intern_to [OF assms(1) _ _ assms(2) [unfolded tt_empty_row_def]] by (auto simp: row_ok_def kids_def var_of_Some)

lemma only_in_sub: "set (only_in ta tb) \<subseteq> set ta"
  by (auto simp: only_in_def)

lemma row_kids_sub: "row_kids n tags tail \<Longrightarrow> set us \<subseteq> set tags \<Longrightarrow> \<forall>t\<in>set_option tail'. t < n \<Longrightarrow> row_kids n us tail'"
  by (fastforce simp: row_kids_simps)

lemma row_kids_append: "row_kids n (us @ ws) tail \<longleftrightarrow> row_kids n us tail \<and> row_kids n ws tail"
  by (auto simp: row_kids_simps)

lemma goal_rest_ok: "goal_ok n (G_Rest ta tla tb tlb) \<longleftrightarrow>
    row_kids n ta tla \<and> row_kids n tb tlb \<and> sorted_wrt (<) (map fst ta) \<and> sorted_wrt (<) (map fst tb)"
  by (auto simp: goal_ok_def row_kids_def)

lemma absorb_ok:
  assumes "state_ok tab st" "row_kids (tt_len tab) us tl1" "t < tt_len tab" "tt_row us tl1 tab = (i, tab')"
  shows "step_ok tab st (Inr [G_Types t i], tab', st)"
proof -
  note r = tt_row_to [OF assms(1,2,4)]
  have "tt_len tab \<le> tt_len tab'" using r(1) ext_len by (auto simp: leads_to_def)
  then show ?thesis using r assms(3) by (simp add: step_ok_def goal_ok_def)
qed

lemma step_ok_later: "leads_to tab st tab1 st \<Longrightarrow> step_ok tab1 st r \<Longrightarrow> step_ok tab st r"
  by (auto simp: step_ok_def dest: leads_to_trans)

lemma unify_rest_ok:
  assumes "state_ok tab st" "goal_ok (tt_len tab) (G_Rest ta tla tb tlb)"
  shows "step_ok tab st (unify_rest ta tla tb tlb tab st)"
proof -
  obtain e tab1 where e: "tt_empty_row tab = (e, tab1)" by (cases "tt_empty_row tab")
  note r = empty_row_to [OF assms(1) e]
  have so: "state_ok tab1 st" and len: "tt_len tab \<le> tt_len tab1" using r(1) ext_len by (auto simp: leads_to_def)
  have ka: "row_kids (tt_len tab1) ta tla" and kb: "row_kids (tt_len tab1) tb tlb"
    using assms(2) row_kids_mono [OF _ len] by (auto simp: goal_rest_ok)
  have tails: "\<forall>t\<in>set_option tla. t < tt_len tab1" "\<forall>t\<in>set_option tlb. t < tt_len tab1"
    using ka kb by (auto simp: row_kids_simps)
  have done_ok: "step_ok tab1 st (res, tab1, st)" if "case res of Inl _ \<Rightarrow> True | Inr gs \<Rightarrow> list_all (goal_ok (tt_len tab1)) gs" for res
    using that leads_to_refl [OF so] by (simp add: step_ok_def)
  have absorb_a: "step_ok tab1 st (let (i, tab') = tt_row (only_in ta tb) tla tab1 in (Inr [G_Types t i], tab', st))" if "t < tt_len tab1" for t
    using absorb_ok [OF so row_kids_sub [OF ka only_in_sub tails(1)] that] by (auto split: prod.split)
  have absorb_b: "step_ok tab1 st (let (i, tab') = tt_row (only_in tb ta) tlb tab1 in (Inr [G_Types t i], tab', st))" if "t < tt_len tab1" for t
    using absorb_ok [OF so row_kids_sub [OF kb only_in_sub tails(2)] that] by (auto split: prod.split)
  have "step_ok tab1 st (unify_rest ta tla tb tlb tab st)"
    using tails r(2) absorb_a absorb_b
    by (cases tla; cases tlb) (auto simp: unify_rest_def e Let_def intro!: done_ok simp: goal_ok_def)
  then show ?thesis by (rule step_ok_later [OF r(1)])
qed

lemma goal_fail_ok [simp]: "goal_ok n G_Fail"
  by (simp add: goal_ok_def)

lemma shared_payloads_ok:
  "row_kids n ta None \<Longrightarrow> row_kids n tb None \<Longrightarrow> list_all (goal_ok n) (shared_payloads ta tb)"
proof (induction ta tb rule: shared_payloads.induct)
  case (2 k pa ta tb)
  have "list_all (goal_ok n) (pairs pa pb)" if "map_of tb k = Some pb" for pb
    using 2(3,4) map_of_SomeD [OF that] by (intro pairs_ok) (auto simp: row_kids_simps)
  with 2 show ?case by (auto simp: row_kids_simps split: option.split)
qed simp

lemma shallow_tail_ok:
  assumes "state_ok tab st" "\<forall>t\<in>set_option tail. t < tt_len tab"
  obtains tl' where "shallow_tail tab st tail = Some tl'" "\<forall>t\<in>set_option tl'. t < tt_len tab"
proof (cases tail)
  case (Some t)
  obtain s where "shallow tab st t = Some s" "s < tt_len tab"
    using shallow_ok [of tab st t] assms Some by (auto simp: state_ok_def)
  then show thesis using that [of "Some s"] Some by (simp add: shallow_tail_def)
qed (use that [of None] in \<open>simp add: shallow_tail_def\<close>)

lemma fold_rows_ok:
  assumes "state_ok tab st" "row_kids (tt_len tab) us tl1" "row_kids (tt_len tab) ws tl2"
    and "tt_row us tl1 tab = (i, tab1)" "tt_row ws tl2 tab1 = (j, tab2)"
  shows "step_ok tab st (Inr [G_Types i j], tab2, st)" "step_ok tab st (Inr [G_Types j i], tab2, st)"
proof -
  note r = tt_row_to [OF assms(1,2,4)]
  have so: "state_ok tab1 st" and len: "tt_len tab \<le> tt_len tab1" using r(1) ext_len by (auto simp: leads_to_def)
  note q = tt_row_to [OF so row_kids_mono [OF assms(3) len] assms(5)]
  have "tt_len tab1 \<le> tt_len tab2" using q(1) ext_len by (auto simp: leads_to_def)
  then show "step_ok tab st (Inr [G_Types i j], tab2, st)" "step_ok tab st (Inr [G_Types j i], tab2, st)"
    using leads_to_trans [OF r(1) q(1)] r(2) q(2) by (simp_all add: step_ok_def goal_ok_def)
qed

lemma tail_row_ok:
  assumes "tt_ok tab" "\<forall>t\<in>set_option tail. t < tt_len tab" "tail_row tab tail = Some (tags, tl')"
  shows "row_kids (tt_len tab) tags tl'" "sorted_wrt (<) (map fst tags)"
proof -
  obtain t where t: "tail = Some t" "tt_kind tab t = TY_Row tags tl'"
    using assms(3) by (auto simp: tail_row_def row_of_Some bind_eq_Some_conv)
  then show "row_kids (tt_len tab) tags tl'"
    using tt_ok_kids [OF assms(1), of t] assms(2) by (fastforce simp: row_kids_def)
  show "sorted_wrt (<) (map fst tags)" using tt_ok_row [OF assms(1), of t] t assms(2) by (simp add: row_ok_def)
qed

lemma unify_rows_ok:
  assumes "state_ok tab st" "row_kids (tt_len tab) ta tla" "row_kids (tt_len tab) tb tlb"
    and "sorted_wrt (<) (map fst ta)" "sorted_wrt (<) (map fst tb)"
  shows "\<exists>r. unify_rows ta tla tb tlb tab st = Some r \<and> step_ok tab st r"
proof -
  have tl: "\<forall>t\<in>set_option tla. t < tt_len tab" "\<forall>t\<in>set_option tlb. t < tt_len tab" using assms(2,3) by (auto simp: row_kids_simps)
  obtain xa where xa: "shallow_tail tab st tla = Some xa" "\<forall>t\<in>set_option xa. t < tt_len tab" using shallow_tail_ok [OF assms(1) tl(1)] .
  obtain xb where xb: "shallow_tail tab st tlb = Some xb" "\<forall>t\<in>set_option xb. t < tt_len tab" using shallow_tail_ok [OF assms(1) tl(2)] .
  have ta: "row_kids (tt_len tab) ta y" if "\<forall>t\<in>set_option y. t < tt_len tab" for y using row_kids_sub [OF assms(2) subset_refl that] .
  have tb: "row_kids (tt_len tab) tb y" if "\<forall>t\<in>set_option y. t < tt_len tab" for y using row_kids_sub [OF assms(3) subset_refl that] .
  have tok: "tt_ok tab" using assms(1) by (simp add: state_ok_def)
  show ?thesis
  proof (cases "tail_row tab xa")
    case (Some ra)
    obtain us y where ra: "ra = (us, y)" by (cases ra)
    have k: "row_kids (tt_len tab) us y" using tail_row_ok [OF tok xa(2)] Some ra by simp
    then have "row_kids (tt_len tab) (ta @ us) y" unfolding row_kids_append using ta [of y] by (simp add: row_kids_simps)
    then show ?thesis using fold_rows_ok(1) [OF assms(1) _ tb [OF xb(2)]] Some ra
      by (auto simp: unify_rows_def xa(1) xb(1) split: prod.split)
  next
    case None
    show ?thesis
    proof (cases "tail_row tab xb")
      case (Some rb)
      obtain us y where rb: "rb = (us, y)" by (cases rb)
      have k: "row_kids (tt_len tab) us y" using tail_row_ok [OF tok xb(2)] Some rb by simp
      then have "row_kids (tt_len tab) (tb @ us) y" unfolding row_kids_append using tb [of y] by (simp add: row_kids_simps)
      then show ?thesis using fold_rows_ok(2) [OF assms(1) _ ta [OF xa(2)]] None Some rb
        by (auto simp: unify_rows_def xa(1) xb(1) split: prod.split)
    next
      case None
      have "list_all (goal_ok (tt_len tab)) (shared_payloads ta tb @ [G_Rest ta xa tb xb])"
        using shared_payloads_ok [of "tt_len tab" ta tb] ta [of None] tb [of None] ta [OF xa(2)] tb [OF xb(2)] assms(4,5)
        by (simp add: goal_rest_ok)
      then show ?thesis using None \<open>tail_row tab xa = None\<close> leads_to_refl [OF assms(1)]
        by (auto simp: unify_rows_def xa(1) xb(1) step_ok_def)
    qed
  qed
qed

lemma unify_types_ok:
  assumes "unify_types a b tab st = Some r" "state_ok tab st" "a < tt_len tab" "b < tt_len tab"
  shows "step_ok tab st r"
proof -
  have vs: "vs_ok tab st" and tok: "tt_ok tab" using assms(2) by (auto simp: state_ok_def)
  obtain x where x: "shallow tab st a = Some x" "x < tt_len tab"
      "\<And>v. tt_kind tab x = TY_Var v \<Longrightarrow> \<exists>r. vr_find st v = Some r \<and> va_solution (vr_var st r) = None"
    using shallow_ok [OF vs assms(3)] by metis
  obtain y where y: "shallow tab st b = Some y" "y < tt_len tab"
      "\<And>v. tt_kind tab y = TY_Var v \<Longrightarrow> \<exists>r. vr_find st v = Some r \<and> va_solution (vr_var st r) = None"
    using shallow_ok [OF vs assms(4)] by metis
  let ?ka = "tt_kind tab x" and ?kb = "tt_kind tab y"
  show ?thesis
  proof (cases "x = y \<or> ?ka = TY_Error \<or> ?kb = TY_Error \<or> ?ka = TY_Never \<or> ?kb = TY_Never")
    case True
    then have "r = (Inr [], tab, st)" using assms(1) by (auto simp: unify_types_def x(1) y(1) Let_def split: if_splits)
    then show ?thesis using leads_to_refl [OF assms(2)] by (simp add: step_ok_def)
  next
    case False
    then have u: "(case (var_of ?ka, var_of ?kb) of
                      (Some va, Some vb) \<Rightarrow> unify_vars va vb tab st
                    | (Some v, None) \<Rightarrow> var_bind v y tab st
                    | (None, Some v) \<Rightarrow> var_bind v x tab st
                    | (None, None) \<Rightarrow>
                        (case (row_of ?ka, row_of ?kb) of
                           (Some (ta, tla), Some (tb, tlb)) \<Rightarrow> unify_rows ta tla tb tlb tab st
                         | _ \<Rightarrow> Some (structural ?ka ?kb, tab, st))) = Some r"
      using assms(1) by (simp add: unify_types_def x(1) y(1) Let_def)
    have vl: "v < length (vr_vars st)" if "tt_kind tab i = TY_Var v" "i < tt_len tab" for i v
      using vs that by (auto simp: vs_ok_def var_of_Some)
    consider va vb where "?ka = TY_Var va" "?kb = TY_Var vb" | v where "?ka = TY_Var v" "var_of ?kb = None"
      | v where "?kb = TY_Var v" "var_of ?ka = None" | "var_of ?ka = None" "var_of ?kb = None"
      by (cases "var_of ?ka"; cases "var_of ?kb") (auto simp: var_of_Some)
    then show ?thesis
    proof cases
      case 1
      then show ?thesis using unify_vars_ok [OF assms(2) vl [OF 1(1) x(2)] vl [OF 1(2) y(2)]] u by (auto simp: var_of_def)
    next
      case 2
      have "var_bind v y tab st = Some r" using u 2 by (simp add: var_of_def)
      from var_bind_ok [OF this assms(2) vl [OF 2(1) x(2)] y(2) 2(2)] show ?thesis using x(3) [OF 2(1)] by auto
    next
      case 3
      have "var_bind v x tab st = Some r" using u 3 by (simp add: var_of_def)
      from var_bind_ok [OF this assms(2) vl [OF 3(1) y(2)] x(2) 3(2)] show ?thesis using y(3) [OF 3(1)] by auto
    next
      case 4
      have kx: "\<forall>t\<in>kids ?ka. t < tt_len tab" "\<forall>t\<in>kids ?kb. t < tt_len tab"
        using tt_ok_kids [OF tok] x(2) y(2) by fastforce+
      show ?thesis
      proof (cases "row_of ?ka = None \<or> row_of ?kb = None")
        case True
        then have "r = (structural ?ka ?kb, tab, st)" using u 4 by (auto split: option.splits)
        then show ?thesis using leads_to_refl [OF assms(2)] structural_ok [OF _ kx] by (auto simp: step_ok_def split: sum.split)
      next
        case False
        then obtain ta tla tb tlb where rows: "?ka = TY_Row ta tla" "?kb = TY_Row tb tlb" by (auto simp: row_of_Some)
        then have "sorted_wrt (<) (map fst ta)" "sorted_wrt (<) (map fst tb)"
          using tt_ok_row [OF tok x(2)] tt_ok_row [OF tok y(2)] by (auto simp: row_ok_def)
        from unify_rows_ok [OF assms(2) _ _ this, of tla tlb] kx rows
        show ?thesis using u 4 by (auto simp: row_of_def row_kids_def)
      qed
    qed
  qed
qed

lemma unify_step_ok:
  assumes "unify_step g tab st = Some r" "state_ok tab st" "goal_ok (tt_len tab) g"
  shows "step_ok tab st r"
proof (cases g)
  case (G_Types a b)
  then show ?thesis using assms unify_types_ok by (simp add: unify_step_def goal_ok_def)
next
  case (G_Rest ta tla tb tlb)
  then show ?thesis using assms unify_rest_ok by (auto simp: unify_step_def)
next
  case G_Fail
  then show ?thesis using assms leads_to_refl by (auto simp: unify_step_def step_ok_def)
qed

lemma unify_loop_to:
  "unify_loop gs tab st = Some r \<Longrightarrow> state_ok tab st \<Longrightarrow> list_all (goal_ok (tt_len tab)) gs \<Longrightarrow>
     leads_to tab st (fst (snd r)) (snd (snd r))"
proof (induction rule: unify_loop.raw_induct [rotated 1, consumes 1, case_names step])
  case (step rec gs tab st r)
  show ?case
  proof (cases gs)
    case Nil
    then show ?thesis using step(2) leads_to_refl [OF step(3)] by auto
  next
    case (Cons g gs')
    obtain res tab1 st1 where s: "unify_step g tab st = Some (res, tab1, st1)"
      using step(2) Cons by (auto simp: bind_eq_Some_conv)
    have so: "step_ok tab st (res, tab1, st1)" using unify_step_ok [OF s step(3)] step(4) Cons by simp
    show ?thesis
    proof (cases res)
      case (Inl e)
      then show ?thesis using step(2) Cons s so by (auto simp: step_ok_def)
    next
      case (Inr new)
      have l: "leads_to tab st tab1 st1" and new: "list_all (goal_ok (tt_len tab1)) new" using so Inr by (auto simp: step_ok_def)
      have "tt_len tab \<le> tt_len tab1" using l ext_len by (auto simp: leads_to_def)
      then have "list_all (goal_ok (tt_len tab1)) (new @ gs')" using new step(4) Cons goal_ok_mono by (auto simp: list_all_iff)
      with step(1) [of "new @ gs'" tab1 st1 r] have "leads_to tab1 st1 (fst (snd r)) (snd (snd r))"
        using step(2) Cons s Inr l by (simp add: leads_to_def)
      then show ?thesis using leads_to_trans [OF l] by blast
    qed
  qed
qed

end
