(* ===== verification/Sema_Solutions.thy ===== *)
theory Sema_Solutions
  imports Sema_Unify_Run Sema_Norm_Theorems
begin

text \<open>
  What types mean: trees over the constructors of \<open>Sema_Types\<close>, given a tree for every variable. A row is its
  tags in order with what is left of its tail; opaque forms stand for the class of forms that compare equal.
\<close>

section \<open>Trees\<close>

datatype sty = Ty "sty ty_kind"

definition row_parts :: "sty \<Rightarrow> (bytes \<rightharpoonup> sty list) \<times> sty option" where
  "row_parts d = (case d of Ty k \<Rightarrow> (case row_of k of Some (us, tl') \<Rightarrow> (map_of us, tl') | None \<Rightarrow> (Map.empty, Some d)))"

definition tail_parts :: "sty option \<Rightarrow> (bytes \<rightharpoonup> sty list) \<times> sty option" where
  "tail_parts tl' = (case tl' of None \<Rightarrow> (Map.empty, None) | Some d \<Rightarrow> row_parts d)"

text \<open>The tags of a row before those of its tail; no tags at all leave the tail.\<close>

definition sem_row :: "(bytes \<times> sty list) list \<Rightarrow> sty option \<Rightarrow> sty" where
  "sem_row tags tl' =
     (case tl' of
        None \<Rightarrow> Ty (TY_Row (canon_tags tags) None)
      | Some d \<Rightarrow>
          if tags = [] then d
          else case d of Ty k \<Rightarrow>
                 (case row_of k of
                    Some (us, tl') \<Rightarrow> Ty (TY_Row (canon_tags (tags @ us)) tl')
                  | None \<Rightarrow> Ty (TY_Row (canon_tags tags) (Some d))))"

definition arg_class :: "bytes \<Rightarrow> lin_expr + bytes" where
  "arg_class x = (case normalize x of Linear l \<Rightarrow> Inl l | _ \<Rightarrow> Inr x)"

definition opaque_class :: "bytes \<Rightarrow> bytes + bytes \<times> (lin_expr + bytes) list" where
  "opaque_class s = (case split_opaque s of None \<Rightarrow> Inl s | Some (h, xs) \<Rightarrow> Inr (h, map arg_class xs))"

definition opaque_rep :: "bytes \<Rightarrow> bytes" where
  "opaque_rep s = (SOME t. opaque_class t = opaque_class s)"

definition sem_kind :: "(nat \<Rightarrow> sty) \<Rightarrow> (ty_id \<Rightarrow> sty) \<Rightarrow> kind \<Rightarrow> sty" where
  "sem_kind \<sigma> V k =
     (case var_of k of
        Some v \<Rightarrow> \<sigma> v
      | None \<Rightarrow>
          (case row_of k of
             Some (tags, tl') \<Rightarrow> sem_row (map (map_prod id (map V)) tags) (map_option V tl')
           | None \<Rightarrow>
               (case k of
                  TY_Unsupported s \<Rightarrow> Ty (TY_Unsupported (opaque_rep s))
                | _ \<Rightarrow> Ty (map_ty_kind V k))))"

definition vals :: "(nat \<Rightarrow> sty) \<Rightarrow> kind list \<Rightarrow> sty list" where
  "vals \<sigma> ks = foldl (\<lambda>vs k. vs @ [sem_kind \<sigma> (\<lambda>t. vs ! t) k]) [] ks"

definition den :: "(nat \<Rightarrow> sty) \<Rightarrow> type_table \<Rightarrow> ty_id \<Rightarrow> sty" where
  "den \<sigma> tab t = vals \<sigma> (tt_kinds tab) ! t"

lemma vals_snoc: "vals \<sigma> (ks @ [k]) = vals \<sigma> ks @ [sem_kind \<sigma> (\<lambda>t. vals \<sigma> ks ! t) k]"
  by (simp add: vals_def)

lemma vals_length [simp]: "length (vals \<sigma> ks) = length ks"
  by (induction ks rule: rev_induct) (simp_all add: vals_snoc, simp add: vals_def)

lemma vals_prefix: "i < length ks \<Longrightarrow> vals \<sigma> (ks @ ls) ! i = vals \<sigma> ks ! i"
proof (induction ls rule: rev_induct)
  case (snoc l ls)
  have "vals \<sigma> (ks @ ls @ [l]) ! i = vals \<sigma> (ks @ ls) ! i"
    using snoc(2) vals_snoc [of \<sigma> "ks @ ls" l] by (simp add: nth_append)
  then show ?case using snoc by simp
qed simp

lemma den_ext: "ext tab tab' \<Longrightarrow> t < tt_len tab \<Longrightarrow> den \<sigma> tab' t = den \<sigma> tab t"
  by (auto simp: ext_def den_def tt_len_def vals_prefix)

lemma row_of_row [simp]: "row_of (TY_Row tags tl') = Some (tags, tl')"
  by (simp add: row_of_def)

lemma var_of_var [simp]: "var_of (TY_Var v) = Some v"
  by (simp add: var_of_def)

lemma sem_kind_cong: "(\<And>t. t \<in> kids k \<Longrightarrow> V t = W t) \<Longrightarrow> sem_kind \<sigma> V k = sem_kind \<sigma> W k"
proof -
  assume a: "\<And>t. t \<in> kids k \<Longrightarrow> V t = W t"
  have m: "map_ty_kind V k = map_ty_kind W k" using a by (intro ty_kind.map_cong0) (simp add: kids_def)
  show ?thesis
  proof (cases "row_of k")
    case None
    then show ?thesis using m by (auto simp: sem_kind_def split: option.split ty_kind.split)
  next
    case (Some r)
    obtain tags tl' where r: "r = (tags, tl')" by (cases r)
    then have k: "k = TY_Row tags tl'" using Some by (simp add: row_of_Some)
    have "TY_Row (map (map_prod id (map V)) tags) (map_option V tl') = TY_Row (map (map_prod id (map W)) tags) (map_option W tl')"
      using m by (simp only: k ty_kind.map)
    then show ?thesis by (simp only: sem_kind_def k var_of_def row_of_def ty_kind.case option.case prod.case ty_kind.inject)
  qed
qed

lemma den_kind:
  assumes "tt_ok tab" "t < tt_len tab"
  shows "den \<sigma> tab t = sem_kind \<sigma> (den \<sigma> tab) (tt_kind tab t)"
proof -
  let ?ks = "tt_kinds tab"
  have split: "?ks = (take t ?ks @ [?ks ! t]) @ drop (Suc t) ?ks"
    using assms(2) by (simp add: tt_len_def id_take_nth_drop [symmetric])
  have len: "length (take t ?ks) = t" using assms(2) by (simp add: tt_len_def)
  have "den \<sigma> tab t = vals \<sigma> (take t ?ks @ [?ks ! t]) ! t"
    unfolding den_def by (subst split) (rule vals_prefix, use len in simp)
  also have "\<dots> = sem_kind \<sigma> (\<lambda>u. vals \<sigma> (take t ?ks) ! u) (?ks ! t)"
    using len by (simp add: vals_snoc nth_append)
  also have "\<dots> = sem_kind \<sigma> (den \<sigma> tab) (?ks ! t)"
  proof (rule sem_kind_cong)
    fix u assume "u \<in> kids (?ks ! t)"
    then have "u < t" using tt_ok_kids [OF assms] by (simp add: tt_kind_def)
    then show "vals \<sigma> (take t ?ks) ! u = den \<sigma> tab u"
      using vals_prefix [of u "take t ?ks" \<sigma> "drop t ?ks"] len by (simp add: den_def)
  qed
  finally show ?thesis by (simp add: tt_kind_def)
qed

section \<open>Rows\<close>

lemma canon_eq: "map_of xs = map_of ys \<Longrightarrow> canon_tags xs = canon_tags ys"
  using bt_same_map [of "canon_tags xs" "canon_tags ys"] canon_strict canon_map_of
  by (metis bt_ok_def)

lemma canon_id: "sorted_wrt (<) (map fst xs) \<Longrightarrow> canon_tags xs = xs"
  using bt_same_map [of "canon_tags xs" xs] canon_strict [of xs] canon_map_of [of xs] by (simp add: bt_ok_def)

lemma canon_empty: "canon_tags xs = [] \<longleftrightarrow> xs = []"
proof
  assume "canon_tags xs = []"
  then have "map_of xs = Map.empty" using canon_map_of [of xs] by simp
  then show "xs = []" by (simp add: map_of_eq_empty_iff)
qed (simp add: canon_tags_def)

lemma row_parts_simps [simp]:
  "row_parts (Ty (TY_Row us tl')) = (map_of us, tl')"
  "row_of k = None \<Longrightarrow> row_parts (Ty k) = (Map.empty, Some (Ty k))"
  by (auto simp: row_parts_def row_of_def)

lemma sem_row_parts:
  "row_parts (sem_row tags tl') = (fst (tail_parts tl') ++ map_of tags, snd (tail_parts tl'))"
proof (cases tl')
  case None
  then show ?thesis by (simp add: sem_row_def tail_parts_def canon_map_of)
next
  case (Some d)
  obtain k where "d = Ty k" by (cases d)
  then show ?thesis using Some
    by (cases "row_of k") (auto simp: sem_row_def tail_parts_def canon_map_of row_of_Some)
qed

lemma sem_row_nonempty:
  assumes "tags \<noteq> []"
  shows "sem_row tags tl' = Ty (TY_Row (canon_tags (tags @ (case tl' of Some (Ty (TY_Row us _)) \<Rightarrow> us | _ \<Rightarrow> []))) (snd (tail_parts tl')))"
proof (cases tl')
  case (Some d)
  obtain k where d: "d = Ty k" by (cases d)
  show ?thesis
  proof (cases "row_of k")
    case None
    then have "(case tl' of Some (Ty (TY_Row us _)) \<Rightarrow> us | _ \<Rightarrow> []) = []"
      using Some d by (cases k) (auto simp: row_of_def)
    then show ?thesis using None Some d assms by (simp add: sem_row_def tail_parts_def)
  qed (use Some d assms in \<open>auto simp: sem_row_def tail_parts_def row_of_Some\<close>)
qed (simp add: sem_row_def tail_parts_def)

lemma sem_row_eqI:
  assumes "xs \<noteq> []" "ys \<noteq> []" "fst (tail_parts t) ++ map_of xs = fst (tail_parts u) ++ map_of ys" "snd (tail_parts t) = snd (tail_parts u)"
  shows "sem_row xs t = sem_row ys u"
proof -
  have "\<exists>zs. sem_row xs t = Ty (TY_Row (canon_tags zs) (snd (tail_parts t)))" using sem_row_nonempty [OF assms(1)] by blast
  then obtain zs where z: "sem_row xs t = Ty (TY_Row (canon_tags zs) (snd (tail_parts t)))" by blast
  have "\<exists>zs. sem_row ys u = Ty (TY_Row (canon_tags zs) (snd (tail_parts u)))" using sem_row_nonempty [OF assms(2)] by blast
  then obtain ws where w: "sem_row ys u = Ty (TY_Row (canon_tags ws) (snd (tail_parts u)))" by blast
  have "map_of zs = map_of ws" using sem_row_parts [of xs t] sem_row_parts [of ys u] assms(3) by (simp add: z w canon_map_of)
  then show ?thesis using canon_eq assms(4) by (simp add: z w)
qed

lemma sem_row_canon [simp]: "sem_row (canon_tags tags) tl' = sem_row tags tl'"
proof (cases "tags = []")
  case True
  then show ?thesis by (simp add: canon_tags_def)
next
  case False
  then show ?thesis by (intro sem_row_eqI) (auto simp: canon_empty canon_map_of)
qed

lemma sem_row_empty: "sem_row [] (Some d) = d" "sem_row [] None = Ty (TY_Row [] None)"
  by (simp_all add: sem_row_def canon_tags_def)

text \<open>A row in the tail folds into its host.\<close>

lemma sem_row_fold: "sem_row (tags @ us) tl' = sem_row tags (Some (sem_row us tl'))"
proof (cases "us = []")
  case True
  show ?thesis
  proof (cases tl')
    case None
    then show ?thesis using True by (cases "tags = []") (auto simp: sem_row_empty intro!: sem_row_eqI simp: tail_parts_def)
  qed (simp add: True sem_row_empty)
next
  case False
  show ?thesis
  proof (cases "tags = []")
    case nt: False
    have "tail_parts (Some (sem_row us tl')) = (fst (tail_parts tl') ++ map_of us, snd (tail_parts tl'))"
      by (simp add: tail_parts_def [of "Some _"] sem_row_parts)
    then show ?thesis using nt by (intro sem_row_eqI) (auto simp: map_add_assoc)
  qed (simp add: sem_row_empty)
qed

end
