(* ===== verification/Sema_Unify_Sound.thy ===== *)
theory Sema_Unify_Sound
  imports Sema_Solutions
begin

text \<open>
  What unification does to the solutions of a store: after a step that succeeds, the solutions are those of the
  store before that also solve the goal.
\<close>

section \<open>Solutions\<close>

definition sem_admits :: "num_kind \<Rightarrow> sty \<Rightarrow> bool" where
  "sem_admits nk d = (case d of Ty k \<Rightarrow> kind_admits nk k)"

text \<open>The trees \<open>\<sigma>\<close> gives the variables agree with the store.\<close>

definition sat :: "(nat \<Rightarrow> sty) \<Rightarrow> type_table \<Rightarrow> var_store \<Rightarrow> bool" where
  "sat \<sigma> tab st \<longleftrightarrow>
     (\<forall>v<length (vr_vars st). \<sigma> v = \<sigma> (va_parent (vr_var st v)) \<and> sem_admits (va_kind (vr_var st v)) (\<sigma> v) \<and>
        (\<forall>t. va_solution (vr_var st v) = Some t \<longrightarrow> \<sigma> v = den \<sigma> tab t))"

definition sem_tags :: "(nat \<Rightarrow> sty) \<Rightarrow> type_table \<Rightarrow> tags \<Rightarrow> (bytes \<times> sty list) list" where
  "sem_tags \<sigma> tab ts = map (map_prod id (map (den \<sigma> tab))) ts"

definition sem_rest :: "(nat \<Rightarrow> sty) \<Rightarrow> type_table \<Rightarrow> tags \<Rightarrow> ty_id option \<Rightarrow> sty" where
  "sem_rest \<sigma> tab ts tl' = sem_row (sem_tags \<sigma> tab ts) (map_option (den \<sigma> tab) tl')"

definition solves_goal :: "(nat \<Rightarrow> sty) \<Rightarrow> type_table \<Rightarrow> goal \<Rightarrow> bool" where
  "solves_goal \<sigma> tab g =
     (case g of
        G_Types a b \<Rightarrow> den \<sigma> tab a = den \<sigma> tab b
      | G_Rest ta tla tb tlb \<Rightarrow> sem_rest \<sigma> tab (only_in ta tb) tla = sem_rest \<sigma> tab (only_in tb ta) tlb
      | G_Fail \<Rightarrow> False)"

text \<open>No type of the table is an error or \<open>never\<close>, which unify with everything.\<close>

definition clean :: "type_table \<Rightarrow> bool" where
  "clean tab \<longleftrightarrow> TY_Error \<notin> set (tt_kinds tab) \<and> TY_Never \<notin> set (tt_kinds tab)"

lemma sat_leads:
  assumes "leads (map va_parent (vr_vars st)) v r" "sat \<sigma> tab st" "v < length (vr_vars st)" "vs_ok tab st"
  shows "\<sigma> v = \<sigma> r"
  using assms(1,3)
proof (induction rule: leads.induct)
  case (le_step i r)
  have "va_parent (vr_var st i) < length (vr_vars st)" using assms(4) le_step(4) by (auto simp: vs_ok_def)
  then show ?case using le_step assms(2) by (simp add: sat_def)
qed simp

lemma sat_find:
  assumes "sat \<sigma> tab st" "vs_ok tab st" "vr_find st v = Some r" "v < length (vr_vars st)"
  shows "\<sigma> v = \<sigma> r"
  using vr_find_ok [OF assms(2,4)] sat_leads [OF _ assms(1,4,2)] assms(3) by auto

lemma den_var: "tt_ok tab \<Longrightarrow> t < tt_len tab \<Longrightarrow> tt_kind tab t = TY_Var v \<Longrightarrow> den \<sigma> tab t = \<sigma> v"
  by (simp add: den_kind sem_kind_def)

lemma den_row: "tt_ok tab \<Longrightarrow> t < tt_len tab \<Longrightarrow> tt_kind tab t = TY_Row tags tl' \<Longrightarrow> den \<sigma> tab t = sem_rest \<sigma> tab tags tl'"
  by (simp add: den_kind sem_kind_def sem_rest_def sem_tags_def var_of_def)

lemma den_shallow:
  assumes "state_ok tab st" "sat \<sigma> tab st" "t < tt_len tab" "shallow tab st t = Some s"
  shows "den \<sigma> tab s = den \<sigma> tab t"
proof -
  have vs: "vs_ok tab st" and tok: "tt_ok tab" using assms(1) by (auto simp: state_ok_def)
  obtain s' where s': "shallow tab st t = Some s'"
    "s' = t \<or> (\<exists>v r. tt_kind tab t = TY_Var v \<and> vr_find st v = Some r \<and> va_solution (vr_var st r) = Some s')"
    using shallow_ok [OF vs assms(3)] by metis
  show ?thesis
  proof (cases "s = t")
    case False
    then obtain v r where v: "tt_kind tab t = TY_Var v" "vr_find st v = Some r" "va_solution (vr_var st r) = Some s"
      using s' assms(4) by auto
    have vl: "v < length (vr_vars st)" using vs v(1) assms(3) by (auto simp: vs_ok_def)
    then have "r < length (vr_vars st)" using vr_find_ok [OF vs vl] v(2) by auto
    then have "\<sigma> r = den \<sigma> tab s" using assms(2) v(3) unfolding sat_def by blast
    then show ?thesis using den_var [OF tok assms(3) v(1)] sat_find [OF assms(2) vs v(2) vl] by simp
  qed simp
qed

lemma sat_ext:
  assumes "ext tab tab'" "vs_ok tab st" shows "sat \<sigma> tab' st \<longleftrightarrow> sat \<sigma> tab st"
  using vs_ok_solution [OF assms(2)] den_ext [OF assms(1)] by (auto simp: sat_def)

lemma sat_shape:
  assumes "same_shape st st'" shows "sat \<sigma> tab st' \<longleftrightarrow> sat \<sigma> tab st"
  using same_shape_var [OF assms] same_shape_length [OF assms] by (auto simp: sat_def)

section \<open>Heads\<close>

lemma class_equal: "opaque_eq_of a b = OE_Equal \<longleftrightarrow> opaque_class a = opaque_class b"
proof
  assume a: "opaque_eq_of a b = OE_Equal"
  show "opaque_class a = opaque_class b"
  proof (cases "a = b")
    case False
    then obtain h xs ys where s: "split_opaque a = Some (h, xs)" "split_opaque b = Some (h, ys)" "length xs = length ys"
        "compare_args OE_Equal (zip xs ys) = OE_Equal"
      using a by (auto simp: opaque_eq_of_def split: option.splits if_splits)
    have "arg_class x = arg_class y" if "(x, y) \<in> set (zip xs ys)" for x y
      using compare_args_equal [OF s(4)] that by (auto simp: list_all_iff arg_class_def)
    then have "map arg_class xs = map arg_class ys"
      using s(3) by (auto simp: list_eq_iff_nth_eq set_zip)
    then show ?thesis by (simp add: opaque_class_def s)
  qed simp
next
  assume a: "opaque_class a = opaque_class b"
  show "opaque_eq_of a b = OE_Equal"
  proof (cases "a = b")
    case True
    then show ?thesis by (simp add: opaque_eq_of_def)
  next
    case False
    then obtain h xs ys where s: "split_opaque a = Some (h, xs)" "split_opaque b = Some (h, ys)" "map arg_class xs = map arg_class ys"
      using a by (auto simp: opaque_class_def split: option.splits)
    have "compare_args OE_Equal (zip xs ys) = OE_Equal"
      using s(3)
    proof (induction xs arbitrary: ys)
      case (Cons x xs)
      then obtain y ys' where y: "ys = y # ys'" "arg_class x = arg_class y" "map arg_class xs = map arg_class ys'"
        by (cases ys) auto
      have "x = y \<or> (\<exists>l. normalize x = Linear l \<and> normalize y = Linear l)"
        using y(2) by (auto simp: arg_class_def split: norm_form.splits)
      then show ?case using Cons.IH [OF y(3)] by (auto simp: y(1))
    qed simp
    then show ?thesis using s map_eq_imp_length_eq [OF s(3)] False by (simp add: opaque_eq_of_def)
  qed
qed

lemma opaque_rep_class: "opaque_class (opaque_rep s) = opaque_class s"
  unfolding opaque_rep_def by (rule someI [of _ s]) simp

lemma opaque_rep_eq: "opaque_rep a = opaque_rep b \<longleftrightarrow> opaque_eq_of a b = OE_Equal"
  unfolding class_equal using opaque_rep_class by (metis opaque_rep_def)

definition solves_all :: "(nat \<Rightarrow> sty) \<Rightarrow> type_table \<Rightarrow> goal list \<Rightarrow> bool" where
  "solves_all \<sigma> tab gs \<longleftrightarrow> (\<forall>g\<in>set gs. solves_goal \<sigma> tab g)"

lemma solves_all_simps [simp]:
  "solves_all \<sigma> tab []" "solves_all \<sigma> tab (g # gs) \<longleftrightarrow> solves_goal \<sigma> tab g \<and> solves_all \<sigma> tab gs"
  "solves_all \<sigma> tab (gs @ hs) \<longleftrightarrow> solves_all \<sigma> tab gs \<and> solves_all \<sigma> tab hs"
  "solves_goal \<sigma> tab (G_Types a b) \<longleftrightarrow> den \<sigma> tab a = den \<sigma> tab b" "\<not> solves_goal \<sigma> tab G_Fail"
  by (auto simp: solves_all_def solves_goal_def)

lemma solves_pairs:
  "length xs = length ys \<Longrightarrow> solves_all \<sigma> tab (pairs xs ys) \<longleftrightarrow> map (den \<sigma> tab) xs = map (den \<sigma> tab) ys"
  by (induction xs ys rule: list_induct2) auto

lemma structural_solves:
  assumes "structural ka kb = Inr gs" "var_of ka = None" "var_of kb = None"
  shows "solves_all \<sigma> tab gs \<longleftrightarrow> sem_kind \<sigma> (den \<sigma> tab) ka = sem_kind \<sigma> (den \<sigma> tab) kb"
  using assms(1)
proof (cases rule: structural_cases)
  case same
  from this assms show ?thesis
    by (cases rule: ty_kind.rel_cases) (auto simp: sem_kind_def row_of_def solves_pairs opaque_rep_eq var_of_def split: if_splits opaque_eq.splits)
qed (simp add: sem_kind_def row_of_def var_of_def opaque_rep_eq)

end
