(* ===== verification/Sema_Unify_Mgu.thy ===== *)
theory Sema_Unify_Mgu
  imports Sema_Unify_Sound
begin

text \<open>The steps of unification as equivalences of solutions, and the whole loop.\<close>

section \<open>Variables\<close>

lemma meet_admits: "nk_meet a b = Some c \<Longrightarrow> sem_admits c d \<longleftrightarrow> sem_admits a d \<and> sem_admits b d"
  by (cases a; cases b) (auto simp: nk_meet_def sem_admits_def kind_admits_def Let_def split: sty.splits)

lemma nth_upd: "i < length vars \<Longrightarrow> upd v f vars ! i = (if i = v then f (vars ! v) else vars ! i)"
  by (simp add: upd_def nth_list_update)

lemma unify_vars_solves:
  assumes "unify_vars va vb tab st = Some (Inr gs, tab', st')" "vs_ok tab st" "va < length (vr_vars st)" "vb < length (vr_vars st)"
  shows "tab' = tab" "gs = []" "sat \<sigma> tab st' \<longleftrightarrow> sat \<sigma> tab st \<and> \<sigma> va = \<sigma> vb"
proof -
  obtain ra where ra: "vr_find st va = Some ra" "ra < length (vr_vars st)" "va_parent (vr_var st ra) = ra"
    using vr_find_ok [OF assms(2,3)] by blast
  obtain rb where rb: "vr_find st vb = Some rb" "rb < length (vr_vars st)" "va_parent (vr_var st rb) = rb"
    using vr_find_ok [OF assms(2,4)] by blast
  have roots: "sat \<sigma> tab st \<Longrightarrow> \<sigma> va = \<sigma> ra \<and> \<sigma> vb = \<sigma> rb"
    using sat_find [OF _ assms(2) ra(1) assms(3)] sat_find [OF _ assms(2) rb(1) assms(4)] by blast
  have "tab' = tab \<and> gs = [] \<and> (sat \<sigma> tab st' \<longleftrightarrow> sat \<sigma> tab st \<and> \<sigma> va = \<sigma> vb)"
  proof (cases "ra = rb")
    case True
    then have "tab' = tab" "gs = []" "st' = st" using assms(1) by (auto simp: unify_vars_def ra(1) rb(1))
    then show ?thesis using roots True by auto
  next
    case False
    define root child where rc: "root = (if va_level (vr_var st ra) \<le> va_level (vr_var st rb) then ra else rb)"
      "child = (if va_level (vr_var st ra) \<le> va_level (vr_var st rb) then rb else ra)"
    have rcp: "(if va_level (vr_var st ra) \<le> va_level (vr_var st rb) then (ra, rb) else (rb, ra)) = (root, child)"
      by (simp add: rc)
    obtain m where m: "nk_meet (va_kind (vr_var st ra)) (va_kind (vr_var st rb)) = Some m"
        "tab' = tab" "gs = []"
        "st' = (if va_kind (vr_var (set_parent child root st) root) \<noteq> m then set_kind root m (set_parent child root st) else set_parent child root st)"
      using assms(1) False by (auto simp: unify_vars_def ra(1) rb(1) rcp Let_def split: option.splits)
    have rl: "root < length (vr_vars st)" "child < length (vr_vars st)" "root \<noteq> child" using ra rb False by (auto simp: rc)
    have kinds: "sem_admits m d \<longleftrightarrow> sem_admits (va_kind (vr_var st root)) d \<and> sem_admits (va_kind (vr_var st child)) d" for d
      using meet_admits [OF m(1), of d] by (auto simp: rc)
    have par: "va_parent (vr_var st root) = root" "va_parent (vr_var st child) = child" using ra rb by (auto simp: rc)
    have len: "length (vr_vars st') = length (vr_vars st)" by (auto simp: m(4) set_kind_def set_parent_def)
    have v: "va_parent (vr_var st' v) = (if v = child then root else va_parent (vr_var st v))"
      "va_solution (vr_var st' v) = va_solution (vr_var st v)"
      "va_kind (vr_var st' v) = (if v = root then m else va_kind (vr_var st v))" if "v < length (vr_vars st)" for v
      using that rl by (auto simp: m(4) set_kind_def set_parent_def nth_upd)
    have "sat \<sigma> tab st' \<longleftrightarrow> sat \<sigma> tab st \<and> \<sigma> root = \<sigma> child"
    proof
      assume s: "sat \<sigma> tab st'"
      then have eq: "\<sigma> child = \<sigma> root" using rl v(1) [of child] len unfolding sat_def by metis
      have ad: "sem_admits m (\<sigma> root)" using s rl(1) v(3) [of root] len unfolding sat_def by metis
      have "sat \<sigma> tab st"
        unfolding sat_def
      proof (intro allI impI conjI)
        fix i assume i: "i < length (vr_vars st)"
        show "\<sigma> i = \<sigma> (va_parent (vr_var st i))"
          using s i v(1) [OF i] len par(2) unfolding sat_def by (cases "i = child") auto
        show "sem_admits (va_kind (vr_var st i)) (\<sigma> i)"
          using s i v(3) [OF i] len kinds ad unfolding sat_def by (cases "i = root") auto
        show "\<sigma> i = den \<sigma> tab t" if "va_solution (vr_var st i) = Some t" for t
          using s i v(2) [OF i] len that unfolding sat_def by auto
      qed
      then show "sat \<sigma> tab st \<and> \<sigma> root = \<sigma> child" using eq by simp
    next
      assume s: "sat \<sigma> tab st \<and> \<sigma> root = \<sigma> child"
      show "sat \<sigma> tab st'"
        unfolding sat_def
      proof (intro allI impI conjI)
        fix i assume "i < length (vr_vars st')"
        then have i: "i < length (vr_vars st)" by (simp add: len)
        show "\<sigma> i = \<sigma> (va_parent (vr_var st' i))"
        proof (cases "i = child")
          case False
          then show ?thesis using s i v(1) [OF i] unfolding sat_def by metis
        qed (use s v(1) [OF i] in simp)
        show "sem_admits (va_kind (vr_var st' i)) (\<sigma> i)"
        proof (cases "i = root")
          case True
          have "sem_admits (va_kind (vr_var st root)) (\<sigma> root)" "sem_admits (va_kind (vr_var st child)) (\<sigma> root)"
            using s rl unfolding sat_def by metis+
          then show ?thesis using True v(3) [OF i] kinds by simp
        next
          case False
          then show ?thesis using s i v(3) [OF i] unfolding sat_def by metis
        qed
        show "\<sigma> i = den \<sigma> tab t" if "va_solution (vr_var st' i) = Some t" for t
          using s i v(2) [OF i] that unfolding sat_def by metis
      qed
    qed
    moreover have "\<sigma> root = \<sigma> child \<longleftrightarrow> \<sigma> ra = \<sigma> rb" by (auto simp: rc)
    ultimately show ?thesis using m(2,3) roots by auto
  qed
  then show "tab' = tab" "gs = []" "sat \<sigma> tab st' \<longleftrightarrow> sat \<sigma> tab st \<and> \<sigma> va = \<sigma> vb" by auto
qed

lemma clean_ext: "clean tab \<Longrightarrow> tt_intern k tab = (i, tab') \<Longrightarrow> k \<noteq> TY_Error \<Longrightarrow> k \<noteq> TY_Never \<Longrightarrow> clean tab'"
  by (auto simp: clean_def tt_intern_def Let_def split: option.splits)

lemma var_bind_solves:
  assumes "var_bind v t tab st = Some (Inr gs, tab', st')" "state_ok tab st" "v < length (vr_vars st)" "t < tt_len tab"
    and "var_of (tt_kind tab t) = None" "\<And>root. vr_find st v = Some root \<Longrightarrow> va_solution (vr_var st root) = None" "clean tab"
  shows "gs = []" "clean tab'" "sat \<sigma> tab' st' \<longleftrightarrow> sat \<sigma> tab st \<and> \<sigma> v = den \<sigma> tab t"
proof -
  have vs: "vs_ok tab st" using assms(2) by (simp add: state_ok_def)
  obtain root where root: "vr_find st v = Some root" "root < length (vr_vars st)" using vr_find_ok [OF vs assms(3)] by blast
  obtain i tab1 where i: "tt_intern (TY_Var root) tab = (i, tab1)" by (cases "tt_intern (TY_Var root) tab")
  have t1: "leads_to tab st tab1 st"
    using intern_to(1) [OF assms(2) _ _ i] root(2) by (auto simp: kids_def row_ok_def var_of_Some)
  then have e: "ext tab tab1" by (simp add: leads_to_def)
  have len: "tt_len tab \<le> tt_len tab1" "tt_kind tab1 t = tt_kind tab t"
    using e ext_len ext_kind assms(4) by auto
  have ka: "kind_admits (va_kind (vr_var st root)) (tt_kind tab t)"
    by (rule ccontr) (use assms(1) in \<open>simp add: var_bind_def root(1)\<close>)
  obtain p where p: "occurs_adjust tab1 root (va_level (vr_var st root)) [t] st = Some p"
      "(if fst p then Some (Inr [], tab1, set_solution root t (snd p)) else Some (Inl (UE_Occurs i t), tab1, snd p)) = Some (Inr gs, tab', st')"
    using assms(1) ka by (auto simp: var_bind_def root(1) i bind_eq_Some_conv simp del: if_split)
  define st1 where "st1 = snd p"
  have fp: "fst p" using p(2) by (cases "fst p") auto
  have o: "occurs_adjust tab1 root (va_level (vr_var st root)) [t] st = Some (True, st1)"
      "gs = []" "tab' = tab1" "st' = set_solution root t st1"
    using p fp by (cases p; auto simp: st1_def)+
  have o1: "leads_to tab1 st tab1 st1" "same_shape st st1"
    using occurs_step [OF o(1)] t1 assms(4) len by (auto simp: leads_to_def)
  show "gs = []" by (rule o(2))
  show "clean tab'" using clean_ext [OF assms(7) i] o(3) by simp
  have rl: "root < length (vr_vars st1)" using root(2) same_shape_length [OF o1(2)] by simp
  have none: "va_solution (vr_var st1 root) = None" using same_shape_var(3) [OF o1(2) root(2)] assms(6) [OF root(1)] by simp
  have "sat \<sigma> tab1 st' \<longleftrightarrow> sat \<sigma> tab1 st1 \<and> \<sigma> root = den \<sigma> tab1 t"
  proof -
    have v: "va_parent (vr_var st' j) = va_parent (vr_var st1 j)" "va_kind (vr_var st' j) = va_kind (vr_var st1 j)"
      "va_solution (vr_var st' j) = (if j = root then Some t else va_solution (vr_var st1 j))" if "j < length (vr_vars st1)" for j
      using that rl by (auto simp: o(4) set_solution_def nth_upd)
    have l: "length (vr_vars st') = length (vr_vars st1)" by (simp add: o(4) set_solution_def)
    have "(\<forall>j<length (vr_vars st1). \<forall>u. va_solution (vr_var st' j) = Some u \<longrightarrow> \<sigma> j = den \<sigma> tab1 u) \<longleftrightarrow>
        (\<forall>j<length (vr_vars st1). \<forall>u. va_solution (vr_var st1 j) = Some u \<longrightarrow> \<sigma> j = den \<sigma> tab1 u) \<and> \<sigma> root = den \<sigma> tab1 t"
      using v(3) rl none by (metis option.distinct(1) option.inject)
    then show ?thesis unfolding sat_def l using v(1,2) by auto
  qed
  also have "\<dots> \<longleftrightarrow> sat \<sigma> tab st \<and> \<sigma> v = den \<sigma> tab t"
    using sat_shape [OF o1(2)] sat_ext [OF e vs] den_ext [OF e assms(4)] sat_find [OF _ vs root(1) assms(3)] by metis
  finally show "sat \<sigma> tab' st' \<longleftrightarrow> sat \<sigma> tab st \<and> \<sigma> v = den \<sigma> tab t" by (simp add: o(3))
qed

end
