(* ===== verification/Sema_Unify_Rows.thy ===== *)
theory Sema_Unify_Rows
  imports Sema_Unify_Mgu
begin

text \<open>Rows as solutions: what the tags two rows share and what is left of them say about the rows.\<close>

section \<open>Rows as trees\<close>

definition left_of :: "(bytes \<times> 'a) list \<Rightarrow> (bytes \<times> 'b) list \<Rightarrow> (bytes \<times> 'a) list" where
  "left_of as bs = filter (\<lambda>(n, _). n \<notin> fst ` set bs) as"

definition same_payloads :: "(bytes \<times> 'a) list \<Rightarrow> (bytes \<times> 'a) list \<Rightarrow> bool" where
  "same_payloads as bs \<longleftrightarrow> (\<forall>n p q. map_of as n = Some p \<longrightarrow> map_of bs n = Some q \<longrightarrow> p = q)"

lemma left_of_map: "map_of (left_of as bs) n = (if n \<in> fst ` set bs then None else map_of as n)"
proof (induction as)
  case (Cons a as)
  obtain m p where a: "a = (m, p)" by (cases a)
  show ?case
    using Cons by (cases "m \<in> fst ` set bs"; cases "n = m") (simp_all add: left_of_def a del: image_iff)
qed (simp add: left_of_def)

lemma left_of_Nil [simp]: "left_of [] bs = []" "left_of as [] = as"
  by (auto simp: left_of_def)

lemma rows_equal:
  assumes "same_payloads as bs" "sem_row (left_of as bs) t = sem_row (left_of bs as) u"
  shows "sem_row as t = sem_row bs u"
proof (cases "as = [] \<or> bs = []")
  case True
  then show ?thesis using assms(2) by (auto simp: left_of_def)
next
  case False
  have p: "fst (tail_parts t) ++ map_of (left_of as bs) = fst (tail_parts u) ++ map_of (left_of bs as)"
    "snd (tail_parts t) = snd (tail_parts u)"
    using arg_cong [OF assms(2), of row_parts] by (auto simp: sem_row_parts)
  have "(fst (tail_parts t) ++ map_of as) n = (fst (tail_parts u) ++ map_of bs) n" for n
  proof -
    have n: "(fst (tail_parts t) ++ map_of (left_of as bs)) n = (fst (tail_parts u) ++ map_of (left_of bs as)) n" using p(1) by simp
    have a: "n \<in> fst ` set as \<longleftrightarrow> map_of as n \<noteq> None" "n \<in> fst ` set bs \<longleftrightarrow> map_of bs n \<noteq> None"
      by (auto simp: map_of_eq_None_iff)
    show ?thesis
      using n a assms(1) by (cases "map_of as n"; cases "map_of bs n") (auto simp: left_of_map map_add_def same_payloads_def)
  qed
  then show ?thesis using False p(2) by (intro sem_row_eqI) auto
qed

text \<open>Rows in canonical form, whose tail has none of their tags.\<close>

definition proper :: "sty \<Rightarrow> bool" where
  "proper d \<longleftrightarrow>
     (case d of Ty k \<Rightarrow> (case row_of k of
        None \<Rightarrow> True
      | Some (us, tl') \<Rightarrow> sorted_wrt (<) (map fst us) \<and> (us = [] \<longrightarrow> tl' = None)))"

definition lacks :: "(bytes \<times> 'a) list \<Rightarrow> sty option \<Rightarrow> bool" where
  "lacks as t \<longleftrightarrow> (\<forall>n\<in>fst ` set as. fst (tail_parts t) n = None)"

lemma proper_row: "proper (Ty (TY_Row us tl')) \<longleftrightarrow> sorted_wrt (<) (map fst us) \<and> (us = [] \<longrightarrow> tl' = None)"
  by (simp add: proper_def)

lemma proper_ext:
  assumes "proper d" "proper e" "row_parts d = row_parts e" shows "d = e"
proof -
  obtain k l where dk: "d = Ty k" "e = Ty l" by (cases d; cases e)
  show ?thesis
  proof (cases "row_of k"; cases "row_of l")
    fix r s assume r: "row_of k = Some r" and s: "row_of l = Some s"
    obtain us t ws u where u: "r = (us, t)" "s = (ws, u)" by (cases r; cases s)
    then have kl: "k = TY_Row us t" "l = TY_Row ws u" using r s by (simp_all add: row_of_Some)
    have "us = ws" using assms by (intro bt_same_map) (auto simp: dk kl proper_row bt_ok_def)
    then show ?thesis using assms(3) by (simp add: dk kl)
  next
    fix r assume r: "row_of k = Some r" and s: "row_of l = None"
    obtain us t where u: "r = (us, t)" by (cases r)
    then have k: "k = TY_Row us t" using r by (simp add: row_of_Some)
    have "map_of us = Map.empty" "t = Some e" using assms(3) s by (auto simp: dk k)
    then show ?thesis using assms(1) by (auto simp: dk k proper_row map_of_eq_empty_iff)
  next
    fix s assume r: "row_of k = None" and s: "row_of l = Some s"
    obtain us t where u: "s = (us, t)" by (cases s)
    then have l: "l = TY_Row us t" using s by (simp add: row_of_Some)
    have "map_of us = Map.empty" "t = Some d" using assms(3) r by (auto simp: dk l)
    then show ?thesis using assms(2) by (auto simp: dk l proper_row map_of_eq_empty_iff)
  qed (use assms(3) dk in auto)
qed

lemma proper_sem_row: "(\<And>d. t = Some d \<Longrightarrow> proper d) \<Longrightarrow> proper (sem_row as t)"
proof (cases "as = []")
  case True
  then show "(\<And>d. t = Some d \<Longrightarrow> proper d) \<Longrightarrow> ?thesis" by (cases t) (auto simp: sem_row_empty proper_row)
next
  case False
  then have "canon_tags (as @ bs) \<noteq> []" for bs by (simp add: canon_empty)
  then show ?thesis by (simp add: sem_row_nonempty [OF False] proper_row canon_strict)
qed

lemma rows_split:
  assumes "sem_row as t = sem_row bs u" "lacks as t" "lacks bs u"
    and "\<And>d. t = Some d \<Longrightarrow> proper d" "\<And>d. u = Some d \<Longrightarrow> proper d"
  shows "same_payloads as bs" "sem_row (left_of as bs) t = sem_row (left_of bs as) u"
proof -
  have p: "fst (tail_parts t) ++ map_of as = fst (tail_parts u) ++ map_of bs" "snd (tail_parts t) = snd (tail_parts u)"
    using arg_cong [OF assms(1), of row_parts] by (auto simp: sem_row_parts)
  have n: "(fst (tail_parts t) ++ map_of as) n = (fst (tail_parts u) ++ map_of bs) n" for n using p(1) by simp
  show "same_payloads as bs"
    unfolding same_payloads_def
  proof (intro allI impI)
    fix m p q assume "map_of as m = Some p" "map_of bs m = Some q"
    then show "p = q" using n [of m] by (simp add: map_add_def)
  qed
  have "(fst (tail_parts t) ++ map_of (left_of as bs)) n = (fst (tail_parts u) ++ map_of (left_of bs as)) n" for n
  proof -
    have a: "n \<in> fst ` set as \<longleftrightarrow> map_of as n \<noteq> None" "n \<in> fst ` set bs \<longleftrightarrow> map_of bs n \<noteq> None"
      by (auto simp: map_of_eq_None_iff)
    have l: "map_of as n \<noteq> None \<Longrightarrow> fst (tail_parts t) n = None" "map_of bs n \<noteq> None \<Longrightarrow> fst (tail_parts u) n = None"
      using assms(2,3) a by (metis lacks_def)+
    show ?thesis
      using n [of n] a l by (cases "map_of as n"; cases "map_of bs n") (auto simp: left_of_map map_add_def)
  qed
  then have "row_parts (sem_row (left_of as bs) t) = row_parts (sem_row (left_of bs as) u)"
    using p(2) by (auto simp: sem_row_parts)
  then show "sem_row (left_of as bs) t = sem_row (left_of bs as) u"
    using assms(4,5) by (intro proper_ext proper_sem_row)
qed

section \<open>Rows of the table\<close>

lemma sem_tags_map: "map_of (sem_tags \<sigma> tab ts) n = map_option (map (den \<sigma> tab)) (map_of ts n)"
  by (induction ts) (auto simp: sem_tags_def)

lemma sem_tags_keys: "fst ` set (sem_tags \<sigma> tab ts) = fst ` set ts"
  by (force simp: sem_tags_def)

lemma only_in_sem: "sem_tags \<sigma> tab (only_in ta tb) = left_of (sem_tags \<sigma> tab ta) (sem_tags \<sigma> tab tb)"
  unfolding only_in_def left_of_def sem_tags_keys
  by (simp add: sem_tags_def filter_map comp_def split_def)

lemma sem_tags_ext: "ext tab tab' \<Longrightarrow> row_kids (tt_len tab) ts tl' \<Longrightarrow> sem_tags \<sigma> tab' ts = sem_tags \<sigma> tab ts"
  by (force simp: sem_tags_def row_kids_simps den_ext)

lemma sem_rest_ext:
  assumes "ext tab tab'" "row_kids (tt_len tab) ts tl'" shows "sem_rest \<sigma> tab' ts tl' = sem_rest \<sigma> tab ts tl'"
proof -
  have "map_option (den \<sigma> tab') tl' = map_option (den \<sigma> tab) tl'"
    using assms den_ext by (cases tl') (auto simp: row_kids_simps)
  then show ?thesis using sem_tags_ext [OF assms] by (simp add: sem_rest_def)
qed

lemma sem_tags_canon: "sem_tags \<sigma> tab (canon_tags ts) = canon_tags (sem_tags \<sigma> tab ts)"
proof -
  have "sorted_wrt (<) (map fst (sem_tags \<sigma> tab (canon_tags ts)))"
    using canon_strict [of ts] by (simp add: sem_tags_def o_def)
  then have "sem_tags \<sigma> tab (canon_tags ts) = canon_tags (sem_tags \<sigma> tab (canon_tags ts))" by (simp add: canon_id)
  also have "\<dots> = canon_tags (sem_tags \<sigma> tab ts)" by (intro canon_eq) (auto simp: sem_tags_map canon_map_of)
  finally show ?thesis .
qed

lemma tt_row_den:
  assumes "state_ok tab st" "row_kids (tt_len tab) tags tl'" "tt_row tags tl' tab = (i, tab')"
  shows "den \<sigma> tab' i = sem_rest \<sigma> tab tags tl'"
proof -
  note r = tt_row_to [OF assms]
  have ok: "tt_ok tab'" and e: "ext tab tab'" using r(1) by (auto simp: leads_to_def state_ok_def)
  have "den \<sigma> tab' i = sem_rest \<sigma> tab' (canon_tags tags) tl'" by (rule den_row [OF ok r(2,3)])
  also have "\<dots> = sem_rest \<sigma> tab' tags tl'" by (simp add: sem_rest_def sem_tags_canon)
  finally show ?thesis using sem_rest_ext [OF e assms(2)] by simp
qed

lemma tt_row_clean: "clean tab \<Longrightarrow> tt_row tags tl' tab = (i, tab') \<Longrightarrow> clean tab'"
  using clean_ext by (auto simp: tt_row_def)

text \<open>The steps on rows change no variable.\<close>

lemma sem_rest_Nil: "sem_rest \<sigma> tab [] (Some x) = den \<sigma> tab x" "sem_rest \<sigma> tab [] None = Ty (TY_Row [] None)"
  by (simp_all add: sem_rest_def sem_tags_def sem_row_empty)

lemma unify_rest_solves:
  assumes "unify_rest ta tla tb tlb tab st = (Inr gs, tab', st')" "state_ok tab st" "goal_ok (tt_len tab) (G_Rest ta tla tb tlb)" "clean tab"
  shows "st' = st" "clean tab'" "ext tab tab'" "solves_all \<sigma> tab' gs \<longleftrightarrow> solves_goal \<sigma> tab (G_Rest ta tla tb tlb)"
proof -
  obtain e tab1 where e: "tt_empty_row tab = (e, tab1)" by (cases "tt_empty_row tab")
  note r = empty_row_to [OF assms(2) e]
  have so: "state_ok tab1 st" and len: "tt_len tab \<le> tt_len tab1" and e1: "ext tab tab1" using r(1) ext_len by (auto simp: leads_to_def)
  have c1: "clean tab1" using clean_ext [OF assms(4)] e by (simp add: tt_empty_row_def)
  have k: "row_kids (tt_len tab) ta tla" "row_kids (tt_len tab) tb tlb" using assms(3) by (auto simp: goal_rest_ok)
  have tails: "\<forall>t\<in>set_option tla. t < tt_len tab" "\<forall>t\<in>set_option tlb. t < tt_len tab" using k by (auto simp: row_kids_simps)
  have ka: "row_kids (tt_len tab) (only_in ta tb) tla" by (rule row_kids_sub [OF k(1) only_in_sub tails(1)])
  have kb: "row_kids (tt_len tab) (only_in tb ta) tlb" by (rule row_kids_sub [OF k(2) only_in_sub tails(2)])
  have de: "den \<sigma> tab1 e = Ty (TY_Row [] None)"
    using den_row [of tab1 e "[]" None \<sigma>] r(2,3) so by (simp add: state_ok_def sem_rest_Nil)
  have d1: "den \<sigma> tab1 t = den \<sigma> tab t" if "t < tt_len tab" for t using den_ext [OF e1 that] .
  have absorb: "st2 = st \<and> clean tab2 \<and> ext tab tab2 \<and> (solves_all \<sigma> tab2 [G_Types t i] \<longleftrightarrow> den \<sigma> tab t = sem_rest \<sigma> tab us tl1)"
    if "row_kids (tt_len tab) us tl1" "t < tt_len tab" "tt_row us tl1 tab1 = (i, tab2)" "st2 = st" for us tl1 t i tab2 st2
  proof -
    have k1: "row_kids (tt_len tab1) us tl1" using row_kids_mono [OF that(1) len] .
    have e2: "ext tab1 tab2" using tt_row_to(1) [OF so k1 that(3)] by (simp add: leads_to_def)
    have "den \<sigma> tab2 i = sem_rest \<sigma> tab us tl1"
      using tt_row_den [OF so k1 that(3)] sem_rest_ext [OF e1 that(1)] by simp
    moreover have "den \<sigma> tab2 t = den \<sigma> tab t" using den_ext [OF ext_trans [OF e1 e2] that(2)] .
    ultimately show ?thesis using tt_row_clean [OF c1 that(3)] ext_trans [OF e1 e2] that(4) by simp
  qed
  have "st' = st \<and> clean tab' \<and> ext tab tab' \<and> (solves_all \<sigma> tab' gs \<longleftrightarrow> solves_goal \<sigma> tab (G_Rest ta tla tb tlb))"
  proof (cases "only_in ta tb = []")
    case oa: True
    show ?thesis
    proof (cases "only_in tb ta = []")
      case True
      then show ?thesis using assms(1) oa e tails c1 e1 de d1
        by (cases tla; cases tlb) (auto simp: unify_rest_def solves_goal_def sem_rest_Nil)
    next
      case False
      then obtain t i where t: "tla = Some t" "tt_row (only_in tb ta) tlb tab1 = (i, tab')" "gs = [G_Types t i]" "st' = st"
        using assms(1) oa e by (cases tla) (auto simp: unify_rest_def split: prod.splits)
      then show ?thesis using absorb [OF kb _ t(2) t(4)] tails(1) oa by (simp add: solves_goal_def sem_rest_Nil)
    qed
  next
    case oa: False
    then have ob: "only_in tb ta = []" using assms(1) e by (auto simp: unify_rest_def split: prod.splits if_splits)
    then obtain t i where t: "tlb = Some t" "tt_row (only_in ta tb) tla tab1 = (i, tab')" "gs = [G_Types t i]" "st' = st"
      using assms(1) oa e by (cases tlb) (auto simp: unify_rest_def split: prod.splits)
    then show ?thesis using absorb [OF ka _ t(2) t(4)] tails(2) ob by (auto simp: solves_goal_def sem_rest_Nil)
  qed
  then show "st' = st" "clean tab'" "ext tab tab'" "solves_all \<sigma> tab' gs \<longleftrightarrow> solves_goal \<sigma> tab (G_Rest ta tla tb tlb)" by auto
qed

end
