(* ===== verification/Sema_Unify_Clear.thy ===== *)
theory Sema_Unify_Clear
  imports Sema_Unify_Rows
begin

text \<open>
  Solutions in canonical form (\<open>fitting\<close>): no tag of a row of the table is in what the solution gives its tail.
  Interning keeps this, and under it the steps on rows lose no solution.
\<close>

definition row_clear :: "(nat \<Rightarrow> sty) \<Rightarrow> type_table \<Rightarrow> tags \<Rightarrow> ty_id option \<Rightarrow> bool" where
  "row_clear \<sigma> tab ts tl' \<longleftrightarrow> lacks (sem_tags \<sigma> tab ts) (map_option (den \<sigma> tab) tl')"

definition clear :: "(nat \<Rightarrow> sty) \<Rightarrow> type_table \<Rightarrow> bool" where
  "clear \<sigma> tab \<longleftrightarrow> (\<forall>i<tt_len tab. \<forall>ts tl'. tt_kind tab i = TY_Row ts tl' \<longrightarrow> row_clear \<sigma> tab ts tl')"

definition fitting :: "(nat \<Rightarrow> sty) \<Rightarrow> type_table \<Rightarrow> bool" where
  "fitting \<sigma> tab \<longleftrightarrow> (\<forall>v. proper (\<sigma> v)) \<and> clear \<sigma> tab"

definition goal_clear :: "(nat \<Rightarrow> sty) \<Rightarrow> type_table \<Rightarrow> goal \<Rightarrow> bool" where
  "goal_clear \<sigma> tab g = (case g of G_Rest ta tla tb tlb \<Rightarrow> row_clear \<sigma> tab ta tla \<and> row_clear \<sigma> tab tb tlb | _ \<Rightarrow> True)"

lemma goal_clear_simps [simp]:
  "goal_clear \<sigma> tab (G_Types a b)" "goal_clear \<sigma> tab G_Fail"
  "goal_clear \<sigma> tab (G_Rest ta tla tb tlb) \<longleftrightarrow> row_clear \<sigma> tab ta tla \<and> row_clear \<sigma> tab tb tlb"
  by (simp_all add: goal_clear_def)

lemma lacks_keys: "lacks as t \<Longrightarrow> fst ` set bs \<subseteq> fst ` set as \<Longrightarrow> lacks bs t"
  unfolding lacks_def by (rule ballI, drule (1) subsetD, erule (1) bspec)

lemma row_clear_sub:
  assumes "row_clear \<sigma> tab ts tl'" "set us \<subseteq> set ts" shows "row_clear \<sigma> tab us tl'"
proof -
  have "fst ` set (sem_tags \<sigma> tab us) \<subseteq> fst ` set (sem_tags \<sigma> tab ts)" unfolding sem_tags_keys using assms(2) by (rule image_mono)
  from lacks_keys [OF assms(1) [unfolded row_clear_def] this] show ?thesis unfolding row_clear_def .
qed

lemma row_clear_Nil [simp]: "row_clear \<sigma> tab [] tl'"
  by (simp add: row_clear_def lacks_def sem_tags_def)

lemma row_clear_tail: "row_clear \<sigma> tab ts tl1 \<Longrightarrow> map_option (den \<sigma> tab) tl1 = map_option (den \<sigma> tab) tl2 \<Longrightarrow> row_clear \<sigma> tab ts tl2"
  by (simp add: row_clear_def)

text \<open>A row whose tail is a row is clear with the tags of both.\<close>

lemma row_clear_append:
  assumes "row_clear \<sigma> tab ts (Some t)" "row_clear \<sigma> tab us tl'" "den \<sigma> tab t = sem_rest \<sigma> tab us tl'"
  shows "row_clear \<sigma> tab (ts @ us) tl'"
proof -
  have "tail_parts (Some (den \<sigma> tab t)) = (fst (tail_parts (map_option (den \<sigma> tab) tl')) ++ map_of (sem_tags \<sigma> tab us), snd (tail_parts (map_option (den \<sigma> tab) tl')))"
    unfolding assms(3) sem_rest_def by (simp add: tail_parts_def [of "Some _"] sem_row_parts)
  then have "lacks (sem_tags \<sigma> tab ts) (map_option (den \<sigma> tab) tl')"
    using assms(1) by (auto simp: row_clear_def lacks_def)
  then show ?thesis using assms(2) by (auto simp: row_clear_def lacks_def sem_tags_def)
qed

lemma row_clear_ext:
  assumes "ext tab tab'" "row_kids (tt_len tab) ts tl'" shows "row_clear \<sigma> tab' ts tl' = row_clear \<sigma> tab ts tl'"
proof -
  have "map_option (den \<sigma> tab') tl' = map_option (den \<sigma> tab) tl'"
    using assms den_ext by (cases tl') (auto simp: row_kids_simps)
  then show ?thesis using sem_tags_ext [OF assms] by (simp add: row_clear_def)
qed

lemma clear_row: "clear \<sigma> tab \<Longrightarrow> i < tt_len tab \<Longrightarrow> tt_kind tab i = TY_Row ts tl' \<Longrightarrow> row_clear \<sigma> tab ts tl'"
  by (simp add: clear_def)

lemma fitting_ext:
  assumes "fitting \<sigma> tab" "tt_ok tab'" "ext tab tab'"
    and "\<And>i ts tl'. i < tt_len tab' \<Longrightarrow> tt_len tab \<le> i \<Longrightarrow> tt_kind tab' i = TY_Row ts tl' \<Longrightarrow> row_clear \<sigma> tab' ts tl'"
    and "tt_ok tab"
  shows "fitting \<sigma> tab'"
  unfolding fitting_def clear_def
proof (intro conjI allI impI)
  show "proper (\<sigma> v)" for v using assms(1) by (simp add: fitting_def)
  fix i ts tl' assume i: "i < tt_len tab'" "tt_kind tab' i = TY_Row ts tl'"
  show "row_clear \<sigma> tab' ts tl'"
  proof (cases "i < tt_len tab")
    case True
    then have k: "tt_kind tab i = TY_Row ts tl'" using ext_kind [OF assms(3) True] i(2) by simp
    have "t < tt_len tab" if "t \<in> kids (TY_Row ts tl')" for t
      using tt_ok_kids [OF assms(5) True, of t] that k True by simp
    then have "row_kids (tt_len tab) ts tl'" by (simp add: row_kids_def)
    then show ?thesis using row_clear_ext [OF assms(3)] clear_row [OF _ True k] assms(1) by (simp add: fitting_def)
  qed (use assms(4) i in simp)
qed

lemma intern_new:
  "tt_intern k tab = (i, tab') \<Longrightarrow> j < tt_len tab' \<Longrightarrow> tt_len tab \<le> j \<Longrightarrow> tt_kind tab' j = k"
  by (auto simp: tt_intern_def tt_len_def tt_kind_def Let_def nth_append less_Suc_eq split: option.splits)

lemma tt_row_fitting:
  assumes "fitting \<sigma> tab" "state_ok tab st" "row_kids (tt_len tab) ts tl'" "tt_row ts tl' tab = (i, tab')" "row_clear \<sigma> tab ts tl'"
  shows "fitting \<sigma> tab'"
proof -
  have l: "leads_to tab st tab' st" by (rule tt_row_to [OF assms(2-4)])
  then have e: "tt_ok tab" "tt_ok tab'" "ext tab tab'" using assms(2) by (auto simp: leads_to_def state_ok_def)
  show ?thesis
  proof (rule fitting_ext [OF assms(1) e(2,3) _ e(1)])
    fix j us tl1 assume j: "j < tt_len tab'" "tt_len tab \<le> j" "tt_kind tab' j = TY_Row us tl1"
    then have "us = canon_tags ts" "tl1 = tl'" using intern_new [of "TY_Row (canon_tags ts) tl'" tab] assms(4) by (auto simp: tt_row_def)
    then show "row_clear \<sigma> tab' us tl1"
      using row_clear_sub [OF assms(5) canon_sub] row_clear_ext [OF e(3) row_kids_sub [OF assms(3) canon_sub]] assms(3)
      by (auto simp: row_kids_simps)
  qed
qed

lemma intern_fitting:
  assumes "fitting \<sigma> tab" "tt_ok tab" "tt_ok tab'" "ext tab tab'" "tt_intern k tab = (i, tab')" "row_of k = None \<or> k = TY_Row [] None"
  shows "fitting \<sigma> tab'"
  using assms(6) intern_new [OF assms(5)] by (intro fitting_ext [OF assms(1,3,4) _ assms(2)]) auto

lemma sem_kind_no_row:
  assumes "row_of k = None" "var_of k = None" shows "proper (sem_kind \<sigma> V k)"
proof -
  have "row_of (map_ty_kind V k) = None" using assms(1) by (cases k) (auto simp: row_of_def)
  then have "proper (Ty (map_ty_kind V k))" by (simp add: proper_def)
  moreover have "proper (Ty (TY_Unsupported s))" for s by (simp add: proper_def row_of_def)
  ultimately show ?thesis using assms by (cases k) (auto simp: sem_kind_def row_of_def var_of_def)
qed

lemma proper_den:
  assumes "tt_ok tab" "\<forall>v. proper (\<sigma> v)" shows "t < tt_len tab \<Longrightarrow> proper (den \<sigma> tab t)"
proof (induction t rule: less_induct)
  case (less t)
  show ?case
  proof (cases "row_of (tt_kind tab t)")
    case None
    then show ?thesis
      using sem_kind_no_row [OF None] den_kind [OF assms(1) less(2), of \<sigma>] assms(2)
      by (cases "var_of (tt_kind tab t)") (auto simp: sem_kind_def)
  next
    case (Some r)
    obtain ts tl' where k: "tt_kind tab t = TY_Row ts tl'" using Some by (cases r) (auto simp: row_of_Some)
    have "proper d" if "map_option (den \<sigma> tab) tl' = Some d" for d
    proof -
      obtain u where u: "tl' = Some u" "d = den \<sigma> tab u" using \<open>map_option (den \<sigma> tab) tl' = Some d\<close> by (cases tl') auto
      have "u < t" using tt_ok_kids [OF assms(1) less(2), of u] by (simp add: k u kids_def)
      then show ?thesis using less u(2) by simp
    qed
    then have "proper (sem_row (sem_tags \<sigma> tab ts) (map_option (den \<sigma> tab) tl'))" by (rule proper_sem_row)
    then show ?thesis using den_row [OF assms(1) less(2) k, of \<sigma>] by (simp add: sem_rest_def)
  qed
qed

end
