(* ===== verification/Sema_Unify_Rows_Step.thy ===== *)
theory Sema_Unify_Rows_Step
  imports Sema_Unify_Clear
begin

text \<open>One step of unification on two rows, and one on any two types, as equivalences of solutions.\<close>

section \<open>What a step does to the solutions\<close>

text \<open>Every solution after the step is one before that solves the goal; every fitting one of these is kept.\<close>

definition step_solves :: "goal \<Rightarrow> type_table \<Rightarrow> var_store \<Rightarrow> goal list \<Rightarrow> type_table \<Rightarrow> var_store \<Rightarrow> bool" where
  "step_solves g tab st gs tab' st' \<longleftrightarrow>
     clean tab' \<and>
     (\<forall>\<sigma>. sat \<sigma> tab' st' \<longrightarrow> solves_all \<sigma> tab' gs \<longrightarrow> sat \<sigma> tab st \<and> solves_goal \<sigma> tab g) \<and>
     (\<forall>\<sigma>. sat \<sigma> tab st \<longrightarrow> solves_goal \<sigma> tab g \<longrightarrow> fitting \<sigma> tab \<longrightarrow> goal_clear \<sigma> tab g \<longrightarrow>
        sat \<sigma> tab' st' \<and> solves_all \<sigma> tab' gs \<and> fitting \<sigma> tab' \<and> (\<forall>h\<in>set gs. goal_clear \<sigma> tab' h))"

lemma goal_ext:
  assumes "ext tab tab'" "goal_ok (tt_len tab) g"
  shows "solves_goal \<sigma> tab' g = solves_goal \<sigma> tab g" "goal_clear \<sigma> tab' g = goal_clear \<sigma> tab g"
proof -
  have "solves_goal \<sigma> tab' g = solves_goal \<sigma> tab g \<and> goal_clear \<sigma> tab' g = goal_clear \<sigma> tab g"
  proof (cases g)
    case (G_Rest ta tla tb tlb)
    then have k: "row_kids (tt_len tab) ta tla" "row_kids (tt_len tab) tb tlb" using assms(2) by (auto simp: goal_rest_ok)
    have "row_kids (tt_len tab) (only_in ta tb) tla" "row_kids (tt_len tab) (only_in tb ta) tlb"
      using row_kids_sub [OF k(1) only_in_sub, of tla] row_kids_sub [OF k(2) only_in_sub, of tlb] k by (auto simp: row_kids_simps)
    then show ?thesis using sem_rest_ext [OF assms(1)] row_clear_ext [OF assms(1) k(1)] row_clear_ext [OF assms(1) k(2)] G_Rest
      by (simp add: solves_goal_def)
  qed (use assms den_ext [OF assms(1)] in \<open>auto simp: goal_ok_def\<close>)
  then show "solves_goal \<sigma> tab' g = solves_goal \<sigma> tab g" "goal_clear \<sigma> tab' g = goal_clear \<sigma> tab g" by auto
qed

section \<open>Shared tags\<close>

lemma map_of_distinct: "n \<notin> fst ` set ts \<Longrightarrow> map_of ts n = None"
  by (simp add: map_of_eq_None_iff)

lemma same_payloads_Cons:
  assumes "n \<notin> fst ` set as"
  shows "same_payloads ((n, p) # as) bs \<longleftrightarrow> (\<forall>q. map_of bs n = Some q \<longrightarrow> p = q) \<and> same_payloads as bs"
  using map_of_distinct [OF assms] by (auto simp: same_payloads_def) (metis option.distinct(1))

lemma shared_payloads_solves:
  "distinct (map fst ta) \<Longrightarrow>
     solves_all \<sigma> tab (shared_payloads ta tb) \<longleftrightarrow> same_payloads (sem_tags \<sigma> tab ta) (sem_tags \<sigma> tab tb)"
proof (induction ta tb rule: shared_payloads.induct)
  case (1 tb)
  then show ?case by (simp add: same_payloads_def sem_tags_def)
next
  case (2 n pa ta tb)
  have n: "n \<notin> fst ` set (sem_tags \<sigma> tab ta)" unfolding sem_tags_keys using 2(3) by simp
  have c: "sem_tags \<sigma> tab ((n, pa) # ta) = (n, map (den \<sigma> tab) pa) # sem_tags \<sigma> tab ta" by (simp add: sem_tags_def)
  show ?case
  proof (cases "map_of tb n")
    case None
    then show ?thesis using 2 same_payloads_Cons [OF n] by (simp add: c sem_tags_map)
  next
    case (Some pb)
    have d: "distinct (map fst ta)" using 2(3) by simp
    show ?thesis
    proof (cases "length pa = length pb")
      case True
      then show ?thesis using 2(2) [OF Some _ d] Some same_payloads_Cons [OF n] by (simp add: c sem_tags_map solves_pairs)
    next
      case False
      then have "map (den \<sigma> tab) pa \<noteq> map (den \<sigma> tab) pb" using map_eq_imp_length_eq by blast
      then show ?thesis using Some False same_payloads_Cons [OF n] by (simp add: c sem_tags_map)
    qed
  qed
qed

lemma shared_payloads_clear: "h \<in> set (shared_payloads ta tb) \<Longrightarrow> goal_clear \<sigma> tab h"
  by (induction ta tb rule: shared_payloads.induct) (auto split: option.splits if_splits)

lemma shallow_tail_den:
  assumes "state_ok tab st" "sat \<sigma> tab st" "\<forall>t\<in>set_option tl'. t < tt_len tab" "shallow_tail tab st tl' = Some x"
  shows "map_option (den \<sigma> tab) x = map_option (den \<sigma> tab) tl'"
  using assms den_shallow [OF assms(1,2)] by (cases tl') (auto simp: shallow_tail_def)

lemma tail_row_den:
  assumes "tt_ok tab" "\<forall>t\<in>set_option tl'. t < tt_len tab" "tail_row tab tl' = Some (us, y)"
  obtains t where "tl' = Some t" "tt_kind tab t = TY_Row us y" "t < tt_len tab" "\<And>\<sigma>. den \<sigma> tab t = sem_rest \<sigma> tab us y"
proof -
  obtain t where t: "tl' = Some t" "tt_kind tab t = TY_Row us y"
    using assms(3) by (auto simp: tail_row_def row_of_Some bind_eq_Some_conv)
  then show thesis using that [of t] den_row [OF assms(1) _ t(2)] assms(2) by simp
qed

text \<open>A row in the tail of one of the rows.\<close>

lemma fold_solves:
  assumes "state_ok tab st" "clean tab" "row_kids (tt_len tab) us tl1" "row_kids (tt_len tab) ws tl2"
    and "tt_row us tl1 tab = (i, tab1)" "tt_row ws tl2 tab1 = (j, tab2)"
  shows "ext tab tab2" "clean tab2" "den \<sigma> tab2 i = sem_rest \<sigma> tab us tl1" "den \<sigma> tab2 j = sem_rest \<sigma> tab ws tl2"
    "fitting \<sigma> tab \<Longrightarrow> row_clear \<sigma> tab us tl1 \<Longrightarrow> row_clear \<sigma> tab ws tl2 \<Longrightarrow> fitting \<sigma> tab2"
proof -
  note r = tt_row_to [OF assms(1,3,5)]
  have so: "state_ok tab1 st" and len: "tt_len tab \<le> tt_len tab1" and e1: "ext tab tab1"
    using r(1) ext_len by (auto simp: leads_to_def)
  note k = row_kids_mono [OF assms(4) len]
  note q = tt_row_to [OF so k assms(6)]
  have e2: "ext tab1 tab2" using q(1) by (simp add: leads_to_def)
  show "ext tab tab2" using ext_trans [OF e1 e2] .
  show "clean tab2" using tt_row_clean [OF tt_row_clean [OF assms(2,5)] assms(6)] .
  show "den \<sigma> tab2 i = sem_rest \<sigma> tab us tl1" using den_ext [OF e2 r(2)] tt_row_den [OF assms(1,3,5)] by simp
  show "den \<sigma> tab2 j = sem_rest \<sigma> tab ws tl2" using tt_row_den [OF so k assms(6)] sem_rest_ext [OF e1 assms(4)] by simp
  show "fitting \<sigma> tab2" if "fitting \<sigma> tab" "row_clear \<sigma> tab us tl1" "row_clear \<sigma> tab ws tl2"
  proof (rule tt_row_fitting [OF _ so k assms(6)])
    show "fitting \<sigma> tab1" by (rule tt_row_fitting [OF that(1) assms(1,3,5) that(2)])
    show "row_clear \<sigma> tab1 ws tl2" using row_clear_ext [OF e1 assms(4)] that(3) by simp
  qed
qed

lemma sem_rest_append:
  "sem_rest \<sigma> tab (ts @ us) tl' = sem_row (sem_tags \<sigma> tab ts) (Some (sem_rest \<sigma> tab us tl'))"
  by (simp add: sem_rest_def sem_tags_def sem_row_fold)

definition rows_solve :: "tags \<Rightarrow> ty_id option \<Rightarrow> tags \<Rightarrow> ty_id option \<Rightarrow> type_table \<Rightarrow> var_store \<Rightarrow> goal list \<Rightarrow> type_table \<Rightarrow> bool" where
  "rows_solve ta tla tb tlb tab st gs tab' \<longleftrightarrow>
     ext tab tab' \<and> clean tab' \<and>
     (\<forall>\<sigma>. sat \<sigma> tab st \<longrightarrow> solves_all \<sigma> tab' gs \<longrightarrow> sem_rest \<sigma> tab ta tla = sem_rest \<sigma> tab tb tlb) \<and>
     (\<forall>\<sigma>. sat \<sigma> tab st \<longrightarrow> sem_rest \<sigma> tab ta tla = sem_rest \<sigma> tab tb tlb \<longrightarrow> fitting \<sigma> tab \<longrightarrow>
        row_clear \<sigma> tab ta tla \<longrightarrow> row_clear \<sigma> tab tb tlb \<longrightarrow>
        solves_all \<sigma> tab' gs \<and> fitting \<sigma> tab' \<and> (\<forall>h\<in>set gs. goal_clear \<sigma> tab' h))"

lemma rows_fold_left:
  assumes "state_ok tab st" "clean tab" "row_kids (tt_len tab) ta (Some t)" "row_kids (tt_len tab) tb tlb"
    and "t < tt_len tab" "tt_kind tab t = TY_Row us y"
    and "tt_row (ta @ us) y tab = (i, tab1)" "tt_row tb tlb tab1 = (j, tab2)"
  shows "rows_solve ta (Some t) tb tlb tab st [G_Types i j] tab2" "rows_solve tb tlb ta (Some t) tab st [G_Types j i] tab2"
proof -
  have tok: "tt_ok tab" using assms(1) by (simp add: state_ok_def)
  have "u < tt_len tab" if "u \<in> kids (TY_Row us y)" for u
    using tt_ok_kids [OF tok assms(5), of u] that assms(5,6) by simp
  then have ku: "row_kids (tt_len tab) us y" by (simp add: row_kids_def)
  then have k: "row_kids (tt_len tab) (ta @ us) y" using assms(3) by (auto simp: row_kids_simps)
  note f = fold_solves [OF assms(1,2) k assms(4,7,8)]
  have den: "den \<sigma> tab t = sem_rest \<sigma> tab us y" for \<sigma> by (rule den_row [OF tok assms(5,6)])
  have host: "den \<sigma> tab2 i = sem_rest \<sigma> tab ta (Some t)" for \<sigma>
    using f(3) den sem_rest_append by (simp add: sem_rest_def [of _ _ ta])
  have cl: "row_clear \<sigma> tab (ta @ us) y" if "fitting \<sigma> tab" "row_clear \<sigma> tab ta (Some t)" for \<sigma>
    using row_clear_append [OF that(2) _ den] clear_row [OF _ assms(5,6)] that(1) by (simp add: fitting_def)
  show "rows_solve ta (Some t) tb tlb tab st [G_Types i j] tab2" "rows_solve tb tlb ta (Some t) tab st [G_Types j i] tab2"
    using f(1,2,4,5) host cl by (auto simp: rows_solve_def)
qed

lemma rows_rest:
  assumes "state_ok tab st" "clean tab" "row_kids (tt_len tab) ta tla" "row_kids (tt_len tab) tb tlb" "distinct (map fst ta)"
  shows "rows_solve ta tla tb tlb tab st (shared_payloads ta tb @ [G_Rest ta tla tb tlb]) tab"
proof -
  have tok: "tt_ok tab" using assms(1) by (simp add: state_ok_def)
  have s: "solves_goal \<sigma> tab (G_Rest ta tla tb tlb) \<longleftrightarrow>
      sem_row (left_of (sem_tags \<sigma> tab ta) (sem_tags \<sigma> tab tb)) (map_option (den \<sigma> tab) tla) =
      sem_row (left_of (sem_tags \<sigma> tab tb) (sem_tags \<sigma> tab ta)) (map_option (den \<sigma> tab) tlb)" for \<sigma>
    by (simp add: solves_goal_def sem_rest_def only_in_sem)
  have p: "proper d" if "fitting \<sigma> tab" "map_option (den \<sigma> tab) tl' = Some d" "\<forall>t\<in>set_option tl'. t < tt_len tab" for \<sigma> tl' d
    using that proper_den [OF tok, of \<sigma>] by (cases tl') (auto simp: fitting_def)
  have t: "\<forall>t\<in>set_option tla. t < tt_len tab" "\<forall>t\<in>set_option tlb. t < tt_len tab" using assms(3,4) by (auto simp: row_kids_simps)
  have gen: "same_payloads (sem_tags \<sigma> tab ta) (sem_tags \<sigma> tab tb) \<and> solves_goal \<sigma> tab (G_Rest ta tla tb tlb)"
    if "sem_rest \<sigma> tab ta tla = sem_rest \<sigma> tab tb tlb" "fitting \<sigma> tab" "row_clear \<sigma> tab ta tla" "row_clear \<sigma> tab tb tlb" for \<sigma>
    using rows_split [OF that(1) [unfolded sem_rest_def] that(3,4) [unfolded row_clear_def] p [OF that(2) _ t(1)] p [OF that(2) _ t(2)]]
    by (simp add: s)
  show ?thesis
    unfolding rows_solve_def
  proof (intro conjI allI impI ballI)
    fix \<sigma> assume "solves_all \<sigma> tab (shared_payloads ta tb @ [G_Rest ta tla tb tlb])"
    then show "sem_rest \<sigma> tab ta tla = sem_rest \<sigma> tab tb tlb"
      using rows_equal shared_payloads_solves [OF assms(5)] by (simp add: s sem_rest_def)
  next
    fix \<sigma> assume a: "sem_rest \<sigma> tab ta tla = sem_rest \<sigma> tab tb tlb" "fitting \<sigma> tab" "row_clear \<sigma> tab ta tla" "row_clear \<sigma> tab tb tlb"
    show "solves_all \<sigma> tab (shared_payloads ta tb @ [G_Rest ta tla tb tlb])"
      using gen [OF a] shared_payloads_solves [OF assms(5)] by simp
    show "goal_clear \<sigma> tab h" if "h \<in> set (shared_payloads ta tb @ [G_Rest ta tla tb tlb])" for h
      using that shared_payloads_clear a(3,4) by auto
  qed (use assms in auto)
qed

lemma unify_rows_solve:
  assumes "unify_rows ta tla tb tlb tab st = Some (Inr gs, tab', st')" "state_ok tab st" "clean tab"
    and "row_kids (tt_len tab) ta tla" "row_kids (tt_len tab) tb tlb" "distinct (map fst ta)"
  shows "st' = st" "rows_solve ta tla tb tlb tab st gs tab'"
proof -
  have tok: "tt_ok tab" using assms(2) by (simp add: state_ok_def)
  have tl: "\<forall>t\<in>set_option tla. t < tt_len tab" "\<forall>t\<in>set_option tlb. t < tt_len tab" using assms(4,5) by (auto simp: row_kids_simps)
  obtain xa where xa: "shallow_tail tab st tla = Some xa" "\<forall>t\<in>set_option xa. t < tt_len tab" using shallow_tail_ok [OF assms(2) tl(1)] .
  obtain xb where xb: "shallow_tail tab st tlb = Some xb" "\<forall>t\<in>set_option xb. t < tt_len tab" using shallow_tail_ok [OF assms(2) tl(2)] .
  have ka: "row_kids (tt_len tab) ta xa" by (rule row_kids_sub [OF assms(4) subset_refl xa(2)])
  have kb: "row_kids (tt_len tab) tb xb" by (rule row_kids_sub [OF assms(5) subset_refl xb(2)])
  have "st' = st \<and> rows_solve ta xa tb xb tab st gs tab'"
  proof (cases "tail_row tab xa")
    case (Some ra)
    obtain us y where ra: "ra = (us, y)" by (cases ra)
    obtain t where t: "xa = Some t" "tt_kind tab t = TY_Row us y" "t < tt_len tab"
      using tail_row_den [OF tok xa(2), of us y] Some ra by metis
    obtain i tab1 j where r: "tt_row (ta @ us) y tab = (i, tab1)" "tt_row tb xb tab1 = (j, tab')" "gs = [G_Types i j]" "st' = st"
      using assms(1) Some by (auto simp: unify_rows_def xa(1) xb(1) ra split: prod.splits)
    then show ?thesis using rows_fold_left(1) [OF assms(2,3) _ kb t(3,2) r(1,2), of] ka t(1) by simp
  next
    case na: None
    show ?thesis
    proof (cases "tail_row tab xb")
      case (Some rb)
      obtain us y where rb: "rb = (us, y)" by (cases rb)
      obtain t where t: "xb = Some t" "tt_kind tab t = TY_Row us y" "t < tt_len tab"
        using tail_row_den [OF tok xb(2), of us y] Some rb by metis
      obtain i tab1 j where r: "tt_row (tb @ us) y tab = (i, tab1)" "tt_row ta xa tab1 = (j, tab')" "gs = [G_Types j i]" "st' = st"
        using assms(1) Some na by (auto simp: unify_rows_def xa(1) xb(1) rb split: prod.splits)
      then show ?thesis using rows_fold_left(2) [OF assms(2,3) _ ka t(3,2) r(1,2), of] kb t(1) by simp
    next
      case None
      then have "gs = shared_payloads ta tb @ [G_Rest ta xa tb xb]" "tab' = tab" "st' = st"
        using assms(1) na by (auto simp: unify_rows_def xa(1) xb(1))
      then show ?thesis using rows_rest [OF assms(2,3) ka kb assms(6)] by simp
    qed
  qed
  then show "st' = st" by simp
  have "rows_solve ta xa tb xb tab st gs tab'" using \<open>st' = st \<and> _\<close> by simp
  moreover have "sem_rest \<sigma> tab ta xa = sem_rest \<sigma> tab ta tla \<and> sem_rest \<sigma> tab tb xb = sem_rest \<sigma> tab tb tlb \<and>
      (row_clear \<sigma> tab ta xa \<longleftrightarrow> row_clear \<sigma> tab ta tla) \<and> (row_clear \<sigma> tab tb xb \<longleftrightarrow> row_clear \<sigma> tab tb tlb)"
    if "sat \<sigma> tab st" for \<sigma>
    using shallow_tail_den [OF assms(2) that tl(1) xa(1)] shallow_tail_den [OF assms(2) that tl(2) xb(1)]
    by (simp add: sem_rest_def row_clear_def)
  ultimately show "rows_solve ta tla tb tlb tab st gs tab'" unfolding rows_solve_def by metis
qed

end
