(* ===== verification/Sema_Unify_Theorems.thy ===== *)
theory Sema_Unify_Theorems
  imports Sema_Unify_Rows_Step
begin

text \<open>Unification finds most general unifiers, and what follows a snapshot can be taken back.\<close>

section \<open>One step\<close>

text \<open>The arms of \<open>unify\<close>, with its operands resolved.\<close>

lemma unify_types_arms:
  assumes "unify_types a b tab st = Some r" "state_ok tab st" "a < tt_len tab" "b < tt_len tab"
  obtains x y where "shallow tab st a = Some x" "shallow tab st b = Some y" "x < tt_len tab" "y < tt_len tab"
    and "\<And>v. tt_kind tab x = TY_Var v \<Longrightarrow> v < length (vr_vars st)" "\<And>v. tt_kind tab y = TY_Var v \<Longrightarrow> v < length (vr_vars st)"
    and "\<And>v q. tt_kind tab x = TY_Var v \<Longrightarrow> vr_find st v = Some q \<Longrightarrow> va_solution (vr_var st q) = None"
    and "\<And>v q. tt_kind tab y = TY_Var v \<Longrightarrow> vr_find st v = Some q \<Longrightarrow> va_solution (vr_var st q) = None"
    and "x = y \<and> r = (Inr [], tab, st) \<or>
      (tt_kind tab x \<in> {TY_Error, TY_Never} \<or> tt_kind tab y \<in> {TY_Error, TY_Never}) \<and> r = (Inr [], tab, st) \<or>
      (\<exists>va vb. x \<noteq> y \<and> tt_kind tab x = TY_Var va \<and> tt_kind tab y = TY_Var vb \<and> unify_vars va vb tab st = Some r) \<or>
      (\<exists>v. tt_kind tab x = TY_Var v \<and> var_of (tt_kind tab y) = None \<and> var_bind v y tab st = Some r) \<or>
      (\<exists>v. tt_kind tab y = TY_Var v \<and> var_of (tt_kind tab x) = None \<and> var_bind v x tab st = Some r) \<or>
      (\<exists>ta tla tb tlb. tt_kind tab x = TY_Row ta tla \<and> tt_kind tab y = TY_Row tb tlb \<and> unify_rows ta tla tb tlb tab st = Some r) \<or>
      x \<noteq> y \<and> var_of (tt_kind tab x) = None \<and> var_of (tt_kind tab y) = None \<and>
      (row_of (tt_kind tab x) \<noteq> None \<longrightarrow> row_of (tt_kind tab y) = None) \<and> r = (structural (tt_kind tab x) (tt_kind tab y), tab, st)"
proof -
  have vs: "vs_ok tab st" using assms(2) by (auto simp: state_ok_def)
  obtain x where x: "shallow tab st a = Some x" "x < tt_len tab"
      "\<And>v. tt_kind tab x = TY_Var v \<Longrightarrow> \<exists>r. vr_find st v = Some r \<and> va_solution (vr_var st r) = None"
    using shallow_ok [OF vs assms(3)] by metis
  obtain y where y: "shallow tab st b = Some y" "y < tt_len tab"
      "\<And>v. tt_kind tab y = TY_Var v \<Longrightarrow> \<exists>r. vr_find st v = Some r \<and> va_solution (vr_var st r) = None"
    using shallow_ok [OF vs assms(4)] by metis
  have vl: "v < length (vr_vars st)" if "tt_kind tab i = TY_Var v" "i < tt_len tab" for i v
    using vs that by (auto simp: vs_ok_def var_of_Some)
  show thesis
  proof (rule that [OF x(1) y(1) x(2) y(2) vl [OF _ x(2)] vl [OF _ y(2)]], goal_cases)
    case (3 v q) then show ?case using x(3) by fastforce
  next
    case (4 v q) then show ?case using y(3) by fastforce
  next
    case 5
    then show ?case
      using assms(1) by (auto simp: unify_types_def x(1) y(1) Let_def var_of_Some row_of_Some split: if_splits option.splits)
  qed
qed

lemma rows_step_solves:
  assumes "rows_solve ta tla tb tlb tab st gs tab'" "vs_ok tab st" "tt_ok tab" "x < tt_len tab" "y < tt_len tab"
    and "tt_kind tab x = TY_Row ta tla" "tt_kind tab y = TY_Row tb tlb"
  shows "step_solves (G_Types x y) tab st gs tab' st"
proof -
  have d: "solves_goal \<sigma> tab (G_Types x y) \<longleftrightarrow> sem_rest \<sigma> tab ta tla = sem_rest \<sigma> tab tb tlb" for \<sigma>
    using den_row [OF assms(3,4,6)] den_row [OF assms(3,5,7)] by simp
  have c: "row_clear \<sigma> tab ta tla \<and> row_clear \<sigma> tab tb tlb" if "fitting \<sigma> tab" for \<sigma>
    using clear_row assms(4-7) that by (auto simp: fitting_def)
  have s: "sat \<sigma> tab' st \<longleftrightarrow> sat \<sigma> tab st" for \<sigma> using assms(1,2) sat_ext by (auto simp: rows_solve_def)
  show ?thesis using assms(1) c unfolding step_solves_def rows_solve_def d s by blast
qed

lemma bind_step_solves:
  assumes "var_bind v t tab st = Some (Inr gs, tab', st')" "state_ok tab st" "v < length (vr_vars st)" "t < tt_len tab"
    and "var_of (tt_kind tab t) = None" "\<And>root. vr_find st v = Some root \<Longrightarrow> va_solution (vr_var st root) = None" "clean tab"
  shows "gs = []" "clean tab'" "sat \<sigma> tab' st' \<longleftrightarrow> sat \<sigma> tab st \<and> \<sigma> v = den \<sigma> tab t" "fitting \<sigma> tab \<Longrightarrow> fitting \<sigma> tab'"
proof -
  note b = var_bind_solves [OF assms]
  show "gs = []" by (rule b(1))
  show "clean tab'" by (rule b(2))
  show "sat \<sigma> tab' st' \<longleftrightarrow> sat \<sigma> tab st \<and> \<sigma> v = den \<sigma> tab t" by (rule b(3))
  obtain root i where i: "tt_intern (TY_Var root) tab = (i, tab')"
    using assms(1) by (auto simp: var_bind_def bind_eq_Some_conv Let_def split: if_splits prod.splits)
  have "leads_to tab st tab' st'" using var_bind_ok [OF assms(1-6)] by (simp add: step_ok_def)
  then have "ext tab tab'" "tt_ok tab'" "tt_ok tab" using assms(2) by (auto simp: leads_to_def state_ok_def)
  then show "fitting \<sigma> tab \<Longrightarrow> fitting \<sigma> tab'" using intern_fitting [OF _ _ _ _ i] by (simp add: row_of_def)
qed

lemma resolved_step:
  assumes "state_ok tab st" "a < tt_len tab" "b < tt_len tab" "shallow tab st a = Some x" "shallow tab st b = Some y"
    and "step_solves (G_Types x y) tab st gs tab' st'"
  shows "step_solves (G_Types a b) tab st gs tab' st'"
proof -
  have d: "den \<sigma> tab x = den \<sigma> tab a" "den \<sigma> tab y = den \<sigma> tab b" if "sat \<sigma> tab st" for \<sigma>
    using den_shallow [OF assms(1) that] assms(2-5) by auto
  show ?thesis
    unfolding step_solves_def
  proof (intro conjI allI impI)
    fix \<sigma> assume "sat \<sigma> tab' st'" "solves_all \<sigma> tab' gs"
    then have "sat \<sigma> tab st" "den \<sigma> tab x = den \<sigma> tab y" using assms(6) by (auto simp: step_solves_def)
    then show "sat \<sigma> tab st" "solves_goal \<sigma> tab (G_Types a b)" using d by auto
  next
    fix \<sigma> assume "sat \<sigma> tab st" "solves_goal \<sigma> tab (G_Types a b)" "fitting \<sigma> tab"
    then have "sat \<sigma> tab' st' \<and> solves_all \<sigma> tab' gs \<and> fitting \<sigma> tab' \<and> (\<forall>h\<in>set gs. goal_clear \<sigma> tab' h)"
      using assms(6) d by (auto simp: step_solves_def)
    then show "sat \<sigma> tab' st'" "solves_all \<sigma> tab' gs" "fitting \<sigma> tab'" "\<forall>h\<in>set gs. goal_clear \<sigma> tab' h" by auto
  qed (use assms(6) in \<open>simp add: step_solves_def\<close>)
qed

lemma unify_types_solves:
  assumes "unify_types a b tab st = Some (Inr gs, tab', st')" "state_ok tab st" "a < tt_len tab" "b < tt_len tab" "clean tab"
  shows "step_solves (G_Types a b) tab st gs tab' st'"
proof (rule unify_types_arms [OF assms(1-4)], goal_cases)
  case (1 x y)
  have vs: "vs_ok tab st" and tok: "tt_ok tab" using assms(2) by (auto simp: state_ok_def)
  have err: "tt_kind tab t \<notin> {TY_Error, TY_Never}" if "t < tt_len tab" for t
    using assms(5) that by (auto simp: clean_def tt_kind_def tt_len_def in_set_conv_nth)
  have "step_solves (G_Types x y) tab st gs tab' st'"
    using 1(9)
  proof (elim disjE exE conjE)
    fix va vb assume v: "tt_kind tab x = TY_Var va" "tt_kind tab y = TY_Var vb" "unify_vars va vb tab st = Some (Inr gs, tab', st')"
    show ?thesis
      using unify_vars_solves [OF v(3) vs 1(5) [OF v(1)] 1(6) [OF v(2)]] den_var [OF tok 1(3) v(1)] den_var [OF tok 1(4) v(2)] assms(5)
      by (simp add: step_solves_def)
  next
    fix v assume v: "tt_kind tab x = TY_Var v" "var_of (tt_kind tab y) = None" "var_bind v y tab st = Some (Inr gs, tab', st')"
    show ?thesis
      using bind_step_solves [OF v(3) assms(2) 1(5) [OF v(1)] 1(4) v(2) 1(7) [OF v(1)] assms(5)] den_var [OF tok 1(3) v(1)]
      by (simp add: step_solves_def)
  next
    fix v assume v: "tt_kind tab y = TY_Var v" "var_of (tt_kind tab x) = None" "var_bind v x tab st = Some (Inr gs, tab', st')"
    show ?thesis
      using bind_step_solves [OF v(3) assms(2) 1(6) [OF v(1)] 1(3) v(2) 1(8) [OF v(1)] assms(5)] den_var [OF tok 1(4) v(1)]
      by (auto simp: step_solves_def)
  next
    fix ta tla tb tlb
    assume r: "tt_kind tab x = TY_Row ta tla" "tt_kind tab y = TY_Row tb tlb" "unify_rows ta tla tb tlb tab st = Some (Inr gs, tab', st')"
    have k: "row_kids (tt_len tab) ta tla" "row_kids (tt_len tab) tb tlb"
      using tt_ok_kids [OF tok] 1(3,4) r(1,2) by (fastforce simp: row_kids_def)+
    have "sorted_wrt (<) (map fst ta)" using tt_ok_row [OF tok 1(3)] r(1) by (simp add: row_ok_def)
    then have "distinct (map fst ta)" by (simp add: strict_sorted_iff)
    from unify_rows_solve [OF r(3) assms(2,5) k this] show ?thesis using rows_step_solves [OF _ vs tok 1(3,4) r(1,2)] by simp
  next
    assume h: "var_of (tt_kind tab x) = None" "var_of (tt_kind tab y) = None"
      "(Inr gs, tab', st') = (structural (tt_kind tab x) (tt_kind tab y), tab, st)"
    then have s: "structural (tt_kind tab x) (tt_kind tab y) = Inr gs" by simp
    have "goal_clear \<sigma> tab g" if "g \<in> set gs" for g \<sigma>
      using structural_goals [OF s that] by auto
    then show ?thesis
      using structural_solves [OF s h(1,2)] den_kind [OF tok 1(3)] den_kind [OF tok 1(4)] assms(5) h(3) by (simp add: step_solves_def)
  qed (use err 1(3,4) assms(5) in \<open>auto simp: step_solves_def\<close>)
  then show ?case by (rule resolved_step [OF assms(2-4) 1(1,2)])
qed

lemma unify_rest_arms:
  assumes "unify_rest ta tla tb tlb tab st = (Inr gs, tab', st')" "tt_empty_row tab = (e, tab1)"
  shows "(\<forall>h\<in>set gs. goal_clear \<sigma> tab' h) \<and>
    (tab' = tab1 \<or> (\<exists>i. tt_row (only_in tb ta) tlb tab1 = (i, tab')) \<or> (\<exists>i. tt_row (only_in ta tb) tla tab1 = (i, tab')))"
  using assms
  by (cases "only_in ta tb = []"; cases "only_in tb ta = []"; cases tla; cases tlb)
    (auto simp: unify_rest_def Let_def split: prod.splits)

lemma unify_rest_fitting:
  assumes "unify_rest ta tla tb tlb tab st = (Inr gs, tab', st')" "state_ok tab st" "goal_ok (tt_len tab) (G_Rest ta tla tb tlb)"
    and "fitting \<sigma> tab" "row_clear \<sigma> tab ta tla" "row_clear \<sigma> tab tb tlb"
  shows "fitting \<sigma> tab'"
proof -
  obtain e tab1 where e: "tt_empty_row tab = (e, tab1)" by (cases "tt_empty_row tab")
  have l: "leads_to tab st tab1 st" by (rule empty_row_to [OF assms(2) e])
  then have so: "state_ok tab1 st" and e1: "ext tab tab1" by (auto simp: leads_to_def)
  have k: "row_kids (tt_len tab) ta tla" "row_kids (tt_len tab) tb tlb" using assms(3) by (auto simp: goal_rest_ok)
  have f1: "fitting \<sigma> tab1"
    using intern_fitting [OF assms(4) _ _ e1, of "TY_Row [] None" e] assms(2) so e by (simp add: tt_empty_row_def state_ok_def)
  have rem: "fitting \<sigma> tab2"
    if "row_kids (tt_len tab) ts tl'" "row_clear \<sigma> tab ts tl'" "tt_row us tl' tab1 = (i, tab2)" "set us \<subseteq> set ts" for ts us tl' i tab2
  proof -
    have "\<forall>t\<in>set_option tl'. t < tt_len tab" using that(1) by (auto simp: row_kids_simps)
    then have ku: "row_kids (tt_len tab) us tl'" using row_kids_sub [OF that(1,4)] by simp
    then show ?thesis
      using tt_row_fitting [OF f1 so row_kids_mono [OF ku ext_len [OF e1]] that(3)] row_clear_ext [OF e1 ku] row_clear_sub [OF that(2,4)] by simp
  qed
  show ?thesis
    using unify_rest_arms [OF assms(1) e] f1 rem [OF k(1) assms(5) _ only_in_sub] rem [OF k(2) assms(6) _ only_in_sub] by blast
qed

lemma unify_step_solves:
  assumes "unify_step g tab st = Some (Inr gs, tab', st')" "state_ok tab st" "goal_ok (tt_len tab) g" "clean tab"
  shows "step_solves g tab st gs tab' st'"
proof (cases g)
  case (G_Types a b)
  then show ?thesis using assms unify_types_solves by (simp add: unify_step_def goal_ok_def)
next
  case (G_Rest ta tla tb tlb)
  then have u: "unify_rest ta tla tb tlb tab st = (Inr gs, tab', st')" using assms(1) by (simp add: unify_step_def)
  have vs: "vs_ok tab st" using assms(2) by (simp add: state_ok_def)
  note r = unify_rest_solves [OF u assms(2) assms(3) [unfolded G_Rest] assms(4)]
  have "\<forall>h\<in>set gs. goal_clear \<sigma> tab' h" for \<sigma>
    using unify_rest_arms [OF u, of "fst (tt_empty_row tab)" "snd (tt_empty_row tab)"] by simp
  moreover have "fitting \<sigma> tab'" if "fitting \<sigma> tab" "row_clear \<sigma> tab ta tla" "row_clear \<sigma> tab tb tlb" for \<sigma>
    using unify_rest_fitting [OF u assms(2) assms(3) [unfolded G_Rest] that] .
  ultimately show ?thesis using r sat_ext [OF r(3) vs] by (simp add: step_solves_def G_Rest)
qed (use assms in \<open>simp add: unify_step_def\<close>)

section \<open>The loop\<close>

lemma unify_loop_solves:
  "unify_loop gs tab st = Some r \<Longrightarrow> isl (fst r) = False \<Longrightarrow> state_ok tab st \<Longrightarrow> list_all (goal_ok (tt_len tab)) gs \<Longrightarrow> clean tab \<Longrightarrow>
     (\<forall>\<sigma>. sat \<sigma> (fst (snd r)) (snd (snd r)) \<longrightarrow> sat \<sigma> tab st \<and> solves_all \<sigma> tab gs) \<and>
     (\<forall>\<sigma>. sat \<sigma> tab st \<longrightarrow> solves_all \<sigma> tab gs \<longrightarrow> fitting \<sigma> tab \<longrightarrow> (\<forall>h\<in>set gs. goal_clear \<sigma> tab h) \<longrightarrow>
        sat \<sigma> (fst (snd r)) (snd (snd r)))"
proof (induction rule: unify_loop.raw_induct [rotated 1, consumes 1, case_names step])
  case (step rec gs tab st r)
  show ?case
  proof (cases gs)
    case Nil
    then show ?thesis using step(2) by auto
  next
    case (Cons g gs')
    obtain res tab1 st1 where s: "unify_step g tab st = Some (res, tab1, st1)"
      using step(2) Cons by (auto simp: bind_eq_Some_conv)
    show ?thesis
    proof (cases res)
      case (Inl e)
      then show ?thesis using step(2,3) Cons s by auto
    next
      case (Inr new)
      have ok: "goal_ok (tt_len tab) g" "list_all (goal_ok (tt_len tab)) gs'" using step(5) Cons by auto
      have l: "leads_to tab st tab1 st1" and new: "list_all (goal_ok (tt_len tab1)) new"
        using unify_step_ok [OF s step(4) ok(1)] Inr by (auto simp: step_ok_def)
      have e: "ext tab tab1" "tt_len tab \<le> tt_len tab1" using l ext_len by (auto simp: leads_to_def)
      have ss: "step_solves g tab st new tab1 st1" using unify_step_solves [OF _ step(4) ok(1) step(6)] s Inr by simp
      have "list_all (goal_ok (tt_len tab1)) (new @ gs')" using new ok(2) goal_ok_mono [OF _ e(2)] by (auto simp: list_all_iff)
      moreover have "rec (new @ gs') tab1 st1 = Some r" using step(2) Cons s Inr by simp
      moreover have "state_ok tab1 st1" using l by (simp add: leads_to_def)
      moreover have "clean tab1" using ss by (simp add: step_solves_def)
      ultimately have IH: "\<forall>\<sigma>. sat \<sigma> (fst (snd r)) (snd (snd r)) \<longrightarrow> sat \<sigma> tab1 st1 \<and> solves_all \<sigma> tab1 (new @ gs')"
        "\<forall>\<sigma>. sat \<sigma> tab1 st1 \<longrightarrow> solves_all \<sigma> tab1 (new @ gs') \<longrightarrow> fitting \<sigma> tab1 \<longrightarrow> (\<forall>h\<in>set (new @ gs'). goal_clear \<sigma> tab1 h) \<longrightarrow>
          sat \<sigma> (fst (snd r)) (snd (snd r))"
        using step(1) [OF _ step(3), of "new @ gs'" tab1 st1] by blast+
      have later: "solves_all \<sigma> tab1 gs' = solves_all \<sigma> tab gs'" "(\<forall>h\<in>set gs'. goal_clear \<sigma> tab1 h) = (\<forall>h\<in>set gs'. goal_clear \<sigma> tab h)" for \<sigma>
        using goal_ext [OF e(1)] ok(2) by (auto simp: solves_all_def list_all_iff)
      show ?thesis
      proof (intro conjI allI impI)
        fix \<sigma> assume "sat \<sigma> (fst (snd r)) (snd (snd r))"
        then have a: "sat \<sigma> tab1 st1" "solves_all \<sigma> tab1 new" "solves_all \<sigma> tab1 gs'" using IH(1) by auto
        show "sat \<sigma> tab st" "solves_all \<sigma> tab gs" using ss a later(1) Cons by (auto simp: step_solves_def)
      next
        fix \<sigma> assume a: "sat \<sigma> tab st" "solves_all \<sigma> tab gs" "fitting \<sigma> tab" "\<forall>h\<in>set gs. goal_clear \<sigma> tab h"
        then have "sat \<sigma> tab1 st1 \<and> solves_all \<sigma> tab1 new \<and> fitting \<sigma> tab1 \<and> (\<forall>h\<in>set new. goal_clear \<sigma> tab1 h)"
          using ss Cons by (simp add: step_solves_def)
        moreover have "\<forall>h\<in>set gs'. goal_clear \<sigma> tab1 h" using later(2) [of \<sigma>] a(4) Cons by simp
        ultimately show "sat \<sigma> (fst (snd r)) (snd (snd r))" using IH(2) a(2) later(1) Cons by (auto simp: ball_Un)
      qed
    qed
  qed
qed

text \<open>
C5. When \<open>unify\<close> succeeds, what it leaves in the store is a most general unifier. The solutions are the choices of
a finite tree for every variable that agree with its parent, kind and solution in the store. Every solution of the
store after \<open>unify\<close> is a solution of the store before it that gives the two types one tree; and every solution of the
store before it that gives the two types one tree is a solution of the store after it, provided its rows are in
canonical form (tags sorted, none repeated between a row of the table and its tail: \<open>fitting\<close>). The hypotheses: the table
and the store are well formed (\<open>state_ok\<close>), the two types are in the table, and no type of the table is an error or
\<open>never\<close> (\<open>clean\<close>), which unify with everything.
\<close>

theorem unify_most_general:
  assumes "unify_tys a b tab st = Some (Inr (), tab', st')" "state_ok tab st" "a < tt_len tab" "b < tt_len tab" "clean tab"
  shows "(\<forall>\<sigma>. sat \<sigma> tab' st' \<longrightarrow> sat \<sigma> tab st \<and> den \<sigma> tab a = den \<sigma> tab b) \<and>
    (\<forall>\<sigma>. sat \<sigma> tab st \<and> den \<sigma> tab a = den \<sigma> tab b \<and> fitting \<sigma> tab \<longrightarrow> sat \<sigma> tab' st')"
  using unify_loop_solves [OF assms(1) [unfolded unify_tys_def]] assms(2-5) by (auto simp: goal_ok_def)

section \<open>Trials\<close>

text \<open>What a checker may do between taking a snapshot and going back to it.\<close>

inductive trial :: "type_table \<Rightarrow> var_store \<Rightarrow> type_table \<Rightarrow> var_store \<Rightarrow> bool" for tab st where
  tr_start: "trial tab st tab st"
| tr_intern: "trial tab st tab1 st1 \<Longrightarrow> \<forall>t\<in>kids k. t < tt_len tab1 \<Longrightarrow> row_ok k \<Longrightarrow> var_of k = None \<Longrightarrow>
    tt_intern k tab1 = (i, tab2) \<Longrightarrow> trial tab st tab2 st1"
| tr_fresh: "trial tab st tab1 st1 \<Longrightarrow> vr_fresh level nk sp tab1 st1 = (i, tab2, st2) \<Longrightarrow> trial tab st tab2 st2"
| tr_unify: "trial tab st tab1 st1 \<Longrightarrow> a < tt_len tab1 \<Longrightarrow> b < tt_len tab1 \<Longrightarrow>
    unify_tys a b tab1 st1 = Some (res, tab2, st2) \<Longrightarrow> trial tab st tab2 st2"
| tr_join: "trial tab st tab1 st1 \<Longrightarrow> a < tt_len tab1 \<Longrightarrow> b < tt_len tab1 \<Longrightarrow>
    join_tys a b tab1 st1 = Some (res', tab2, st2) \<Longrightarrow> trial tab st tab2 st2"
| tr_freeze: "trial tab st tab1 st1 \<Longrightarrow> v < length (vr_vars st1) \<Longrightarrow> vr_freeze v st1 = Some st2 \<Longrightarrow> trial tab st tab1 st2"

lemma unify_to:
  assumes "unify_tys a b tab st = Some (res, tab', st')" "state_ok tab st" "a < tt_len tab" "b < tt_len tab"
  shows "leads_to tab st tab' st'"
  using unify_loop_to [OF assms(1) [unfolded unify_tys_def]] assms(2-4) by (simp add: goal_ok_def)

lemma join_to:
  assumes "join_tys a b tab st = Some (res, tab', st')" "state_ok tab st" "a < tt_len tab" "b < tt_len tab"
  shows "leads_to tab st tab' st'"
proof -
  have vs: "vs_ok tab st" using assms(2) by (simp add: state_ok_def)
  obtain x where x: "shallow tab st a = Some x" "x < tt_len tab" using shallow_ok [OF vs assms(3)] by metis
  obtain y where y: "shallow tab st b = Some y" "y < tt_len tab" using shallow_ok [OF vs assms(4)] by metis
  show ?thesis
    using assms(1) unify_to [OF _ assms(2) x(2) y(2)] leads_to_refl [OF assms(2)]
    by (auto simp: join_tys_def x(1) y(1) split: if_splits)
qed

lemma freeze_to:
  assumes "vr_freeze v st = Some st'" "state_ok tab st" "v < length (vr_vars st)" shows "leads_to tab st tab st'"
proof -
  obtain r where r: "vr_find st v = Some r" "r < length (vr_vars st)"
    using vr_find_ok [of tab st v] assms(2,3) by (auto simp: state_ok_def)
  then show ?thesis using assms(1) set_kind_to [OF assms(2) r(2)] leads_to_refl [OF assms(2)] by (auto simp: vr_freeze_def)
qed

lemma trial_to: "trial tab st tab' st' \<Longrightarrow> state_ok tab st \<Longrightarrow> leads_to tab st tab' st'"
proof (induction rule: trial.induct)
  case tr_start
  then show ?case by (rule leads_to_refl)
next
  case (tr_intern tab1 st1 k i tab2)
  then have l: "leads_to tab st tab1 st1" by blast
  then have so: "state_ok tab1 st1" by (simp add: leads_to_def)
  have "leads_to tab1 st1 tab2 st1" by (rule intern_to(1) [OF so tr_intern(2,3,5)]) (use tr_intern(4) in simp)
  then show ?case by (rule leads_to_trans [OF l])
next
  case (tr_fresh tab1 st1 level nk sp i tab2 st2)
  then show ?case using leads_to_trans fresh_to by (metis leads_to_def)
next
  case (tr_unify tab1 st1 a b res tab2 st2)
  then have l: "leads_to tab st tab1 st1" by blast
  then show ?case using leads_to_trans [OF l unify_to [OF tr_unify(4) _ tr_unify(2,3)]] by (simp add: leads_to_def)
next
  case (tr_join tab1 st1 a b res tab2 st2)
  then have l: "leads_to tab st tab1 st1" by blast
  then show ?case using leads_to_trans [OF l join_to [OF tr_join(4) _ tr_join(2,3)]] by (simp add: leads_to_def)
next
  case (tr_freeze tab1 st1 v st2)
  then have l: "leads_to tab st tab1 st1" by blast
  then show ?case using leads_to_trans [OF l freeze_to [OF tr_freeze(3) _ tr_freeze(2)]] by (simp add: leads_to_def)
qed

text \<open>
C15. Going back to a snapshot takes back everything since. From a well-formed table and store, after any sequence of new
types (over existing ones, no variable, rows with sorted tags), new variables, unifications and joins of existing types and freezes of existing variables,
whether they succeed or fail (as long as each returns), \<open>rollback\<close> restores the variables and the log exactly, and the
types that were in the table keep their ids.
\<close>

theorem trial_rolled_back:
  assumes "trial tab st tab' st'" "state_ok tab st"
  shows "vr_rollback (vr_snapshot st) st' = st \<and> ext tab tab'"
  using trial_to [OF assms] grows_rollback by (simp add: leads_to_def)

end
