(* ===== verification/Sema_Unify_Total.thy ===== *)
theory Sema_Unify_Total
  imports Sema_Unify_Theorems
begin

text \<open>
  On tables without rows, unification finds a unifier whenever there is one, and so returns. Two things stand in
  the way in general: a \<open>Float\<close> variable does not meet an \<open>Integer\<close> one, though a float solves both, and a tail that
  is the row itself. The measure is the size of the trees the goals stand for.
\<close>

section \<open>Sizes\<close>

definition goal_size :: "(nat \<Rightarrow> sty) \<Rightarrow> type_table \<Rightarrow> goal \<Rightarrow> nat" where
  "goal_size \<sigma> tab g = (case g of G_Types a b \<Rightarrow> size (den \<sigma> tab a) | _ \<Rightarrow> 0)"

lemma twice_sum: "sum_list (map (\<lambda>t. Suc (Suc (2 * f t))) xs) = 2 * sum_list (map f xs) + 2 * length xs"
  by (induction xs) auto

lemma size_list_map: "size_list (size \<circ> V) xs = sum_list (map (\<lambda>x. size (V x)) xs) + length xs"
  by (induction xs) auto

lemma pairs_size:
  "length xs = length ys \<Longrightarrow>
     sum_list (map (goal_size \<sigma> tab \<circ> (\<lambda>(x, y). G_Types x y)) (zip xs ys)) = sum_list (map (\<lambda>x. size (den \<sigma> tab x)) xs)"
  by (induction xs ys rule: list_induct2) (auto simp: goal_size_def)

lemma occurs_kids_size:
  "var_of k = None \<Longrightarrow> row_of k = None \<Longrightarrow>
     sum_list (map (\<lambda>t. Suc (Suc (2 * size (V t)))) (occurs_kids k)) \<le> 2 * size (sem_kind \<sigma> V k)"
  by (cases k) (simp_all add: sem_kind_def row_of_def var_of_def twice_sum size_list_map)

lemma structural_size:
  assumes "structural ka kb = Inr gs" "var_of ka = None" "row_of ka = None"
  shows "sum_list (map (goal_size \<sigma> tab) gs) < size (sem_kind \<sigma> (den \<sigma> tab) ka)"
  using assms(1)
proof (cases rule: structural_cases)
  case same
  from this assms show ?thesis
    by (cases rule: ty_kind.rel_cases)
      (auto simp: sem_kind_def row_of_def var_of_def pairs_size size_list_map goal_size_def split: if_splits opaque_eq.splits)
qed (simp add: sem_kind_def row_of_def var_of_def)

lemma head_equal:
  assumes "map_ty_kind V ka = map_ty_kind V kb" shows "rel_ty_kind (\<lambda>x y. V x = V y) ka kb"
proof -
  have "rel_ty_kind (=) (map_ty_kind V ka) (map_ty_kind V kb)" unfolding ty_kind.rel_eq by (rule assms)
  then show ?thesis unfolding ty_kind.rel_map .
qed

lemma rel_opaque:
  assumes "rel_ty_kind R ka kb" "ka = TY_Unsupported s \<or> kb = TY_Unsupported s" shows "kb = ka"
  using assms by (cases rule: ty_kind.rel_cases) simp_all

lemma sem_kind_heads:
  assumes "sem_kind \<sigma> V ka = sem_kind \<sigma> V kb" "var_of ka = None" "var_of kb = None" "row_of ka = None" "row_of kb = None"
  shows "(\<exists>x y. ka = TY_Unsupported x \<and> kb = TY_Unsupported y \<and> opaque_eq_of x y = OE_Equal) \<or> rel_ty_kind (\<lambda>x y. V x = V y) ka kb"
proof -
  define f where "f k = (case k of TY_Unsupported s \<Rightarrow> TY_Unsupported (opaque_rep s) | _ \<Rightarrow> k)" for k :: kind
  have k: "sem_kind \<sigma> V k = Ty (map_ty_kind V (f k))" if "var_of k = None" "row_of k = None" for k
    using that by (cases k) (simp_all add: sem_kind_def row_of_def var_of_def f_def)
  have "rel_ty_kind (\<lambda>x y. V x = V y) (f ka) (f kb)" using assms(1) k assms(2-5) by (intro head_equal) simp
  moreover have f: "(\<exists>s. k = TY_Unsupported s \<and> f k = TY_Unsupported (opaque_rep s)) \<or> f k = k" for k
    by (cases k) (simp_all add: f_def)
  ultimately consider s where "ka = TY_Unsupported s" "f ka = TY_Unsupported (opaque_rep s)" "f kb = f ka"
    | s where "kb = TY_Unsupported s" "f kb = TY_Unsupported (opaque_rep s)" "f kb = f ka"
    | "rel_ty_kind (\<lambda>x y. V x = V y) ka kb"
    using f [of ka] f [of kb] rel_opaque by metis
  then show ?thesis
  proof cases
    case (1 s)
    then show ?thesis by (cases kb) (auto simp: f_def opaque_rep_eq [symmetric])
  next
    case (2 s)
    then show ?thesis by (cases ka) (auto simp: f_def opaque_rep_eq [symmetric])
  qed simp
qed

lemma structural_total:
  assumes "var_of ka = None" "var_of kb = None" "row_of ka = None" "row_of kb = None" "ka \<noteq> kb"
    "ka \<notin> {TY_Error, TY_Never}" "kb \<notin> {TY_Error, TY_Never}" "sem_kind \<sigma> V ka = sem_kind \<sigma> V kb"
  shows "\<exists>gs. structural ka kb = Inr gs"
  using sem_kind_heads [OF assms(8,1-4)]
proof (elim disjE exE conjE)
  assume "rel_ty_kind (\<lambda>x y. V x = V y) ka kb"
  from this assms(1-7) show ?thesis
    by (cases rule: ty_kind.rel_cases) (auto simp: var_of_def row_of_def dest: list_all2_lengthD)
qed simp
lemma admits_sem: "var_of k = None \<Longrightarrow> row_of k = None \<Longrightarrow> sem_admits nk (sem_kind \<sigma> V k) = kind_admits nk k"
  by (cases k; cases nk) (auto simp: sem_kind_def row_of_def var_of_def sem_admits_def kind_admits_def)

section \<open>The occurs check\<close>

definition rowless :: "type_table \<Rightarrow> bool" where
  "rowless tab \<longleftrightarrow> (\<forall>k\<in>set (tt_kinds tab). row_of k = None)"

definition floatless :: "var_store \<Rightarrow> bool" where
  "floatless st \<longleftrightarrow> (\<forall>v<length (vr_vars st). va_kind (vr_var st v) \<noteq> NK_Float)"

lemma rowless_kind: "rowless tab \<Longrightarrow> t < tt_len tab \<Longrightarrow> row_of (tt_kind tab t) = None"
  by (simp add: rowless_def tt_len_def tt_kind_def)

text \<open>A type below what \<open>var\<close> stands for does not mention \<open>var\<close>, and following solutions comes to an end.\<close>

definition occ_size :: "(nat \<Rightarrow> sty) \<Rightarrow> type_table \<Rightarrow> ty_id \<Rightarrow> nat" where
  "occ_size \<sigma> tab t = 2 * size (den \<sigma> tab t) + (if var_of (tt_kind tab t) = None then 0 else 1)"

definition below :: "(nat \<Rightarrow> sty) \<Rightarrow> type_table \<Rightarrow> nat \<Rightarrow> ty_id \<Rightarrow> bool" where
  "below \<sigma> tab var t \<longleftrightarrow> t < tt_len tab \<and>
     (size (den \<sigma> tab t) < size (\<sigma> var) \<or> size (den \<sigma> tab t) = size (\<sigma> var) \<and> var_of (tt_kind tab t) = None)"

lemma kids_below:
  assumes "tt_ok tab" "rowless tab" "below \<sigma> tab var t" "var_of (tt_kind tab t) = None" "k \<in> set (occurs_kids (tt_kind tab t))"
  shows "below \<sigma> tab var k"
proof -
  have t: "t < tt_len tab" using assms(3) by (simp add: below_def)
  have "k \<in> kids (tt_kind tab t)" using assms(5) occurs_kids_sub by (rule subsetD [rotated])
  then have "k < tt_len tab" using tt_ok_kids [OF assms(1) t] t by fastforce
  moreover have "Suc (Suc (2 * size (den \<sigma> tab k))) \<le> sum_list (map (\<lambda>t. Suc (Suc (2 * size (den \<sigma> tab t)))) (occurs_kids (tt_kind tab t)))"
    using assms(5) by (intro member_le_sum_list) auto
  ultimately show ?thesis
    using occurs_kids_size [OF assms(4) rowless_kind [OF assms(2) t], of "den \<sigma> tab" \<sigma>] den_kind [OF assms(1) t, of \<sigma>] assms(3)
    by (auto simp: below_def)
qed

lemma occurs_total:
  "state_ok tab st \<Longrightarrow> rowless tab \<Longrightarrow> sat \<sigma> tab st \<Longrightarrow> \<forall>t\<in>set todo. below \<sigma> tab var t \<Longrightarrow>
     \<exists>st'. occurs_adjust tab var level todo st = Some (True, st')"
proof (induction "sum_list (map (\<lambda>t. Suc (occ_size \<sigma> tab t)) todo)" arbitrary: todo st rule: less_induct)
  case less
  have vs: "vs_ok tab st" and tok: "tt_ok tab" using less(2) by (auto simp: state_ok_def)
  show ?case
  proof (cases todo)
    case Nil
    then show ?thesis by (subst occurs_adjust.simps) simp
  next
    case (Cons t ts)
    have t: "t < tt_len tab" "below \<sigma> tab var t" and ts: "\<forall>t\<in>set ts. below \<sigma> tab var t" using less(5) Cons by (auto simp: below_def)
    show ?thesis
    proof (cases "var_of (tt_kind tab t)")
      case None
      have "sum_list (map (\<lambda>t. Suc (occ_size \<sigma> tab t)) (occurs_kids (tt_kind tab t))) \<le> sum_list (map (\<lambda>t. Suc (Suc (2 * size (den \<sigma> tab t)))) (occurs_kids (tt_kind tab t)))"
        by (intro sum_list_mono) (simp add: occ_size_def)
      also have "\<dots> < Suc (occ_size \<sigma> tab t)"
        using occurs_kids_size [OF None rowless_kind [OF less(3) t(1)], of "den \<sigma> tab" \<sigma>] den_kind [OF tok t(1), of \<sigma>] None by (simp add: occ_size_def)
      finally have m: "sum_list (map (\<lambda>t. Suc (occ_size \<sigma> tab t)) (occurs_kids (tt_kind tab t) @ ts)) < sum_list (map (\<lambda>t. Suc (occ_size \<sigma> tab t)) todo)"
        by (simp add: Cons)
      have "\<forall>k\<in>set (occurs_kids (tt_kind tab t) @ ts). below \<sigma> tab var k" using kids_below [OF tok less(3) t(2) None] ts by auto
      from less(1) [OF m less(2-4) this] show ?thesis using None by (subst occurs_adjust.simps) (simp add: Cons)
    next
      case (Some w)
      then have w: "tt_kind tab t = TY_Var w" "w < length (vr_vars st)" using vs t by (auto simp: vs_ok_def var_of_Some)
      obtain root where root: "vr_find st w = Some root" "root < length (vr_vars st)" using vr_find_ok [OF vs w(2)] by blast
      have dt: "den \<sigma> tab t = \<sigma> root" using den_var [OF tok t(1) w(1), of \<sigma>] sat_find [OF less(4) vs root(1) w(2)] by simp
      then have nv: "root \<noteq> var" using t(2) Some by (auto simp: below_def)
      show ?thesis
      proof (cases "va_solution (vr_var st root)")
        case None
        define st1 where "st1 = (if level < va_level (vr_var st root) then set_level root level st else st)"
        have s1: "state_ok tab st1" "same_shape st st1"
          using less(2) set_level_to [OF less(2) root(2)] same_shape_level by (auto simp: st1_def leads_to_def)
        have "sum_list (map (\<lambda>t. Suc (occ_size \<sigma> tab t)) ts) < sum_list (map (\<lambda>t. Suc (occ_size \<sigma> tab t)) todo)" by (simp add: Cons)
        from less(1) [OF this s1(1) less(3) _ ts] show ?thesis
          using Some root nv None sat_shape [OF s1(2)] less(4) by (subst occurs_adjust.simps) (simp add: Cons st1_def)
      next
        case (Some s)
        have s: "s < tt_len tab" "var_of (tt_kind tab s) = None" using vs_ok_solution [OF vs root(2) Some] by auto
        have ds: "den \<sigma> tab s = den \<sigma> tab t" using less(4) root(2) Some dt unfolding sat_def by metis
        have m: "sum_list (map (\<lambda>t. Suc (occ_size \<sigma> tab t)) (s # ts)) < sum_list (map (\<lambda>t. Suc (occ_size \<sigma> tab t)) todo)"
          using \<open>var_of (tt_kind tab t) = Some w\<close> s(2) ds by (simp add: Cons occ_size_def)
        have "\<forall>k\<in>set (s # ts). below \<sigma> tab var k" using ts s ds t(2) by (auto simp: below_def)
        from less(1) [OF m less(2-4) this] show ?thesis
          using \<open>var_of (tt_kind tab t) = Some w\<close> root nv Some by (subst occurs_adjust.simps) (simp add: Cons)
      qed
    qed
  qed
qed

section \<open>One step\<close>

text \<open>A step under a solution succeeds, keeps the solution and leaves goals of a smaller size.\<close>

definition good_step :: "(nat \<Rightarrow> sty) \<Rightarrow> type_table \<Rightarrow> var_store \<Rightarrow> nat \<Rightarrow> step option \<Rightarrow> bool" where
  "good_step \<sigma> tab st n r \<longleftrightarrow>
     (\<exists>gs tab' st'. r = Some (Inr gs, tab', st') \<and> sat \<sigma> tab' st' \<and> solves_all \<sigma> tab' gs \<and> rowless tab' \<and> floatless st' \<and> clean tab' \<and>
        sum_list (map (goal_size \<sigma> tab') gs) < n \<and> (\<forall>g\<in>set gs. \<exists>x y. g = G_Types x y))"

lemma meet_total: "a \<noteq> NK_Float \<Longrightarrow> b \<noteq> NK_Float \<Longrightarrow> \<exists>c. nk_meet a b = Some c \<and> c \<noteq> NK_Float"
  by (cases a; cases b) (auto simp: nk_meet_def)

lemma vars_good:
  assumes "state_ok tab st" "rowless tab" "floatless st" "clean tab" "sat \<sigma> tab st"
    and "va < length (vr_vars st)" "vb < length (vr_vars st)" "\<sigma> va = \<sigma> vb" "0 < n"
  shows "good_step \<sigma> tab st n (unify_vars va vb tab st)"
proof -
  have vs: "vs_ok tab st" using assms(1) by (simp add: state_ok_def)
  obtain ra where ra: "vr_find st va = Some ra" "ra < length (vr_vars st)" using vr_find_ok [OF vs assms(6)] by blast
  obtain rb where rb: "vr_find st vb = Some rb" "rb < length (vr_vars st)" using vr_find_ok [OF vs assms(7)] by blast
  obtain m where m: "nk_meet (va_kind (vr_var st ra)) (va_kind (vr_var st rb)) = Some m" "m \<noteq> NK_Float"
    using meet_total assms(3) ra(2) rb(2) unfolding floatless_def by blast
  obtain st' where st': "unify_vars va vb tab st = Some (Inr [], tab, st')" "floatless st'"
  proof (cases "ra = rb")
    case True
    then show thesis using that [of st] assms(3) by (simp add: unify_vars_def ra(1) rb(1))
  next
    case False
    define root child where rc: "root = (if va_level (vr_var st ra) \<le> va_level (vr_var st rb) then ra else rb)"
      "child = (if va_level (vr_var st ra) \<le> va_level (vr_var st rb) then rb else ra)"
    let ?st = "set_parent child root st"
    have "unify_vars va vb tab st = Some (Inr [], tab, if va_kind (vr_var ?st root) \<noteq> m then set_kind root m ?st else ?st)"
      using False m(1) by (auto simp: unify_vars_def ra(1) rb(1) rc Let_def)
    moreover have "floatless ?st" "floatless (set_kind root m ?st)"
      using assms(3) m(2) ra(2) rb(2) by (auto simp: floatless_def set_parent_def set_kind_def nth_upd rc)
    ultimately show thesis using that by (cases "va_kind (vr_var ?st root) \<noteq> m") simp_all
  qed
  then show ?thesis
    using unify_vars_solves(3) [OF st'(1) vs assms(6,7)] assms(2,4,5,8,9) by (auto simp: good_step_def)
qed

lemma bind_good:
  assumes "state_ok tab st" "rowless tab" "floatless st" "clean tab" "sat \<sigma> tab st"
    and "v < length (vr_vars st)" "t < tt_len tab" "var_of (tt_kind tab t) = None"
    and "\<And>root. vr_find st v = Some root \<Longrightarrow> va_solution (vr_var st root) = None" "\<sigma> v = den \<sigma> tab t" "0 < n"
  shows "good_step \<sigma> tab st n (var_bind v t tab st)"
proof -
  have vs: "vs_ok tab st" and tok: "tt_ok tab" using assms(1) by (auto simp: state_ok_def)
  obtain root where root: "vr_find st v = Some root" "root < length (vr_vars st)" using vr_find_ok [OF vs assms(6)] by blast
  have sr: "\<sigma> root = den \<sigma> tab t" using sat_find [OF assms(5) vs root(1) assms(6)] assms(10) by simp
  have "sem_admits (va_kind (vr_var st root)) (\<sigma> root)" using assms(5) root(2) unfolding sat_def by blast
  then have ka: "kind_admits (va_kind (vr_var st root)) (tt_kind tab t)"
    using admits_sem [OF assms(8) rowless_kind [OF assms(2,7)]] den_kind [OF tok assms(7), of \<sigma>] by (simp add: sr)
  obtain i tab1 where i: "tt_intern (TY_Var root) tab = (i, tab1)" by (cases "tt_intern (TY_Var root) tab")
  have t1: "leads_to tab st tab1 st"
    using intern_to(1) [OF assms(1) _ _ i] root(2) by (auto simp: kids_def row_ok_def var_of_Some)
  have e: "ext tab tab1" "state_ok tab1 st" using t1 by (auto simp: leads_to_def)
  have r1: "rowless tab1" using assms(2) i by (auto simp: rowless_def tt_intern_def row_of_def Let_def split: option.splits)
  have "below \<sigma> tab1 root t"
    using den_ext [OF e(1) assms(7)] ext_kind [OF e(1) assms(7)] ext_len [OF e(1)] assms(7,8) sr by (simp add: below_def)
  then obtain st1 where o: "occurs_adjust tab1 root (va_level (vr_var st root)) [t] st = Some (True, st1)"
    using occurs_total [OF e(2) r1, of \<sigma> "[t]" root] sat_ext [OF e(1) vs] assms(5) by auto
  have b: "var_bind v t tab st = Some (Inr [], tab1, set_solution root t st1)"
    using ka by (simp add: var_bind_def root(1) i o)
  have sh: "same_shape st st1" using occurs_step [OF o e(2)] assms(7) ext_len [OF e(1)] by auto
  have "floatless (set_solution root t st1)"
    using assms(3) same_shape_length [OF sh] same_shape_var(2) [OF sh] root(2)
    by (auto simp: floatless_def set_solution_def nth_upd)
  then show ?thesis
    using var_bind_solves [OF b assms(1,6-9,4)] assms(5,10,11) r1 by (auto simp: good_step_def b)
qed

lemma types_good:
  assumes "state_ok tab st" "rowless tab" "floatless st" "clean tab" "sat \<sigma> tab st"
    and "a < tt_len tab" "b < tt_len tab" "den \<sigma> tab a = den \<sigma> tab b"
  shows "good_step \<sigma> tab st (size (den \<sigma> tab a)) (unify_types a b tab st)"
proof -
  have vs: "vs_ok tab st" and tok: "tt_ok tab" using assms(1) by (auto simp: state_ok_def)
  obtain x where x: "shallow tab st a = Some x" "x < tt_len tab"
      "\<And>v. tt_kind tab x = TY_Var v \<Longrightarrow> \<exists>r. vr_find st v = Some r \<and> va_solution (vr_var st r) = None"
    using shallow_ok [OF vs assms(6)] by metis
  obtain y where y: "shallow tab st b = Some y" "y < tt_len tab"
      "\<And>v. tt_kind tab y = TY_Var v \<Longrightarrow> \<exists>r. vr_find st v = Some r \<and> va_solution (vr_var st r) = None"
    using shallow_ok [OF vs assms(7)] by metis
  have dx: "den \<sigma> tab x = den \<sigma> tab a" "den \<sigma> tab y = den \<sigma> tab a"
    using den_shallow [OF assms(1,5,6) x(1)] den_shallow [OF assms(1,5,7) y(1)] assms(8) by auto
  have pos: "0 < size (den \<sigma> tab a)" by (cases "den \<sigma> tab a") simp
  have vl: "v < length (vr_vars st)" if "tt_kind tab i = TY_Var v" "i < tt_len tab" for i v
    using vs that by (auto simp: vs_ok_def var_of_Some)
  have err: "tt_kind tab t \<notin> {TY_Error, TY_Never}" if "t < tt_len tab" for t
    using assms(4) that by (auto simp: clean_def tt_kind_def tt_len_def in_set_conv_nth)
  note same = assms(2-5)
  show ?thesis
  proof (cases "x = y")
    case True
    then show ?thesis using same pos by (simp add: good_step_def unify_types_def x(1) y(1))
  next
    case False
    let ?ka = "tt_kind tab x" and ?kb = "tt_kind tab y"
    have rows: "row_of ?ka = None" "row_of ?kb = None" using rowless_kind [OF assms(2)] x(2) y(2) by auto
    have u: "unify_types a b tab st =
        (case (var_of ?ka, var_of ?kb) of
           (Some va, Some vb) \<Rightarrow> unify_vars va vb tab st
         | (Some v, None) \<Rightarrow> var_bind v y tab st
         | (None, Some v) \<Rightarrow> var_bind v x tab st
         | (None, None) \<Rightarrow> Some (structural ?ka ?kb, tab, st))"
      using False err [OF x(2)] err [OF y(2)] rows by (simp add: unify_types_def x(1) y(1) Let_def split: option.split)
    show ?thesis
    proof (cases "var_of ?ka"; cases "var_of ?kb")
      fix va vb assume v: "var_of ?ka = Some va" "var_of ?kb = Some vb"
      then have k: "?ka = TY_Var va" "?kb = TY_Var vb" by (simp_all add: var_of_Some)
      have "\<sigma> va = \<sigma> vb" using den_var [OF tok x(2) k(1), of \<sigma>] den_var [OF tok y(2) k(2), of \<sigma>] dx by simp
      then show ?thesis using vars_good [OF assms(1) same vl [OF k(1) x(2)] vl [OF k(2) y(2)] _ pos] u v by simp
    next
      fix v assume v: "var_of ?ka = Some v" "var_of ?kb = None"
      then have k: "?ka = TY_Var v" by (simp add: var_of_Some)
      have "\<sigma> v = den \<sigma> tab y" using den_var [OF tok x(2) k, of \<sigma>] dx by simp
      then show ?thesis using bind_good [OF assms(1) same vl [OF k x(2)] y(2) v(2) _ _ pos] x(3) [OF k] u v by fastforce
    next
      fix v assume v: "var_of ?ka = None" "var_of ?kb = Some v"
      then have k: "?kb = TY_Var v" by (simp add: var_of_Some)
      have "\<sigma> v = den \<sigma> tab x" using den_var [OF tok y(2) k, of \<sigma>] dx by simp
      then show ?thesis using bind_good [OF assms(1) same vl [OF k y(2)] x(2) v(1) _ _ pos] y(3) [OF k] u v by fastforce
    next
      assume v: "var_of ?ka = None" "var_of ?kb = None"
      have ne: "?ka \<noteq> ?kb" using tok x(2) y(2) False unfolding tt_ok_def tt_kind_def tt_len_def by (metis option.inject)
      have eq: "sem_kind \<sigma> (den \<sigma> tab) ?ka = sem_kind \<sigma> (den \<sigma> tab) ?kb"
        using den_kind [OF tok x(2), of \<sigma>] den_kind [OF tok y(2), of \<sigma>] dx by simp
      obtain gs where gs: "structural ?ka ?kb = Inr gs"
        using structural_total [OF v rows ne err [OF x(2)] err [OF y(2)] eq] by blast
      show ?thesis
        using u v gs same eq structural_solves [OF gs v] structural_size [OF gs v(1) rows(1), of \<sigma> tab] structural_goals [OF gs] den_kind [OF tok x(2), of \<sigma>] dx
        by (simp add: good_step_def)
    qed
  qed
qed

section \<open>The loop\<close>

lemma unify_loop_total:
  "state_ok tab st \<Longrightarrow> rowless tab \<Longrightarrow> floatless st \<Longrightarrow> clean tab \<Longrightarrow> sat \<sigma> tab st \<Longrightarrow> solves_all \<sigma> tab gs \<Longrightarrow>
     list_all (goal_ok (tt_len tab)) gs \<Longrightarrow> \<forall>g\<in>set gs. \<exists>x y. g = G_Types x y \<Longrightarrow>
     \<exists>tab' st'. unify_loop gs tab st = Some (Inr (), tab', st')"
proof (induction "sum_list (map (goal_size \<sigma> tab) gs)" arbitrary: gs tab st rule: less_induct)
  case less
  show ?case
  proof (cases gs)
    case Nil
    then show ?thesis by (subst unify_loop.simps) simp
  next
    case (Cons g gs')
    obtain a b where g: "g = G_Types a b" using less(9) Cons by auto
    have ab: "a < tt_len tab" "b < tt_len tab" "den \<sigma> tab a = den \<sigma> tab b" "unify_step g tab st = unify_types a b tab st"
      using less(7,8) by (simp_all add: Cons g goal_ok_def unify_step_def)
    obtain new tab1 st1 where s: "unify_types a b tab st = Some (Inr new, tab1, st1)" "sat \<sigma> tab1 st1" "solves_all \<sigma> tab1 new"
        "rowless tab1" "floatless st1" "clean tab1" "sum_list (map (goal_size \<sigma> tab1) new) < size (den \<sigma> tab a)"
        "\<forall>g\<in>set new. \<exists>x y. g = G_Types x y"
      using types_good [OF less(2-6) ab(1-3)] by (auto simp: good_step_def)
    have l: "leads_to tab st tab1 st1" "list_all (goal_ok (tt_len tab1)) new"
      using unify_types_ok [OF s(1) less(2) ab(1,2)] by (auto simp: step_ok_def)
    have e: "ext tab tab1" "tt_len tab \<le> tt_len tab1" "state_ok tab1 st1" using l ext_len by (auto simp: leads_to_def)
    have ok: "list_all (goal_ok (tt_len tab)) gs'" using less(8) Cons by simp
    have sz: "map (goal_size \<sigma> tab1) gs' = map (goal_size \<sigma> tab) gs'"
      using den_ext [OF e(1)] ok by (auto simp: goal_size_def goal_ok_def list_all_iff split: goal.splits)
    have szs: "sum_list (map (goal_size \<sigma> tab1) gs') = sum_list (map (goal_size \<sigma> tab) gs')" by (simp only: sz)
    have "sum_list (map (goal_size \<sigma> tab1) (new @ gs')) < sum_list (map (goal_size \<sigma> tab) gs)"
      using s(7) szs by (simp add: Cons g goal_size_def [of _ _ "G_Types _ _"])
    moreover have "solves_all \<sigma> tab1 (new @ gs')"
      using s(3) less(7) goal_ext(1) [OF e(1)] ok Cons by (auto simp: solves_all_def list_all_iff)
    moreover have "list_all (goal_ok (tt_len tab1)) (new @ gs')" using l(2) ok goal_ok_mono [OF _ e(2)] by (auto simp: list_all_iff)
    moreover have "\<forall>g\<in>set (new @ gs'). \<exists>x y. g = G_Types x y" using s(8) less(9) Cons by auto
    ultimately obtain tab' st' where "unify_loop (new @ gs') tab1 st1 = Some (Inr (), tab', st')"
      using less(1) [OF _ e(3) s(4-6,2)] by blast
    then show ?thesis using s(1) ab(4) by (subst unify_loop.simps) (simp add: Cons)
  qed
qed

text \<open>
C12. Unification is complete and returns: when some choice of finite trees for the variables solves the store and makes
the two types equal, \<open>unify\<close> ends and succeeds. The hypotheses: a well-formed table and store (\<open>state_ok\<close>), the two types
in the table, no row, error or \<open>never\<close> in the table (\<open>rowless\<close>, \<open>clean\<close>), and no \<open>Float\<close> variable in the store
(\<open>floatless\<close>).
\<close>

theorem unify_finds_unifier:
  assumes "state_ok tab st" "rowless tab" "floatless st" "clean tab" "a < tt_len tab" "b < tt_len tab"
    and "sat \<sigma> tab st" "den \<sigma> tab a = den \<sigma> tab b"
  shows "\<exists>tab' st'. unify_tys a b tab st = Some (Inr (), tab', st')"
  unfolding unify_tys_def using unify_loop_total [OF assms(1-4,7)] assms(5,6,8) by (simp add: goal_ok_def)

end
