(* ===== verification/Sema_Unify_Examples.thy ===== *)
theory Sema_Unify_Examples
  imports Sema_Unify_Total
begin

text \<open>Unification on concrete tables: the properties applied, and the types the occurs check does not look into.\<close>

section \<open>Running the loops\<close>

lemma loop_done: "unify_loop [] tab st = Some (Inr (), tab, st)"
  by (subst unify_loop.simps) simp

lemma loop_step:
  "unify_step g tab st = Some (Inr new, tab', st') \<Longrightarrow> unify_loop (g # gs) tab st = unify_loop (new @ gs) tab' st'"
  by (subst unify_loop.simps) simp

lemma shallow_type: "var_of (tt_kind tab t) = None \<Longrightarrow> shallow tab st t = Some t"
  by (subst shallow.simps) simp

lemma shallow_root: "tt_kind tab t = TY_Var v \<Longrightarrow> vr_find st v = Some r \<Longrightarrow> va_solution (vr_var st r) = None \<Longrightarrow> shallow tab st t = Some t"
  by (subst shallow.simps) (simp add: vr_probe_def)

lemma shallow_solved:
  "tt_kind tab t = TY_Var v \<Longrightarrow> vr_find st v = Some r \<Longrightarrow> va_solution (vr_var st r) = Some s \<Longrightarrow> shallow tab st t = shallow tab st s"
  by (subst shallow.simps) (simp add: vr_probe_def)

lemma find_root_root: "p ! v = v \<Longrightarrow> find_root p v = Some v"
  by (subst find_root.simps) simp

lemma occurs_done: "occurs_adjust tab var level [] st = Some (True, st)"
  by (subst occurs_adjust.simps) simp

lemma occurs_type:
  "var_of (tt_kind tab t) = None \<Longrightarrow>
     occurs_adjust tab var level (t # ts) st = occurs_adjust tab var level (occurs_kids (tt_kind tab t) @ ts) st"
  by (subst occurs_adjust.simps) simp

lemmas run_simps =
  unify_step_def unify_types_def unify_vars_def var_bind_def shallow_type shallow_root shallow_solved vr_find_def
  find_root_root occurs_done occurs_type set_solution_def upd_def tt_intern_def tt_kind_def var_of_def row_of_def
  kind_admits_def Let_def

section \<open>A list of a variable\<close>

definition ex_var :: var_state where
  "ex_var = \<lparr>va_parent = 0, va_level = 0, va_kind = NK_Any, va_solution = None, va_origin = \<lparr>sp_file = 0, sp_lo = 0, sp_hi = 0\<rparr>\<rparr>"

definition ex_store :: var_store where
  "ex_store = \<lparr>vr_vars = [ex_var], vr_log = []\<rparr>"

definition ex_types :: type_table where
  "ex_types =
     \<lparr>tt_kinds = [TY_Prim P_Int, TY_Var 0, TY_List 1, TY_List 0],
      tt_map = [(TY_List 0, 3), (TY_List 1, 2), (TY_Var 0, 1), (TY_Prim P_Int, 0)]\<rparr>"

definition ex_sol :: "nat \<Rightarrow> sty" where
  "ex_sol v = Ty (TY_Prim P_Int)"

lemma start_ok: "state_ok TypeTable_new VarStore_new"
  using tt_new_ok by (simp add: state_ok_def vs_ok_def VarStore_new_def tt_len_def TypeTable_new_def [THEN arg_cong [where f = tt_kinds]])

lemma ex_trial: "trial TypeTable_new VarStore_new ex_types ex_store"
proof -
  let ?t1 = "\<lparr>tt_kinds = [TY_Prim P_Int], tt_map = [(TY_Prim P_Int, 0)]\<rparr>"
  let ?t2 = "\<lparr>tt_kinds = [TY_Prim P_Int, TY_Var 0], tt_map = [(TY_Var 0, 1), (TY_Prim P_Int, 0)]\<rparr>"
  let ?t3 = "\<lparr>tt_kinds = [TY_Prim P_Int, TY_Var 0, TY_List 1], tt_map = [(TY_List 1, 2), (TY_Var 0, 1), (TY_Prim P_Int, 0)]\<rparr>"
  have "trial TypeTable_new VarStore_new ?t1 VarStore_new"
    by (rule tr_intern [OF tr_start, where k = "TY_Prim P_Int" and i = 0])
      (simp_all add: TypeTable_new_def kids_def row_ok_def var_of_def tt_intern_def)
  then have "trial TypeTable_new VarStore_new ?t2 ex_store"
    by (rule tr_fresh [where level = 0 and nk = NK_Any and sp = "\<lparr>sp_file = 0, sp_lo = 0, sp_hi = 0\<rparr>" and i = 1])
      (simp add: vr_fresh_def VarStore_new_def tt_intern_def ex_store_def ex_var_def)
  then have "trial TypeTable_new VarStore_new ?t3 ex_store"
    by (rule tr_intern [where k = "TY_List 1" and i = 2]) (simp_all add: kids_def row_ok_def var_of_def tt_intern_def tt_len_def)
  then show ?thesis
    by (rule tr_intern [where k = "TY_List 0" and i = 3]) (simp_all add: kids_def row_ok_def var_of_def tt_intern_def tt_len_def ex_types_def)
qed

lemma ex_ok: "state_ok ex_types ex_store"
  using trial_to [OF ex_trial start_ok] by (simp add: leads_to_def)

lemma ex_clean: "clean ex_types" "rowless ex_types" "floatless ex_store"
  by (simp_all add: clean_def rowless_def floatless_def ex_types_def ex_store_def ex_var_def row_of_def)

lemma ex_den: "den ex_sol ex_types 2 = Ty (TY_List (Ty (TY_Prim P_Int)))" "den ex_sol ex_types 3 = Ty (TY_List (Ty (TY_Prim P_Int)))"
  by (simp_all add: den_def ex_types_def vals_def sem_kind_def var_of_def row_of_def ex_sol_def)

lemma ex_sat: "sat ex_sol ex_types ex_store"
  by (simp add: sat_def ex_store_def ex_var_def ex_sol_def sem_admits_def kind_admits_def)

lemma unify_finds_unifier_witness: "\<exists>tab' st'. unify_tys 2 3 ex_types ex_store = Some (Inr (), tab', st')"
  using unify_finds_unifier [OF ex_ok ex_clean(2,3,1) _ _ ex_sat, of 2 3] ex_den by (simp add: ex_types_def tt_len_def)

definition ex_result :: var_store where
  "ex_result = set_solution 0 0 ex_store"

lemma ex_unify: "unify_tys 2 3 ex_types ex_store = Some (Inr (), ex_types, ex_result)"
proof -
  have "unify_step (G_Types 2 3) ex_types ex_store = Some (Inr [G_Types 1 0], ex_types, ex_store)"
    by (simp add: run_simps ex_types_def)
  moreover have "unify_step (G_Types 1 0) ex_types ex_store = Some (Inr [], ex_types, ex_result)"
    by (simp add: run_simps ex_types_def ex_store_def ex_var_def ex_result_def)
  ultimately show ?thesis by (simp add: unify_tys_def loop_step loop_done)
qed

lemma unify_most_general_witness:
  "sat ex_sol ex_types ex_result \<and> den ex_sol ex_types 2 = den ex_sol ex_types 3"
proof -
  have "row_of (tt_kind ex_types i) \<noteq> Some (ts, tl')" if "i < tt_len ex_types" for i ts tl'
    using rowless_kind [OF ex_clean(2) that] by simp
  then have "clear ex_sol ex_types" unfolding clear_def row_of_Some [symmetric] by blast
  moreover have "proper (ex_sol v)" for v by (simp add: ex_sol_def proper_def row_of_def)
  ultimately have fit: "fitting ex_sol ex_types" by (simp add: fitting_def)
  have len: "2 < tt_len ex_types" "3 < tt_len ex_types" by (simp_all add: ex_types_def tt_len_def)
  show ?thesis
    using unify_most_general [OF ex_unify ex_ok len ex_clean(1)] ex_sat fit ex_den by metis
qed

lemma trial_rolled_back_witness: "vr_rollback (vr_snapshot ex_store) ex_result = ex_store \<and> ext ex_types ex_types"
proof -
  have "trial ex_types ex_store ex_types ex_result"
    by (rule tr_unify [OF tr_start _ _ ex_unify]) (simp_all add: ex_types_def tt_len_def)
  then show ?thesis using ex_ok by (rule trial_rolled_back)
qed

section \<open>Types the occurs check does not look into\<close>

text \<open>
  \<open>occurs_adjust\<close> stops at nominal types and processes, whose arguments came after it was written: a variable is
  bound to a nominal type of itself, which no tree solves, and unifying two of these does not return.
\<close>

definition hole_table :: type_table where
  "hole_table =
     \<lparr>tt_kinds = [TY_Var 0, TY_Nominal 0 ''Box'' [0], TY_Var 1, TY_Nominal 0 ''Box'' [2]],
      tt_map = [(TY_Nominal 0 ''Box'' [2], 3), (TY_Var 1, 2), (TY_Nominal 0 ''Box'' [0], 1), (TY_Var 0, 0)]\<rparr>"

definition hole_store :: var_store where
  "hole_store = \<lparr>vr_vars = [ex_var, ex_var\<lparr>va_parent := 1\<rparr>], vr_log = []\<rparr>"

definition hole_bound :: var_store where
  "hole_bound = set_solution 1 3 (set_solution 0 1 hole_store)"

lemma hole_binds:
  "unify_tys 0 1 hole_table hole_store = Some (Inr (), hole_table, set_solution 0 1 hole_store)"
  "unify_tys 2 3 hole_table (set_solution 0 1 hole_store) = Some (Inr (), hole_table, hole_bound)"
proof -
  have "unify_step (G_Types 0 1) hole_table hole_store = Some (Inr [], hole_table, set_solution 0 1 hole_store)"
    by (simp add: run_simps hole_table_def hole_store_def ex_var_def)
  then show "unify_tys 0 1 hole_table hole_store = Some (Inr (), hole_table, set_solution 0 1 hole_store)"
    by (simp add: unify_tys_def loop_step loop_done)
  have "unify_step (G_Types 2 3) hole_table (set_solution 0 1 hole_store) = Some (Inr [], hole_table, hole_bound)"
    by (simp add: run_simps hole_table_def hole_store_def hole_bound_def ex_var_def)
  then show "unify_tys 2 3 hole_table (set_solution 0 1 hole_store) = Some (Inr (), hole_table, hole_bound)"
    by (simp add: unify_tys_def loop_step loop_done)
qed

lemma hole_unsolvable: "\<not> sat \<sigma> hole_table (set_solution 0 1 hole_store)"
proof
  assume "sat \<sigma> hole_table (set_solution 0 1 hole_store)"
  moreover have "va_solution (vr_var (set_solution 0 1 hole_store) 0) = Some 1" "0 < length (vr_vars (set_solution 0 1 hole_store))"
    by (simp_all add: hole_store_def set_solution_def upd_def)
  ultimately have "\<sigma> 0 = den \<sigma> hole_table 1" unfolding sat_def by blast
  then have "\<sigma> 0 = Ty (TY_Nominal 0 ''Box'' [\<sigma> 0])"
    by (simp add: den_def hole_table_def vals_def sem_kind_def var_of_def row_of_def)
  then have "size (\<sigma> 0) = size (Ty (TY_Nominal 0 ''Box'' [\<sigma> 0]))" by (rule arg_cong)
  then show False by simp
qed

lemma hole_step: "unify_step (G_Types 0 2) hole_table hole_bound = Some (Inr [G_Types 0 2], hole_table, hole_bound)"
  by (simp add: run_simps hole_table_def hole_store_def hole_bound_def ex_var_def)

lemma hole_loops: "unify_loop gs tab st = Some r \<Longrightarrow> gs = [G_Types 0 2] \<Longrightarrow> tab = hole_table \<Longrightarrow> st = hole_bound \<Longrightarrow> False"
proof (induction rule: unify_loop.raw_induct [rotated 1, consumes 1, case_names step])
  case (step rec gs tab st r)
  then have "rec [G_Types 0 2] hole_table hole_bound = Some r" using hole_step by simp
  from step(1) [OF this refl refl refl] show ?case .
qed

lemma occurs_hole_diverges:
  "unify_tys 0 1 hole_table hole_store = Some (Inr (), hole_table, set_solution 0 1 hole_store) \<and>
   unify_tys 2 3 hole_table (set_solution 0 1 hole_store) = Some (Inr (), hole_table, hole_bound) \<and>
   unify_tys 0 2 hole_table hole_bound = None"
  using hole_binds hole_loops by (cases "unify_tys 0 2 hole_table hole_bound") (auto simp: unify_tys_def)

end
