(* ===== verification/Spec2Isabelle.thy ===== *)
theory Spec2Isabelle
  imports Lex_Examples Wolf_Diag Pkg_Version Pkg_Mvs Pkg_Publish Rt_Handles Rt_Deque Fmt_Theorems Sema_Match_Theorems Mem_Theorems Mem_Excl Mem_Shared Mem_Loans_Theorems Mem_Region_Theorems
    Sema_Norm_Theorems Sema_Unify_Examples
begin

text \<open>
  A verification development of the Wolf compiler and its runtime (\<^verbatim>\<open>crates/*\<close>, written in Rust).

  \<^bold>\<open>The program.\<close> \<^verbatim>\<open>wolf\<close> compiles a language through a pipeline of crates. Source files are interned in a
  source map and addressed by byte spans (\<^verbatim>\<open>wolf_span\<close>); every phase reports diagnostics into one sink
  (\<^verbatim>\<open>wolf_diag\<close>); the lexer (\<^verbatim>\<open>wolf_lex\<close>) turns bytes into tokens with trivia; the parser, the type checker,
  the ownership checker, the intermediate representation and two code generators follow. Beside the pipeline
  stand the formatter (\<^verbatim>\<open>wolf_fmt\<close>), the package manager (\<^verbatim>\<open>wolf_pkg\<close>) and the runtime library linked into
  compiled programs (\<^verbatim>\<open>wolf_rt\<close>). The development models the parts that carry logic of their own over plain
  data: the foundations of the pipeline, the decisions of the type checker that need no syntax tree (unification,
  match checking, sizes in types), the passes of the ownership checker over its graph, the package log, the
  runtime's concurrent and pooled structures, and the formatter's layout engine.

  \<^bold>\<open>Theories.\<close> \<open>Wolf_Prelude\<close> holds what the components share: bytes as characters, slices, \<open>as u32\<close>,
  decimal text, binary search and the locale \<open>guarded_loop\<close> of terminating loops, interpreted on the lexer's
  run loop and on the renderer. \<open>Wolf_Str\<close> models the \<open>str\<close> methods the package manager uses.
  \<^item> \<open>Wolf_Span\<close>, \<open>Wolf_Diag\<close>: spans, the source map and the line index; diagnostics, their order, the sink with
    marks, rollback and suppression.
  \<^item> \<open>Lex_Token\<close>, \<open>Lex_Utf8\<close>, \<open>Lex_State\<close>, \<open>Lex_Scan\<close>, \<open>Lex_Strings\<close>, \<open>Lexer\<close>: \<^verbatim>\<open>wolf_lex\<close> function by function, from
    the token datatypes to \<open>lex\<close>. \<open>Lex_Spec\<close> states an action system (append trivia, emit a token, report,
    push and pop a frame) with its invariants; \<open>Lex_Refine_Trivia\<close>, \<open>Lex_Refine_Token\<close> and
    \<open>Lex_Refine_Strings\<close> show that every branch of the lexer is a sequence of those actions; \<open>Lex_Theorems\<close>
    draws the properties and \<open>Lex_Examples\<close> runs the lexer in the kernel.
  \<^item> \<open>Pkg_Version\<close>, \<open>Pkg_Mvs\<close>: package versions, and minimal version selection over a universe of manifests.
  \<^item> \<open>Pkg_Log\<close> (records, log file, tree, proofs), \<open>Pkg_Head\<close> (signed heads, the check of a project),
    \<open>Pkg_Merkle\<close> (trees as functions of lists, completeness and soundness of proofs), \<open>Pkg_Log_Theorems\<close>,
    \<open>Pkg_Publish\<close> (the file as it grows, the mirror as it is checked): \<^verbatim>\<open>wolf_pkg/src/log.rs\<close>.
  \<^item> \<open>Rt_Table\<close>, \<open>Rt_Probe\<close>, \<open>Rt_Handles\<close>: \<^verbatim>\<open>wolf_rt/src/handles.rs\<close>; the locale \<open>key_table\<close> is what \<open>Handles\<close> needs
    of its table, interpreted on the probing table, and the promises about handles are proved inside it.
  \<^item> \<open>Rt_Deque\<close>: \<^verbatim>\<open>wolf_rt/src/task/deque.rs\<close> as an interleaving of atomic steps.
  \<^item> \<open>Fmt_Doc\<close>, \<open>Fmt_Render\<close>, \<open>Fmt_Theorems\<close>: \<^verbatim>\<open>wolf_fmt/src/doc.rs\<close>.
  \<^item> \<open>Sema_Exhaust\<close>: \<^verbatim>\<open>wolf_sema/src/exhaust.rs\<close> and the loop over the arms in \<^verbatim>\<open>check.rs\<close>. \<open>Sema_Match\<close> gives columns
    their values and patterns their meaning, \<open>Sema_Useful\<close> and \<open>Sema_Witness\<close> relate the engine to it, and
    \<open>Sema_Match_Theorems\<close> draws what the verdicts say about running the match.
  \<^item> \<open>Sema_Types\<close>: the interned types of \<^verbatim>\<open>wolf_sema/src/types.rs\<close>. \<open>Sema_Norm\<close>, \<open>Sema_Norm_Theorems\<close>:
    \<^verbatim>\<open>ctfe/norm.rs\<close>, and a grammar with values for the expressions it compares.
  \<^item> \<open>Sema_Unify\<close>: \<^verbatim>\<open>wolf_sema/src/unify.rs\<close>, the recursion as a loop over goals. \<open>Sema_Unify_Inv\<close>,
    \<open>Sema_Unify_Step\<close> and \<open>Sema_Unify_Run\<close> keep tables and stores well-formed and the undo log reversible;
    \<open>Sema_Solutions\<close> gives types their meaning as trees; \<open>Sema_Unify_Sound\<close>, \<open>Sema_Unify_Mgu\<close>,
    \<open>Sema_Unify_Rows\<close>, \<open>Sema_Unify_Clear\<close> and \<open>Sema_Unify_Rows_Step\<close> say what a step does to the solutions of a
    store; \<open>Sema_Unify_Theorems\<close>, \<open>Sema_Unify_Total\<close> and \<open>Sema_Unify_Examples\<close> draw the properties. \<open>Wolf_Roots\<close>
    is the union-find forest this shares with the regions.
  \<^item> \<^verbatim>\<open>wolf_mem\<close>: \<open>Mem_Place\<close> (places and how two may share storage, \<^verbatim>\<open>place.rs\<close>), \<open>Mem_Cfg\<close> (the check graph,
    \<^verbatim>\<open>cfg.rs\<close>), \<open>Mem_Flow\<close> (the work list both forward passes run, as the locale \<open>dataflow\<close>, interpreted on the
    moves and on the loans), \<open>Mem_Moves\<close>, \<open>Mem_Paths\<close>, \<open>Mem_Fix\<close>, \<open>Mem_Sound\<close>, \<open>Mem_Theorems\<close> (\<^verbatim>\<open>moves.rs\<close>),
    \<open>Mem_Loans\<close>, \<open>Mem_Loans_Sound\<close>, \<open>Mem_Loans_Theorems\<close> (\<^verbatim>\<open>loans.rs\<close>), \<open>Mem_Excl\<close> (\<^verbatim>\<open>excl.rs\<close>), \<open>Mem_Regions\<close>,
    \<open>Mem_Region_Theorems\<close> (\<^verbatim>\<open>regions.rs\<close>) and \<open>Mem_Shared\<close> (\<^verbatim>\<open>shared.rs\<close> over the signatures of \<^verbatim>\<open>sig.rs\<close>).

  \<^bold>\<open>State and errors.\<close> A struct is a record and an enum a datatype with the source's constructors; a method with
  \<open>&mut self\<close> returns the new record. \<open>Result\<close> is a sum with the error on the left, where the message of the
  code is kept as a key with the values it formats, and a panic is one of the errors. Bytes are characters,
  counters that the code keeps in \<open>u32\<close> or \<open>u64\<close> are numbers with the bound stated where it is needed, and
  \<open>as u32\<close>, \<open>as u64\<close> and \<open>wrapping_sub\<close> are written out; an \<open>i128\<close> is an integer whose range is checked where
  the code adds or multiplies, and an addition that overflows unchecked is a panic. Loops that might not end (the lexer's run loop, version
  selection, the probe loops) are partial functions whose \<open>None\<close> is divergence; that they return is part of
  the properties. Fuel is only what the code has itself: the step budget of match checking and the depth to which
  the shared check looks into a type.

  \<^bold>\<open>What the lemmas show.\<close>
  \<^item> The lexer is total and lossless, brackets its strings, agrees with the bytes about every token and piece of
    trivia, inserts terminators only after a token that ends a statement and reports every error token.
  \<^item> The sink and the source map keep their promises (order, first error, rollback, interning, line and column).
  \<^item> Version selection ends and takes the greatest minimum; unrequired versions never matter.
  \<^item> A proof the log makes is accepted, and an accepted proof pins the record or the prefix unless the hash
    collides on one of the strings actually hashed, which the statements list (\<open>mroot_inputs\<close>, \<open>roll_inputs\<close>,
    \<open>walk_inputs\<close>); appending to a file that ends in a newline keeps lookups and signed history; a mirror that is believed about one package
    is the signed log line for line. \<open>hidden_record_accepted\<close> shows what the check does not catch.
  \<^item> The handle table refines a map and a counter over any run of calls, numbers are never reused, a closed
    handle stays closed and storage is bounded by the open handles. The bounds assume fewer than \<open>2 ^ 60\<close> calls,
    far below what fills the address space.
  \<^item> Every answer of the deque takes effect at once on a list, for one owner and any number of thieves, with one
    relaxation that the abstract step states: a thief may find the deque empty while a pop under way has already
    lowered the bottom past its only item. Items are taken exactly once.
  \<^item> The renderer terminates, keeps the visible bytes (with their order when no comment is stashed), ends its
    output properly, and lays a group that fits on one line.

  \<^item> A body the moves pass accepts uses no moved or unset value on any path and leaves its \<open>mut\<close> parameters
    whole; \<open>element_store_revives_list\<close> shows what storing an element hides. A body the loans pass accepts never
    touches a place against a loan still needed, a call the exclusivity check accepts has no two claims on one
    storage, region unification keeps exactly the classes it should, and the cycle check of shared types is exact
    for the edges it sees (\<open>generic_cycle_missed\<close>).
  \<^item> Unification that succeeds leaves a most general unifier, rows included, finds one whenever there is one on
    tables without rows, and a trial is rolled back exactly. The solutions kept are those with rows in canonical
    form (\<open>fitting\<close>). \<open>occurs_hole_diverges\<close> shows the types the occurs check misses. Two sizes that compare
    equal have one value, except for shifts to the left (\<open>shl_overflow_equal\<close>).
  \<^item> A match found exhaustive takes an arm for every value, an arm found dead is never taken, and a witness is
    the shape of a value no arm takes, for arms that fit the column. An integer column does not know its width, in the code as here, so
    a witness may be an integer its type does not have. The pass returns for arms whose integers lie below the
    largest \<open>i128\<close>; \<open>witness_overflows\<close> shows that it overflows on a range that ends there, and
    \<open>live_arm_reported_dead\<close> what happens to arms that do not fit. The step budget is kept: past it the engine
    claims nothing.

  \<^bold>\<open>Parameters.\<close> Whether a float equals a literal (\<open>lit\<close>) is a parameter of matching. The Unicode
  identifier tables (\<open>xid\<close>), blake3 (\<open>blake3\<close>, of which only the digest length is
  assumed) and the universe of manifests are arguments of the definitions that use them.

  \<^bold>\<open>Not modelled.\<close> The parser, the checking of expressions and items in \<^verbatim>\<open>wolf_sema\<close>, the lowering and the
  undefined-behaviour checker of \<^verbatim>\<open>wolf_mem\<close>, \<^verbatim>\<open>wolf_wir\<close> and the code generators: they work on the syntax
  tree, of which there is no model, and the generators drive Cranelift and LLVM. The rendering of types. The
  formatter's lowering from that tree. The rest of the runtime, which is system calls, context switches and the C
  ABI. In the spans, the assertion of \<open>Span::new\<close> that start is at most end. In the tree, the
  doubling of a \<open>usize\<close> for sizes above \<open>2 ^ 63\<close>. The bound of \<open>u32\<close> on the number of types and variables, past which the code panics. In the
  package manager, manifests, stores and git access. In the log, the path arithmetic of \<open>head_path\<close> and the
  write of the file, whose text is what \<open>log_append\<close> returns. In the deque, the wrap of an \<open>isize\<close> counter.
  In the handle table, debug assertions. Weak memory: every access of the deque is \<open>SeqCst\<close>.
\<close>

end
